(* ===== verification/Prelude.thy ===== *)
theory Prelude
  imports Main "HOL-Library.Word" "HOL-Library.Multiset" "HOL-Library.AList"
begin

text \<open>
  Shared vocabulary of the development: the theorem collections the component theories
  feed, the machine-integer and time types, and the generic lemmas on lists and options
  that more than one component uses.

  Instants (Go's time.Time) are integers that count nanoseconds from the zero value of
  time.Time (0001-01-01 00:00:00 UTC), so IsZero is \<open>t = 0\<close> and Truncate(d), which Go
  computes from that same origin, is \<open>t - t mod d\<close>. Durations (Go's time.Duration) are
  integers in nanoseconds.
\<close>

named_theorems go_defs "definitions of the modelled operations, to unfold in component proofs"
named_theorems go_inv "preservation of component invariants"

section \<open>Time\<close>

type_synonym duration = int
type_synonym instant = int

abbreviation (input) zero_time :: instant where
  "zero_time \<equiv> 0"

abbreviation (input) nanosecond :: duration where
  "nanosecond \<equiv> 1"

abbreviation (input) microsecond :: duration where
  "microsecond \<equiv> 1000"

abbreviation (input) millisecond :: duration where
  "millisecond \<equiv> 1000000"

abbreviation (input) second :: duration where
  "second \<equiv> 1000000000"

abbreviation (input) minute :: duration where
  "minute \<equiv> 60000000000"

abbreviation (input) hour :: duration where
  "hour \<equiv> 3600000000000"

definition truncate_to :: "duration \<Rightarrow> int \<Rightarrow> int" where
  "truncate_to d t = (if d \<le> 0 then t else t - t mod d)"

lemma truncate_to_div: "0 < d \<Longrightarrow> truncate_to d t = t div d * d"
  by (simp add: truncate_to_def minus_mod_eq_div_mult)

lemma truncate_to_le: "truncate_to d t \<le> t"
  by (simp add: truncate_to_def)

lemma truncate_to_gt: "0 < d \<Longrightarrow> t - d < truncate_to d t"
  by (simp add: truncate_to_def)

lemma truncate_to_dvd: "0 < d \<Longrightarrow> d dvd truncate_to d t"
  by (simp add: truncate_to_def minus_mod_eq_mult_div)

lemma truncate_to_greatest:
  assumes "0 < d" and "d dvd u" and "u \<le> t"
  shows "u \<le> truncate_to d t"
proof -
  obtain k where k: "u = d * k" using assms(2) by (auto simp: dvd_def)
  have "d * k \<le> t" using assms(3) k by simp
  then have "k \<le> t div d"
    using assms(1) by (metis zdiv_mono1 nonzero_mult_div_cancel_left less_irrefl)
  then have "d * k \<le> d * (t div d)" using assms(1) by (simp add: mult_left_mono)
  with k assms(1) show ?thesis by (simp add: truncate_to_def minus_mod_eq_mult_div)
qed

section \<open>Machine integers\<close>

text \<open>Go's int and int64 are 64 bits wide on every platform the program is built for.\<close>

definition max_int64 :: int where
  "max_int64 = 2 ^ 63 - 1"

definition in_int64 :: "int \<Rightarrow> bool" where
  "in_int64 v \<longleftrightarrow> - (2 ^ 63) \<le> v \<and> v < 2 ^ 63"

text \<open>Go's integer division truncates towards zero.\<close>

definition go_div :: "int \<Rightarrow> int \<Rightarrow> int" where
  "go_div a b = sgn a * sgn b * (\<bar>a\<bar> div \<bar>b\<bar>)"

lemma go_div_pos: "0 \<le> a \<Longrightarrow> 0 < b \<Longrightarrow> go_div a b = a div b"
  by (cases "a = 0") (auto simp: go_div_def)

section \<open>Lists and options\<close>

text \<open>Association lists stand for Go maps; their look-up is that of the updated map.\<close>

lemma map_of_delete [simp]: "map_of (AList.delete k c) = (map_of c)(k := None)"
  by (simp add: AList.delete_conv')

lemma map_of_update [simp]: "map_of (AList.update k v c) = (map_of c)(k \<mapsto> v)"
  by (simp add: AList.update_conv')

lemma concat_snoc [simp]: "concat (xss @ [xs]) = concat xss @ xs"
  by simp

lemma sum_list_nonneg_int: "(\<And>x. x \<in> set xs \<Longrightarrow> 0 \<le> f x) \<Longrightarrow> (0::int) \<le> sum_list (map f xs)"
  by (induction xs) auto

lemma list_all_snoc [simp]: "list_all P (xs @ [x]) \<longleftrightarrow> list_all P xs \<and> P x"
  by simp

end
