(* ===== verification/Flow.thy ===== *)
theory Flow
  imports Prelude
begin

text \<open>
  The data that flows from collectors and receivers to senders (pkg/flow/chunk.go): rows,
  and the closed set of homogeneous chunks. The values inside a row, and the HTTP request
  and response objects that a chunk points to, are type parameters, because this package
  never looks inside them; a pointer may be nil, hence the options.
\<close>

type_synonym bytes = string

record 'v row =
  row_cols :: "string list"
  row_vals :: "'v list"

datatype ('v, 'q, 'p) chunk =
    Blobs "bytes list"
  | HTTPRequests "'q option list"
  | HTTPResponses "'p option list"
  | JSON "bytes list"
  | Rows "'v row list"
  | FakeData

text \<open>Len of every chunk type; a placeholder of type FakeDataType counts as one item.\<close>

fun chunk_len :: "('v, 'q, 'p) chunk \<Rightarrow> nat" where
  "chunk_len (Blobs xs) = length xs"
| "chunk_len (HTTPRequests xs) = length xs"
| "chunk_len (HTTPResponses xs) = length xs"
| "chunk_len (JSON xs) = length xs"
| "chunk_len (Rows xs) = length xs"
| "chunk_len FakeData = 1"

text \<open>
  IsEmpty tests the interface value against nil before it calls Len, so \<open>None\<close> is the nil
  interface and \<open>Some (Blobs [])\<close> a nil or empty slice with a dynamic type.
\<close>

definition is_empty_chunk :: "('v, 'q, 'p) chunk option \<Rightarrow> bool" where
  "is_empty_chunk c = (case c of None \<Rightarrow> True | Some d \<Rightarrow> chunk_len d = 0)"

end
