(* ===== verification/Batcher.thy ===== *)
theory Batcher
  imports Flow
begin

text \<open>
  The batcher (pkg/flow/batcher.go): it accumulates items and hands them to a dispatch
  function in batches that are bounded by item count, byte size and time.

  Every exported operation is a function from the batcher to the batcher after the
  operation and the list of batches it passed to the dispatch function, in order. The code
  runs each state change inside one critical section of its mutex and dispatches after
  releasing it; the last section interleaves these critical sections freely.
\<close>

section \<open>State\<close>

record limits =
  max_items :: int
  max_bytes :: int
  batch_window :: duration

record 'a batcher =
  lim :: limits
  size_of :: "('a \<Rightarrow> int) option"
  has_guard :: bool
  buf :: "'a list"
  nbytes :: int
  timer :: "64 word option"
  gen :: "64 word"

record 'a batch_options =
  opt_size_of :: "('a \<Rightarrow> int) option"
  opt_guard :: bool

datatype batcher_error = DispatchRequired | SizeOfRequired

text \<open>
  The timer field holds the generation that the callback of the running timer captured.
  The dispatch function is not stored: what it would receive is the operations' output, so
  only whether it is nil matters here.
\<close>

definition new_batcher ::
  "limits \<Rightarrow> bool \<Rightarrow> 'a batch_options option \<Rightarrow> batcher_error + 'a batcher" where
  "new_batcher l dispatch_set opts =
     (let o' = (case opts of None \<Rightarrow> \<lparr>opt_size_of = None, opt_guard = False\<rparr> | Some o2 \<Rightarrow> o2)
      in if \<not> dispatch_set then Inl DispatchRequired
         else if max_bytes l > 0 \<and> opt_size_of o' = None then Inl SizeOfRequired
         else Inr \<lparr>lim = l, size_of = opt_size_of o', has_guard = opt_guard o',
                   buf = [], nbytes = 0, timer = None, gen = 0\<rparr>)"

section \<open>Operations\<close>

definition passthrough :: "'a batcher \<Rightarrow> bool" where
  "passthrough b \<longleftrightarrow> max_items (lim b) \<le> 0 \<and> max_bytes (lim b) \<le> 0"

text \<open>
  The size function is only called when the byte limit is positive, and NewBatcher rejects
  that combination when the function is nil.
\<close>

definition item_size :: "'a batcher \<Rightarrow> 'a \<Rightarrow> int" where
  "item_size b x = (case size_of b of None \<Rightarrow> 0 | Some f \<Rightarrow> f x)"

definition next_batch :: "'a batcher \<Rightarrow> 'a batcher \<times> 'a list" where
  "next_batch b = (b\<lparr>buf := [], nbytes := 0, timer := None, gen := gen b + 1\<rparr>, buf b)"

definition append_to_batch ::
  "'a \<Rightarrow> 'a batcher \<times> 'a list list \<Rightarrow> 'a batcher \<times> 'a list list" where
  "append_to_batch x br =
     (let (b, ready) = br;
          size = (if max_bytes (lim b) > 0 then item_size b x else 0);
          (b1, ready1) =
            (if max_bytes (lim b) > 0 \<and> buf b \<noteq> [] \<and> nbytes b + size > max_bytes (lim b)
             then (let (b', batch) = next_batch b in (b', ready @ [batch])) else (b, ready));
          b2 = b1\<lparr>buf := buf b1 @ [x], nbytes := nbytes b1 + size\<rparr>
      in if (max_items (lim b) > 0 \<and> int (length (buf b2)) \<ge> max_items (lim b))
            \<or> (max_bytes (lim b) > 0 \<and> nbytes b2 \<ge> max_bytes (lim b))
         then (let (b', batch) = next_batch b2 in (b', ready1 @ [batch])) else (b2, ready1))"

definition start_timer :: "'a batcher \<Rightarrow> 'a batcher" where
  "start_timer b =
     (if batch_window (lim b) \<le> 0 \<or> buf b = [] \<or> timer b \<noteq> None then b
      else b\<lparr>timer := Some (gen b)\<rparr>)"

definition add_item :: "'a batcher \<Rightarrow> 'a \<Rightarrow> 'a batcher \<times> 'a list list" where
  "add_item b x =
     (if passthrough b then (b, [[x]])
      else let (b', ready) = append_to_batch x (b, []) in (start_timer b', ready))"

definition add_chunk :: "'a batcher \<Rightarrow> 'a list \<Rightarrow> 'a batcher \<times> 'a list list" where
  "add_chunk b xs =
     (if xs = [] then (b, [])
      else if passthrough b then (b, [xs])
      else let (b', ready) = fold append_to_batch xs (b, []) in (start_timer b', ready))"

definition flush :: "'a batcher \<Rightarrow> 'a batcher \<times> 'a list list" where
  "flush b = (let (b', batch) = next_batch b in (b', if batch \<noteq> [] then [batch] else []))"

definition guarded_timed_flush :: "64 word \<Rightarrow> 'a batcher \<Rightarrow> 'a batcher \<times> 'a list list" where
  "guarded_timed_flush g b =
     (let (b', batch) = (if g = gen b then next_batch b else (b, []))
      in (b', if batch \<noteq> [] then [batch] else []))"

text \<open>
  A guard calls its flush argument once, or not at all; \<open>allow\<close> is what it does this time.
\<close>

definition timed_flush :: "64 word \<Rightarrow> bool \<Rightarrow> 'a batcher \<Rightarrow> 'a batcher \<times> 'a list list" where
  "timed_flush g allow b =
     (if has_guard b \<and> \<not> allow then (b, []) else guarded_timed_flush g b)"

lemmas batcher_defs [go_defs] = passthrough_def item_size_def next_batch_def append_to_batch_def
  start_timer_def add_item_def add_chunk_def flush_def guarded_timed_flush_def timed_flush_def

section \<open>Runs of operations\<close>

datatype 'a batcher_op = OpItem 'a | OpChunk "'a list" | OpFlush | OpTimer "64 word" bool

fun batcher_step :: "'a batcher \<Rightarrow> 'a batcher_op \<Rightarrow> 'a batcher \<times> 'a list list" where
  "batcher_step b (OpItem x) = add_item b x"
| "batcher_step b (OpChunk xs) = add_chunk b xs"
| "batcher_step b OpFlush = flush b"
| "batcher_step b (OpTimer g allow) = timed_flush g allow b"

fun batcher_run :: "'a batcher \<Rightarrow> 'a batcher_op list \<Rightarrow> 'a batcher \<times> 'a list list" where
  "batcher_run b [] = (b, [])"
| "batcher_run b (e # es) =
     (let (b1, out1) = batcher_step b e; (b2, out2) = batcher_run b1 es in (b2, out1 @ out2))"

fun op_items :: "'a batcher_op \<Rightarrow> 'a list" where
  "op_items (OpItem x) = [x]"
| "op_items (OpChunk xs) = xs"
| "op_items OpFlush = []"
| "op_items (OpTimer g allow) = []"

section \<open>Invariants\<close>

definition batch_bytes :: "'a batcher \<Rightarrow> 'a list \<Rightarrow> int" where
  "batch_bytes b xs = sum_list (map (item_size b) xs)"

text \<open>The pending batch is below every limit that is enabled.\<close>

definition pending_ok :: "'a batcher \<Rightarrow> bool" where
  "pending_ok b \<longleftrightarrow>
     (max_items (lim b) > 0 \<longrightarrow> int (length (buf b)) < max_items (lim b))
     \<and> (max_bytes (lim b) > 0 \<longrightarrow> nbytes b = batch_bytes b (buf b) \<and> nbytes b < max_bytes (lim b))
     \<and> (passthrough b \<longrightarrow> buf b = [])"

text \<open>A pending batch has a timer of its own generation, if there is a window at all.\<close>

definition timer_ok :: "'a batcher \<Rightarrow> bool" where
  "timer_ok b \<longleftrightarrow>
     (case timer b of None \<Rightarrow> batch_window (lim b) \<le> 0 \<or> buf b = []
      | Some g \<Rightarrow> g = gen b \<and> buf b \<noteq> [])"

definition batcher_ok :: "'a batcher \<Rightarrow> bool" where
  "batcher_ok b \<longleftrightarrow> pending_ok b \<and> timer_ok b"

text \<open>What a dispatched batch may be: within the limits, or a single item.\<close>

definition batch_ok :: "'a batcher \<Rightarrow> 'a list \<Rightarrow> bool" where
  "batch_ok b xs \<longleftrightarrow>
     xs \<noteq> []
     \<and> (max_items (lim b) > 0 \<longrightarrow> int (length xs) \<le> max_items (lim b))
     \<and> (max_bytes (lim b) > 0 \<longrightarrow> batch_bytes b xs \<le> max_bytes (lim b) \<or> length xs = 1)"

text \<open>The parts of a batcher that no operation changes.\<close>

definition same_config :: "'a batcher \<Rightarrow> 'a batcher \<Rightarrow> bool" where
  "same_config b b' \<longleftrightarrow> lim b' = lim b \<and> size_of b' = size_of b \<and> has_guard b' = has_guard b"

lemma same_config_refl [simp]: "same_config b b"
  by (simp add: same_config_def)

lemma same_config_trans: "same_config a b \<Longrightarrow> same_config b c \<Longrightarrow> same_config a c"
  by (simp add: same_config_def)

lemma batch_ok_cong: "same_config b b' \<Longrightarrow> batch_ok b' = batch_ok b"
  by (simp add: batch_ok_def same_config_def batch_bytes_def item_size_def fun_eq_iff cong: map_cong)

text \<open>The timer of the pending batch, while items are being appended.\<close>

definition timer_pre :: "'a batcher \<Rightarrow> bool" where
  "timer_pre b \<longleftrightarrow> (\<forall>g. timer b = Some g \<longrightarrow> g = gen b \<and> buf b \<noteq> [])"

lemma item_size_update [simp]:
  "item_size (b\<lparr>buf := x\<rparr>) = item_size b" "item_size (b\<lparr>nbytes := n\<rparr>) = item_size b"
  "item_size (b\<lparr>timer := t\<rparr>) = item_size b" "item_size (b\<lparr>gen := g\<rparr>) = item_size b"
  by (simp_all add: item_size_def fun_eq_iff)

lemma passthrough_update [simp]:
  "passthrough (b\<lparr>buf := x\<rparr>) = passthrough b" "passthrough (b\<lparr>nbytes := n\<rparr>) = passthrough b"
  "passthrough (b\<lparr>timer := t\<rparr>) = passthrough b" "passthrough (b\<lparr>gen := g\<rparr>) = passthrough b"
  by (simp_all add: passthrough_def)

lemma append_to_batch_step:
  assumes "append_to_batch x (b, ready) = (b', ready')"
    and "pending_ok b" and "\<not> passthrough b"
  shows "concat ready' @ buf b' = concat ready @ buf b @ [x]"
    and "pending_ok b'" and "same_config b b'"
    and "list_all (batch_ok b) ready \<Longrightarrow> list_all (batch_ok b) ready'"
    and "timer_pre b \<Longrightarrow> timer_pre b'"
  using assms
  by (auto simp: append_to_batch_def next_batch_def pending_ok_def same_config_def batch_ok_def
      batch_bytes_def timer_pre_def Let_def split: if_splits)

lemma append_to_batch_fold:
  assumes "fold append_to_batch xs (b, ready) = (b', ready')"
    and "pending_ok b" and "\<not> passthrough b"
  shows "concat ready' @ buf b' = concat ready @ buf b @ xs
    \<and> pending_ok b' \<and> same_config b b'
    \<and> (list_all (batch_ok b) ready \<longrightarrow> list_all (batch_ok b) ready')
    \<and> (timer_pre b \<longrightarrow> timer_pre b')"
  using assms
proof (induction xs arbitrary: b ready)
  case (Cons x xs)
  obtain b1 r1 where one: "append_to_batch x (b, ready) = (b1, r1)" by fastforce
  note step = append_to_batch_step [OF one Cons.prems(2,3)]
  have "\<not> passthrough b1"
    using Cons.prems(3) step(3) by (simp add: passthrough_def same_config_def)
  with Cons.IH [of b1 r1] Cons.prems(1) one step show ?case
    by (auto simp: batch_ok_cong [OF step(3)] intro: same_config_trans)
qed simp

lemma start_timer_simps [simp]:
  "buf (start_timer b) = buf b" "lim (start_timer b) = lim b" "nbytes (start_timer b) = nbytes b"
  "size_of (start_timer b) = size_of b" "has_guard (start_timer b) = has_guard b"
  "gen (start_timer b) = gen b"
  by (simp_all add: start_timer_def)

lemma start_timer_frame [simp]:
  "passthrough (start_timer b) = passthrough b" "item_size (start_timer b) = item_size b"
  "pending_ok (start_timer b) = pending_ok b" "same_config a (start_timer b) = same_config a b"
  by (simp_all add: passthrough_def item_size_def pending_ok_def same_config_def batch_bytes_def
      fun_eq_iff cong: map_cong)

lemma start_timer_ok: "timer_pre b \<Longrightarrow> timer_ok (start_timer b)"
  by (auto simp: timer_pre_def timer_ok_def start_timer_def split: option.splits)

lemma timer_ok_pre: "timer_ok b \<Longrightarrow> timer_pre b"
  by (auto simp: timer_pre_def timer_ok_def split: option.splits)

lemma next_batch_ok: "batcher_ok (fst (next_batch b)) \<and> same_config b (fst (next_batch b))"
  by (simp add: next_batch_def batcher_ok_def pending_ok_def timer_ok_def same_config_def
      batch_bytes_def)

lemma pending_batch_ok: "pending_ok b \<Longrightarrow> buf b \<noteq> [] \<Longrightarrow> batch_ok b (buf b)"
  by (auto simp: pending_ok_def batch_ok_def)

text \<open>
  One lemma for every operation: nothing is lost, repeated or reordered; the invariant is
  kept; what is dispatched respects the limits (unless batching is disabled).
\<close>

lemma add_chunk_nonempty:
  "xs \<noteq> [] \<Longrightarrow> \<not> passthrough b \<Longrightarrow> add_chunk b xs =
     (start_timer (fst (fold append_to_batch xs (b, []))), snd (fold append_to_batch xs (b, [])))"
  by (simp add: add_chunk_def split: prod.splits)

lemma add_item_as_chunk: "add_item b x = add_chunk b [x]"
  by (simp add: add_item_def add_chunk_def)

lemma add_chunk_step:
  assumes "add_chunk b xs = (b', out)" and "batcher_ok b"
  shows "concat out @ buf b' = buf b @ xs \<and> batcher_ok b' \<and> same_config b b'
    \<and> (\<not> passthrough b \<longrightarrow> list_all (batch_ok b) out)"
proof (cases "xs = [] \<or> passthrough b")
  case True
  with assms show ?thesis
    by (auto simp: add_chunk_def batcher_ok_def pending_ok_def split: if_splits)
next
  case False
  obtain b1 r1 where f: "fold append_to_batch xs (b, []) = (b1, r1)" by fastforce
  from append_to_batch_fold [OF f] assms False f show ?thesis
    by (auto simp: add_chunk_nonempty batcher_ok_def start_timer_ok timer_ok_pre)
qed

lemma flush_step:
  assumes "flush b = (b', out)" and "batcher_ok b"
  shows "concat out @ buf b' = buf b" and "buf b' = []" and "batcher_ok b'" and "same_config b b'"
    and "list_all (batch_ok b) out"
  using assms next_batch_ok [of b] pending_batch_ok [of b]
  by (auto simp: flush_def next_batch_def batcher_ok_def split: if_splits)

lemma timed_flush_step:
  assumes "timed_flush g allow b = (b', out)" and "batcher_ok b"
  shows "concat out @ buf b' = buf b" and "batcher_ok b'" and "same_config b b'"
    and "list_all (batch_ok b) out"
  using assms next_batch_ok [of b] pending_batch_ok [of b]
  by (auto simp: timed_flush_def guarded_timed_flush_def next_batch_def batcher_ok_def
      split: if_splits)

lemma batcher_step_ok:
  assumes "batcher_step b e = (b', out)" and "batcher_ok b"
  shows "concat out @ buf b' = buf b @ op_items e \<and> batcher_ok b' \<and> same_config b b'
    \<and> (\<not> passthrough b \<longrightarrow> list_all (batch_ok b) out)"
  using assms
  by (cases e)
     (auto simp: add_item_as_chunk dest: add_chunk_step flush_step timed_flush_step)

lemma batcher_run_ok:
  assumes "batcher_run b es = (b', out)" and "batcher_ok b"
  shows "concat out @ buf b' = buf b @ concat (map op_items es) \<and> batcher_ok b'
    \<and> same_config b b' \<and> (\<not> passthrough b \<longrightarrow> list_all (batch_ok b) out)"
  using assms
proof (induction es arbitrary: b out)
  case (Cons e es)
  obtain b1 out1 where one: "batcher_step b e = (b1, out1)" by fastforce
  obtain out2 where rest: "batcher_run b1 es = (b', out2)" and out: "out = out1 @ out2"
    using Cons.prems(1) one by (auto split: prod.splits)
  note step = batcher_step_ok [OF one Cons.prems(2)]
  have "passthrough b1 = passthrough b" using step by (simp add: passthrough_def same_config_def)
  then show ?case
    using step Cons.IH [OF rest] out batch_ok_cong [of b b1]
    by (auto intro: same_config_trans)
qed simp

lemma new_batcher_ok: "new_batcher l d opts = Inr b \<Longrightarrow> batcher_ok b \<and> buf b = []"
  by (auto simp: new_batcher_def batcher_ok_def pending_ok_def timer_ok_def batch_bytes_def Let_def
      split: if_splits)

section \<open>Generations\<close>

text \<open>
  Every batch that leaves the batcher advances the generation counter, and nothing else
  but an idle flush does. The counter is 64 bits wide and wraps around.
\<close>

definition gen_advance :: "'a batcher \<Rightarrow> 'a batcher \<Rightarrow> nat \<Rightarrow> nat \<Rightarrow> bool" where
  "gen_advance b b' lo hi \<longleftrightarrow> (\<exists>k. gen b' = gen b + of_nat k \<and> lo \<le> k \<and> k \<le> hi)"

lemma gen_advance_refl: "gen_advance b b 0 n"
  unfolding gen_advance_def by (rule exI [of _ 0]) simp

lemma gen_advance_trans:
  assumes "gen_advance a b lo hi" and "gen_advance b c lo' hi'"
  shows "gen_advance a c (lo + lo') (hi + hi')"
proof -
  obtain k k' where "gen b = gen a + of_nat k" "lo \<le> k" "k \<le> hi"
    and "gen c = gen b + of_nat k'" "lo' \<le> k'" "k' \<le> hi'"
    using assms by (auto simp: gen_advance_def)
  then show ?thesis
    unfolding gen_advance_def by (intro exI [of _ "k + k'"]) simp
qed

lemma gen_advance_start_timer [simp]:
  "gen_advance b (start_timer c) lo hi = gen_advance b c lo hi"
  by (simp add: gen_advance_def)

lemma append_to_batch_gen:
  assumes "append_to_batch x (b, ready) = (b', ready')"
  shows "\<exists>n. length ready' = length ready + n \<and> gen_advance b b' n n"
proof -
  consider "b' = b\<lparr>buf := buf b', nbytes := nbytes b'\<rparr>" "ready' = ready"
    | "gen b' = gen b + 1" "length ready' = length ready + 1"
    | "gen b' = gen b + 2" "length ready' = length ready + 2"
    using assms by (auto simp: append_to_batch_def next_batch_def Let_def split: if_splits)
  then show ?thesis
  proof cases
    case 1
    have "gen b' = gen b" by (subst 1(1)) simp
    then show ?thesis using 1(2) by (intro exI [of _ 0]) (auto simp: gen_advance_def intro: exI [of _ 0])
  next
    case 2
    then show ?thesis by (intro exI [of _ 1]) (auto simp: gen_advance_def intro!: exI [of _ 1])
  next
    case 3
    then show ?thesis by (intro exI [of _ 2]) (auto simp: gen_advance_def intro!: exI [of _ 2])
  qed
qed

lemma append_to_batch_fold_gen:
  assumes "fold append_to_batch xs (b, ready) = (b', ready')"
  shows "\<exists>n. length ready' = length ready + n \<and> gen_advance b b' n n"
  using assms
proof (induction xs arbitrary: b ready)
  case Nil
  then show ?case by (intro exI [of _ 0]) (auto simp: gen_advance_refl)
next
  case (Cons x xs)
  obtain b1 r1 where one: "append_to_batch x (b, ready) = (b1, r1)" by fastforce
  obtain m where m: "length r1 = length ready + m" "gen_advance b b1 m m"
    using append_to_batch_gen [OF one] by blast
  obtain n where "length ready' = length r1 + n" "gen_advance b1 b' n n"
    using Cons.IH [of b1 r1] Cons.prems one by auto
  with m show ?case by (intro exI [of _ "m + n"]) (auto intro: gen_advance_trans)
qed

lemma batcher_step_gen:
  assumes "batcher_step b e = (b', out)" and "\<not> passthrough b"
  shows "gen_advance b b' (length out) (Suc (length out))"
proof -
  have le: "gen_advance b b' n n \<Longrightarrow> gen_advance b b' n (Suc n)" for n
    by (auto simp: gen_advance_def)
  have chunk: "gen_advance b b' (length out) (Suc (length out))"
    if "add_chunk b xs = (b', out)" for xs
  proof (cases "xs = []")
    case True
    with that show ?thesis by (auto simp: add_chunk_def intro: gen_advance_refl)
  next
    case False
    obtain b1 r1 where f: "fold append_to_batch xs (b, []) = (b1, r1)" by fastforce
    from append_to_batch_fold_gen [OF f] that False assms(2) f le show ?thesis
      by (auto simp: add_chunk_nonempty gen_advance_def)
  qed
  have single: "gen_advance b b' (length out) (Suc (length out))"
    if "gen b' = gen b \<and> out = [] \<or> gen b' = gen b + 1 \<and> length out \<le> 1"
    using that unfolding gen_advance_def
    by (elim disjE) (rule exI [of _ 0], simp, rule exI [of _ 1], simp)
  have "gen b' = gen b \<and> out = [] \<or> gen b' = gen b + 1 \<and> length out \<le> 1"
    if "e = OpFlush \<or> e = OpTimer g allow" for g allow
    using that assms(1)
    by (auto simp: flush_def timed_flush_def guarded_timed_flush_def next_batch_def
        split: if_splits)
  with single chunk assms(1) show ?thesis
    by (cases e) (auto simp: add_item_as_chunk)
qed

lemma batcher_run_gen:
  assumes "batcher_run b es = (b', out)" and "\<not> passthrough b" and "batcher_ok b"
  shows "gen_advance b b' (length out) (length out + length es)"
  using assms
proof (induction es arbitrary: b out)
  case Nil
  then show ?case by (auto intro: gen_advance_refl)
next
  case (Cons e es)
  obtain b1 out1 where one: "batcher_step b e = (b1, out1)" by fastforce
  obtain out2 where rest: "batcher_run b1 es = (b', out2)" and out: "out = out1 @ out2"
    using Cons.prems(1) one by (auto split: prod.splits)
  have "\<not> passthrough b1" "batcher_ok b1"
    using batcher_step_ok [OF one Cons.prems(3)] Cons.prems(2)
    by (auto simp: passthrough_def same_config_def)
  from gen_advance_trans [OF batcher_step_gen [OF one Cons.prems(2)] Cons.IH [OF rest this]]
  show ?case by (simp add: out add.assoc add.left_commute)
qed

section \<open>The batcher as an accumulator\<close>

text \<open>
  What the components that own a batcher rely on: the SQL collector adds rows one by one
  and flushes after each query, the HTTP sender adds chunks and flushes when it closes.
\<close>

locale accumulator =
  fixes push :: "'b \<Rightarrow> 'a \<Rightarrow> 'b \<times> 'a list list"
    and drain :: "'b \<Rightarrow> 'b \<times> 'a list list"
    and held :: "'b \<Rightarrow> 'a list"
    and good :: "'b \<Rightarrow> bool"
  assumes push_held: "good b \<Longrightarrow> push b x = (b', out) \<Longrightarrow> concat out @ held b' = held b @ [x]"
    and push_good: "good b \<Longrightarrow> push b x = (b', out) \<Longrightarrow> good b'"
    and drain_held: "good b \<Longrightarrow> drain b = (b', out) \<Longrightarrow> concat out = held b \<and> held b' = []"
    and drain_good: "good b \<Longrightarrow> drain b = (b', out) \<Longrightarrow> good b'"

fun feed :: "('b \<Rightarrow> 'a \<Rightarrow> 'b \<times> 'a list list) \<Rightarrow> 'b \<Rightarrow> 'a list \<Rightarrow> 'b \<times> 'a list list" where
  "feed push b [] = (b, [])"
| "feed push b (x # xs) =
     (let (b1, out1) = push b x; (b2, out2) = feed push b1 xs in (b2, out1 @ out2))"

context accumulator begin

lemma feed_held:
  "good b \<Longrightarrow> feed push b xs = (b', out) \<Longrightarrow> concat out @ held b' = held b @ xs \<and> good b'"
proof (induction xs arbitrary: b out)
  case (Cons x xs)
  obtain b1 out1 where one: "push b x = (b1, out1)" by fastforce
  obtain out2 where rest: "feed push b1 xs = (b', out2)" and out: "out = out1 @ out2"
    using Cons.prems(2) one by (auto split: prod.splits)
  from Cons.IH [OF push_good [OF Cons.prems(1) one] rest] push_held [OF Cons.prems(1) one]
  show ?case by (simp add: out)
qed simp

lemma feed_drain:
  assumes "good b" and "feed push b xs = (b1, out1)" and "drain b1 = (b2, out2)"
  shows "concat (out1 @ out2) = held b @ xs \<and> held b2 = [] \<and> good b2"
  using feed_held [OF assms(1,2)] drain_held [OF _ assms(3)] drain_good [OF _ assms(3)] by auto

end

interpretation batcher_acc: accumulator add_item flush buf batcher_ok
proof unfold_locales
  fix b b' :: "'a batcher" and x out
  assume ok: "batcher_ok b"
  show "add_item b x = (b', out) \<Longrightarrow> concat out @ buf b' = buf b @ [x]"
    and "add_item b x = (b', out) \<Longrightarrow> batcher_ok b'"
    using add_chunk_step [of b "[x]" b' out] ok by (auto simp: add_item_as_chunk)
  show "flush b = (b', out) \<Longrightarrow> concat out = buf b \<and> buf b' = []"
    and "flush b = (b', out) \<Longrightarrow> batcher_ok b'"
    using flush_step [of b b' out] ok by auto
qed

section \<open>Concurrent use\<close>

text \<open>
  The critical sections of concurrent callers interleave in any order. A batch that was
  taken under the mutex is dispatched after the mutex is released, so it is in flight for
  a while; timer callbacks that were started may run at any later time, whether or not
  their timer was stopped meanwhile (stopping a timer whose callback has already begun
  has no effect).
\<close>

record 'a bsys =
  bst :: "'a batcher"
  accepted :: "'a multiset"
  inflight :: "'a list multiset"
  delivered :: "'a list multiset"
  callbacks :: "64 word set"

definition bsys_init :: "'a batcher \<Rightarrow> 'a bsys" where
  "bsys_init b = \<lparr>bst = b, accepted = {#}, inflight = {#}, delivered = {#}, callbacks = {}\<rparr>"

definition bsys_enter :: "'a bsys \<Rightarrow> 'a batcher_op \<Rightarrow> 'a bsys" where
  "bsys_enter s e =
     (let (b', out) = batcher_step (bst s) e
      in s\<lparr>bst := b', accepted := accepted s + mset (op_items e),
           inflight := inflight s + mset out,
           callbacks := callbacks s \<union> set_option (timer b')\<rparr>)"

inductive bsys_step :: "'a bsys \<Rightarrow> 'a bsys \<Rightarrow> bool" where
  call: "(\<And>g allow. e \<noteq> OpTimer g allow) \<Longrightarrow> bsys_step s (bsys_enter s e)"
| fire: "g \<in> callbacks s \<Longrightarrow>
     bsys_step s (bsys_enter (s\<lparr>callbacks := callbacks s - {g}\<rparr>) (OpTimer g allow))"
| deliver: "xs \<in># inflight s \<Longrightarrow>
     bsys_step s (s\<lparr>inflight := inflight s - {#xs#}, delivered := delivered s + {#xs#}\<rparr>)"

inductive bsys_reachable :: "'a batcher \<Rightarrow> 'a bsys \<Rightarrow> bool" for b where
  start: "bsys_reachable b (bsys_init b)"
| step: "bsys_reachable b s \<Longrightarrow> bsys_step s t \<Longrightarrow> bsys_reachable b t"

definition items_of :: "'a list multiset \<Rightarrow> 'a multiset" where
  "items_of M = \<Sum>\<^sub># (image_mset mset M)"

lemma items_of_simps [simp]:
  "items_of {#} = {#}" "items_of (M + N) = items_of M + items_of N"
  "items_of (add_mset xs M) = mset xs + items_of M"
  by (simp_all add: items_of_def)

lemma items_of_mset: "items_of (mset xss) = mset (concat xss)"
  by (induction xss) auto

lemma items_of_remove: "xs \<in># M \<Longrightarrow> items_of M = mset xs + items_of (M - {#xs#})"
  by (metis items_of_simps(3) insert_DiffM)

definition bsys_ok :: "'a batcher \<Rightarrow> 'a bsys \<Rightarrow> bool" where
  "bsys_ok b s \<longleftrightarrow> batcher_ok (bst s) \<and> same_config b (bst s)
     \<and> accepted s = mset (buf (bst s)) + items_of (inflight s) + items_of (delivered s)
     \<and> (\<not> passthrough b \<longrightarrow> (\<forall>xs. xs \<in># inflight s + delivered s \<longrightarrow> batch_ok b xs))"

lemma bsys_enter_ok: "bsys_ok b s \<Longrightarrow> bsys_ok b (bsys_enter s e)"
proof -
  assume ok: "bsys_ok b s"
  obtain b' out where one: "batcher_step (bst s) e = (b', out)" by fastforce
  have step: "concat out @ buf b' = buf (bst s) @ op_items e" "batcher_ok b'"
    "same_config (bst s) b'" "\<not> passthrough (bst s) \<longrightarrow> list_all (batch_ok (bst s)) out"
    using batcher_step_ok [OF one] ok by (auto simp: bsys_ok_def)
  from step(1) have "mset (concat out) + mset (buf b') = mset (buf (bst s)) + mset (op_items e)"
    by (metis mset_append)
  with ok one step(2-4) batch_ok_cong [of b "bst s"] show ?thesis
    by (auto simp: bsys_ok_def bsys_enter_def items_of_mset list_all_iff passthrough_def
        same_config_def ac_simps dest: sym)
qed

lemma bsys_step_ok: "bsys_step s t \<Longrightarrow> bsys_ok b s \<Longrightarrow> bsys_ok b t"
proof (induction rule: bsys_step.induct)
  case (fire g s allow)
  then show ?case by (intro bsys_enter_ok) (simp add: bsys_ok_def)
next
  case (deliver xs s)
  then show ?case
    using items_of_remove [OF deliver(1)]
    by (auto simp: bsys_ok_def ac_simps dest: in_diffD)
qed (rule bsys_enter_ok)

lemma bsys_reachable_ok: "bsys_reachable b s \<Longrightarrow> batcher_ok b \<Longrightarrow> buf b = [] \<Longrightarrow> bsys_ok b s"
proof (induction rule: bsys_reachable.induct)
  case start
  then show ?case by (simp add: bsys_ok_def bsys_init_def)
next
  case (step s t)
  then show ?case by (blast intro: bsys_step_ok)
qed

text \<open>Without a guard, the timer of a pending batch is never lost.\<close>

lemma bsys_reachable_callbacks:
  "bsys_reachable b s \<Longrightarrow> batcher_ok b \<Longrightarrow> buf b = [] \<Longrightarrow> \<not> has_guard b \<Longrightarrow>
   timer b = None \<Longrightarrow> set_option (timer (bst s)) \<subseteq> callbacks s"
proof (induction rule: bsys_reachable.induct)
  case start
  then show ?case by (simp add: bsys_init_def)
next
  case (step s t)
  then have ok: "bsys_ok b s" by (intro bsys_reachable_ok)
  then have tok: "timer_ok (bst s)" "\<not> has_guard (bst s)"
    using step.prems by (auto simp: bsys_ok_def batcher_ok_def same_config_def)
  from step.hyps(2) step.IH [OF step.prems] tok show ?case
    by cases
      (auto simp: bsys_enter_def timed_flush_def guarded_timed_flush_def next_batch_def
        timer_ok_def split: prod.splits if_splits option.splits)
qed

section \<open>Properties\<close>

text \<open>A batcher neither loses, duplicates nor reorders items: after any sequence of AddItem,
  AddChunk, Flush and timer callbacks on a new batcher, the dispatched batches followed by the
  pending batch are exactly the items that were added, in order.\<close>

theorem batcher_run_conserves:
  assumes "new_batcher l d opts = Inr b" and "batcher_run b es = (b', out)"
  shows "concat out @ buf b' = concat (map op_items es)"
  using batcher_run_ok [OF assms(2)] new_batcher_ok [OF assms(1)] by simp

definition wit_limits :: limits where
  "wit_limits = \<lparr>max_items = 2, max_bytes = 10, batch_window = second\<rparr>"

definition wit_batcher :: "string batcher" where
  "wit_batcher = \<lparr>lim = wit_limits, size_of = Some (\<lambda>s. int (length s)), has_guard = False,
     buf = [], nbytes = 0, timer = None, gen = 0\<rparr>"

lemma wit_batcher_new:
  "new_batcher wit_limits True (Some \<lparr>opt_size_of = Some (\<lambda>s. int (length s)), opt_guard = False\<rparr>)
     = Inr wit_batcher"
  by (simp add: new_batcher_def wit_batcher_def wit_limits_def)

definition wit_ops :: "string batcher_op list" where
  "wit_ops = [OpItem ''abcdefgh'', OpChunk [''xyz'', ''0123456789abc'', ''u''], OpTimer 0 True, OpTimer 3 True]"

lemma wit_run:
  "batcher_run wit_batcher wit_ops =
     (wit_batcher\<lparr>gen := 4\<rparr>, [[''abcdefgh''], [''xyz''], [''0123456789abc''], [''u'']])"
  by (simp add: wit_ops_def wit_batcher_def wit_limits_def batcher_defs Let_def)

theorem batcher_run_conserves_witness:
  "concat [[''abcdefgh''], [''xyz''], [''0123456789abc''], [''u'']] @ buf (wit_batcher\<lparr>gen := 4\<rparr>)
     = concat (map op_items wit_ops)"
  by (rule batcher_run_conserves [OF wit_batcher_new wit_run])

text \<open>C23: Every batch that an enabled batcher dispatches is non-empty and within both limits, unless
  it is a single item whose own size exceeds the byte limit; and what stays pending between
  operations is strictly below both limits.\<close>

theorem batcher_run_limits:
  assumes "new_batcher l d opts = Inr b" and "batcher_run b es = (b', out)"
    and "max_items l > 0 \<or> max_bytes l > 0"
  shows "list_all (batch_ok b) out \<and> pending_ok b'"
proof -
  have "lim b = l" using assms(1) by (auto simp: new_batcher_def Let_def split: if_splits)
  then have "\<not> passthrough b" using assms(3) by (auto simp: passthrough_def)
  then show ?thesis
    using batcher_run_ok [OF assms(2)] new_batcher_ok [OF assms(1)] by (auto simp: batcher_ok_def)
qed

theorem batcher_run_limits_witness:
  "list_all (batch_ok wit_batcher) [[''abcdefgh''], [''xyz''], [''0123456789abc''], [''u'']]
     \<and> pending_ok (wit_batcher\<lparr>gen := 4\<rparr>)"
proof -
  have pos: "max_items wit_limits > 0 \<or> max_bytes wit_limits > 0" by (simp add: wit_limits_def)
  show ?thesis using batcher_run_limits [OF wit_batcher_new wit_run pos] by simp
qed

text \<open>C12: However the critical sections, the timer callbacks and the dispatches of concurrent
  producers interleave, at any moment the items that were accepted are, as a multiset, the pending
  items, the items of batches in flight and the delivered items: when nothing is pending or in
  flight any more, every item was delivered exactly once, in batches within the limits.\<close>

theorem batcher_exactly_once:
  assumes "new_batcher l d opts = Inr b" and "bsys_reachable b s"
  shows "accepted s = mset (buf (bst s)) + items_of (inflight s) + items_of (delivered s)
    \<and> (buf (bst s) = [] \<and> inflight s = {#} \<longrightarrow> accepted s = items_of (delivered s))
    \<and> (\<not> passthrough b \<longrightarrow> (\<forall>xs. xs \<in># delivered s \<longrightarrow> batch_ok b xs))"
  using bsys_reachable_ok [OF assms(2)] new_batcher_ok [OF assms(1)]
  by (auto simp: bsys_ok_def)

definition wit_sys :: "string bsys" where
  "wit_sys = bsys_enter (bsys_init wit_batcher) (OpChunk [''xyz'', ''0123456789abc'', ''u''])"

lemma wit_sys_reachable: "bsys_reachable wit_batcher wit_sys"
  unfolding wit_sys_def
  by (rule bsys_reachable.step [OF bsys_reachable.start]) (rule bsys_step.call, simp)

theorem batcher_exactly_once_witness:
  "accepted wit_sys = mset [''xyz'', ''0123456789abc'', ''u''] \<and>
   mset [''xyz'', ''0123456789abc'', ''u'']
     = mset (buf (bst wit_sys)) + items_of (inflight wit_sys) + items_of (delivered wit_sys)"
proof -
  have "accepted wit_sys = mset [''xyz'', ''0123456789abc'', ''u'']"
    by (simp add: wit_sys_def bsys_enter_def bsys_init_def split: prod.splits)
  with batcher_exactly_once [OF wit_batcher_new wit_sys_reachable] show ?thesis by simp
qed



text \<open>A stale timer is harmless: once the batch for which a timer was started has left an enabled
  batcher, and fewer than \<open>2 ^ 64\<close> generations have passed, the timer's callback changes nothing and
  dispatches nothing, whatever became pending in between.\<close>

theorem batcher_stale_timer:
  assumes "batcher_ok b" and "\<not> passthrough b" and "timer b = Some g"
    and "batcher_run b es = (b', out)" and "out \<noteq> []" and "length out + length es < 2 ^ 64"
  shows "timed_flush g allow b' = (b', [])"
proof -
  have "g = gen b" using assms(1,3) by (simp add: batcher_ok_def timer_ok_def)
  obtain k where k: "gen b' = gen b + of_nat k" "length out \<le> k" "k \<le> length out + length es"
    using batcher_run_gen [OF assms(4,2,1)] by (auto simp: gen_advance_def)
  have "0 < k" using k(2) assms(5) by (cases out) auto
  moreover have "k < 2 ^ 64" using k(3) assms(6) by simp
  ultimately have "(of_nat k :: 64 word) \<noteq> 0" by (simp add: word_of_nat_eq_0_iff nat_dvd_not_less)
  then show ?thesis
    using \<open>g = gen b\<close> k(1) by (simp add: timed_flush_def guarded_timed_flush_def)
qed

theorem batcher_stale_timer_witness:
  "timed_flush 0 True (fst (batcher_run (fst (add_item wit_batcher ''a'')) [OpFlush, OpItem ''b'']))
     = (fst (batcher_run (fst (add_item wit_batcher ''a'')) [OpFlush, OpItem ''b'']), [])"
proof (rule batcher_stale_timer)
  show "batcher_ok (fst (add_item wit_batcher ''a''))"
    by (simp add: wit_batcher_def wit_limits_def batcher_defs Let_def batcher_ok_def pending_ok_def
        timer_ok_def batch_bytes_def)
  show "batcher_run (fst (add_item wit_batcher ''a'')) [OpFlush, OpItem ''b'']
      = (fst (batcher_run (fst (add_item wit_batcher ''a'')) [OpFlush, OpItem ''b'']), [[''a'']])"
    by (simp add: wit_batcher_def wit_limits_def batcher_defs Let_def)
qed (simp_all add: wit_batcher_def wit_limits_def batcher_defs Let_def)

end
