(* ===== verification/Lifecycle.thy ===== *)
theory Lifecycle
  imports Prelude
begin

text \<open>
  The lifecycle state that collectors, receivers and senders share (pkg/config/state.go):
  two channels that are closed when a shutdown begins and ends, the cancel functions of a
  collector's two contexts, the in-progress counter, the once-only close and the
  read-write lock around the closing check.

  Closing a nil or a closed channel panics in Go, so the operations that close a channel
  return a panic or the new state.
\<close>

section \<open>State and operations\<close>

datatype go_chan = NilChan | OpenChan | ClosedChan

datatype panic = CloseOfNilChannel | CloseOfClosedChannel | NegativeWaitGroup

text \<open>
  \<open>cancel_sched\<close> and \<open>cancel_exec\<close> say whether the cancel function is non-nil;
  \<open>sched_cancelled\<close> and \<open>exec_cancelled\<close> whether it has been called. \<open>once_done\<close> is the
  state of CloseOnce, \<open>in_progress\<close> the counter of the wait group.
\<close>

record lifecycle =
  cancel_sched :: bool
  cancel_exec :: bool
  sched_cancelled :: bool
  exec_cancelled :: bool
  in_progress :: nat
  once_done :: bool
  closing :: go_chan
  closed :: go_chan

definition lifecycle_zero :: lifecycle where
  "lifecycle_zero = \<lparr>cancel_sched = False, cancel_exec = False, sched_cancelled = False,
     exec_cancelled = False, in_progress = 0, once_done = False,
     closing = NilChan, closed = NilChan\<rparr>"

fun close_chan :: "go_chan \<Rightarrow> panic + go_chan" where
  "close_chan NilChan = Inl CloseOfNilChannel"
| "close_chan OpenChan = Inr ClosedChan"
| "close_chan ClosedChan = Inl CloseOfClosedChannel"

definition is_started :: "lifecycle \<Rightarrow> bool" where
  "is_started s \<longleftrightarrow> closed s \<noteq> NilChan"

definition lc_start :: "lifecycle \<Rightarrow> lifecycle" where
  "lc_start s = (if is_started s then s else s\<lparr>closing := OpenChan, closed := OpenChan\<rparr>)"

definition start_with :: "lifecycle \<Rightarrow> lifecycle" where
  "start_with s =
     (lc_start s)\<lparr>cancel_sched := True, sched_cancelled := False,
                  cancel_exec := True, exec_cancelled := False\<rparr>"

definition begin_close :: "lifecycle \<Rightarrow> panic + lifecycle" where
  "begin_close s =
     (if closing s = NilChan then Inr s
      else case close_chan (closing s) of
             Inl p \<Rightarrow> Inl p
           | Inr ch \<Rightarrow>
               (let s1 = s\<lparr>closing := ch\<rparr>
                in Inr (if cancel_sched s1 then s1\<lparr>cancel_sched := False, sched_cancelled := True\<rparr>
                        else s1)))"

definition stop_stragglers :: "lifecycle \<Rightarrow> lifecycle" where
  "stop_stragglers s =
     (if cancel_exec s then s\<lparr>cancel_exec := False, exec_cancelled := True\<rparr> else s)"

definition finish_close :: "lifecycle \<Rightarrow> panic + lifecycle" where
  "finish_close s =
     (if closed s = NilChan then Inr s
      else let s1 = stop_stragglers s
           in case close_chan (closed s1) of
                Inl p \<Rightarrow> Inl p
              | Inr ch \<Rightarrow> Inr (s1\<lparr>closed := ch\<rparr>))"

text \<open>A receive from a nil channel blocks, so the select in IsClosing takes its default.\<close>

definition is_closing :: "lifecycle \<Rightarrow> bool" where
  "is_closing s \<longleftrightarrow> closing s = ClosedChan"

text \<open>
  IfClosingElseLock looks at the Closing channel twice: once without the lock (\<open>s1\<close> is the
  state at that moment) and once more under the read lock (\<open>s2\<close>). The result is what it
  returns and whether the read lock is still held when it returns. IfNotClosing runs its
  argument, here a function on the state the lock protects, under the read lock.
\<close>

definition if_closing_else_lock :: "lifecycle \<Rightarrow> lifecycle \<Rightarrow> bool \<times> bool" where
  "if_closing_else_lock s1 s2 =
     (if is_closing s1 then (True, False)
      else let c = is_closing s2 in (c, \<not> c))"

definition if_not_closing :: "('s \<Rightarrow> 's) \<Rightarrow> lifecycle \<Rightarrow> 's \<Rightarrow> 's" where
  "if_not_closing f l s = (if \<not> is_closing l then f s else s)"

lemmas lifecycle_defs [go_defs] = is_started_def lc_start_def start_with_def begin_close_def
  stop_stragglers_def finish_close_def is_closing_def lifecycle_zero_def

section \<open>The close protocol of a component\<close>

text \<open>
  Every component's Close has the same frame: return at once when it was never started,
  then run its body under CloseOnce; the body begins with BeginClose and ends with
  FinishClose, and a body whose wait timed out calls StopStragglers in between
  (\<open>timed_out\<close>). Start is called at most once by the program, but may be called again.
\<close>

datatype lc_call = CallStart | CallStartWith | CallClose bool

definition component_close :: "bool \<Rightarrow> lifecycle \<Rightarrow> panic + lifecycle" where
  "component_close timed_out s =
     (if \<not> is_started s then Inr s
      else if once_done s then Inr s
      else case begin_close (s\<lparr>once_done := True\<rparr>) of
             Inl p \<Rightarrow> Inl p
           | Inr s1 \<Rightarrow> finish_close (if timed_out then stop_stragglers s1 else s1))"

fun lc_call_step :: "lc_call \<Rightarrow> lifecycle \<Rightarrow> panic + lifecycle" where
  "lc_call_step CallStart s = Inr (lc_start s)"
| "lc_call_step CallStartWith s = Inr (start_with s)"
| "lc_call_step (CallClose timed_out) s = component_close timed_out s"

fun lc_calls :: "lc_call list \<Rightarrow> lifecycle \<Rightarrow> panic + lifecycle" where
  "lc_calls [] s = Inr s"
| "lc_calls (c # cs) s = (case lc_call_step c s of Inl p \<Rightarrow> Inl p | Inr s' \<Rightarrow> lc_calls cs s')"

text \<open>Between calls, the channels are both nil, both open, or both closed (and then only once).\<close>

definition lc_ok :: "lifecycle \<Rightarrow> bool" where
  "lc_ok s \<longleftrightarrow>
     (closing s = NilChan \<and> closed s = NilChan \<and> \<not> once_done s)
     \<or> (closing s = OpenChan \<and> closed s = OpenChan \<and> \<not> once_done s)
     \<or> (closing s = ClosedChan \<and> closed s = ClosedChan \<and> once_done s)"

lemma lc_ok_zero: "lc_ok lifecycle_zero"
  by (simp add: lc_ok_def lifecycle_zero_def)

lemma lc_call_step_ok:
  assumes "lc_ok s"
  shows "\<exists>s'. lc_call_step c s = Inr s' \<and> lc_ok s'"
  using assms
  by (cases c) (auto simp: lc_ok_def component_close_def lifecycle_defs Let_def)

lemma lc_calls_ok: "lc_ok s \<Longrightarrow> \<exists>s'. lc_calls cs s = Inr s' \<and> lc_ok s'"
proof (induction cs arbitrary: s)
  case (Cons c cs)
  obtain s1 where "lc_call_step c s = Inr s1" "lc_ok s1" using lc_call_step_ok [OF Cons.prems] by blast
  with Cons.IH [of s1] show ?case by simp
qed simp

lemma begin_close_keeps_exec:
  "begin_close s = Inr s' \<Longrightarrow> exec_cancelled s' = exec_cancelled s \<and> closed s' = closed s"
  by (auto simp: begin_close_def Let_def split: if_splits sum.splits)

section \<open>Concurrent senders and one closer\<close>

text \<open>
  A goroutine that wants to start work checks IsClosing (IfClosingElseLock only; a timed
  flush under IfNotClosing goes straight to the lock), takes the read lock, checks
  IsClosing again, and then either gives up or registers work before it releases the lock.
  The closer takes the write lock, closes the Closing channel under it, releases it, may
  still register work of its own (a sender flushes its batchers), and then waits for the
  wait group, with a timeout. Read and write lock exclude each other.
\<close>

datatype sender_pc = PIdle | PChecked | PReading | PLocked

datatype closer_pc = CIdle | CHolding | CReleased | CWaiting | CFinished

record 't csys =
  life :: lifecycle
  spc :: "'t \<Rightarrow> sender_pc"
  cpc :: closer_pc

definition reading :: "'t csys \<Rightarrow> 't set" where
  "reading s = {t. spc s t = PReading \<or> spc s t = PLocked}"

inductive csys_step :: "'t csys \<Rightarrow> 't csys \<Rightarrow> bool" where
  check: "spc s t = PIdle \<Longrightarrow> \<not> is_closing (life s) \<Longrightarrow>
    csys_step s (s\<lparr>spc := (spc s)(t := PChecked)\<rparr>)"
| rlock: "spc s t = PIdle \<or> spc s t = PChecked \<Longrightarrow> cpc s \<noteq> CHolding \<Longrightarrow>
    csys_step s (s\<lparr>spc := (spc s)(t := PReading)\<rparr>)"
| refuse: "spc s t = PReading \<Longrightarrow> is_closing (life s) \<Longrightarrow>
    csys_step s (s\<lparr>spc := (spc s)(t := PIdle)\<rparr>)"
| admit: "spc s t = PReading \<Longrightarrow> \<not> is_closing (life s) \<Longrightarrow>
    csys_step s (s\<lparr>spc := (spc s)(t := PLocked)\<rparr>)"
| register: "spc s t = PLocked \<Longrightarrow>
    csys_step s (s\<lparr>life := (life s)\<lparr>in_progress := in_progress (life s) + 1\<rparr>\<rparr>)"
| runlock: "spc s t = PLocked \<Longrightarrow>
    csys_step s (s\<lparr>spc := (spc s)(t := PIdle)\<rparr>)"
| work_done: "in_progress (life s) > 0 \<Longrightarrow>
    csys_step s (s\<lparr>life := (life s)\<lparr>in_progress := in_progress (life s) - 1\<rparr>\<rparr>)"
| lock: "cpc s = CIdle \<Longrightarrow> reading s = {} \<Longrightarrow> begin_close (life s) = Inr l \<Longrightarrow>
    csys_step s (s\<lparr>life := l, cpc := CHolding\<rparr>)"
| unlock: "cpc s = CHolding \<Longrightarrow> csys_step s (s\<lparr>cpc := CReleased\<rparr>)"
| close_flush: "cpc s = CReleased \<Longrightarrow>
    csys_step s (s\<lparr>life := (life s)\<lparr>in_progress := in_progress (life s) + n\<rparr>, cpc := CWaiting\<rparr>)"
| wait_done: "cpc s = CWaiting \<Longrightarrow> in_progress (life s) = 0 \<or> timed_out \<Longrightarrow>
    finish_close (if timed_out then stop_stragglers (life s) else life s) = Inr l \<Longrightarrow>
    csys_step s (s\<lparr>life := l, cpc := CFinished\<rparr>)"

definition csys_init :: "lifecycle \<Rightarrow> 't csys" where
  "csys_init l = \<lparr>life = l, spc = (\<lambda>_. PIdle), cpc = CIdle\<rparr>"

inductive csys_reachable :: "'t csys \<Rightarrow> bool" where
  start: "closing l = OpenChan \<Longrightarrow> closed l = OpenChan \<Longrightarrow> csys_reachable (csys_init l)"
| step: "csys_reachable s \<Longrightarrow> csys_step s t \<Longrightarrow> csys_reachable t"

text \<open>
  The invariant: Closing is closed exactly when the closer has passed its lock, and no
  goroutine is past its second check by then.
\<close>

definition csys_ok :: "'t csys \<Rightarrow> bool" where
  "csys_ok s \<longleftrightarrow>
     (cpc s = CIdle \<longleftrightarrow> \<not> is_closing (life s))
     \<and> (cpc s = CIdle \<longrightarrow> closing (life s) = OpenChan)
     \<and> (closed (life s) = (if cpc s = CFinished then ClosedChan else OpenChan))
     \<and> (\<forall>t. spc s t = PLocked \<longrightarrow> cpc s = CIdle)
     \<and> (cpc s = CHolding \<longrightarrow> reading s = {})"

lemma csys_init_ok: "closing l = OpenChan \<Longrightarrow> closed l = OpenChan \<Longrightarrow> csys_ok (csys_init l)"
  by (simp add: csys_ok_def csys_init_def is_closing_def)

lemma csys_step_ok: "csys_step s t \<Longrightarrow> csys_ok s \<Longrightarrow> csys_ok t"
  by (induction rule: csys_step.induct)
     (auto simp: csys_ok_def reading_def lifecycle_defs Let_def split: if_splits sum.splits)

lemma csys_reachable_ok: "csys_reachable s \<Longrightarrow> csys_ok s"
  by (induction rule: csys_reachable.induct) (auto intro: csys_init_ok csys_step_ok)

inductive_cases csys_stepE: "csys_step s t"

lemma csys_after_barrier:
  assumes "csys_step s t" and "csys_ok s" and "cpc s = CWaiting \<or> cpc s = CFinished"
  shows "in_progress (life t) \<le> in_progress (life s) \<and> (cpc t = CWaiting \<or> cpc t = CFinished)"
  using assms
  by (elim csys_stepE)
     (auto simp: csys_ok_def finish_close_def stop_stragglers_def Let_def split: if_splits sum.splits)

inductive csys_run :: "'t csys \<Rightarrow> 't csys \<Rightarrow> bool" where
  none: "csys_run s s"
| more: "csys_run s t \<Longrightarrow> csys_step t u \<Longrightarrow> csys_run s u"

lemma csys_run_reachable: "csys_run s t \<Longrightarrow> csys_reachable s \<Longrightarrow> csys_reachable t"
  by (induction rule: csys_run.induct) (auto intro: csys_reachable.step)

lemma csys_run_barrier:
  assumes "csys_run s t" and "csys_reachable s" and "cpc s = CWaiting \<or> cpc s = CFinished"
  shows "in_progress (life t) \<le> in_progress (life s) \<and> (cpc t = CWaiting \<or> cpc t = CFinished)"
  using assms
proof (induction rule: csys_run.induct)
  case (more s t u)
  then have "csys_ok t" using csys_reachable_ok csys_run_reachable by blast
  from csys_after_barrier [OF more.hyps(2) this] more show ?case by auto
qed simp

section \<open>Properties\<close>

text \<open>A call sequence that starts the component and closes it later.\<close>

definition is_start :: "lc_call \<Rightarrow> bool" where
  "is_start c \<longleftrightarrow> (case c of CallClose to \<Rightarrow> False | _ \<Rightarrow> True)"

fun closes_after_start :: "bool \<Rightarrow> lc_call list \<Rightarrow> bool" where
  "closes_after_start started [] = False"
| "closes_after_start started (c # cs) =
     (if is_start c then closes_after_start True cs
      else started \<or> closes_after_start started cs)"

lemma lc_calls_closed_iff:
  assumes "lc_ok s" and "lc_calls cs s = Inr s'"
  shows "is_closing s' \<longleftrightarrow> is_closing s \<or> closes_after_start (is_started s) cs"
  using assms
proof (induction cs arbitrary: s)
  case (Cons c cs)
  obtain s1 where one: "lc_call_step c s = Inr s1" "lc_ok s1"
    using lc_call_step_ok [OF Cons.prems(1)] by blast
  have "is_closing s' \<longleftrightarrow> is_closing s1 \<or> closes_after_start (is_started s1) cs"
    using Cons.IH [OF one(2)] Cons.prems(2) one(1) by simp
  moreover have "is_started s1 = (is_started s \<or> is_start c)"
    and "is_closing s1 \<longleftrightarrow> is_closing s \<or> (is_started s \<and> \<not> is_start c)"
    using one(1) Cons.prems(1)
    by (cases c; auto simp: lc_ok_def component_close_def lifecycle_defs is_start_def Let_def
        split: if_splits)+
  ultimately show ?case by (cases "is_start c") (auto simp: is_start_def)
qed simp

text \<open>C25: No sequence of Start, StartWith and Close calls makes a component panic by closing
  a nil or an already closed channel, whether Close comes before Start, twice, or with or
  without a timeout; and the component ends up closing exactly when some Close came after
  a Start, in which case both of its channels are closed.\<close>

theorem lifecycle_never_panics:
  "\<exists>s. lc_calls cs lifecycle_zero = Inr s
     \<and> is_closing s = closes_after_start False cs
     \<and> (closed s = ClosedChan) = is_closing s"
proof -
  obtain s where s: "lc_calls cs lifecycle_zero = Inr s" "lc_ok s"
    using lc_calls_ok [OF lc_ok_zero] by blast
  have "is_closing s = closes_after_start False cs"
    using lc_calls_closed_iff [OF lc_ok_zero s(1)] by (simp add: lifecycle_defs)
  with s show ?thesis by (auto simp: lc_ok_def is_closing_def)
qed

text \<open>C24: Shutdown is a barrier. Once the closer waits for the work in progress, no goroutine
  is between its second check of IsClosing and the registration of its work, and in every
  continuation, however the goroutines interleave, the number of works in progress never
  grows and no goroutine is admitted any more.\<close>

theorem close_barrier:
  assumes "csys_reachable s" and "cpc s = CWaiting \<or> cpc s = CFinished" and "csys_run s t"
  shows "in_progress (life t) \<le> in_progress (life s) \<and> (\<forall>g. spc t g \<noteq> PLocked)
    \<and> is_closing (life t)"
proof -
  have "csys_ok t" using assms csys_run_reachable csys_reachable_ok by blast
  then show ?thesis using csys_run_barrier [OF assms(3,1,2)] by (auto simp: csys_ok_def)
qed

text \<open>One goroutine is admitted and registers its work before the closer takes its lock.\<close>

definition started_life :: lifecycle where
  "started_life = start_with lifecycle_zero"

definition demo_closing_life :: "nat \<Rightarrow> lifecycle" where
  "demo_closing_life n = started_life\<lparr>closing := ClosedChan, cancel_sched := False,
     sched_cancelled := True, in_progress := n\<rparr>"

definition demo_waiting :: "nat \<Rightarrow> nat csys" where
  "demo_waiting n = \<lparr>life = demo_closing_life n, spc = (\<lambda>_. PIdle), cpc = CWaiting\<rparr>"

lemma demo_waiting_reachable: "csys_reachable (demo_waiting 1)"
proof -
  let ?s = "csys_init started_life :: nat csys"
  let ?a = "?s\<lparr>spc := (spc ?s)(7 := PReading)\<rparr>"
  let ?b = "?a\<lparr>spc := (spc ?a)(7 := PLocked)\<rparr>"
  let ?c = "?b\<lparr>life := (life ?b)\<lparr>in_progress := in_progress (life ?b) + 1\<rparr>\<rparr>"
  let ?d = "?c\<lparr>spc := (spc ?c)(7 := PIdle)\<rparr>"
  let ?e = "?d\<lparr>life := demo_closing_life 1, cpc := CHolding\<rparr>"
  let ?f = "?e\<lparr>cpc := CReleased\<rparr>"
  note open_life = started_life_def lifecycle_defs csys_init_def demo_closing_life_def reading_def
  have "csys_reachable ?s" by (rule csys_reachable.start) (simp_all add: open_life)
  then have "csys_reachable ?a" by (rule csys_reachable.step) (rule csys_step.rlock; simp add: open_life)
  then have "csys_reachable ?b" by (rule csys_reachable.step) (rule csys_step.admit; simp add: open_life)
  then have "csys_reachable ?c" by (rule csys_reachable.step) (rule csys_step.register; simp add: open_life)
  then have "csys_reachable ?d" by (rule csys_reachable.step) (rule csys_step.runlock; simp add: open_life)
  then have "csys_reachable ?e"
    by (rule csys_reachable.step) (rule csys_step.lock; simp add: open_life)
  then have "csys_reachable ?f" by (rule csys_reachable.step) (rule csys_step.unlock; simp)
  then have "csys_reachable
      (?f\<lparr>life := (life ?f)\<lparr>in_progress := in_progress (life ?f) + 0\<rparr>, cpc := CWaiting\<rparr>)"
    by (rule csys_reachable.step) (rule csys_step.close_flush; simp)
  then show ?thesis by (simp add: open_life demo_waiting_def fun_upd_idem)
qed

lemma demo_waiting_run: "csys_run (demo_waiting 1) (demo_waiting 0)"
proof -
  have "csys_step (demo_waiting 1)
      (demo_waiting 1\<lparr>life := (life (demo_waiting 1))\<lparr>in_progress := in_progress (life (demo_waiting 1)) - 1\<rparr>\<rparr>)"
    by (rule csys_step.work_done) (simp add: demo_waiting_def demo_closing_life_def)
  then have "csys_step (demo_waiting 1) (demo_waiting 0)"
    by (simp add: demo_waiting_def demo_closing_life_def)
  then show ?thesis using csys_run.none csys_run.more by blast
qed

theorem close_barrier_witness:
  "in_progress (life (demo_waiting 0)) \<le> in_progress (life (demo_waiting 1))
   \<and> (\<forall>g. spc (demo_waiting 0) g \<noteq> PLocked) \<and> is_closing (life (demo_waiting 0))"
  by (rule close_barrier [OF demo_waiting_reachable _ demo_waiting_run])
     (simp add: demo_waiting_def)

end
