(* ===== verification/Cache.thy ===== *)
theory Cache
  imports Lifecycle
begin

text \<open>
  The two key-value stores with optional expiration (pkg/cache): LeanCache, a map under a
  read-write lock (mutexmap.go), and FastCache, a wrapper of sync.Map (syncmap.go).

  The contents of either are an association list with distinct keys; the order of the list
  stands for Go's unspecified iteration order. Every reading of the clock is an argument
  of the operation that makes it, Go's zero value of the value type is the argument
  \<open>z\<close>, and what other goroutines do between two critical sections (or two calls of
  sync.Map methods) of one operation is a function \<open>env\<close> on the contents.
\<close>

section \<open>Shared parts (cache.go)\<close>

record cache_base =
  stop :: go_chan
  once :: bool
  base_expiration :: duration
  base_cleanup :: duration

record 'v item =
  item_value :: 'v
  item_expiration :: instant

type_synonym ('k, 'v) contents = "('k \<times> 'v item) list"

type_synonym cache_option = "cache_base \<Rightarrow> cache_base"

definition default_expiration_interval :: duration where
  "default_expiration_interval = 0"

definition default_cleanup_interval :: duration where
  "default_cleanup_interval = 3671 * second"

definition zero_item :: "'v \<Rightarrow> 'v item" where
  "zero_item z = \<lparr>item_value = z, item_expiration = 0\<rparr>"

definition expired :: "instant \<Rightarrow> 'v item \<Rightarrow> bool" where
  "expired now i = (if item_expiration i = 0 then False else now > item_expiration i)"

definition with_cleanup :: "duration \<Rightarrow> cache_option" where
  "with_cleanup interval c = c\<lparr>base_cleanup := interval\<rparr>"

definition with_expiration :: "duration \<Rightarrow> cache_option" where
  "with_expiration t c = c\<lparr>base_expiration := t\<rparr>"

definition with_custom_expiration :: "duration \<Rightarrow> cache_option" where
  "with_custom_expiration t c = c\<lparr>base_expiration := t\<rparr>"

text \<open>The zero value of the struct, from which a new cache and durationOptionToTime start.\<close>

definition zero_base :: cache_base where
  "zero_base = \<lparr>stop = NilChan, once = False, base_expiration = 0, base_cleanup = 0\<rparr>"

definition new_base :: "cache_option list \<Rightarrow> cache_base" where
  "new_base opts =
     fold (\<lambda>opt c. opt c) opts
       (zero_base\<lparr>stop := OpenChan, base_cleanup := default_cleanup_interval\<rparr>)"

text \<open>Whether the constructor starts the cleanup goroutine.\<close>

definition starts_cleanup :: "cache_base \<Rightarrow> bool" where
  "starts_cleanup b \<longleftrightarrow> base_cleanup b > 0"

definition stop_goroutine :: "cache_base \<Rightarrow> panic + cache_base" where
  "stop_goroutine b =
     (if once b then Inr b
      else case close_chan (stop b) of
             Inl p \<Rightarrow> Inl p
           | Inr ch \<Rightarrow> Inr (b\<lparr>once := True, stop := ch\<rparr>))"

definition duration_option_to_time :: "cache_base \<Rightarrow> cache_option list \<Rightarrow> instant \<Rightarrow> instant" where
  "duration_option_to_time b opts now =
     (if opts = [] then
        (if base_expiration b > 0 then now + base_expiration b else 0)
      else
        (let cache = fold (\<lambda>opt c. opt c) opts (zero_base\<lparr>base_expiration := base_expiration b\<rparr>)
         in if base_expiration cache > 0 then now + base_expiration cache else 0))"

section \<open>LeanCache (mutexmap.go)\<close>

text \<open>
  An operation with a single critical section is a function of the contents. \<open>b\<close> is the
  embedded base, which no operation on the contents changes.
\<close>

definition lean_set ::
  "cache_base \<Rightarrow> instant \<Rightarrow> 'k \<Rightarrow> 'v \<Rightarrow> cache_option list \<Rightarrow> ('k, 'v) contents \<Rightarrow> ('k, 'v) contents"
  where
  "lean_set b now key val opts c =
     AList.update key
       \<lparr>item_value = val, item_expiration = duration_option_to_time b opts now\<rparr> c"

definition lean_add ::
  "cache_base \<Rightarrow> instant \<Rightarrow> instant \<Rightarrow> 'k \<Rightarrow> 'v \<Rightarrow> cache_option list
    \<Rightarrow> ('k, 'v) contents \<Rightarrow> ('k, 'v) contents \<times> 'v \<times> bool" where
  "lean_add b t1 t2 key val opts c =
     (let store = (AList.update key
          \<lparr>item_value = val, item_expiration = duration_option_to_time b opts t2\<rparr> c, val, True)
      in case map_of c key of
           Some it \<Rightarrow> if \<not> expired t1 it then (c, item_value it, False) else store
         | None \<Rightarrow> store)"

definition lean_replace ::
  "cache_base \<Rightarrow> instant \<Rightarrow> instant \<Rightarrow> 'k \<Rightarrow> 'v \<Rightarrow> cache_option list
    \<Rightarrow> ('k, 'v) contents \<Rightarrow> ('k, 'v) contents \<times> bool" where
  "lean_replace b t1 t2 key val opts c =
     (case map_of c key of
        None \<Rightarrow> (c, False)
      | Some it \<Rightarrow>
          if expired t1 it then (AList.delete key c, False)
          else
            (let it1 = it\<lparr>item_value := val\<rparr>;
                 it2 = (if opts \<noteq> [] then it1\<lparr>item_expiration := duration_option_to_time b opts t2\<rparr>
                        else it1)
             in (AList.update key it2 c, True)))"

text \<open>
  Item reads under the read lock, and takes the write lock only to delete an expired item;
  \<open>env\<close> acts between the two, and the item is looked up again.
\<close>

definition lean_item ::
  "'v \<Rightarrow> instant \<Rightarrow> instant \<Rightarrow> (('k, 'v) contents \<Rightarrow> ('k, 'v) contents) \<Rightarrow> 'k
    \<Rightarrow> ('k, 'v) contents \<Rightarrow> ('k, 'v) contents \<times> 'v item \<times> bool" where
  "lean_item z t1 t2 env key c =
     (case map_of c key of
        None \<Rightarrow> (c, zero_item z, False)
      | Some it \<Rightarrow>
          if \<not> expired t1 it then (c, it, True)
          else
            (let c1 = env c
             in case map_of c1 key of
                  None \<Rightarrow> (c1, zero_item z, False)
                | Some it1 \<Rightarrow>
                    if \<not> expired t2 it1 then (c1, it1, True)
                    else (AList.delete key c1, zero_item z, False)))"

definition lean_get ::
  "'v \<Rightarrow> instant \<Rightarrow> instant \<Rightarrow> (('k, 'v) contents \<Rightarrow> ('k, 'v) contents) \<Rightarrow> 'k
    \<Rightarrow> ('k, 'v) contents \<Rightarrow> ('k, 'v) contents \<times> 'v \<times> bool" where
  "lean_get z t1 t2 env key c =
     (let (c', it, ok) = lean_item z t1 t2 env key c in (c', item_value it, ok))"

definition lean_delete ::
  "'v \<Rightarrow> instant \<Rightarrow> 'k \<Rightarrow> ('k, 'v) contents \<Rightarrow> ('k, 'v) contents \<times> 'v \<times> bool" where
  "lean_delete z now key c =
     (AList.delete key c,
      case map_of c key of
        None \<Rightarrow> (z, False)
      | Some it \<Rightarrow> (item_value it, \<not> expired now it))"

definition lean_clear :: "('k, 'v) contents \<Rightarrow> ('k, 'v) contents" where
  "lean_clear c = []"

text \<open>The test of Keys, Items and ItemCount, the same in both caches.\<close>

definition listed :: "instant \<Rightarrow> 'v item \<Rightarrow> bool" where
  "listed now it \<longleftrightarrow> item_expiration it = 0 \<or> now < item_expiration it"

definition lean_items :: "instant \<Rightarrow> ('k, 'v) contents \<Rightarrow> ('k, 'v) contents" where
  "lean_items now c = filter (\<lambda>(k, it). listed now it) c"

definition lean_keys :: "instant \<Rightarrow> ('k, 'v) contents \<Rightarrow> 'k list" where
  "lean_keys now c = [k. (k, it) \<leftarrow> c, listed now it]"

definition lean_item_count :: "instant \<Rightarrow> ('k, 'v) contents \<Rightarrow> nat" where
  "lean_item_count now c = fold (\<lambda>(k, it) n. if listed now it then n + 1 else n) c 0"

definition lean_len :: "('k, 'v) contents \<Rightarrow> nat" where
  "lean_len c = length c"

section \<open>FastCache (syncmap.go)\<close>

text \<open>The methods of sync.Map that the code calls, each of them atomic.\<close>

definition load_or_store ::
  "'k \<Rightarrow> 'v item \<Rightarrow> ('k, 'v) contents \<Rightarrow> ('k, 'v) contents \<times> 'v item \<times> bool" where
  "load_or_store key it c =
     (case map_of c key of
        Some actual \<Rightarrow> (c, actual, True)
      | None \<Rightarrow> (AList.update key it c, it, False))"

definition compare_and_swap ::
  "'k \<Rightarrow> 'v item \<Rightarrow> 'v item \<Rightarrow> ('k, 'v) contents \<Rightarrow> ('k, 'v) contents \<times> bool" where
  "compare_and_swap key old it c =
     (if map_of c key = Some old then (AList.update key it c, True) else (c, False))"

definition compare_and_delete ::
  "'k \<Rightarrow> 'v item \<Rightarrow> ('k, 'v) contents \<Rightarrow> ('k, 'v) contents" where
  "compare_and_delete key old c =
     (if map_of c key = Some old then AList.delete key c else c)"

definition fast_set ::
  "cache_base \<Rightarrow> instant \<Rightarrow> 'k \<Rightarrow> 'v \<Rightarrow> cache_option list \<Rightarrow> ('k, 'v) contents \<Rightarrow> ('k, 'v) contents"
  where
  "fast_set b now key val opts c =
     AList.update key
       \<lparr>item_value = val, item_expiration = duration_option_to_time b opts now\<rparr> c"

text \<open>
  The compare-and-swap loops. Iteration \<open>n\<close> reads the clock at \<open>clk n\<close>, and \<open>env n\<close> is
  the interference between its load and its compare-and-swap. A loop that never ends has
  the value \<open>None\<close>.
\<close>

partial_function (option) fast_add_loop ::
  "(nat \<Rightarrow> instant) \<Rightarrow> (nat \<Rightarrow> ('k, 'v) contents \<Rightarrow> ('k, 'v) contents) \<Rightarrow> nat
    \<Rightarrow> 'k \<Rightarrow> 'v item \<Rightarrow> ('k, 'v) contents \<Rightarrow> (('k, 'v) contents \<times> 'v \<times> bool) option" where
  "fast_add_loop clk env n key new_item c =
     (let (c1, actual, loaded) = load_or_store key new_item c
      in if \<not> loaded then Some (c1, item_value new_item, True)
         else if \<not> expired (clk n) actual then Some (c1, item_value actual, False)
         else
           (let (c2, swapped) = compare_and_swap key actual new_item (env n c1)
            in if swapped then Some (c2, item_value new_item, True)
               else fast_add_loop clk env (Suc n) key new_item c2))"

definition fast_add ::
  "cache_base \<Rightarrow> instant \<Rightarrow> (nat \<Rightarrow> instant) \<Rightarrow> (nat \<Rightarrow> ('k, 'v) contents \<Rightarrow> ('k, 'v) contents)
    \<Rightarrow> 'k \<Rightarrow> 'v \<Rightarrow> cache_option list \<Rightarrow> ('k, 'v) contents
    \<Rightarrow> (('k, 'v) contents \<times> 'v \<times> bool) option" where
  "fast_add b t0 clk env key val opts c =
     fast_add_loop clk env 0 key
       \<lparr>item_value = val, item_expiration = duration_option_to_time b opts t0\<rparr> c"

partial_function (option) fast_replace_loop ::
  "cache_base \<Rightarrow> (nat \<Rightarrow> instant) \<Rightarrow> (nat \<Rightarrow> instant)
    \<Rightarrow> (nat \<Rightarrow> ('k, 'v) contents \<Rightarrow> ('k, 'v) contents) \<Rightarrow> nat
    \<Rightarrow> 'k \<Rightarrow> 'v \<Rightarrow> cache_option list \<Rightarrow> ('k, 'v) contents \<Rightarrow> (('k, 'v) contents \<times> bool) option" where
  "fast_replace_loop b clk clk2 env n key val opts c =
     (case map_of c key of
        None \<Rightarrow> Some (c, False)
      | Some actual \<Rightarrow>
          if expired (clk n) actual then Some (compare_and_delete key actual (env n c), False)
          else
            (let new_item = \<lparr>item_value = val, item_expiration =
                   (if opts \<noteq> [] then duration_option_to_time b opts (clk2 n)
                    else item_expiration actual)\<rparr>;
                 (c2, swapped) = compare_and_swap key actual new_item (env n c)
             in if swapped then Some (c2, True)
                else fast_replace_loop b clk clk2 env (Suc n) key val opts c2))"

definition fast_replace ::
  "cache_base \<Rightarrow> (nat \<Rightarrow> instant) \<Rightarrow> (nat \<Rightarrow> instant)
    \<Rightarrow> (nat \<Rightarrow> ('k, 'v) contents \<Rightarrow> ('k, 'v) contents)
    \<Rightarrow> 'k \<Rightarrow> 'v \<Rightarrow> cache_option list \<Rightarrow> ('k, 'v) contents \<Rightarrow> (('k, 'v) contents \<times> bool) option" where
  "fast_replace b clk clk2 env key val opts c = fast_replace_loop b clk clk2 env 0 key val opts c"

definition fast_item ::
  "'v \<Rightarrow> instant \<Rightarrow> (('k, 'v) contents \<Rightarrow> ('k, 'v) contents) \<Rightarrow> 'k
    \<Rightarrow> ('k, 'v) contents \<Rightarrow> ('k, 'v) contents \<times> 'v item \<times> bool" where
  "fast_item z now env key c =
     (case map_of c key of
        None \<Rightarrow> (c, zero_item z, False)
      | Some it \<Rightarrow>
          if \<not> expired now it then (c, it, True)
          else (compare_and_delete key it (env c), zero_item z, False))"

definition fast_get ::
  "'v \<Rightarrow> instant \<Rightarrow> (('k, 'v) contents \<Rightarrow> ('k, 'v) contents) \<Rightarrow> 'k
    \<Rightarrow> ('k, 'v) contents \<Rightarrow> ('k, 'v) contents \<times> 'v \<times> bool" where
  "fast_get z now env key c =
     (let (c', it, ok) = fast_item z now env key c
      in if ok then (c', item_value it, True) else (c', z, False))"

definition fast_delete ::
  "'v \<Rightarrow> instant \<Rightarrow> 'k \<Rightarrow> ('k, 'v) contents \<Rightarrow> ('k, 'v) contents \<times> 'v \<times> bool" where
  "fast_delete z now key c =
     (case map_of c key of
        Some it \<Rightarrow> (AList.delete key c, item_value it, \<not> expired now it)
      | None \<Rightarrow> (c, z, False))"

definition fast_clear :: "('k, 'v) contents \<Rightarrow> ('k, 'v) contents" where
  "fast_clear c = []"

definition fast_keys :: "instant \<Rightarrow> ('k, 'v) contents \<Rightarrow> 'k list" where
  "fast_keys now c = fold (\<lambda>(k, it) ks. if listed now it then ks @ [k] else ks) c []"

definition fast_items :: "instant \<Rightarrow> ('k, 'v) contents \<Rightarrow> ('k, 'v) contents" where
  "fast_items now c = filter (\<lambda>(k, it). listed now it) c"

definition fast_item_count :: "instant \<Rightarrow> ('k, 'v) contents \<Rightarrow> nat" where
  "fast_item_count now c = fold (\<lambda>(k, it) n. if listed now it then n + 1 else n) c 0"

definition fast_len :: "('k, 'v) contents \<Rightarrow> nat" where
  "fast_len c = fold (\<lambda>_ l. l + 1) c 0"

section \<open>The cleanup goroutines\<close>

definition cleanup_batch_size :: nat where
  "cleanup_batch_size = 256"

text \<open>
  A tick of the lean worker: the scan under the read lock, then one critical section per
  batch of at most 256 keys. \<open>stops\<close> says for each batch whether the stop channel is
  closed by then (and \<open>envs\<close> what the others do before it).
\<close>

definition scan_expired :: "instant \<Rightarrow> ('k, 'v) contents \<Rightarrow> 'k list" where
  "scan_expired now c =
     [key. (key, it) \<leftarrow> c, item_expiration it \<noteq> 0 \<and> now > item_expiration it]"

definition delete_expired :: "instant \<Rightarrow> 'k \<Rightarrow> ('k, 'v) contents \<Rightarrow> ('k, 'v) contents" where
  "delete_expired now key c =
     (case map_of c key of
        Some it \<Rightarrow> if item_expiration it \<noteq> 0 \<and> now > item_expiration it
                   then AList.delete key c else c
      | None \<Rightarrow> c)"

function lean_delete_batches ::
  "instant \<Rightarrow> (nat \<Rightarrow> bool) \<Rightarrow> (nat \<Rightarrow> ('k, 'v) contents \<Rightarrow> ('k, 'v) contents) \<Rightarrow> nat
    \<Rightarrow> 'k list \<Rightarrow> ('k, 'v) contents \<Rightarrow> ('k, 'v) contents \<times> bool" where
  "lean_delete_batches now stops envs n keys c =
     (if keys = [] then (c, False)
      else if stops n then (envs n c, True)
      else lean_delete_batches now stops envs (Suc n) (drop cleanup_batch_size keys)
             (fold (delete_expired now) (take cleanup_batch_size keys) (envs n c)))"
  by pat_completeness auto
termination
  by (relation "measure (\<lambda>(_, _, _, _, keys, _). length keys)") (auto simp: cleanup_batch_size_def)

declare lean_delete_batches.simps [simp del]

text \<open>The result is the new contents and whether the goroutine returned.\<close>

definition lean_cleanup_tick ::
  "instant \<Rightarrow> (nat \<Rightarrow> bool) \<Rightarrow> (nat \<Rightarrow> ('k, 'v) contents \<Rightarrow> ('k, 'v) contents)
    \<Rightarrow> ('k, 'v) contents \<Rightarrow> ('k, 'v) contents \<times> bool" where
  "lean_cleanup_tick now stops envs c =
     (let keys = scan_expired now c
      in if keys = [] then (c, False) else lean_delete_batches now stops envs 0 keys c)"

text \<open>
  What the worker's select receives: a tick, with the strong reference that may be gone by
  then, or the closed stop channel.
\<close>

datatype ('k, 'v) cleanup_event =
  Tick instant bool "nat \<Rightarrow> bool" "nat \<Rightarrow> ('k, 'v) contents \<Rightarrow> ('k, 'v) contents"
| Stopped

fun lean_cleanup :: "('k, 'v) cleanup_event list \<Rightarrow> ('k, 'v) contents \<Rightarrow> ('k, 'v) contents \<times> bool"
  where
  "lean_cleanup [] c = (c, False)"
| "lean_cleanup (Stopped # es) c = (c, True)"
| "lean_cleanup (Tick now collected stops envs # es) c =
     (if collected then (c, True)
      else let (c1, returned) = lean_cleanup_tick now stops envs c
           in if returned then (c1, True) else lean_cleanup es c1)"

text \<open>
  Range calls its function on the pairs it visits, in some order; a visited pair was in the
  map at some moment of the call, not necessarily at the moment it is deleted.
\<close>

fun fast_cleanup_range ::
  "instant \<Rightarrow> (('k \<times> 'v item) \<times> (('k, 'v) contents \<Rightarrow> ('k, 'v) contents)) list
    \<Rightarrow> ('k, 'v) contents \<Rightarrow> ('k, 'v) contents" where
  "fast_cleanup_range now [] c = c"
| "fast_cleanup_range now (((key, it), env) # visits) c =
     fast_cleanup_range now visits
       (if item_expiration it \<noteq> 0 \<and> now > item_expiration it
        then compare_and_delete key it (env c) else env c)"

text \<open>Without other goroutines Range visits every entry once.\<close>

definition fast_cleanup_tick :: "instant \<Rightarrow> ('k, 'v) contents \<Rightarrow> ('k, 'v) contents" where
  "fast_cleanup_tick now c = fast_cleanup_range now (map (\<lambda>e. (e, id)) c) c"

lemmas cache_defs [go_defs] = lean_set_def lean_add_def lean_replace_def lean_item_def lean_get_def
  lean_delete_def lean_clear_def fast_set_def fast_item_def fast_get_def fast_delete_def
  fast_clear_def load_or_store_def compare_and_swap_def compare_and_delete_def zero_item_def

section \<open>What a cache promises\<close>

text \<open>
  The reference: a map from keys to items, whose expired items have no effect at all.
  Results carry a value only with a success indicator, except Add's, which is always the
  stored value.
\<close>

datatype ('k, 'v) cache_op =
  OpSet 'k 'v "cache_option list"
| OpAdd 'k 'v "cache_option list"
| OpReplace 'k 'v "cache_option list"
| OpGet 'k
| OpDelete 'k
| OpClear

datatype 'v cache_result = Done | Stored 'v bool | Replaced bool | Found "'v option"

definition purge :: "instant \<Rightarrow> ('k \<Rightarrow> 'v item option) \<Rightarrow> 'k \<Rightarrow> 'v item option" where
  "purge t m = (\<lambda>k. case m k of None \<Rightarrow> None | Some it \<Rightarrow> if expired t it then None else Some it)"

definition fresh_item :: "cache_base \<Rightarrow> instant \<Rightarrow> 'v \<Rightarrow> cache_option list \<Rightarrow> 'v item" where
  "fresh_item b t v opts = \<lparr>item_value = v, item_expiration = duration_option_to_time b opts t\<rparr>"

fun spec_step ::
  "cache_base \<Rightarrow> instant \<Rightarrow> ('k, 'v) cache_op \<Rightarrow> ('k \<Rightarrow> 'v item option)
    \<Rightarrow> ('k \<Rightarrow> 'v item option) \<times> 'v cache_result" where
  "spec_step b t (OpSet k v opts) m = (m(k \<mapsto> fresh_item b t v opts), Done)"
| "spec_step b t (OpAdd k v opts) m =
     (case m k of
        None \<Rightarrow> (m(k \<mapsto> fresh_item b t v opts), Stored v True)
      | Some it \<Rightarrow> (m, Stored (item_value it) False))"
| "spec_step b t (OpReplace k v opts) m =
     (case m k of
        None \<Rightarrow> (m, Replaced False)
      | Some it \<Rightarrow>
          (m(k \<mapsto> if opts = [] then it\<lparr>item_value := v\<rparr> else fresh_item b t v opts), Replaced True))"
| "spec_step b t (OpGet k) m = (m, Found (map_option item_value (m k)))"
| "spec_step b t (OpDelete k) m = (m(k := None), Found (map_option item_value (m k)))"
| "spec_step b t OpClear m = (Map.empty, Done)"

fun spec_run ::
  "cache_base \<Rightarrow> (instant \<times> ('k, 'v) cache_op) list \<Rightarrow> ('k \<Rightarrow> 'v item option) \<Rightarrow> 'v cache_result list"
  where
  "spec_run b [] m = []"
| "spec_run b ((t, e) # es) m =
     (let (m', r) = spec_step b t e (purge t m) in r # spec_run b es m')"

text \<open>A run of a cache: one operation after the other, each at one instant.\<close>

fun store_run ::
  "(instant \<Rightarrow> ('k, 'v) cache_op \<Rightarrow> 'c \<Rightarrow> ('c \<times> 'v cache_result) option)
    \<Rightarrow> (instant \<times> ('k, 'v) cache_op) list \<Rightarrow> 'c \<Rightarrow> ('c \<times> 'v cache_result list) option" where
  "store_run step [] c = Some (c, [])"
| "store_run step ((t, e) # es) c =
     (case step t e c of
        None \<Rightarrow> None
      | Some (c1, r) \<Rightarrow> map_option (\<lambda>(c2, rs). (c2, r # rs)) (store_run step es c1))"

lemma expired_mono: "t \<le> u \<Longrightarrow> expired t it \<Longrightarrow> expired u it"
  by (auto simp: expired_def split: if_splits)

lemma purge_purge: "t \<le> u \<Longrightarrow> purge u (purge t m) = purge u m"
  by (auto simp: purge_def fun_eq_iff split: option.splits dest: expired_mono)

lemma purge_idem [simp]: "purge t (purge t m) = purge t m"
  by (simp add: purge_purge)

lemma fresh_not_expired [simp]: "\<not> expired t (fresh_item b t v opts)"
  by (auto simp: expired_def fresh_item_def duration_option_to_time_def Let_def)

lemma expired_value_update [simp]: "expired t (it\<lparr>item_value := v\<rparr>) = expired t it"
  by (simp add: expired_def)

lemma purge_upd: "\<not> expired t it \<Longrightarrow> purge t (m(k \<mapsto> it)) = (purge t m)(k \<mapsto> it)"
  by (auto simp: purge_def)

lemma purge_del: "purge t (m(k := None)) = (purge t m)(k := None)"
  by (auto simp: purge_def)

lemma purge_del_expired: "m k = Some it \<Longrightarrow> expired t it \<Longrightarrow> (purge t m)(k := None) = purge t m"
  by (auto simp: purge_def)

lemma purge_empty [simp]: "purge t Map.empty = Map.empty"
  by (simp add: purge_def)

lemma purge_None: "purge t m k = None \<longleftrightarrow> (\<forall>it. m k = Some it \<longrightarrow> expired t it)"
  by (auto simp: purge_def split: option.splits)

lemma purge_Some: "purge t m k = Some it \<longleftrightarrow> m k = Some it \<and> \<not> expired t it"
  by (auto simp: purge_def split: option.splits)

text \<open>
  The interface that both caches implement (the Cache interface of cache.go): what each
  operation answers and leaves behind, seen through the items that are unexpired now.
\<close>

locale expiring_store =
  fixes b :: cache_base
    and step :: "instant \<Rightarrow> ('k, 'v) cache_op \<Rightarrow> 'c \<Rightarrow> ('c \<times> 'v cache_result) option"
    and view :: "'c \<Rightarrow> 'k \<Rightarrow> 'v item option"
  assumes set_law: "\<exists>c'. step t (OpSet k v opts) c = Some (c', Done)
      \<and> purge t (view c') = (purge t (view c))(k \<mapsto> fresh_item b t v opts)"
    and add_absent: "purge t (view c) k = None \<Longrightarrow>
      \<exists>c'. step t (OpAdd k v opts) c = Some (c', Stored v True)
        \<and> purge t (view c') = (purge t (view c))(k \<mapsto> fresh_item b t v opts)"
    and add_present: "purge t (view c) k = Some it \<Longrightarrow>
      \<exists>c'. step t (OpAdd k v opts) c = Some (c', Stored (item_value it) False)
        \<and> purge t (view c') = purge t (view c)"
    and replace_absent: "purge t (view c) k = None \<Longrightarrow>
      \<exists>c'. step t (OpReplace k v opts) c = Some (c', Replaced False)
        \<and> purge t (view c') = purge t (view c)"
    and replace_present: "purge t (view c) k = Some it \<Longrightarrow>
      \<exists>c'. step t (OpReplace k v opts) c = Some (c', Replaced True)
        \<and> purge t (view c') = (purge t (view c))
            (k \<mapsto> if opts = [] then it\<lparr>item_value := v\<rparr> else fresh_item b t v opts)"
    and get_law: "\<exists>c'. step t (OpGet k) c = Some (c', Found (map_option item_value (purge t (view c) k)))
        \<and> purge t (view c') = purge t (view c)"
    and delete_law: "\<exists>c'. step t (OpDelete k) c
          = Some (c', Found (map_option item_value (purge t (view c) k)))
        \<and> purge t (view c') = (purge t (view c))(k := None)"
    and clear_law: "\<exists>c'. step t OpClear c = Some (c', Done) \<and> purge t (view c') = Map.empty"
begin

lemma step_refines:
  "\<exists>c'. step t e c = Some (c', snd (spec_step b t e (purge t (view c))))
    \<and> purge t (view c') = fst (spec_step b t e (purge t (view c)))"
proof (cases e)
  case (OpAdd k v opts)
  then show ?thesis
    using add_absent [of t c k] add_present [of t c k]
    by (cases "purge t (view c) k") auto
next
  case (OpReplace k v opts)
  then show ?thesis
    using replace_absent [of t c k] replace_present [of t c k]
    by (cases "purge t (view c) k") auto
qed (use set_law get_law delete_law clear_law in auto)

lemma run_refines:
  assumes "sorted (map fst es)" and "\<forall>t \<in> set (map fst es). t0 \<le> t"
    and "purge t0 (view c) = purge t0 m"
  shows "\<exists>c'. store_run step es c = Some (c', spec_run b es m)"
  using assms
proof (induction es arbitrary: c m t0)
  case (Cons te es)
  obtain t e where te: "te = (t, e)" by fastforce
  have "t0 \<le> t" using Cons.prems(2) te by simp
  then have same: "purge t (view c) = purge t m"
    using Cons.prems(3) purge_purge by metis
  obtain c1 where one: "step t e c = Some (c1, snd (spec_step b t e (purge t m)))"
    and view1: "purge t (view c1) = fst (spec_step b t e (purge t m))"
    using step_refines [of t e c] same by auto
  then have "purge t (view c1) = purge t (fst (spec_step b t e (purge t m)))"
    by (metis purge_idem)
  with Cons.IH [of t c1] Cons.prems(1) te
  obtain c' where "store_run step es c1 = Some (c', spec_run b es (fst (spec_step b t e (purge t m))))"
    by auto
  with one te show ?case by (auto simp: Let_def split: prod.splits)
qed simp

text \<open>A value that was set is found until its item expires, and no longer.\<close>

lemma get_after_set:
  assumes "t \<le> u" and "step t (OpSet k v opts) c = Some (c1, r)"
  shows "\<exists>c2. step u (OpGet k) c1 = Some (c2,
    Found (if expired u (fresh_item b t v opts) then None else Some v))"
proof -
  have "purge t (view c1) = (purge t (view c))(k \<mapsto> fresh_item b t v opts)"
    using set_law [of t k v opts c] assms(2) by auto
  then have "purge u (view c1) k = purge u ((purge t (view c))(k \<mapsto> fresh_item b t v opts)) k"
    using assms(1) purge_purge by metis
  also have "\<dots> = (if expired u (fresh_item b t v opts) then None else Some (fresh_item b t v opts))"
    by (simp add: purge_def)
  finally show ?thesis using get_law [of u k c1] by (auto simp: fresh_item_def)
qed

end

section \<open>Both caches keep the promise\<close>

text \<open>One operation of each cache, undisturbed, at one instant.\<close>

definition found :: "'v \<times> bool \<Rightarrow> 'v cache_result" where
  "found r = Found (if snd r then Some (fst r) else None)"

fun lean_step ::
  "cache_base \<Rightarrow> 'v \<Rightarrow> instant \<Rightarrow> ('k, 'v) cache_op \<Rightarrow> ('k, 'v) contents
    \<Rightarrow> (('k, 'v) contents \<times> 'v cache_result) option" where
  "lean_step b z t (OpSet k v opts) c = Some (lean_set b t k v opts c, Done)"
| "lean_step b z t (OpAdd k v opts) c =
     (let (c', v', added) = lean_add b t t k v opts c in Some (c', Stored v' added))"
| "lean_step b z t (OpReplace k v opts) c =
     (let (c', ok) = lean_replace b t t k v opts c in Some (c', Replaced ok))"
| "lean_step b z t (OpGet k) c = (let (c', r) = lean_get z t t id k c in Some (c', found r))"
| "lean_step b z t (OpDelete k) c = (let (c', r) = lean_delete z t k c in Some (c', found r))"
| "lean_step b z t OpClear c = Some (lean_clear c, Done)"

fun fast_step ::
  "cache_base \<Rightarrow> 'v \<Rightarrow> instant \<Rightarrow> ('k, 'v) cache_op \<Rightarrow> ('k, 'v) contents
    \<Rightarrow> (('k, 'v) contents \<times> 'v cache_result) option" where
  "fast_step b z t (OpSet k v opts) c = Some (fast_set b t k v opts c, Done)"
| "fast_step b z t (OpAdd k v opts) c =
     map_option (\<lambda>(c', v', added). (c', Stored v' added)) (fast_add b t (\<lambda>_. t) (\<lambda>_. id) k v opts c)"
| "fast_step b z t (OpReplace k v opts) c =
     map_option (\<lambda>(c', ok). (c', Replaced ok))
       (fast_replace b (\<lambda>_. t) (\<lambda>_. t) (\<lambda>_. id) k v opts c)"
| "fast_step b z t (OpGet k) c = (let (c', r) = fast_get z t id k c in Some (c', found r))"
| "fast_step b z t (OpDelete k) c = (let (c', r) = fast_delete z t k c in Some (c', found r))"
| "fast_step b z t OpClear c = Some (fast_clear c, Done)"

lemma fresh_item_fold:
  "\<lparr>item_value = v, item_expiration = duration_option_to_time b opts t\<rparr> = fresh_item b t v opts"
  "it\<lparr>item_value := v, item_expiration := duration_option_to_time b opts t\<rparr> = fresh_item b t v opts"
  unfolding fresh_item_def by simp_all

lemma value_update_fold:
  "\<lparr>item_value = v, item_expiration = item_expiration it\<rparr> = it\<lparr>item_value := v\<rparr>"
  by simp

lemma fresh_item_value [simp]: "item_value (fresh_item b t v opts) = v"
  by (simp add: fresh_item_def)

lemma delete_absent: "map_of c k = None \<Longrightarrow> AList.delete k c = c"
  by (simp add: AList.delete_notin_dom map_of_eq_None_iff)

lemma purge_apply: "purge t m k = (case m k of None \<Rightarrow> None
    | Some it \<Rightarrow> if expired t it then None else Some it)"
  by (simp add: purge_def)

lemmas purge_rules = purge_upd purge_del purge_del_expired purge_apply fresh_item_fold

interpretation lean: expiring_store b "lean_step b z" map_of for b z
  by unfold_locales
    (auto simp: cache_defs found_def purge_rules Let_def split: option.splits if_splits)

lemma fast_add_loop_quiet:
  "fast_add_loop (\<lambda>_. t) (\<lambda>_. id) n key it c = Some
     (case map_of c key of
        None \<Rightarrow> (AList.update key it c, item_value it, True)
      | Some old \<Rightarrow> if \<not> expired t old then (c, item_value old, False)
                   else (AList.update key it c, item_value it, True))"
  by (subst fast_add_loop.simps)
     (simp add: load_or_store_def compare_and_swap_def Let_def split: option.splits)

lemma fast_replace_loop_quiet:
  "fast_replace_loop b (\<lambda>_. t) (\<lambda>_. t) (\<lambda>_. id) n key v opts c = Some
     (case map_of c key of
        None \<Rightarrow> (c, False)
      | Some old \<Rightarrow> if expired t old then (AList.delete key c, False)
                   else (AList.update key (if opts = [] then old\<lparr>item_value := v\<rparr>
                                           else fresh_item b t v opts) c, True))"
  by (subst fast_replace_loop.simps)
     (auto simp: compare_and_delete_def compare_and_swap_def fresh_item_fold value_update_fold Let_def
       split: option.splits)

lemmas fast_quiet = fast_add_def fast_replace_def fast_add_loop_quiet fast_replace_loop_quiet

text \<open>Undisturbed and at one instant, the two caches do the same to the same contents.\<close>

lemma fast_step_is_lean_step: "fast_step = lean_step"
proof (intro ext)
  show "fast_step b z t e c = lean_step b z t e c" for b z t e c
    by (cases e) (auto simp: cache_defs fast_quiet found_def Let_def fresh_item_fold delete_absent
        split: option.splits if_splits)
qed

interpretation fast: expiring_store b "fast_step b z" map_of for b z
  unfolding fast_step_is_lean_step by unfold_locales
    (fact lean.set_law lean.add_absent lean.add_present lean.replace_absent lean.replace_present
      lean.get_law lean.delete_law lean.clear_law)+

text \<open>C26: Both caches implement the same reference store. For every sequence of Set, Add,
  Replace, Get, Delete and Clear calls at non-decreasing times, LeanCache and FastCache
  return what a map without its expired items returns, and leave the same contents.\<close>

theorem caches_refine_spec:
  assumes "sorted (map fst es)"
  shows "\<exists>c'. store_run (lean_step b z) es c = Some (c', spec_run b es (map_of c))
    \<and> store_run (fast_step b z) es c = Some (c', spec_run b es (map_of c))"
proof (cases es)
  case (Cons te es')
  then obtain c' where "store_run (lean_step b z) es c = Some (c', spec_run b es (map_of c))"
    using lean.run_refines [of es "fst te" c "map_of c" b z] assms by auto
  then show ?thesis by (auto simp: fast_step_is_lean_step)
qed simp

theorem caches_refine_spec_witness:
  "\<exists>c'. store_run (lean_step zero_base (0::int))
      [(5, OpSet ''a'' 1 [with_custom_expiration 3]), (9, OpGet ''a''), (9, OpAdd ''a'' 2 [])] []
      = Some (c', [Done, Found None, Stored 2 True])"
  using caches_refine_spec [of "[(5, OpSet ''a'' 1 [with_custom_expiration 3]), (9, OpGet ''a''),
      (9, OpAdd ''a'' 2 [])]" zero_base "0::int" "[]"]
  by (auto simp: purge_def expired_def fresh_item_def duration_option_to_time_def Let_def
      with_custom_expiration_def zero_base_def)

section \<open>The operations under interference\<close>

text \<open>The contents after \<open>k\<close> rounds of interference from round \<open>n\<close> on.\<close>

fun env_path :: "(nat \<Rightarrow> 'c \<Rightarrow> 'c) \<Rightarrow> nat \<Rightarrow> nat \<Rightarrow> 'c \<Rightarrow> 'c" where
  "env_path env n 0 c = c"
| "env_path env n (Suc k) c = env_path env (Suc n) k (env n c)"

lemma env_path_snoc: "env_path env n (Suc k) c = env (n + k) (env_path env n k c)"
  by (induction k arbitrary: n c) auto

text \<open>What an Add that took effect on the contents \<open>s\<close> at time \<open>t\<close> leaves and returns.\<close>

definition add_effect ::
  "instant \<Rightarrow> 'k \<Rightarrow> 'v item \<Rightarrow> ('k, 'v) contents \<Rightarrow> ('k, 'v) contents \<times> 'v \<times> bool" where
  "add_effect t key it s =
     (case purge t (map_of s) key of
        None \<Rightarrow> (AList.update key it s, item_value it, True)
      | Some old \<Rightarrow> (s, item_value old, False))"

definition quiet_from :: "nat \<Rightarrow> 'k \<Rightarrow> (nat \<Rightarrow> ('k, 'v) contents \<Rightarrow> ('k, 'v) contents) \<Rightarrow> bool" where
  "quiet_from n0 key env \<longleftrightarrow> (\<forall>m\<ge>n0. \<forall>s. map_of (env m s) key = map_of s key)"

lemma fast_add_loop_effect:
  assumes "quiet_from n0 key env"
  shows "\<exists>k s. (s = env_path env n k c \<or> s = env_path env n (Suc k) c)
    \<and> fast_add_loop clk env n key it c = Some (add_effect (clk (n + k)) key it s)"
proof (induction "n0 - n" arbitrary: n c rule: less_induct)
  case less
  show ?case
  proof (cases "\<exists>old. map_of c key = Some old \<and> expired (clk n) old
      \<and> map_of (env n c) key \<noteq> Some old")
    case False
    then have "fast_add_loop clk env n key it c = Some (add_effect (clk n) key it c)
        \<or> fast_add_loop clk env n key it c = Some (add_effect (clk n) key it (env n c))"
      by (subst (1 2) fast_add_loop.simps)
         (auto simp: load_or_store_def compare_and_swap_def add_effect_def purge_apply Let_def
           split: option.splits)
    then show ?thesis
      by (intro exI [of _ 0]) (auto)
  next
    case True
    then obtain old where old: "map_of c key = Some old" "expired (clk n) old"
      "map_of (env n c) key \<noteq> Some old" by blast
    then have "n < n0" using assms by (force simp: quiet_from_def not_less [symmetric])
    then have "n0 - Suc n < n0 - n" by simp
    from less [OF this, of "env n c"] obtain k s where "s = env_path env (Suc n) k (env n c) \<or> s = env_path env (Suc n) (Suc k) (env n c)"
      and "fast_add_loop clk env (Suc n) key it (env n c) = Some (add_effect (clk (Suc n + k)) key it s)"
      by blast
    moreover have "fast_add_loop clk env n key it c = fast_add_loop clk env (Suc n) key it (env n c)"
      using old by (subst fast_add_loop.simps)
        (simp add: load_or_store_def compare_and_swap_def Let_def)
    ultimately show ?thesis by (intro exI [of _ "Suc k"] exI [of _ s]) auto
  qed
qed

text \<open>C27: FastCache.Add is linearizable, and its loop ends. If other goroutines stop changing
  the key at some point, Add returns, and its result and the contents it leaves are those of
  an atomic add on contents that the cache really had during the call.\<close>

theorem fast_add_linearizable:
  assumes "quiet_from n0 key env"
  shows "\<exists>n k. fast_add b t0 clk env key val opts c
    = Some (add_effect (clk k) key (fresh_item b t0 val opts) (env_path env 0 n c)) \<and> n \<in> {k, Suc k}"
  using fast_add_loop_effect [OF assms, of 0 c clk "fresh_item b t0 val opts"]
  by (auto simp: fast_add_def fresh_item_fold simp del: env_path.simps)

text \<open>What a Replace may answer and leave.\<close>

definition replace_item :: "cache_base \<Rightarrow> instant \<Rightarrow> 'v \<Rightarrow> cache_option list \<Rightarrow> 'v item \<Rightarrow> 'v item" where
  "replace_item b t v opts it =
     (if opts = [] then it\<lparr>item_value := v\<rparr> else fresh_item b t v opts)"

definition replace_effect ::
  "cache_base \<Rightarrow> instant \<Rightarrow> instant \<Rightarrow> 'k \<Rightarrow> 'v \<Rightarrow> cache_option list
    \<Rightarrow> ('k, 'v) contents \<Rightarrow> ('k, 'v) contents \<Rightarrow> ('k, 'v) contents \<times> bool \<Rightarrow> bool" where
  "replace_effect b t t2 key v opts s s' r \<longleftrightarrow>
     (case purge t (map_of s) key of
        None \<Rightarrow> \<not> snd r \<and> (fst r = s \<or> purge t (map_of (fst r)) = purge t (map_of s'))
      | Some it \<Rightarrow> snd r \<and> map_of s' key = Some it
                   \<and> fst r = AList.update key (replace_item b t2 v opts it) s')"

lemma fast_replace_loop_effect:
  assumes "quiet_from n0 key env"
  shows "\<exists>k r. fast_replace_loop b clk clk2 env n key v opts c = Some r
    \<and> replace_effect b (clk (n + k)) (clk2 (n + k)) key v opts
        (env_path env n k c) (env_path env n (Suc k) c) r"
proof (induction "n0 - n" arbitrary: n c rule: less_induct)
  case less
  show ?case
  proof (cases "\<exists>old. map_of c key = Some old \<and> \<not> expired (clk n) old
      \<and> map_of (env n c) key \<noteq> Some old")
    case False
    then have "\<exists>r. fast_replace_loop b clk clk2 env n key v opts c = Some r
        \<and> replace_effect b (clk n) (clk2 n) key v opts c (env n c) r"
      by (subst fast_replace_loop.simps)
         (auto simp: compare_and_swap_def compare_and_delete_def replace_effect_def replace_item_def
           fresh_item_fold value_update_fold purge_apply purge_del purge_del_expired Let_def
           split: option.splits)
    then show ?thesis by (intro exI [of _ 0]) auto
  next
    case True
    then obtain old where old: "map_of c key = Some old" "\<not> expired (clk n) old"
      "map_of (env n c) key \<noteq> Some old" by blast
    then have "n < n0" using assms by (force simp: quiet_from_def not_less [symmetric])
    then have "n0 - Suc n < n0 - n" by simp
    from less [OF this, of "env n c"] obtain k r where "fast_replace_loop b clk clk2 env (Suc n) key v opts (env n c) = Some r"
      "replace_effect b (clk (Suc n + k)) (clk2 (Suc n + k)) key v opts
        (env_path env (Suc n) k (env n c)) (env_path env (Suc n) (Suc k) (env n c)) r"
      by blast
    moreover have "fast_replace_loop b clk clk2 env n key v opts c
        = fast_replace_loop b clk clk2 env (Suc n) key v opts (env n c)"
      using old by (subst fast_replace_loop.simps) (simp add: compare_and_swap_def Let_def)
    ultimately show ?thesis by (intro exI [of _ "Suc k"] exI [of _ r]) auto
  qed
qed

text \<open>Another goroutine stores the key during the first iteration, and nothing happens later.\<close>

definition demo_env :: "nat \<Rightarrow> (string, int) contents \<Rightarrow> (string, int) contents" where
  "demo_env n c = (if n = 0 then AList.update ''a'' \<lparr>item_value = 7, item_expiration = 0\<rparr> c else c)"

lemma demo_env_quiet: "quiet_from 1 ''a'' demo_env"
  by (simp add: quiet_from_def demo_env_def)

theorem fast_add_linearizable_witness:
  "\<exists>n k. fast_add zero_base 1 (\<lambda>_. 5) demo_env ''a'' 8 []
      [(''a'', \<lparr>item_value = 6, item_expiration = 3\<rparr>)]
    = Some (add_effect 5 ''a'' (fresh_item zero_base 1 8 [])
        (env_path demo_env 0 n [(''a'', \<lparr>item_value = 6, item_expiration = 3\<rparr>)])) \<and> n \<in> {k, Suc k}"
  by (rule fast_add_linearizable [OF demo_env_quiet])

text \<open>FastCache.Replace is linearizable, and its loop ends. If other goroutines stop
  changing the key at some point, Replace returns; it answers true exactly when it swapped
  an item that was unexpired when loaded and still there at the swap, whose expiration it
  keeps unless it got a new one, and it answers false only when the key was absent or
  expired, removing nothing that is unexpired.\<close>

theorem fast_replace_linearizable:
  assumes "quiet_from n0 key env"
  shows "\<exists>k r. fast_replace b clk clk2 env key v opts c = Some r
    \<and> replace_effect b (clk k) (clk2 k) key v opts (env_path env 0 k c) (env_path env 0 (Suc k) c) r"
  using fast_replace_loop_effect [OF assms, of b clk clk2 0 v opts c]
  by (auto simp: fast_replace_def simp del: env_path.simps)

theorem fast_replace_linearizable_witness:
  "\<exists>k r. fast_replace zero_base (\<lambda>_. 5) (\<lambda>_. 6) demo_env ''a'' 8 []
      [(''a'', \<lparr>item_value = 6, item_expiration = 9\<rparr>)] = Some r
    \<and> replace_effect zero_base 5 6 ''a'' 8 []
        (env_path demo_env 0 k [(''a'', \<lparr>item_value = 6, item_expiration = 9\<rparr>)])
        (env_path demo_env 0 (Suc k) [(''a'', \<lparr>item_value = 6, item_expiration = 9\<rparr>)]) r"
  using fast_replace_linearizable [OF demo_env_quiet, of zero_base "\<lambda>_. 5" "\<lambda>_. 6"] by blast

text \<open>
  What Item may answer when the contents are \<open>c\<close> at its first look and \<open>c1\<close> (after the
  interference) at its second one.
\<close>

definition item_effect ::
  "'v \<Rightarrow> instant \<Rightarrow> instant \<Rightarrow> 'k \<Rightarrow> ('k, 'v) contents \<Rightarrow> ('k, 'v) contents
    \<Rightarrow> ('k, 'v) contents \<times> 'v item \<times> bool \<Rightarrow> bool" where
  "item_effect z t1 t2 key c c1 r \<longleftrightarrow>
     (\<exists>t \<in> {t1, t2}. \<exists>s \<in> {c, c1}.
        fst (snd r) = (case purge t (map_of s) key of None \<Rightarrow> zero_item z | Some it \<Rightarrow> it)
        \<and> snd (snd r) = (purge t (map_of s) key \<noteq> None))
     \<and> (\<exists>s \<in> {c, c1}. \<exists>t \<in> {t1, t2}. purge t (map_of (fst r)) = purge t (map_of s))"

text \<open>C28: Item and Get tell the truth under interference. Whatever other goroutines do
  between their two critical sections, both caches answer what the cache held, unexpired,
  at one of the two looks (the zero value and false when it held nothing), and the lazy
  deletion never removes an unexpired item, even one that was stored in between.\<close>

theorem item_sound:
  "item_effect z t1 t2 key c (env c) (lean_item z t1 t2 env key c)
   \<and> item_effect z t1 t1 key c (env c) (fast_item z t1 env key c)"
proof
  show "item_effect z t1 t2 key c (env c) (lean_item z t1 t2 env key c)"
    by (auto simp: item_effect_def lean_item_def purge_rules Let_def split: option.splits)
  show "item_effect z t1 t1 key c (env c) (fast_item z t1 env key c)"
    by (auto simp: item_effect_def fast_item_def compare_and_delete_def purge_rules split: option.splits)
qed

section \<open>Cleanup\<close>

lemma expired_iff: "expired now it \<longleftrightarrow> item_expiration it \<noteq> 0 \<and> now > item_expiration it"
  by (simp add: expired_def)

lemma delete_expired_keeps:
  "map_of c key = Some it \<Longrightarrow> \<not> expired now it \<Longrightarrow> map_of (delete_expired now k c) key = Some it"
  by (auto simp: delete_expired_def expired_iff split: option.splits)

lemma delete_expired_fold_keeps:
  "map_of c key = Some it \<Longrightarrow> \<not> expired now it
    \<Longrightarrow> map_of (fold (delete_expired now) ks c) key = Some it"
  by (induction ks arbitrary: c) (auto intro: delete_expired_keeps)

text \<open>The interference leaves the entry alone.\<close>

definition preserves :: "'k \<Rightarrow> 'v item \<Rightarrow> (('k, 'v) contents \<Rightarrow> ('k, 'v) contents) \<Rightarrow> bool" where
  "preserves key it env \<longleftrightarrow> (\<forall>c. map_of c key = Some it \<longrightarrow> map_of (env c) key = Some it)"

lemma lean_delete_batches_keeps:
  assumes "map_of c key = Some it" and "\<not> expired now it" and "\<forall>n. preserves key it (envs n)"
  shows "map_of (fst (lean_delete_batches now stops envs n keys c)) key = Some it"
  using assms(1)
proof (induction "length keys" arbitrary: n keys c rule: less_induct)
  case less
  have kept: "map_of (envs n c) key = Some it" using less.prems assms(3) by (simp add: preserves_def)
  show ?case
  proof (cases "keys = [] \<or> stops n")
    case True
    with kept less.prems show ?thesis by (subst lean_delete_batches.simps) auto
  next
    case False
    then have "length (drop cleanup_batch_size keys) < length keys"
      by (simp add: cleanup_batch_size_def)
    from less.hyps [OF this delete_expired_fold_keeps [OF kept assms(2)]] False
    show ?thesis by (subst lean_delete_batches.simps) simp
  qed
qed

fun event_keeps :: "'k \<Rightarrow> 'v item \<Rightarrow> ('k, 'v) cleanup_event \<Rightarrow> bool" where
  "event_keeps key it (Tick now collected stops envs) \<longleftrightarrow>
     \<not> expired now it \<and> (\<forall>n. preserves key it (envs n))"
| "event_keeps key it Stopped \<longleftrightarrow> True"

lemma lean_cleanup_keeps:
  assumes "map_of c key = Some it" and "\<forall>e \<in> set es. event_keeps key it e"
  shows "map_of (fst (lean_cleanup es c)) key = Some it"
  using assms
proof (induction es arbitrary: c)
  case (Cons e es)
  show ?case
  proof (cases e)
    case (Tick now collected stops envs)
    have "map_of (fst (lean_cleanup_tick now stops envs c)) key = Some it"
      using lean_delete_batches_keeps [OF Cons.prems(1)] Cons.prems(2) Tick
      by (simp add: lean_cleanup_tick_def Let_def Cons.prems(1))
    with Cons Tick show ?thesis
      by (auto simp: case_prod_beta)
  qed (use Cons in auto)
qed simp

lemma compare_and_delete_keeps:
  "map_of c key = Some it \<Longrightarrow> it \<noteq> it' \<Longrightarrow> map_of (compare_and_delete k it' c) key = Some it"
  by (auto simp: compare_and_delete_def)

lemma fast_cleanup_range_keeps:
  assumes "map_of c key = Some it" and "\<not> expired now it"
    and "\<forall>v \<in> set visits. preserves key it (snd v)"
  shows "map_of (fast_cleanup_range now visits c) key = Some it"
  using assms
proof (induction visits arbitrary: c)
  case (Cons v visits)
  obtain k it' env where v: "v = ((k, it'), env)" by (metis prod.exhaust)
  have env: "map_of (env c) key = Some it" using Cons.prems v by (simp add: preserves_def)
  show ?case
  proof (cases "expired now it'")
    case True
    then have "it \<noteq> it'" using Cons.prems(2) by auto
    with env have "map_of (compare_and_delete k it' (env c)) key = Some it"
      by (rule compare_and_delete_keeps)
    with Cons True v show ?thesis by (simp add: expired_iff)
  next
    case False
    with Cons v env show ?thesis by (auto simp: expired_iff)
  qed
qed simp

text \<open>Cleanup never removes an unexpired item. For any ticks of either worker, any
  interference and any moment of the stop signal, an entry that no other goroutine touches
  and that is unexpired at the ticks is still there afterwards with its value.\<close>

theorem cleanup_keeps_unexpired:
  assumes "map_of c key = Some it"
    and "\<forall>e \<in> set es. event_keeps key it e"
    and "\<not> expired now it" and "\<forall>v \<in> set visits. preserves key it (snd v)"
  shows "map_of (fst (lean_cleanup es c)) key = Some it
    \<and> map_of (fast_cleanup_range now visits c) key = Some it"
  using lean_cleanup_keeps [OF assms(1,2)] fast_cleanup_range_keeps [OF assms(1,3,4)] by simp

definition demo_contents :: "(string, int) contents" where
  "demo_contents = [(''old'', \<lparr>item_value = 1, item_expiration = 4\<rparr>),
                    (''new'', \<lparr>item_value = 2, item_expiration = 40\<rparr>)]"

theorem cleanup_keeps_unexpired_witness:
  "map_of (fst (lean_cleanup [Tick 9 False (\<lambda>_. False) (\<lambda>_. id), Stopped] demo_contents)) ''new''
      = Some \<lparr>item_value = 2, item_expiration = 40\<rparr>
   \<and> map_of (fast_cleanup_range 9 [(hd demo_contents, AList.delete ''x'')] demo_contents) ''new''
      = Some \<lparr>item_value = 2, item_expiration = 40\<rparr>"
  by (rule cleanup_keeps_unexpired)
     (simp_all add: demo_contents_def expired_def preserves_def)

lemma delete_expired_apply:
  "map_of (delete_expired now k c) k' = (if k' = k then purge now (map_of c) k' else map_of c k')"
  by (auto simp: delete_expired_def purge_apply expired_iff split: option.splits)

lemma delete_expired_fold_apply:
  "map_of (fold (delete_expired now) ks c) k
    = (if k \<in> set ks then purge now (map_of c) k else map_of c k)"
  by (induction ks arbitrary: c)
     (auto simp: delete_expired_apply purge_apply split: option.splits if_splits)

lemma lean_delete_batches_all:
  "lean_delete_batches now (\<lambda>_. False) (\<lambda>_. id) n ks c = (fold (delete_expired now) ks c, False)"
proof (induction "length ks" arbitrary: n ks c rule: less_induct)
  case less
  show ?case
  proof (cases "ks = []")
    case True
    then show ?thesis by (subst lean_delete_batches.simps) simp
  next
    case False
    then have "length (drop cleanup_batch_size ks) < length ks" by (simp add: cleanup_batch_size_def)
    from less [OF this] False show ?thesis
      by (subst lean_delete_batches.simps)
         (simp add: fold_append [symmetric, THEN fun_cong, unfolded o_apply])
  qed
qed

lemma scan_expired_not_in:
  "k \<notin> set (scan_expired now c) \<Longrightarrow> purge now (map_of c) k = map_of c k"
  by (force simp: scan_expired_def purge_apply expired_iff split: option.splits dest: map_of_SomeD)

lemma fast_cleanup_range_apply:
  "map_of (fast_cleanup_range now (map (\<lambda>e. (e, id)) es) c) k
    = (if \<exists>it. (k, it) \<in> set es \<and> expired now it \<and> map_of c k = Some it then None else map_of c k)"
  by (induction es arbitrary: c)
     (auto simp: compare_and_delete_def expired_iff split: prod.splits if_splits)

text \<open>An undisturbed tick of either cleanup worker removes all the expired items and nothing
  else, in as many batches of 256 keys as it takes.\<close>

theorem cleanup_complete:
  "map_of (fst (lean_cleanup_tick now (\<lambda>_. False) (\<lambda>_. id) c)) = purge now (map_of c)
   \<and> map_of (fast_cleanup_tick now c) = purge now (map_of c)"
proof
  show "map_of (fst (lean_cleanup_tick now (\<lambda>_. False) (\<lambda>_. id) c)) = purge now (map_of c)"
  proof
    fix k
    show "map_of (fst (lean_cleanup_tick now (\<lambda>_. False) (\<lambda>_. id) c)) k = purge now (map_of c) k"
      using scan_expired_not_in [of k now c]
      by (auto simp: lean_cleanup_tick_def lean_delete_batches_all delete_expired_fold_apply Let_def)
  qed
  show "map_of (fast_cleanup_tick now c) = purge now (map_of c)"
    by (auto simp: fast_cleanup_tick_def fast_cleanup_range_apply purge_def fun_eq_iff
        split: option.splits dest: map_of_SomeD)
qed

section \<open>Listing\<close>

lemma fast_keys_eq: "fast_keys now c = lean_keys now c"
proof -
  have "fold (\<lambda>(k, it) ks. if listed now it then ks @ [k] else ks) c acc = acc @ lean_keys now c" for acc
    by (induction c arbitrary: acc) (auto simp: lean_keys_def)
  then show ?thesis by (simp add: fast_keys_def)
qed

lemma item_count_eq:
  "lean_item_count now c = length (lean_keys now c)" "fast_item_count now c = length (lean_keys now c)"
proof -
  have "fold (\<lambda>(k, it) n. if listed now it then n + 1 else n) c acc
      = acc + length (lean_keys now c)" for acc
    by (induction c arbitrary: acc) (auto simp: lean_keys_def)
  then show "lean_item_count now c = length (lean_keys now c)"
    and "fast_item_count now c = length (lean_keys now c)"
    by (simp_all add: lean_item_count_def fast_item_count_def)
qed

lemma keys_items: "lean_keys now c = map fst (lean_items now c)"
  by (induction c) (auto simp: lean_keys_def lean_items_def)

lemma lean_keys_iff:
  "distinct (map fst c) \<Longrightarrow> k \<in> set (lean_keys now c)
    \<longleftrightarrow> (\<exists>it. map_of c k = Some it \<and> listed now it)"
  by (force simp: lean_keys_def)

text \<open>Keys, Items and ItemCount of both caches list the same items, and agree with Get
  except at one instant: at an item's very expiration time Get still finds it, while the
  listings already leave it out.\<close>

theorem listing_agrees_with_get:
  assumes "distinct (map fst c)" and "0 < now"
  shows "(k \<in> set (lean_keys now c)) = (snd (snd (lean_get z now now id k c))
      \<and> map_option item_expiration (map_of c k) \<noteq> Some now)
    \<and> fast_keys now c = lean_keys now c \<and> map fst (lean_items now c) = lean_keys now c
    \<and> fast_items now c = lean_items now c
    \<and> lean_item_count now c = length (lean_keys now c)
    \<and> fast_item_count now c = length (lean_keys now c)
    \<and> fast_len c = lean_len c"
proof -
  have "fold (\<lambda>_ l. l + 1) c acc = acc + length c" for acc
    by (induction c arbitrary: acc) auto
  then have "fast_len c = lean_len c" by (simp add: fast_len_def lean_len_def)
  moreover have "(k \<in> set (lean_keys now c)) = (snd (snd (lean_get z now now id k c))
      \<and> map_option item_expiration (map_of c k) \<noteq> Some now)"
    using assms(2)
    by (auto simp: lean_keys_iff [OF assms(1)] lean_get_def lean_item_def listed_def expired_iff Let_def
        zero_item_def split: option.splits)
  ultimately show ?thesis
    by (simp add: fast_keys_eq item_count_eq keys_items fast_items_def lean_items_def)
qed

theorem listing_agrees_with_get_witness:
  "lean_keys 40 demo_contents = [] \<and> snd (snd (lean_get 0 40 40 id ''new'' demo_contents))
   \<and> fast_keys 40 demo_contents = lean_keys 40 demo_contents"
  using listing_agrees_with_get [of demo_contents 40 "''new''" 0]
  by (simp add: demo_contents_def lean_keys_def listed_def lean_get_def lean_item_def expired_def)

end
