(* ===== verification/GoStrings.thy ===== *)
theory GoStrings
  imports Prelude
begin

text \<open>
  The functions of Go's standard library on strings and numbers that the modelled code
  calls: strings.ToLower, TrimSpace, Fields, Split, Cut, Contains, Join, TrimPrefix,
  TrimSuffix, strconv.Atoi, strconv.Itoa and time.ParseDuration.

  A Go string is a sequence of bytes, modelled as a \<open>char list\<close>. Case mapping and the
  white-space class are the ASCII part of Go's Unicode tables: the strings these functions
  see are configuration keys, schedules, header names and other ASCII text, and bytes
  above 127 are left as they are.
\<close>

section \<open>Characters\<close>

definition char_code :: "char \<Rightarrow> nat" where
  "char_code c = of_char c"

definition is_upper :: "char \<Rightarrow> bool" where
  "is_upper c \<longleftrightarrow> 65 \<le> char_code c \<and> char_code c \<le> 90"

definition is_digit :: "char \<Rightarrow> bool" where
  "is_digit c \<longleftrightarrow> 48 \<le> char_code c \<and> char_code c \<le> 57"

definition is_space :: "char \<Rightarrow> bool" where
  "is_space c \<longleftrightarrow> char_code c = 32 \<or> (9 \<le> char_code c \<and> char_code c \<le> 13)"

definition to_lower_char :: "char \<Rightarrow> char" where
  "to_lower_char c = (if is_upper c then char_of (char_code c + 32) else c)"

definition to_lower :: "string \<Rightarrow> string" where
  "to_lower s = map to_lower_char s"

definition is_lower :: "char \<Rightarrow> bool" where
  "is_lower c \<longleftrightarrow> 97 \<le> char_code c \<and> char_code c \<le> 122"

definition to_upper_char :: "char \<Rightarrow> char" where
  "to_upper_char c = (if is_lower c then char_of (char_code c - 32) else c)"

definition to_upper :: "string \<Rightarrow> string" where
  "to_upper s = map to_upper_char s"

definition digit_val :: "char \<Rightarrow> nat" where
  "digit_val c = char_code c - 48"

lemmas char_defs = char_code_def is_upper_def is_lower_def is_digit_def is_space_def
  to_lower_char_def to_upper_char_def digit_val_def

lemma char_code_char_of [simp]: "n < 256 \<Longrightarrow> char_code (char_of n) = n"
  by (simp add: char_code_def)

lemma to_lower_char_idem [simp]: "to_lower_char (to_lower_char c) = to_lower_char c"
  by (auto simp: to_lower_char_def is_upper_def)

lemma to_lower_idem [simp]: "to_lower (to_lower s) = to_lower s"
  by (simp add: to_lower_def)

lemma to_lower_append [simp]: "to_lower (s @ t) = to_lower s @ to_lower t"
  by (simp add: to_lower_def)

lemma length_to_lower [simp]: "length (to_lower s) = length s"
  by (simp add: to_lower_def)

lemma to_lower_Nil_iff [simp]: "to_lower s = [] \<longleftrightarrow> s = []"
  by (simp add: to_lower_def)

section \<open>Trimming, splitting and joining\<close>

definition trim_left :: "(char \<Rightarrow> bool) \<Rightarrow> string \<Rightarrow> string" where
  "trim_left P s = dropWhile P s"

definition trim_right :: "(char \<Rightarrow> bool) \<Rightarrow> string \<Rightarrow> string" where
  "trim_right P s = rev (dropWhile P (rev s))"

definition trim_space :: "string \<Rightarrow> string" where
  "trim_space s = trim_right is_space (trim_left is_space s)"

text \<open>
  \<open>split_by P\<close> cuts at every byte that satisfies \<open>P\<close> and keeps empty pieces, as
  strings.Split does for a one-byte separator; strings.Fields is the non-empty pieces
  between white space.
\<close>

fun split_by :: "(char \<Rightarrow> bool) \<Rightarrow> string \<Rightarrow> string list" where
  "split_by P [] = [[]]"
| "split_by P (c # cs) =
     (if P c then [] # split_by P cs
      else (case split_by P cs of [] \<Rightarrow> [[c]] | w # ws \<Rightarrow> (c # w) # ws))"

definition split_char :: "char \<Rightarrow> string \<Rightarrow> string list" where
  "split_char d s = split_by (\<lambda>c. c = d) s"

definition str_fields :: "string \<Rightarrow> string list" where
  "str_fields s = filter (\<lambda>w. w \<noteq> []) (split_by is_space s)"

fun join :: "string \<Rightarrow> string list \<Rightarrow> string" where
  "join sep [] = []"
| "join sep [s] = s"
| "join sep (s # t # ts) = s @ sep @ join sep (t # ts)"

text \<open>strings.Cut for a one-byte separator: what is before it, what is after it, found.\<close>

fun cut :: "char \<Rightarrow> string \<Rightarrow> string \<times> string \<times> bool" where
  "cut d [] = ([], [], False)"
| "cut d (c # cs) =
     (if c = d then ([], cs, True)
      else (let (b, a, f) = cut d cs in (c # b, a, f)))"

definition has_prefix :: "string \<Rightarrow> string \<Rightarrow> bool" where
  "has_prefix s p \<longleftrightarrow> take (length p) s = p"

definition trim_prefix :: "string \<Rightarrow> string \<Rightarrow> string" where
  "trim_prefix s p = (if has_prefix s p then drop (length p) s else s)"

definition has_suffix :: "string \<Rightarrow> string \<Rightarrow> bool" where
  "has_suffix s p \<longleftrightarrow> has_prefix (rev s) (rev p)"

definition trim_suffix :: "string \<Rightarrow> string \<Rightarrow> string" where
  "trim_suffix s p = (if has_suffix s p then take (length s - length p) s else s)"

fun str_contains :: "string \<Rightarrow> string \<Rightarrow> bool" where
  "str_contains [] p = (p = [])"
| "str_contains (c # cs) p = (has_prefix (c # cs) p \<or> str_contains cs p)"

definition contains_any :: "string \<Rightarrow> string \<Rightarrow> bool" where
  "contains_any s cs \<longleftrightarrow> list_ex (\<lambda>c. c \<in> set cs) s"

lemma split_by_not_Nil [simp]: "split_by P s \<noteq> []"
  by (induction s) (auto split: list.splits)

lemma split_char_not_Nil [simp]: "split_char d s \<noteq> []"
  by (simp add: split_char_def)

lemma split_by_no_sep: "w \<in> set (split_by P s) \<Longrightarrow> c \<in> set w \<Longrightarrow> \<not> P c"
proof (induction s arbitrary: w)
  case (Cons x xs)
  then show ?case
    by (cases "split_by P xs") (fastforce split: if_splits)+
qed simp

lemma split_char_no_sep: "w \<in> set (split_char d s) \<Longrightarrow> d \<notin> set w"
  by (auto simp: split_char_def dest: split_by_no_sep)

lemma join_Cons: "ts \<noteq> [] \<Longrightarrow> join sep (t # ts) = t @ sep @ join sep ts"
  by (cases ts) auto

lemma join_split_char: "join [d] (split_char d s) = s"
proof (induction s)
  case (Cons x xs)
  then show ?case
    by (cases "split_char d xs" rule: list.exhaust)
       (auto simp: split_char_def join_Cons split: list.splits,
        metis append_Cons join.simps(2) join_Cons)
qed (simp add: split_char_def)

lemma split_by_append_sep:
  "\<forall>c \<in> set w. \<not> P c \<Longrightarrow> P d \<Longrightarrow> split_by P (w @ d # s) = w # split_by P s"
  by (induction w) auto

lemma split_by_plain: "\<forall>c \<in> set w. \<not> P c \<Longrightarrow> split_by P w = [w]"
  by (induction w) auto

lemma split_char_join:
  "ws \<noteq> [] \<Longrightarrow> (\<And>w. w \<in> set ws \<Longrightarrow> d \<notin> set w) \<Longrightarrow> split_char d (join [d] ws) = ws"
proof (induction ws)
  case (Cons w ws)
  then have w: "\<forall>c \<in> set w. \<not> c = d" by auto
  show ?case
  proof (cases "ws = []")
    case True
    with w show ?thesis by (simp add: split_char_def split_by_plain)
  next
    case False
    with Cons w show ?thesis
      by (simp add: join_Cons split_char_def split_by_append_sep)
  qed
qed simp

lemma cut_found: "cut d s = (b, a, True) \<Longrightarrow> s = b @ d # a \<and> d \<notin> set b"
proof (induction s arbitrary: b)
  case (Cons c cs)
  then show ?case by (cases "cut d cs") (auto split: if_splits)
qed simp

lemma cut_not_found: "cut d s = (b, a, False) \<Longrightarrow> b = s \<and> a = [] \<and> d \<notin> set s"
proof (induction s arbitrary: b)
  case (Cons c cs)
  then show ?case by (cases "cut d cs") (auto split: if_splits)
qed simp

lemma cut_append: "d \<notin> set b \<Longrightarrow> cut d (b @ d # a) = (b, a, True)"
  by (induction b) auto

lemma cut_absent: "d \<notin> set s \<Longrightarrow> cut d s = (s, [], False)"
  by (induction s) auto

lemma cut_cases:
  obtains (found) b a where "cut d s = (b, a, True)" "s = b @ d # a" "d \<notin> set b"
  | (absent) "cut d s = (s, [], False)" "d \<notin> set s"
  using cut_found cut_not_found by (cases "cut d s") (metis (full_types))

section \<open>Numbers\<close>

fun digits_to_nat :: "nat \<Rightarrow> string \<Rightarrow> nat option" where
  "digits_to_nat n [] = Some n"
| "digits_to_nat n (c # cs) =
     (if is_digit c then digits_to_nat (10 * n + digit_val c) cs else None)"

text \<open>strconv.Atoi: an optional sign, at least one decimal digit, and a 64-bit result.\<close>

definition atoi :: "string \<Rightarrow> int option" where
  "atoi s =
     (let neg = (case s of c # _ \<Rightarrow> c = CHR ''-'' | [] \<Rightarrow> False);
          ds = (case s of c # cs \<Rightarrow> if c = CHR ''-'' \<or> c = CHR ''+'' then cs else s | [] \<Rightarrow> [])
      in if ds = [] then None
         else case digits_to_nat 0 ds of
                None \<Rightarrow> None
              | Some n \<Rightarrow>
                  (let v = (if neg then - int n else int n)
                   in if in_int64 v then Some v else None))"

text \<open>strconv.Itoa for non-negative numbers.\<close>

definition digit_char :: "nat \<Rightarrow> char" where
  "digit_char d = char_of (48 + d)"

fun itoa :: "nat \<Rightarrow> string" where
  "itoa n = (if n < 10 then [digit_char n] else itoa (n div 10) @ [digit_char (n mod 10)])"

declare itoa.simps [simp del]

lemma itoa_not_Nil [simp]: "itoa n \<noteq> []"
  by (subst itoa.simps) simp

lemma digit_char_digit: "d < 10 \<Longrightarrow> is_digit (digit_char d) \<and> digit_val (digit_char d) = d"
  by (simp add: digit_char_def is_digit_def digit_val_def)

lemma digits_to_nat_append:
  "digits_to_nat n (s @ t) =
     (case digits_to_nat n s of None \<Rightarrow> None | Some m \<Rightarrow> digits_to_nat m t)"
  by (induction s arbitrary: n) auto

lemma digits_to_nat_itoa: "digits_to_nat 0 (itoa n) = Some n"
proof (induction n rule: itoa.induct)
  case (1 n)
  then show ?case
    by (subst itoa.simps) (auto simp: digits_to_nat_append digit_char_digit)
qed

lemma itoa_inj: "itoa m = itoa n \<longleftrightarrow> m = n"
  by (metis digits_to_nat_itoa option.inject)

lemma itoa_digits: "c \<in> set (itoa n) \<Longrightarrow> is_digit c"
proof (induction n rule: itoa.induct)
  case (1 n)
  then show ?case
    by (subst (asm) (2) itoa.simps) (auto simp: digit_char_digit split: if_splits)
qed

end
