(* ===== verification/GoDuration.thy ===== *)
theory GoDuration
  imports GoStrings
begin

text \<open>
  time.ParseDuration and Duration.String of Go's standard library, which every timeout,
  interval and batching window of a configuration goes through. Both follow the library's
  algorithm, its 64-bit overflow checks included, except that a fraction such as \<open>1.5h\<close>
  is computed exactly (the library multiplies by a float64, which can differ in the last
  nanosecond for fractions that are not a whole number of nanoseconds).
\<close>

section \<open>Parsing\<close>

definition duration_unit :: "string \<Rightarrow> nat option" where
  "duration_unit u =
     (if u = ''ns'' then Some 1
      else if u = ''us'' then Some 1000
      else if u = [char_of (194::nat), char_of (181::nat), CHR ''s''] then Some 1000
      else if u = [char_of (206::nat), char_of (188::nat), CHR ''s''] then Some 1000
      else if u = ''ms'' then Some 1000000
      else if u = ''s'' then Some 1000000000
      else if u = ''m'' then Some 60000000000
      else if u = ''h'' then Some 3600000000000
      else None)"

fun leading_int :: "nat \<Rightarrow> string \<Rightarrow> nat option" where
  "leading_int x [] = Some x"
| "leading_int x (c # cs) =
     (if x > 2 ^ 63 div 10 then None
      else let y = 10 * x + digit_val c
           in if y > 2 ^ 63 then None else leading_int y cs)"

fun leading_fraction :: "nat \<Rightarrow> nat \<Rightarrow> string \<Rightarrow> nat \<times> nat" where
  "leading_fraction x scale [] = (x, scale)"
| "leading_fraction x scale (c # cs) =
     (if x > (2 ^ 63 - 1) div 10 then (x, scale)
      else let y = 10 * x + digit_val c
           in if y > 2 ^ 63 then (x, scale) else leading_fraction y (10 * scale) cs)"

definition unit_char :: "char \<Rightarrow> bool" where
  "unit_char c \<longleftrightarrow> c \<noteq> CHR ''.'' \<and> \<not> is_digit c"

text \<open>One number with its unit, and the rest of the input.\<close>

definition parse_one_unit :: "string \<Rightarrow> (nat \<times> string) option" where
  "parse_one_unit s =
     (let pre = takeWhile is_digit s; r1 = dropWhile is_digit s;
          dot = (case r1 of c # _ \<Rightarrow> c = CHR ''.'' | [] \<Rightarrow> False);
          r2 = (if dot then tl r1 else r1);
          post = (if dot then takeWhile is_digit r2 else []);
          r3 = (if dot then dropWhile is_digit r2 else r1);
          u = takeWhile unit_char r3; rest = dropWhile unit_char r3
      in if pre = [] \<and> post = [] then None
         else case leading_int 0 pre of None \<Rightarrow> None
         | Some v \<Rightarrow>
             (if u = [] then None
              else case duration_unit u of None \<Rightarrow> None
              | Some un \<Rightarrow>
                  (if v > 2 ^ 63 div un then None
                   else let (f, scale) = leading_fraction 0 1 post;
                            w = v * un + f * un div scale
                        in if w > 2 ^ 63 then None else Some (w, rest))))"

lemma parse_one_unit_shorter:
  assumes "parse_one_unit s = Some (v, rest)"
  shows "length rest < length s"
proof -
  define r1 where "r1 = dropWhile is_digit s"
  define dot where "dot = (case r1 of c # _ \<Rightarrow> c = CHR ''.'' | [] \<Rightarrow> False)"
  define r3 where "r3 = (if dot then dropWhile is_digit (tl r1) else r1)"
  have rest: "rest = dropWhile unit_char r3" and u: "takeWhile unit_char r3 \<noteq> []"
    using assms
    by (auto simp: parse_one_unit_def Let_def r1_def dot_def r3_def
        split: if_splits option.splits prod.splits)
  have "length r1 \<le> length s" by (simp add: r1_def length_dropWhile_le)
  moreover have "length r3 \<le> length r1"
    by (simp add: r3_def) (metis diff_le_self le_trans length_dropWhile_le length_tl)
  moreover have "length rest < length r3"
  proof -
    have "length r3 = length (takeWhile unit_char r3) + length (dropWhile unit_char r3)"
      by (metis length_append takeWhile_dropWhile_id)
    with u rest show ?thesis by simp
  qed
  ultimately show ?thesis by simp
qed

function parse_units :: "nat \<Rightarrow> string \<Rightarrow> nat option" where
  "parse_units d s =
     (if s = [] then Some d
      else case parse_one_unit s of None \<Rightarrow> None
           | Some (v, rest) \<Rightarrow>
               (let d' = (d + v) mod 2 ^ 64
                in if d' > 2 ^ 63 then None else parse_units d' rest))"
  by pat_completeness auto
termination
  by (relation "measure (\<lambda>(d, s). length s)") (auto dest: parse_one_unit_shorter)

declare parse_units.simps [simp del]

lemma parse_units_Nil [simp]: "parse_units d [] = Some d"
  by (simp add: parse_units.simps)

definition parse_duration :: "string \<Rightarrow> duration option" where
  "parse_duration orig =
     (let neg = (case orig of c # _ \<Rightarrow> c = CHR ''-'' | [] \<Rightarrow> False);
          s = (case orig of c # cs \<Rightarrow> if c = CHR ''-'' \<or> c = CHR ''+'' then cs else orig | [] \<Rightarrow> [])
      in if s = ''0'' then Some 0
         else if s = [] then None
         else case parse_units 0 s of None \<Rightarrow> None
              | Some d \<Rightarrow>
                  (if neg then Some (- int d)
                   else if d > 2 ^ 63 - 1 then None else Some (int d)))"

lemma parse_units_bound: "d \<le> 2 ^ 63 \<Longrightarrow> parse_units d s = Some r \<Longrightarrow> r \<le> 2 ^ 63"
proof (induction d s rule: parse_units.induct)
  case (1 d s)
  show ?case
  proof (cases "s = []")
    case True
    with "1.prems" show ?thesis by simp
  next
    case False
    with "1.prems" obtain v rest where one: "parse_one_unit s = Some (v, rest)"
      and le: "(d + v) mod 2 ^ 64 \<le> 2 ^ 63"
      and rec: "parse_units ((d + v) mod 2 ^ 64) rest = Some r"
      by (subst (asm) parse_units.simps) (auto simp: Let_def split: option.splits if_splits)
    show ?thesis
      using "1.IH" [OF False one [symmetric, THEN sym] refl refl _ le rec] le by simp
  qed
qed

lemma parse_duration_int64: "parse_duration s = Some d \<Longrightarrow> in_int64 d"
  by (auto simp: parse_duration_def in_int64_def Let_def
      dest!: parse_units_bound [of 0, simplified] split: if_splits option.splits)

section \<open>Printing\<close>

fun strip_zeros :: "string \<Rightarrow> string" where
  "strip_zeros s = rev (dropWhile (\<lambda>c. c = CHR ''0'') (rev s))"

definition pad_left :: "nat \<Rightarrow> string \<Rightarrow> string" where
  "pad_left n s = replicate (n - length s) (CHR ''0'') @ s"

definition fmt_frac :: "nat \<Rightarrow> nat \<Rightarrow> string" where
  "fmt_frac prec v =
     (let ds = strip_zeros (pad_left prec (itoa (v mod 10 ^ prec)))
      in if prec = 0 \<or> ds = [] then [] else CHR ''.'' # ds)"

definition duration_string :: "duration \<Rightarrow> string" where
  "duration_string d =
     (let u = nat \<bar>d\<bar>;
          body =
            (if u = 0 then ''0s''
             else if u < 1000 then itoa u @ ''ns''
             else if u < 1000000 then itoa (u div 1000) @ fmt_frac 3 u
                @ [char_of (194::nat), char_of (181::nat), CHR ''s'']
             else if u < 1000000000 then itoa (u div 1000000) @ fmt_frac 6 u @ ''ms''
             else let sec = u div 1000000000; mi = sec div 60; h = mi div 60
                  in (if h > 0 then itoa h @ ''h'' else [])
                     @ (if mi > 0 then itoa (mi mod 60) @ ''m'' else [])
                     @ itoa (sec mod 60) @ fmt_frac 9 u @ ''s'')
      in if d < 0 then CHR ''-'' # body else body)"

end
