(* ===== verification/Config.thy ===== *)
theory Config
  imports GoDuration Batcher
begin

text \<open>
  Reading the configuration (pkg/config/parse.go): the values of a TOML file, typed
  look-ups with defaults, bounded integers, batching limits, and the extraction of the
  sections of a kind from anywhere in the file.
\<close>

section \<open>Values\<close>

text \<open>
  What the TOML decoder puts into a \<open>map[string]any\<close>. Only strings, 64-bit integers,
  booleans, tables and arrays are ever looked at; \<open>TOther\<close> is a value of any other Go type
  (a float or a date), which type assertions reject. A table is a list of its entries, in
  the order in which a range over the Go map visits them.
\<close>

datatype toml =
  TString string
| TInt int
| TBool bool
| TOther nat
| TTable "(string \<times> toml) list"
| TArray "toml list"

type_synonym table = "(string \<times> toml) list"

fun as_string :: "toml \<Rightarrow> string option" where
  "as_string (TString s) = Some s"
| "as_string _ = None"

fun as_int :: "toml \<Rightarrow> int option" where
  "as_int (TInt n) = Some n"
| "as_int _ = None"

fun as_bool :: "toml \<Rightarrow> bool option" where
  "as_bool (TBool b) = Some b"
| "as_bool _ = None"

fun as_table :: "toml \<Rightarrow> table option" where
  "as_table (TTable t) = Some t"
| "as_table _ = None"

text \<open>Value: the type parameter is the type assertion that it makes.\<close>

definition cfg_value :: "(toml \<Rightarrow> 'a option) \<Rightarrow> table \<Rightarrow> string \<Rightarrow> 'a \<Rightarrow> 'a" where
  "cfg_value as_type cfg key default_value =
     (case map_of cfg key of
        None \<Rightarrow> default_value
      | Some any_value \<Rightarrow>
          (case as_type any_value of Some typed \<Rightarrow> typed | None \<Rightarrow> default_value))"

definition bounded_int :: "int \<Rightarrow> int \<Rightarrow> int \<Rightarrow> int" where
  "bounded_int v min_value max_value =
     (let v1 = (if v < min_value then min_value else v)
      in if v1 > max_value then max_value else v1)"

lemma bounded_int_range: "lo \<le> hi \<Longrightarrow> lo \<le> bounded_int v lo hi \<and> bounded_int v lo hi \<le> hi"
  by (simp add: bounded_int_def)

lemma bounded_int_id: "lo \<le> v \<Longrightarrow> v \<le> hi \<Longrightarrow> bounded_int v lo hi = v"
  by (simp add: bounded_int_def)

lemma bounded_int_min_max: "lo \<le> hi \<Longrightarrow> bounded_int v lo hi = min hi (max lo v)"
  by (simp add: bounded_int_def min_def max_def)

definition default_concurrency_limit :: int where
  "default_concurrency_limit = 1"

definition max_concurrency :: int where
  "max_concurrency = 100"

definition concurrency_limit :: "table \<Rightarrow> int" where
  "concurrency_limit cfg =
     (let n = cfg_value as_int cfg ''concurrency_limit'' default_concurrency_limit
      in bounded_int n default_concurrency_limit max_concurrency)"

section \<open>Batching limits\<close>

datatype config_error =
  NotATable string
| InvalidDuration
| InvalidValue string

definition max_batch_items :: int where
  "max_batch_items = 1000000"

definition max_batch_bytes :: int where
  "max_batch_bytes = 2 ^ 30"

text \<open>A raw configuration is nil when its key is absent.\<close>

definition batch_limits :: "toml option \<Rightarrow> limits \<Rightarrow> config_error + limits" where
  "batch_limits raw_cfg defaults =
     (case raw_cfg of
        None \<Rightarrow> Inr defaults
      | Some raw \<Rightarrow>
          (case as_table raw of
             None \<Rightarrow> Inl (NotATable ''batch'')
           | Some cfg \<Rightarrow>
               (let n = cfg_value as_int cfg ''max_items'' (max_items defaults);
                    b = cfg_value as_int cfg ''max_bytes'' (max_bytes defaults)
                in case parse_duration (cfg_value as_string cfg ''time_window''
                          (duration_string (batch_window defaults))) of
                     None \<Rightarrow> Inl InvalidDuration
                   | Some d \<Rightarrow>
                       Inr \<lparr>max_items = bounded_int n 0 max_batch_items,
                            max_bytes = bounded_int b 0 max_batch_bytes,
                            batch_window = max d 0\<rparr>)))"

section \<open>Sections of a kind\<close>

text \<open>
  The recursive walk over tables and arrays of tables, which does not descend into what it
  has already matched. The Go code writes each find into a map as it goes; here the walk
  lists its writes in order, and \<open>extract_submaps\<close> performs them.
\<close>

definition sub_path :: "string \<Rightarrow> string \<Rightarrow> string" where
  "sub_path path k = path @ ''.'' @ k"

definition index_path :: "string \<Rightarrow> nat \<Rightarrow> string" where
  "index_path path i = path @ ''['' @ itoa (i + 1) @ '']''"

fun matched_tables :: "string \<Rightarrow> nat \<Rightarrow> toml list \<Rightarrow> (string \<times> table) list" where
  "matched_tables path i [] = []"
| "matched_tables path i (e # es) =
     (case e of TTable m \<Rightarrow> [(index_path path i, m)] | _ \<Rightarrow> []) @ matched_tables path (Suc i) es"

definition matched :: "string \<Rightarrow> toml \<Rightarrow> (string \<times> table) list" where
  "matched path v =
     (case v of TTable t \<Rightarrow> [(path, t)] | TArray es \<Rightarrow> matched_tables path 0 es | _ \<Rightarrow> [])"

fun traverse_map :: "string \<Rightarrow> string \<Rightarrow> table \<Rightarrow> (string \<times> table) list"
  and traverse_value :: "string \<Rightarrow> string \<Rightarrow> toml \<Rightarrow> (string \<times> table) list"
  and traverse_array :: "string \<Rightarrow> string \<Rightarrow> nat \<Rightarrow> toml list \<Rightarrow> (string \<times> table) list" where
  "traverse_map key path [] = []"
| "traverse_map key path ((k, v) # cfg) =
     (if k = key then map (\<lambda>(p, t). (trim_prefix p ''root.'', t)) (matched (sub_path path k) v)
      else traverse_value key (sub_path path k) v)
     @ traverse_map key path cfg"
| "traverse_value key path (TTable t) = traverse_map key path t"
| "traverse_value key path (TArray es) = traverse_array key path 0 es"
| "traverse_value key path (TString s) = []"
| "traverse_value key path (TInt n) = []"
| "traverse_value key path (TBool b) = []"
| "traverse_value key path (TOther n) = []"
| "traverse_array key path i [] = []"
| "traverse_array key path i (e # es) =
     (case e of TTable m \<Rightarrow> traverse_map key (index_path path i) m | _ \<Rightarrow> [])
     @ traverse_array key path (Suc i) es"

definition write_all :: "(string \<times> table) list \<Rightarrow> (string \<times> table) list" where
  "write_all ws = fold (\<lambda>(p, t) m. AList.update p t m) ws []"

definition extract_submaps :: "table \<Rightarrow> string \<Rightarrow> (string \<times> table) list" where
  "extract_submaps cfg key = write_all (traverse_map key ''root'' cfg)"

definition extract_sub_submaps :: "table \<Rightarrow> string \<Rightarrow> string list \<Rightarrow> (string \<times> table) list" where
  "extract_sub_submaps cfg key expected_subkeys =
     write_all
       (concat (map (\<lambda>(path, submap).
          concat (map (\<lambda>k. case map_of submap k of
                             None \<Rightarrow> []
                           | Some v \<Rightarrow> matched (sub_path path k) v) expected_subkeys))
          (extract_submaps cfg key)))"

lemmas config_defs [go_defs] = cfg_value_def bounded_int_def concurrency_limit_def batch_limits_def
  sub_path_def index_path_def matched_def extract_submaps_def extract_sub_submaps_def

end
