(* ===== verification/Retries.thy ===== *)
theory Retries
  imports Config
begin

text \<open>
  The retry policy of HTTP collectors and senders (pkg/http/retries.go): parsing and
  clamping of the configuration, the exponential backoff interval with jitter, and the wait
  between two attempts. Intervals are 64-bit numbers of nanoseconds; the arithmetic of the
  backoff wraps around as Go's does.
\<close>

section \<open>Configuration\<close>

datatype retry_type = RetryNone | RetryDisabled | RetryBackoff | RetryStatic

definition retry_type_of :: "string \<Rightarrow> retry_type option" where
  "retry_type_of t =
     (if t = ''none'' then Some RetryNone
      else if t = ''disabled'' then Some RetryDisabled
      else if t = ''backoff'' then Some RetryBackoff
      else if t = ''static'' then Some RetryStatic
      else None)"

definition retry_coeff_disabled :: int where "retry_coeff_disabled = 0"
definition retry_coeff_static :: int where "retry_coeff_static = 1"
definition retry_coeff_backoff :: int where "retry_coeff_backoff = 2"

record retries =
  coefficient :: int
  max_attempts :: int
  interval :: duration
  max_interval :: duration

datatype retry_error =
  RetriesNotATable
| UnrecognizedType string
| BadInterval
| BadMaxInterval

definition no_retries :: retries where
  "no_retries = \<lparr>coefficient = retry_coeff_disabled, max_attempts = 1, interval = 0, max_interval = 0\<rparr>"

definition parse_retry_interval :: "string \<Rightarrow> duration \<Rightarrow> duration \<Rightarrow> duration option" where
  "parse_retry_interval v min_interval max_intv =
     (case parse_duration v of
        None \<Rightarrow> None
      | Some d \<Rightarrow>
          (let d1 = (if d < min_interval then min_interval else d)
           in Some (if d1 > max_intv then max_intv else d1)))"

text \<open>The second half of parseRetries, for a policy that does retry.\<close>

definition parse_retry_policy :: "table \<Rightarrow> retry_type \<Rightarrow> retry_error + retries" where
  "parse_retry_policy cfg rt =
     (let attempts = bounded_int (cfg_value as_int cfg ''max_attempts'' 3) 1 10;
          r = \<lparr>coefficient = retry_coeff_backoff, max_attempts = attempts,
               interval = 0, max_interval = 0\<rparr>
      in if attempts = 1 then Inr (r\<lparr>coefficient := retry_coeff_disabled\<rparr>)
         else
           (case parse_retry_interval (cfg_value as_string cfg ''interval'' ''1s'') millisecond minute of
              None \<Rightarrow> Inl BadInterval
            | Some i \<Rightarrow>
                (if rt = RetryStatic
                 then Inr (r\<lparr>interval := i, coefficient := retry_coeff_static\<rparr>)
                 else
                   (case parse_retry_interval (cfg_value as_string cfg ''max_interval'' ''20s'')
                           i (5 * minute) of
                      None \<Rightarrow> Inl BadMaxInterval
                    | Some m \<Rightarrow>
                        (if m = i
                         then Inr (r\<lparr>interval := i, coefficient := retry_coeff_static\<rparr>)
                         else Inr (r\<lparr>interval := i, max_interval := m\<rparr>))))))"

definition parse_retries :: "toml option \<Rightarrow> string \<Rightarrow> retry_error + retries" where
  "parse_retries raw_cfg http_method =
     (case (case raw_cfg of None \<Rightarrow> Some [] | Some raw \<Rightarrow> as_table raw) of
        None \<Rightarrow> Inl RetriesNotATable
      | Some cfg \<Rightarrow>
          (if (http_method = ''PATCH'' \<or> http_method = ''POST'') \<and> length cfg = 0
           then Inr no_retries
           else
             (let t = to_lower (trim_space (cfg_value as_string cfg ''type'' ''backoff''))
              in case retry_type_of t of
                   None \<Rightarrow> Inl (UnrecognizedType t)
                 | Some rt \<Rightarrow>
                     (if rt = RetryNone \<or> rt = RetryDisabled then Inr no_retries
                      else parse_retry_policy cfg rt))))"

section \<open>Waiting\<close>

text \<open>bits.Len64: the number of bits of a non-negative number.\<close>

fun bit_len :: "nat \<Rightarrow> nat" where
  "bit_len n = (if n = 0 then 0 else Suc (bit_len (n div 2)))"

declare bit_len.simps [simp del]

text \<open>64-bit signed arithmetic that wraps around.\<close>

definition wrap64 :: "int \<Rightarrow> int" where
  "wrap64 v = (v + 2 ^ 63) mod 2 ^ 64 - 2 ^ 63"

lemma wrap64_id: "in_int64 v \<Longrightarrow> wrap64 v = v"
  by (simp add: wrap64_def in_int64_def)

text \<open>
  The interval before jitter. Go panics on a division or a remainder by zero; \<open>None\<close> is
  that panic.
\<close>

definition backoff_base :: "retries \<Rightarrow> nat \<Rightarrow> int option" where
  "backoff_base r attempt =
     (if interval r = 0 then None
      else
        (let iterations = bit_len (nat (wrap64 (go_div (max_interval r) (interval r)) mod 2 ^ 64))
         in if iterations = 0 then None
            else Some (wrap64 (interval r * 2 ^ (attempt mod iterations)))))"

text \<open>
  rand.Int64N(n) panics unless n is positive, and returns a number below n; \<open>rnd\<close> is the
  random number, of which the code's argument takes the remainder.
\<close>

definition exponential_backoff_interval :: "retries \<Rightarrow> nat \<Rightarrow> bool \<Rightarrow> nat \<Rightarrow> duration option" where
  "exponential_backoff_interval r attempt with_jitter rnd =
     (case backoff_base r attempt of
        None \<Rightarrow> None
      | Some base \<Rightarrow>
          (if \<not> with_jitter then Some base
           else if go_div base 5 \<le> 0 then None
           else
             (let jitter = int rnd mod go_div base 5
              in Some (wrap64 (go_div (wrap64 (9 * base)) 10 + jitter)))))"

text \<open>What waitBeforeRetry does: return at once, panic, or wait for the first of the events.\<close>

datatype wait = NoWait | WaitPanics | WaitUpTo duration

definition wait_before_retry :: "retries \<Rightarrow> nat \<Rightarrow> nat \<Rightarrow> wait" where
  "wait_before_retry r attempt rnd =
     (if int attempt \<ge> max_attempts r - 1 then NoWait
      else if coefficient r = retry_coeff_backoff
           then (case exponential_backoff_interval r attempt True rnd of
                   None \<Rightarrow> WaitPanics | Some i \<Rightarrow> WaitUpTo i)
      else WaitUpTo (interval r))"

lemmas retries_defs [go_defs] = parse_retries_def parse_retry_policy_def parse_retry_interval_def no_retries_def
  retry_coeff_disabled_def retry_coeff_static_def retry_coeff_backoff_def

section \<open>Properties\<close>

text \<open>What every parsed policy satisfies.\<close>

definition retries_ok :: "retries \<Rightarrow> bool" where
  "retries_ok r \<longleftrightarrow>
     1 \<le> max_attempts r \<and> max_attempts r \<le> 10
     \<and> (if max_attempts r = 1 then coefficient r = retry_coeff_disabled
        else millisecond \<le> interval r \<and> interval r \<le> minute
          \<and> (if coefficient r = retry_coeff_backoff
             then interval r < max_interval r \<and> max_interval r \<le> 5 * minute
             else coefficient r = retry_coeff_static \<and> max_interval r = 0))"

lemma parse_retry_interval_range:
  "lo \<le> hi \<Longrightarrow> parse_retry_interval v lo hi = Some d \<Longrightarrow> lo \<le> d \<and> d \<le> hi"
  by (auto simp: parse_retry_interval_def Let_def split: option.splits if_splits)

lemma parse_retry_policy_ok:
  assumes "parse_retry_policy cfg rt = Inr r"
  shows "retries_ok r"
proof -
  define a where "a = bounded_int (cfg_value as_int cfg ''max_attempts'' 3) 1 10"
  have a: "1 \<le> a" "a \<le> 10" using bounded_int_range [of 1 10] by (auto simp: a_def)
  define first where
    "first = parse_retry_interval (cfg_value as_string cfg ''interval'' ''1s'') millisecond minute"
  show ?thesis
  proof (cases "a = 1")
    case True
    with assms show ?thesis
      by (auto simp: parse_retry_policy_def a_def [symmetric] retries_ok_def Let_def)
  next
    case False
    with assms obtain i where i: "first = Some i"
      by (auto simp: parse_retry_policy_def a_def [symmetric] first_def [symmetric] Let_def
          split: option.splits)
    then have range: "millisecond \<le> i" "i \<le> minute"
      using parse_retry_interval_range [of millisecond minute] by (auto simp: first_def)
    have second: "parse_retry_interval v i 300000000000 = Some m \<Longrightarrow> i \<le> m \<and> m \<le> 300000000000"
      for v m using parse_retry_interval_range [of i 300000000000] range by auto
    with assms False i range a show ?thesis
      by (auto simp: parse_retry_policy_def a_def [symmetric] first_def [symmetric]
          retries_ok_def retry_coeff_static_def retry_coeff_backoff_def Let_def
          split: option.splits if_splits dest!: second)
  qed
qed

lemma parse_retries_ok: "parse_retries raw m = Inr r \<Longrightarrow> retries_ok r"
  by (auto simp: parse_retries_def no_retries_def retries_ok_def Let_def
      split: option.splits if_splits dest: parse_retry_policy_ok)

lemma bit_len_le: "0 < n \<Longrightarrow> 0 < bit_len n \<and> 2 ^ (bit_len n - 1) \<le> n"
proof (induction n rule: bit_len.induct)
  case (1 n)
  show ?case
  proof (cases "n = 1")
    case True
    then show ?thesis by (simp add: bit_len.simps)
  next
    case False
    with 1 have IH: "0 < bit_len (n div 2)" "2 ^ (bit_len (n div 2) - 1) \<le> n div 2" by auto
    then have "2 * 2 ^ (bit_len (n div 2) - 1) \<le> n" by linarith
    with IH(1) have "2 ^ bit_len (n div 2) \<le> n" by (simp flip: power_Suc)
    with "1.prems" show ?thesis by (subst (1 2) bit_len.simps) simp
  qed
qed

lemma backoff_base_range:
  assumes "retries_ok r" and "coefficient r = retry_coeff_backoff" and "max_attempts r \<noteq> 1"
  shows "\<exists>base k. backoff_base r attempt = Some base \<and> base = interval r * 2 ^ k
    \<and> interval r \<le> base \<and> base \<le> max_interval r
    \<and> k = attempt mod bit_len (nat (max_interval r div interval r))"
proof -
  have range: "millisecond \<le> interval r" "interval r \<le> max_interval r" "max_interval r \<le> 5 * minute"
    using assms by (auto simp: retries_ok_def)
  define q where "q = max_interval r div interval r"
  have "0 < q" using range by (simp add: q_def pos_imp_zdiv_pos_iff)
  moreover have "q \<le> max_interval r" using range unfolding q_def
    by (smt (verit) int_div_less_self div_by_1)
  ultimately have q: "0 < q" "q \<le> 5 * minute" using range by auto
  have wq: "wrap64 (go_div (max_interval r) (interval r)) mod 2 ^ 64 = q"
    using q range by (simp add: go_div_pos q_def wrap64_id in_int64_def)
  define k where "k = attempt mod bit_len (nat q)"
  have len: "0 < bit_len (nat q)" "2 ^ (bit_len (nat q) - 1) \<le> nat q"
    using bit_len_le [of "nat q"] q by auto
  have "k \<le> bit_len (nat q) - 1"
    using len(1) mod_less_divisor [of "bit_len (nat q)" attempt] unfolding k_def by linarith
  then have "(2::nat) ^ k \<le> 2 ^ (bit_len (nat q) - 1)" by (rule power_increasing) simp
  then have "(2::nat) ^ k \<le> nat q" using len(2) by (rule order_trans)
  then have "int (2 ^ k) \<le> int (nat q)" by (simp only: of_nat_le_iff)
  then have "(2::int) ^ k \<le> q" using q by simp
  then have "interval r * 2 ^ k \<le> interval r * q" using range by (simp add: mult_left_mono)
  also have "\<dots> \<le> max_interval r" unfolding q_def
    using range by (simp add: minus_mod_eq_mult_div [symmetric])
  finally have upper: "interval r * 2 ^ k \<le> max_interval r" .
  have lower: "interval r \<le> interval r * 2 ^ k" using range by simp
  define base where "base = interval r * 2 ^ k"
  have "in_int64 base"
    using upper lower range unfolding base_def [symmetric] by (simp add: in_int64_def)
  then have "in_int64 (interval r * 2 ^ k)" by (simp add: base_def)
  then have "backoff_base r attempt = Some (interval r * 2 ^ k)"
    unfolding backoff_base_def wq Let_def using range len(1) by (simp add: wrap64_id k_def)
  with upper lower show ?thesis by (auto simp: k_def q_def)
qed

text \<open>Every retry policy that is accepted is within bounds: between 1 and 10 attempts,
  and unless there is only one, an interval between a millisecond and a minute, and for
  backoff a strictly larger maximum of at most five minutes. POST and PATCH without a
  configuration are never retried.\<close>

theorem parse_retries_bounds:
  assumes "parse_retries raw m = Inr r"
  shows "retries_ok r \<and> (raw = None \<and> m \<in> {''POST'', ''PATCH''} \<longrightarrow> max_attempts r = 1)"
  using assms parse_retries_ok [OF assms] by (auto simp: parse_retries_def no_retries_def)

definition demo_raw_retries :: toml where
  "demo_raw_retries = TTable [(''interval'', TString ''2s''), (''max_attempts'', TInt 50)]"

definition demo_retries :: retries where
  "demo_retries = \<lparr>coefficient = 2, max_attempts = 10, interval = 2 * second, max_interval = 20 * second\<rparr>"

lemma parse_duration_2s: "parse_duration ''2s'' = Some (2 * second)"
  and parse_duration_20s: "parse_duration ''20s'' = Some (20 * second)"
  by (simp_all add: parse_duration_def parse_units.simps [of _ "_ # _"] parse_one_unit_def char_defs
      unit_char_def duration_unit_def Let_def)

lemma demo_retries_parsed: "parse_retries (Some demo_raw_retries) ''GET'' = Inr demo_retries"
proof -
  have "to_lower (trim_space ''backoff'') = ''backoff''" by code_simp
  then show ?thesis
    by (simp add: demo_raw_retries_def demo_retries_def retries_defs cfg_value_def bounded_int_def
        retry_type_of_def parse_duration_2s parse_duration_20s)
qed

theorem parse_retries_bounds_witness: "retries_ok demo_retries"
  using parse_retries_bounds [OF demo_retries_parsed] by simp

lemma exponential_backoff_jitter:
  assumes "retries_ok r" and "coefficient r = retry_coeff_backoff" and "max_attempts r \<noteq> 1"
  shows "\<exists>i k. exponential_backoff_interval r attempt True rnd = Some i
    \<and> interval r * 2 ^ k \<le> max_interval r
    \<and> 9 * (interval r * 2 ^ k) - 10 < 10 * i \<and> 10 * i \<le> 11 * (interval r * 2 ^ k)"
proof -
  obtain base k where base: "backoff_base r attempt = Some base" "base = interval r * 2 ^ k"
      "interval r \<le> base" "base \<le> max_interval r"
    using backoff_base_range [OF assms] by blast
  have "millisecond \<le> interval r" "max_interval r \<le> 5 * minute"
    using assms by (auto simp: retries_ok_def)
  then have range: "millisecond \<le> base" "base \<le> 5 * minute" using base(3,4) by linarith+
  define j where "j = int rnd mod (base div 5)"
  have fifth: "go_div base 5 = base div 5" "0 < base div 5" using range by (simp_all add: go_div_pos)
  then have j: "0 \<le> j" "j < base div 5" by (simp_all add: j_def)
  define i where "i = 9 * base div 10 + j"
  have i: "9 * base - 10 < 10 * i" "10 * i \<le> 11 * base" "0 \<le> i" "i \<le> 6 * minute"
  proof -
    define a where "a = 9 * base div 10"
    have "10 * a \<le> 9 * base" "9 * base - 10 < 10 * a" "0 \<le> a"
      using range by (simp_all add: a_def)
    moreover define f where "f = base div 5"
    moreover have "5 * f \<le> base" by (simp add: f_def)
    ultimately show "9 * base - 10 < 10 * i" "10 * i \<le> 11 * base" "0 \<le> i" "i \<le> 6 * minute"
      using j range unfolding i_def a_def [symmetric] by simp_all
  qed
  then have "exponential_backoff_interval r attempt True rnd = Some i"
    using fifth range
    by (simp add: exponential_backoff_interval_def base(1) wrap64_id in_int64_def go_div_pos
        j_def [symmetric] i_def [symmetric])
  with i base show ?thesis by blast
qed

text \<open>C32: Waiting between attempts never panics and is never excessive. For every accepted
  policy, whatever the attempt and the random number: there is no wait before giving up;
  otherwise a static policy waits for its interval, and a backoff policy for between 90%
  and 110% of its interval times a power of two, which itself stays within the maximum
  interval (no division by zero, no empty random range, no overflow).\<close>

theorem wait_before_retry_bounds:
  assumes "parse_retries raw m = Inr r"
  shows "(int attempt \<ge> max_attempts r - 1 \<longrightarrow> wait_before_retry r attempt rnd = NoWait)
    \<and> (int attempt < max_attempts r - 1 \<longrightarrow>
        (\<exists>i k. wait_before_retry r attempt rnd = WaitUpTo i
          \<and> (coefficient r = retry_coeff_static \<longrightarrow> i = interval r)
          \<and> (coefficient r \<noteq> retry_coeff_static \<longrightarrow>
               interval r * 2 ^ k \<le> max_interval r
               \<and> 9 * (interval r * 2 ^ k) - 10 < 10 * i \<and> 10 * i \<le> 11 * (interval r * 2 ^ k))))"
proof -
  have ok: "retries_ok r" using assms by (rule parse_retries_ok)
  show ?thesis
  proof (cases "int attempt < max_attempts r - 1 \<and> coefficient r = retry_coeff_backoff")
    case True
    then have "max_attempts r \<noteq> 1" by auto
    then obtain i k where "exponential_backoff_interval r attempt True rnd = Some i"
      "interval r * 2 ^ k \<le> max_interval r"
      "9 * (interval r * 2 ^ k) - 10 < 10 * i" "10 * i \<le> 11 * (interval r * 2 ^ k)"
      using exponential_backoff_jitter [OF ok] True by blast
    then have "wait_before_retry r attempt rnd = WaitUpTo i" and "\<not> int attempt \<ge> max_attempts r - 1"
      and "coefficient r \<noteq> retry_coeff_static"
      using True by (simp_all add: wait_before_retry_def retry_coeff_static_def retry_coeff_backoff_def)
    then show ?thesis
      using \<open>interval r * 2 ^ k \<le> max_interval r\<close> \<open>9 * (interval r * 2 ^ k) - 10 < 10 * i\<close>
        \<open>10 * i \<le> 11 * (interval r * 2 ^ k)\<close> by blast
  next
    case False
    with ok show ?thesis
      by (auto simp: wait_before_retry_def retries_ok_def split: if_splits)
  qed
qed

theorem wait_before_retry_bounds_witness:
  "\<exists>i k. wait_before_retry demo_retries 4 123456789 = WaitUpTo i
    \<and> 2 * second * 2 ^ k \<le> 20 * second
    \<and> 9 * (2 * second * 2 ^ k) - 10 < 10 * i \<and> 10 * i \<le> 11 * (2 * second * 2 ^ k)"
  using wait_before_retry_bounds [OF demo_retries_parsed, of 4 123456789]
  by (auto simp: demo_retries_def retry_coeff_static_def)

end
