(* ===== verification/Calendar.thy ===== *)
theory Calendar
  imports Prelude
begin

text \<open>
  The part of Go's time package that schedules and file names need: the proleptic Gregorian
  calendar, locations as the look-up of their time zone data, the fields of a Time in its
  location, and time.Date with its normalisation and zone adjustment.

  Days are counted from Monday, January 1st of year 1, like the zero value of time.Time.
\<close>

section \<open>The calendar\<close>

definition is_leap :: "int \<Rightarrow> bool" where
  "is_leap y \<longleftrightarrow> y mod 4 = 0 \<and> (y mod 100 \<noteq> 0 \<or> y mod 400 = 0)"

definition days_before_year :: "int \<Rightarrow> int" where
  "days_before_year y = 365 * (y - 1) + (y - 1) div 4 - (y - 1) div 100 + (y - 1) div 400"

definition year_length :: "int \<Rightarrow> int" where
  "year_length y = (if is_leap y then 366 else 365)"

text \<open>Days before a month of a common year, and of a leap year.\<close>

definition days_before_month :: "bool \<Rightarrow> int \<Rightarrow> int" where
  "days_before_month leap m =
     (if m \<le> 1 then 0 else if m = 2 then 31
      else (if m = 3 then 59 else if m = 4 then 90 else if m = 5 then 120 else if m = 6 then 151
            else if m = 7 then 181 else if m = 8 then 212 else if m = 9 then 243 else if m = 10 then 273
            else if m = 11 then 304 else if m = 12 then 334 else 365)
           + (if leap then 1 else 0))"

definition days_in_month :: "bool \<Rightarrow> int \<Rightarrow> int" where
  "days_in_month leap m = days_before_month leap (m + 1) - days_before_month leap m"

definition year_of_day :: "int \<Rightarrow> int" where
  "year_of_day d =
     (let n400 = d div 146097; d1 = d mod 146097;
          n100 = min 3 (d1 div 36524); d2 = d1 - 36524 * n100;
          n4 = d2 div 1461; d3 = d2 mod 1461;
          n1 = min 3 (d3 div 365)
      in 400 * n400 + 100 * n100 + 4 * n4 + n1 + 1)"

definition year_day :: "int \<Rightarrow> int" where
  "year_day d = d - days_before_year (year_of_day d)"

definition month_of_year_day :: "bool \<Rightarrow> int \<Rightarrow> int" where
  "month_of_year_day leap k =
     (if k < days_before_month leap 2 then 1 else if k < days_before_month leap 3 then 2
      else if k < days_before_month leap 4 then 3 else if k < days_before_month leap 5 then 4
      else if k < days_before_month leap 6 then 5 else if k < days_before_month leap 7 then 6
      else if k < days_before_month leap 8 then 7 else if k < days_before_month leap 9 then 8
      else if k < days_before_month leap 10 then 9 else if k < days_before_month leap 11 then 10
      else if k < days_before_month leap 12 then 11 else 12)"

definition month_of_day :: "int \<Rightarrow> int" where
  "month_of_day d = month_of_year_day (is_leap (year_of_day d)) (year_day d)"

definition day_of_month :: "int \<Rightarrow> int" where
  "day_of_month d = year_day d - days_before_month (is_leap (year_of_day d)) (month_of_day d) + 1"

text \<open>time.Weekday counts from Sunday; day 0 is a Monday.\<close>

definition weekday :: "int \<Rightarrow> int" where
  "weekday d = (d + 1) mod 7"

text \<open>The day of a date whose month may be out of range, as time.Date normalises it.\<close>

definition day_of_civil :: "int \<Rightarrow> int \<Rightarrow> int \<Rightarrow> int" where
  "day_of_civil y m dd =
     (let y1 = y + (m - 1) div 12; m1 = (m - 1) mod 12 + 1
      in days_before_year y1 + days_before_month (is_leap y1) m1 + dd - 1)"

lemma div_pred:
  assumes "0 < (n::int)"
  shows "y div n - (y - 1) div n = (if y mod n = 0 then 1 else 0)"
proof (cases "y mod n = 0")
  case True
  then have "y - 1 = n * (y div n - 1) + (n - 1)" by (simp add: right_diff_distrib) (metis mult_div_mod_eq add_0_right)
  then have "(y - 1) div n = y div n - 1" by (rule int_div_pos_eq) (use assms in auto)
  with True show ?thesis by simp
next
  case False
  have "y - 1 = n * (y div n) + (y mod n - 1)" by (simp add: mult_div_mod_eq)
  moreover have "0 \<le> y mod n - 1" "y mod n - 1 < n"
    using False assms pos_mod_sign [of n y] pos_mod_bound [of n y] by linarith+
  ultimately have "(y - 1) div n = y div n" by (rule int_div_pos_eq)
  with False show ?thesis by simp
qed

lemma days_before_year_Suc: "days_before_year (y + 1) = days_before_year y + year_length y"
proof -
  define p4 p100 p400 where "p4 \<longleftrightarrow> y mod 4 = 0" and "p100 \<longleftrightarrow> y mod 100 = 0" and "p400 \<longleftrightarrow> y mod 400 = 0"
  have imp: "p400 \<Longrightarrow> p100" "p100 \<Longrightarrow> p4"
    using mod_mod_cancel [of 100 400 y] mod_mod_cancel [of 4 100 y]
    by (simp_all add: p4_def p100_def p400_def)
  define a4 a100 a400 where "a4 = (y - 1) div 4" and "a100 = (y - 1) div 100" and "a400 = (y - 1) div 400"
  have d: "y div 4 = a4 + of_bool p4" "y div 100 = a100 + of_bool p100" "y div 400 = a400 + of_bool p400"
    using div_pred [of 4 y] div_pred [of 100 y] div_pred [of 400 y]
    unfolding a4_def a100_def a400_def p4_def [symmetric] p100_def [symmetric] p400_def [symmetric]
    by (simp_all add: of_bool_def)
  have "days_before_year (y + 1) = 365 * y + (a4 + of_bool p4) - (a100 + of_bool p100) + (a400 + of_bool p400)"
    unfolding days_before_year_def d [symmetric] by simp
  moreover have "days_before_year y = 365 * (y - 1) + a4 - a100 + a400"
    by (simp add: days_before_year_def a4_def a100_def a400_def)
  moreover have "year_length y = 365 + of_bool p4 - of_bool p100 + of_bool p400"
    unfolding year_length_def is_leap_def p4_def [symmetric] p100_def [symmetric] p400_def [symmetric]
    using imp by (cases p4; cases p100; cases p400) auto
  ultimately show ?thesis by simp
qed

lemma year_length_pos: "0 < year_length y" "365 \<le> year_length y" "year_length y \<le> 366"
  by (simp_all add: year_length_def)

text \<open>A number cut off at three whole parts, as in centuries and years of a cycle.\<close>

lemma min3_div:
  assumes "0 \<le> (x::int)" and "x \<le> 4 * n" and "0 < n"
  shows "0 \<le> min 3 (x div n)" and "min 3 (x div n) \<le> 3" and "0 \<le> x - n * min 3 (x div n)"
    and "min 3 (x div n) < 3 \<Longrightarrow> x - n * min 3 (x div n) < n"
    and "x - n * min 3 (x div n) \<le> n"
proof -
  define k where "k = x div n"
  have k: "x = n * k + x mod n" "0 \<le> x mod n" "x mod n < n" using assms(3) by (simp_all add: k_def)
  have "0 \<le> k" using assms by (simp add: k_def pos_imp_zdiv_nonneg_iff)
  then show "0 \<le> min 3 (x div n)" "min 3 (x div n) \<le> 3" by (simp_all add: k_def)
  show "0 \<le> x - n * min 3 (x div n)" "min 3 (x div n) < 3 \<Longrightarrow> x - n * min 3 (x div n) < n"
    "x - n * min 3 (x div n) \<le> n"
  proof -
    have "n * 3 \<le> x" if "3 \<le> k"
    proof -
      have "n * 3 \<le> n * k" using that assms(3) by simp
      with k show ?thesis by linarith
    qed
    moreover have "x - n * k = x mod n" using k by linarith
    ultimately show "0 \<le> x - n * min 3 (x div n)" "min 3 (x div n) < 3 \<Longrightarrow> x - n * min 3 (x div n) < n"
      "x - n * min 3 (x div n) \<le> n"
      using k(2,3) assms(2) unfolding k_def [symmetric] by (cases "3 \<le> k"; simp add: min_def)+
  qed
qed

lemma year_of_day_bounds:
  "days_before_year (year_of_day d) \<le> d \<and> d < days_before_year (year_of_day d + 1)"
proof -
  define a where "a = d div 146097"
  define d1 where "d1 = d mod 146097"
  define b where "b = min 3 (d1 div 36524)"
  define d2 where "d2 = d1 - 36524 * b"
  define c where "c = d2 div 1461"
  define d3 where "d3 = d2 mod 1461"
  define e where "e = min 3 (d3 div 365)"
  define f where "f = d3 - 365 * e"
  have d: "d = 146097 * a + d1" "0 \<le> d1" "d1 < 146097" by (simp_all add: a_def d1_def)
  have b: "0 \<le> b" "b \<le> 3" "0 \<le> d2" "b < 3 \<Longrightarrow> d2 < 36524" "d2 \<le> 36524"
    using min3_div [of d1 36524] d(2,3) unfolding b_def [symmetric] d2_def [symmetric] by auto
  have c: "d2 = 1461 * c + d3" "0 \<le> d3" "d3 < 1461" by (simp_all add: c_def d3_def)
  have c': "0 \<le> c" "c \<le> 24" "b < 3 \<longrightarrow> c = 24 \<longrightarrow> d3 < 1460"
    using b c by auto
  have e: "0 \<le> e" "e \<le> 3" "0 \<le> f" "e < 3 \<Longrightarrow> f < 365" "f \<le> 365"
    using min3_div [of d3 365] c(2,3) unfolding e_def [symmetric] f_def [symmetric] by auto
  define y where "y = 400 * a + 100 * b + 4 * c + e + 1"
  have year: "year_of_day d = y"
    by (simp add: year_of_day_def Let_def a_def d1_def b_def d2_def c_def d3_def e_def y_def)
  have div4: "(y - 1) div 4 = 100 * a + 25 * b + c"
    by (rule int_div_pos_eq [where r = e]) (use e in \<open>auto simp: y_def\<close>)
  have div100: "(y - 1) div 100 = 4 * a + b"
    by (rule int_div_pos_eq [where r = "4 * c + e"]) (use e c' in \<open>auto simp: y_def\<close>)
  have div400: "(y - 1) div 400 = a"
    by (rule int_div_pos_eq [where r = "100 * b + 4 * c + e"]) (use e c' b in \<open>auto simp: y_def\<close>)
  have start: "days_before_year y = d - f"
    unfolding days_before_year_def div4 div100 div400
    using d c(1) by (simp add: y_def f_def d2_def)
  have leap: "is_leap y" if "f = 365"
  proof -
    have e3: "e = 3" using that e(2,4) by (cases "e = 3") auto
    have y4: "y = 4 * (100 * a + 25 * b + c + 1)" using e3 by (simp add: y_def)
    then have "y mod 4 = 0" by simp
    show ?thesis
    proof (cases "c = 24")
      case False
      then have "y = 100 * (4 * a + b) + 4 * (c + 1)" "0 < 4 * (c + 1)" "4 * (c + 1) < 100"
        using c' y4 by simp_all
      then have "y mod 100 = 4 * (c + 1)" by (metis mod_mult_self4 mod_pos_pos_trivial order_less_imp_le)
      then have "y mod 100 \<noteq> 0" using c'(1) by simp
      with \<open>y mod 4 = 0\<close> show ?thesis by (simp add: is_leap_def)
    next
      case True
      have "d3 = 1460" using that e3 by (simp add: f_def)
      with True c'(3) b(2) have "b = 3" by auto
      then have "y = 400 * (a + 1)" using True y4 by simp
      then have "y mod 400 = 0" by simp
      with \<open>y mod 4 = 0\<close> show ?thesis by (simp add: is_leap_def)
    qed
  qed
  have "f < year_length y" using e(5) leap by (cases "f = 365") (auto simp: year_length_def)
  with start e(3) show ?thesis unfolding year by (simp add: days_before_year_Suc)
qed

lemma days_before_year_mono: "y \<le> z \<Longrightarrow> days_before_year y + 365 * (z - y) \<le> days_before_year z"
proof (induction z rule: int_ge_induct)
  case (step i)
  then show ?case using days_before_year_Suc [of i] year_length_pos(2) [of i] by simp
qed simp

lemma year_of_day_unique:
  assumes "days_before_year y \<le> d" and "d < days_before_year (y + 1)"
  shows "year_of_day d = y"
proof (rule ccontr)
  assume ne: "year_of_day d \<noteq> y"
  note b = year_of_day_bounds [of d]
  show False
  proof (cases "year_of_day d < y")
    case True
    then have "days_before_year (year_of_day d + 1) \<le> days_before_year y"
      using days_before_year_mono [of "year_of_day d + 1" y] by simp
    with b assms show False by simp
  next
    case False
    with ne have "days_before_year (y + 1) \<le> days_before_year (year_of_day d)"
      using days_before_year_mono [of "y + 1" "year_of_day d"] by simp
    with b assms show False by simp
  qed
qed

lemma year_of_day_mono: "d \<le> d' \<Longrightarrow> year_of_day d \<le> year_of_day d'"
proof (rule ccontr)
  assume "d \<le> d'" "\<not> year_of_day d \<le> year_of_day d'"
  then have "days_before_year (year_of_day d' + 1) \<le> days_before_year (year_of_day d)"
    using days_before_year_mono [of "year_of_day d' + 1" "year_of_day d"] by simp
  with year_of_day_bounds [of d] year_of_day_bounds [of d'] \<open>d \<le> d'\<close> show False by simp
qed

lemma year_day_range: "0 \<le> year_day d \<and> year_day d < year_length (year_of_day d)"
  using year_of_day_bounds [of d] by (simp add: year_day_def days_before_year_Suc)

lemma days_before_month_vals:
  "days_before_month l 1 = 0" "days_before_month l 2 = 31"
  "days_before_month l 3 = (if l then 60 else 59)" "days_before_month l 4 = (if l then 91 else 90)"
  "days_before_month l 5 = (if l then 121 else 120)" "days_before_month l 6 = (if l then 152 else 151)"
  "days_before_month l 7 = (if l then 182 else 181)" "days_before_month l 8 = (if l then 213 else 212)"
  "days_before_month l 9 = (if l then 244 else 243)" "days_before_month l 10 = (if l then 274 else 273)"
  "days_before_month l 11 = (if l then 305 else 304)" "days_before_month l 12 = (if l then 335 else 334)"
  "days_before_month l 13 = (if l then 366 else 365)"
  by (simp_all add: days_before_month_def)

lemma month_cases:
  assumes "1 \<le> m" and "m \<le> (12::int)"
  obtains "m = 1" | "m = 2" | "m = 3" | "m = 4" | "m = 5" | "m = 6"
    | "m = 7" | "m = 8" | "m = 9" | "m = 10" | "m = 11" | "m = 12"
proof -
  have "m = 1 \<or> m = 2 \<or> m = 3 \<or> m = 4 \<or> m = 5 \<or> m = 6 \<or> m = 7 \<or> m = 8 \<or> m = 9 \<or> m = 10 \<or> m = 11 \<or> m = 12"
    using assms by presburger
  then show ?thesis using that by blast
qed

lemma month_of_year_day_range: "1 \<le> month_of_year_day l k \<and> month_of_year_day l k \<le> 12"
  by (simp add: month_of_year_day_def)

lemma month_of_year_day_bounds:
  assumes "0 \<le> k" and "k < (if l then 366 else 365)"
  shows "days_before_month l (month_of_year_day l k) \<le> k
    \<and> k < days_before_month l (month_of_year_day l k + 1)"
  using assms by (cases l) (auto simp: month_of_year_day_def days_before_month_vals)

lemma month_of_year_day_unique:
  assumes "1 \<le> m" and "m \<le> 12" and "days_before_month l m \<le> k" and "k < days_before_month l (m + 1)"
  shows "month_of_year_day l k = m"
  using assms(1,2)
  by (rule month_cases) (use assms(3,4) in \<open>auto simp: month_of_year_day_def days_before_month_vals split: if_splits\<close>)

section \<open>Dates and days\<close>

lemma days_before_month_end: "1 \<le> m \<Longrightarrow> m \<le> 12 \<Longrightarrow>
    days_before_month l (m + 1) \<le> (if l then 366 else 365)
    \<and> 28 \<le> days_in_month l m \<and> days_in_month l m \<le> 31 \<and> 0 \<le> days_before_month l m"
  by (cases l; rule month_cases [of m]; simp add: days_in_month_def days_before_month_vals)

lemma civil_of_day_of_civil:
  assumes "1 \<le> m" and "m \<le> 12" and "1 \<le> dd" and "dd \<le> days_in_month (is_leap y) m"
  defines "d \<equiv> day_of_civil y m dd"
  shows "year_of_day d = y" and "month_of_day d = m" and "day_of_month d = dd"
proof -
  have d: "d = days_before_year y + (days_before_month (is_leap y) m + dd - 1)"
    using assms(1,2) by (simp add: d_def day_of_civil_def Let_def)
  note me = days_before_month_end [OF assms(1,2), of "is_leap y"]
  have range: "0 \<le> days_before_month (is_leap y) m + dd - 1"
    "days_before_month (is_leap y) m + dd - 1 < days_before_month (is_leap y) (m + 1)"
    using me assms(3,4) by (simp_all add: days_in_month_def)
  then show y: "year_of_day d = y"
    using me by (intro year_of_day_unique) (auto simp: d days_before_year_Suc year_length_def split: if_splits)
  have k: "year_day d = days_before_month (is_leap y) m + dd - 1" by (simp add: year_day_def y) (simp add: d)
  show m: "month_of_day d = m"
    unfolding month_of_day_def y k
    by (rule month_of_year_day_unique) (use assms(1-3) range in auto)
  show "day_of_month d = dd" by (simp add: day_of_month_def y m k)
qed

lemma month_of_day_range: "1 \<le> month_of_day d" "month_of_day d \<le> 12"
  using month_of_year_day_range by (simp_all add: month_of_day_def)

lemma day_of_month_range:
  "1 \<le> day_of_month d" "day_of_month d \<le> days_in_month (is_leap (year_of_day d)) (month_of_day d)"
proof -
  have "0 \<le> year_day d" "year_day d < (if is_leap (year_of_day d) then 366 else 365)"
    using year_day_range [of d] by (auto simp: year_length_def)
  from month_of_year_day_bounds [OF this]
  show "1 \<le> day_of_month d" "day_of_month d \<le> days_in_month (is_leap (year_of_day d)) (month_of_day d)"
    by (simp_all add: day_of_month_def days_in_month_def month_of_day_def)
qed

lemma day_of_month_le_31: "day_of_month d \<le> 31"
  using day_of_month_range(2) [of d] days_before_month_end [OF month_of_day_range, of "is_leap (year_of_day d)"]
  by (meson order_trans)

lemma weekday_range: "0 \<le> weekday d" "weekday d < 7"
  by (simp_all add: weekday_def)

lemma day_of_civil_of_day: "day_of_civil (year_of_day d) (month_of_day d) (day_of_month d) = d"
  using month_of_day_range [of d]
  by (simp add: day_of_civil_def Let_def day_of_month_def year_day_def)

lemma day_of_civil_add: "day_of_civil y m (dd + k) = day_of_civil y m dd + k"
  by (simp add: day_of_civil_def Let_def)

text \<open>The first day of the next month, as time.Date computes it from a month that may be 13.\<close>

lemma next_month_start:
  fixes d d' :: int
  defines "e \<equiv> day_of_civil (year_of_day d) (month_of_day d + 1) 1"
  shows "d < e" and "d \<le> d' \<Longrightarrow> d' < e \<Longrightarrow> month_of_day d' = month_of_day d"
    and "e \<le> d + 31"
proof -
  let ?y = "year_of_day d" and ?m = "month_of_day d"
  have "days_before_year (?y + 1) = days_before_year ?y + days_before_month (is_leap ?y) 13"
    by (simp add: days_before_year_Suc year_length_def days_before_month_vals)
  moreover have "days_before_month (is_leap (?y + 1)) 1 = 0" by (simp add: days_before_month_vals)
  ultimately have e: "e = days_before_year ?y + days_before_month (is_leap ?y) (?m + 1)"
    using month_of_day_range [of d]
    by (cases "?m = 12") (auto simp: e_def day_of_civil_def Let_def)
  have d: "d = days_before_year ?y + days_before_month (is_leap ?y) ?m + day_of_month d - 1"
    by (simp add: day_of_month_def year_day_def)
  note dom = day_of_month_range [of d]
  then show "d < e" using d e by (simp add: days_in_month_def)
  have "days_in_month (is_leap ?y) ?m \<le> 31"
    using days_before_month_end [OF month_of_day_range, of "is_leap ?y" d] by blast
  then show "e \<le> d + 31" using d e dom by (simp add: days_in_month_def)
  assume d': "d \<le> d'" "d' < e"
  let ?dd = "d' - d + day_of_month d"
  have "day_of_civil ?y ?m ?dd = d'"
    using day_of_civil_of_day [of d] day_of_civil_add [of ?y ?m "day_of_month d" "d' - d"]
    by (simp add: add.commute)
  moreover have "1 \<le> ?dd" "?dd \<le> days_in_month (is_leap ?y) ?m"
    using d d' e dom by (simp_all add: days_in_month_def)
  ultimately show "month_of_day d' = ?m"
    using civil_of_day_of_civil(2) [OF month_of_day_range [of d], of ?dd ?y] by simp
qed

section \<open>Locations\<close>

text \<open>
  The look-up of a location: for a Unix time in seconds, the offset from UTC that is in
  force, and since and until when. Its data is not part of the program, so a location is an
  argument. UTC and fixed zones are the ones that need no data.
\<close>

type_synonym location = "int \<Rightarrow> int \<times> int \<times> int"

definition fixed_zone :: "int \<Rightarrow> location" where
  "fixed_zone off = (\<lambda>_. (off, - (2 ^ 63), 2 ^ 63 - 1))"

definition utc :: location where
  "utc = fixed_zone 0"

text \<open>Seconds from the zero time to the Unix epoch.\<close>

definition unix_epoch :: int where
  "unix_epoch = 62135596800"

definition offset_at :: "location \<Rightarrow> instant \<Rightarrow> int" where
  "offset_at loc t = fst (loc (t div second - unix_epoch))"

definition local_seconds :: "location \<Rightarrow> instant \<Rightarrow> int" where
  "local_seconds loc t = t div second + offset_at loc t"

definition local_day :: "location \<Rightarrow> instant \<Rightarrow> int" where
  "local_day loc t = local_seconds loc t div 86400"

definition hour_of :: "location \<Rightarrow> instant \<Rightarrow> int" where
  "hour_of loc t = local_seconds loc t mod 86400 div 3600"

definition minute_of :: "location \<Rightarrow> instant \<Rightarrow> int" where
  "minute_of loc t = local_seconds loc t mod 3600 div 60"

definition second_of :: "location \<Rightarrow> instant \<Rightarrow> int" where
  "second_of loc t = local_seconds loc t mod 60"

text \<open>
  time.Date: the seconds of the civil time as if it were UTC, then the offset that is in
  force around it. The nanoseconds are those of a Time, so they need no normalisation.
\<close>

definition go_date :: "location \<Rightarrow> int \<Rightarrow> int \<Rightarrow> int \<Rightarrow> int \<Rightarrow> int \<Rightarrow> int \<Rightarrow> int \<Rightarrow> instant" where
  "go_date loc y m d h mi s ns =
     (let unix = day_of_civil y m d * 86400 + h * 3600 + mi * 60 + s - unix_epoch;
          (offset, start, stop_at) = loc unix;
          unix1 =
            (if offset \<noteq> 0
             then (let u = unix - offset;
                       offset1 = (if u < start \<or> u \<ge> stop_at then fst (loc u) else offset)
                   in unix - offset1)
             else unix)
      in (unix1 + unix_epoch) * second + ns)"

definition add_date :: "location \<Rightarrow> instant \<Rightarrow> int \<Rightarrow> int \<Rightarrow> int \<Rightarrow> instant" where
  "add_date loc t years months days =
     (let d = local_day loc t
      in go_date loc (year_of_day d + years) (month_of_day d + months) (day_of_month d + days)
           (hour_of loc t) (minute_of loc t) (second_of loc t) (t mod second))"

lemma go_date_fixed: "go_date (fixed_zone off) y m d h mi s ns
    = (day_of_civil y m d * 86400 + h * 3600 + mi * 60 + s - off) * second + ns"
  by (simp add: go_date_def fixed_zone_def Let_def)

lemma offset_at_fixed [simp]: "offset_at (fixed_zone off) t = off"
  by (simp add: offset_at_def fixed_zone_def)

lemma hour_of_range: "0 \<le> hour_of loc t" "hour_of loc t < 24"
proof -
  define s where "s = local_seconds loc t mod 86400"
  have "0 \<le> s" "s < 86400" by (simp_all add: s_def)
  then show "0 \<le> hour_of loc t" "hour_of loc t < 24"
    unfolding hour_of_def s_def [symmetric] by (simp_all add: pos_imp_zdiv_nonneg_iff div_less_iff_less_mult)
qed

lemma minute_of_range: "0 \<le> minute_of loc t" "minute_of loc t < 60"
proof -
  define s where "s = local_seconds loc t mod 3600"
  have "0 \<le> s" "s < 3600" by (simp_all add: s_def)
  then show "0 \<le> minute_of loc t" "minute_of loc t < 60"
    unfolding minute_of_def s_def [symmetric] by (simp_all add: pos_imp_zdiv_nonneg_iff div_less_iff_less_mult)
qed

end
