(* ===== verification/Cron.thy ===== *)
theory Cron
  imports Calendar GoDuration
begin

text \<open>
  Cronspec schedules (pkg/cron/cron.go): parsing of expressions, and the search for the
  next matching time in a location.
\<close>

section \<open>Schedules\<close>

definition day_names :: "(string \<times> int) list" where
  "day_names = [(''sun'', 0), (''mon'', 1), (''tue'', 2), (''wed'', 3), (''thu'', 4), (''fri'', 5), (''sat'', 6)]"

definition month_names :: "(string \<times> int) list" where
  "month_names =
     [(''jan'', 1), (''feb'', 2), (''mar'', 3), (''apr'', 4), (''may'', 5), (''jun'', 6),
      (''jul'', 7), (''aug'', 8), (''sep'', 9), (''oct'', 10), (''nov'', 11), (''dec'', 12)]"

definition predefined :: "(string \<times> string) list" where
  "predefined =
     [(''@minutely'', ''* * * * *''), (''@hourly'', ''0 * * * *''), (''@daily'', ''0 0 * * *''),
      (''@midnight'', ''0 0 * * *''), (''@weekly'', ''0 0 * * 0''), (''@monthly'', ''0 0 1 * *''),
      (''@yearly'', ''0 0 1 1 *''), (''@annually'', ''0 0 1 1 *'')]"

definition reboot_aliases :: "string list" where
  "reboot_aliases = [''@reboot'', ''@startup'', ''@once'']"

record schedule =
  one_time_left :: bool
  one_time :: bool
  every :: duration
  minutes :: "bool list"
  hours :: "bool list"
  days_of_month :: "bool list"
  months :: "bool list"
  days_of_week :: "bool list"
  dom_restricted :: bool
  dow_restricted :: bool
  timezone :: "location option"

definition zero_schedule :: schedule where
  "zero_schedule = \<lparr>one_time_left = False, one_time = False, every = 0, minutes = [], hours = [],
     days_of_month = [], months = [], days_of_week = [], dom_restricted = False,
     dow_restricted = False, timezone = None\<rparr>"

datatype cron_error =
  InvalidStep string
| InvalidValue string
| ValueOutOfRange int int int
| SingleWithStep int int
| InvertedRange int int
| InvalidEvery string
| FieldCount nat
| InField nat cron_error

section \<open>Parsing\<close>

definition parse_value ::
  "string \<Rightarrow> int \<Rightarrow> bool \<Rightarrow> (string \<times> int) list option \<Rightarrow> cron_error + int" where
  "parse_value input last_index zero_unused names =
     (case (case names of None \<Rightarrow> None | Some ns \<Rightarrow> map_of ns input) of
        Some v \<Rightarrow> Inr v
      | None \<Rightarrow>
          (case atoi input of
             None \<Rightarrow> Inl (InvalidValue input)
           | Some v \<Rightarrow>
               (let lo = (if zero_unused then 1 else 0); hi = last_index;
                    v1 = (if lo = 0 \<and> hi = 6 \<and> v = 7 then 0 else v)
                in if v1 < lo \<or> v1 > hi then Inl (ValueOutOfRange v1 lo hi) else Inr v1)))"

text \<open>
  The loop over a range. Its step is positive when it starts (parsePart checks it), so the
  second condition never holds; it makes the function total.
\<close>

function set_steps :: "int \<Rightarrow> int \<Rightarrow> int \<Rightarrow> bool list \<Rightarrow> bool list" where
  "set_steps i hi step out =
     (if i > hi \<or> step \<le> 0 then out
      else set_steps (i + step) hi step (out[nat (i mod int (length out)) := True]))"
  by pat_completeness auto
termination
  by (relation "measure (\<lambda>(i, hi, step, out). nat (hi + 1 - i))") auto

declare set_steps.simps [simp del]

definition parse_step :: "string \<Rightarrow> int \<Rightarrow> cron_error + string \<times> int \<times> bool" where
  "parse_step input hi =
     (case cut (CHR ''/'') input of
        (before, after, has_step) \<Rightarrow>
          if \<not> has_step then Inr (input, 1, False)
          else
            (case atoi after of
               None \<Rightarrow> Inl (InvalidStep after)
             | Some step \<Rightarrow> if step \<le> 0 \<or> step > hi then Inl (InvalidStep after)
                            else Inr (before, step, True)))"

definition parse_range ::
  "string \<Rightarrow> int \<Rightarrow> int \<Rightarrow> bool \<Rightarrow> bool \<Rightarrow> (string \<times> int) list option \<Rightarrow> int
    \<Rightarrow> cron_error + int \<times> int" where
  "parse_range input lo hi has_step zero_unused names step =
     (if input = ''*'' then Inr (lo, hi)
      else
        (case cut (CHR ''-'') input of
           (before, after, is_range) \<Rightarrow>
             (case parse_value before hi zero_unused names of
                Inl e \<Rightarrow> Inl e
              | Inr v \<Rightarrow>
                  if is_range then
                    (case parse_value after hi zero_unused names of
                       Inl e \<Rightarrow> Inl e
                     | Inr w \<Rightarrow> Inr (v, w))
                  else if has_step then Inl (SingleWithStep v step)
                  else Inr (v, v))))"

definition parse_part ::
  "string \<Rightarrow> bool list \<Rightarrow> bool \<Rightarrow> (string \<times> int) list option \<Rightarrow> cron_error + bool list" where
  "parse_part input out zero_unused names =
     (let lo = (if zero_unused then 1 else 0); hi = int (length out) - 1
      in case parse_step input hi of
           Inl e \<Rightarrow> Inl e
         | Inr (input1, step, has_step) \<Rightarrow>
             (case parse_range input1 lo hi has_step zero_unused names step of
                Inl e \<Rightarrow> Inl e
              | Inr (v, w) \<Rightarrow>
                  (let to_sunday = (v > 0 \<and> w = 0 \<and> names \<noteq> None \<and> map_of (the names) ''sat'' = Some 6)
                   in if v > w \<and> \<not> to_sunday then Inl (InvertedRange v w)
                      else Inr (set_steps v (if to_sunday then 7 else w) step out))))"

fun parse_parts ::
  "string list \<Rightarrow> bool list \<Rightarrow> bool \<Rightarrow> (string \<times> int) list option \<Rightarrow> cron_error + bool list" where
  "parse_parts [] out zero_unused names = Inr out"
| "parse_parts (part # parts) out zero_unused names =
     (case parse_part part out zero_unused names of
        Inl e \<Rightarrow> Inl e
      | Inr out1 \<Rightarrow> parse_parts parts out1 zero_unused names)"

definition parse_field ::
  "string \<Rightarrow> bool list \<Rightarrow> bool \<Rightarrow> (string \<times> int) list option \<Rightarrow> cron_error + bool list" where
  "parse_field input out zero_unused names =
     parse_parts (split_char (CHR '','') input) out zero_unused names"

definition in_field :: "nat \<Rightarrow> cron_error + 'a \<Rightarrow> ('a \<Rightarrow> cron_error + 'b) \<Rightarrow> cron_error + 'b" where
  "in_field i r k = (case r of Inl e \<Rightarrow> Inl (InField i e) | Inr v \<Rightarrow> k v)"

definition parse_fields :: "string list \<Rightarrow> location option \<Rightarrow> cron_error + schedule" where
  "parse_fields fs tz =
     in_field 0 (parse_field (fs ! 0) (replicate 60 False) False None) (\<lambda>mi.
     in_field 1 (parse_field (fs ! 1) (replicate 24 False) False None) (\<lambda>h.
     in_field 2 (parse_field (fs ! 2) (replicate 32 False) True None) (\<lambda>dom.
     in_field 3 (parse_field (fs ! 3) (replicate 13 False) True (Some month_names)) (\<lambda>mo.
     in_field 4 (parse_field (fs ! 4) (replicate 7 False) False (Some day_names)) (\<lambda>dow.
       Inr (zero_schedule\<lparr>minutes := mi, hours := h, days_of_month := dom, months := mo,
              days_of_week := dow, dom_restricted := (fs ! 2 \<noteq> ''*''),
              dow_restricted := (fs ! 4 \<noteq> ''*''),
              timezone := Some (case tz of None \<Rightarrow> utc | Some l \<Rightarrow> l)\<rparr>))))))"

definition parse_cron :: "string \<Rightarrow> location option \<Rightarrow> cron_error + schedule" where
  "parse_cron spec0 tz =
     (let spec1 = to_lower (trim_space spec0);
          spec = (case map_of predefined spec1 of Some s \<Rightarrow> s | None \<Rightarrow> spec1);
          fs = str_fields spec
      in if length fs = 1 \<and> fs ! 0 \<in> set reboot_aliases
         then Inr (zero_schedule\<lparr>one_time := True, one_time_left := True\<rparr>)
         else if length fs > 1 \<and> fs ! 0 = ''@every''
         then (let expr = join [] (tl fs)
               in case parse_duration expr of
                    None \<Rightarrow> Inl (InvalidEvery expr)
                  | Some d \<Rightarrow> if d < second then Inl (InvalidEvery expr)
                              else Inr (zero_schedule\<lparr>every := d - d mod second\<rparr>))
         else if length fs \<noteq> 5 then Inl (FieldCount (length fs))
         else parse_fields fs tz)"

section \<open>The next time\<close>

definition day_matches :: "schedule \<Rightarrow> int \<Rightarrow> bool" where
  "day_matches s d =
     (let dom = days_of_month s ! nat (day_of_month d); dow = days_of_week s ! nat (weekday d)
      in if dom_restricted s \<and> dow_restricted s then dom \<or> dow
         else if dom_restricted s \<or> dow_restricted s then dom \<and> dow
         else True)"

text \<open>slices.Index(s, true): the first index, or -1.\<close>

fun index_true :: "bool list \<Rightarrow> int" where
  "index_true [] = - 1"
| "index_true (x # xs) =
     (if x then 0 else let i = index_true xs in if i = - 1 then - 1 else i + 1)"

text \<open>
  One round of the loop: the time to continue with, or \<open>None\<close> when this time matches. The
  first two cases step over midnights that do not exist.
\<close>

definition next_step :: "schedule \<Rightarrow> location \<Rightarrow> instant \<Rightarrow> instant option" where
  "next_step s loc t =
     (let d = local_day loc t; y = year_of_day d; mo = month_of_day d; dd = day_of_month d
      in if \<not> months s ! nat mo then
           Some (let u = go_date loc y (mo + 1) 1 0 0 0 0
                 in if \<not> u > t then go_date loc y (mo + 1) 1 1 0 0 0 else u)
         else if \<not> day_matches s d then
           Some (let u = go_date loc y mo (dd + 1) 0 0 0 0
                 in if \<not> u > t then go_date loc y mo (dd + 1) 1 0 0 0 else u)
         else if \<not> hours s ! nat (hour_of loc t) then
           Some (t + (60 - minute_of loc t) * minute)
         else if \<not> minutes s ! nat (minute_of loc t) then
           Some (let i = 1 + index_true (drop (nat (minute_of loc t) + 1) (minutes s));
                     i1 = (if i = 0 then 60 - minute_of loc t else i)
                 in t + i1 * minute)
         else None)"

partial_function (option) next_loop ::
  "schedule \<Rightarrow> location \<Rightarrow> instant \<Rightarrow> instant \<Rightarrow> instant option" where
  "next_loop s loc limit t =
     (if t < limit then
        (case next_step s loc t of
           None \<Rightarrow> Some t
         | Some u \<Rightarrow> next_loop s loc limit u)
      else Some zero_time)"

text \<open>
  Next returns the schedule too, because it consumes the one run of a one-time schedule;
  \<open>now\<close> is what time.Now() reads. The result is \<open>None\<close> if the loop does not end.
\<close>

definition next_time :: "schedule \<Rightarrow> instant \<Rightarrow> instant \<Rightarrow> schedule \<times> instant option" where
  "next_time s now after =
     (if every s > 0 then (s, Some (truncate_to second (after + every s)))
      else
        (let s1 = s\<lparr>one_time_left := False\<rparr>
         in if one_time_left s then (s1, Some (truncate_to second now))
            else case timezone s of
                   None \<Rightarrow> (s1, Some zero_time)
                 | Some loc \<Rightarrow>
                     (s1, next_loop s loc (add_date loc after 8 0 1)
                            (truncate_to minute (after + minute)))))"

definition runs_only_once :: "schedule \<Rightarrow> bool" where
  "runs_only_once s = one_time s"

section \<open>What parsing produces\<close>

lemma length_set_steps [simp]: "length (set_steps i hi step out) = length out"
  by (induction i hi step out rule: set_steps.induct) (subst set_steps.simps, simp)

lemma list_update_True: "out ! j \<Longrightarrow> j < length out \<Longrightarrow> out[x := True] ! j"
  by (cases "x = j") auto

text \<open>Exactly the values of the range are set, modulo the length for Sunday as 7.\<close>

lemma set_steps_iff:
  assumes "0 < step" and "0 \<le> i" and "j < length out"
  shows "set_steps i hi step out ! j
    \<longleftrightarrow> out ! j \<or> (\<exists>k \<ge> 0. i + k * step \<le> hi \<and> (i + k * step) mod int (length out) = int j)"
  using assms
proof (induction i hi step out rule: set_steps.induct)
  case (1 i hi step out)
  show ?case
  proof (cases "i > hi")
    case True
    have "\<not> (0 \<le> k \<and> i + k * step \<le> hi)" for k
      using True "1.prems"(1) by (smt (verit) mult_nonneg_nonneg)
    with True show ?thesis by (subst set_steps.simps) auto
  next
    case False
    let ?n = "int (length out)"
    have IH: "set_steps (i + step) hi step (out[nat (i mod ?n) := True]) ! j
      \<longleftrightarrow> out[nat (i mod ?n) := True] ! j
        \<or> (\<exists>k \<ge> 0. i + step + k * step \<le> hi \<and> (i + step + k * step) mod ?n = int j)"
      using "1.IH" False "1.prems" by simp
    have n: "0 < ?n" using "1.prems"(3) by linarith
    have here: "out[nat (i mod ?n) := True] ! j \<longleftrightarrow> out ! j \<or> i mod ?n = int j"
    proof -
      have "nat (i mod ?n) = j \<longleftrightarrow> i mod ?n = int j"
        using pos_mod_sign [OF n, of i] by auto
      with "1.prems"(3) show ?thesis by (auto simp: nth_list_update)
    qed
    have split: "(\<exists>k \<ge> 0. i + k * step \<le> hi \<and> (i + k * step) mod ?n = int j)
      \<longleftrightarrow> i mod ?n = int j \<or> (\<exists>k \<ge> 0. i + step + k * step \<le> hi \<and> (i + step + k * step) mod ?n = int j)"
      (is "?L \<longleftrightarrow> ?R")
    proof
      assume ?L
      then obtain k where k: "k \<ge> 0" "i + k * step \<le> hi" "(i + k * step) mod ?n = int j" by blast
      show ?R
      proof (cases "k = 0")
        case False
        with k show ?thesis by (intro disjI2 exI [of _ "k - 1"]) (simp add: algebra_simps)
      qed (use k in simp)
    next
      assume ?R
      then show ?L
      proof
        assume "i mod ?n = int j"
        with False show ?L by (intro exI [of _ 0]) simp
      next
        assume "\<exists>k \<ge> 0. i + step + k * step \<le> hi \<and> (i + step + k * step) mod ?n = int j"
        then obtain k where "k \<ge> 0" "i + step + k * step \<le> hi" "(i + step + k * step) mod ?n = int j"
          by blast
        then show ?L by (intro exI [of _ "k + 1"]) (simp add: algebra_simps)
      qed
    qed
    show ?thesis
      using IH here split False "1.prems"(1) by (subst set_steps.simps) auto
  qed
qed

text \<open>The values of one part of a field, by the parts of its text.\<close>

definition part_denotes ::
  "string \<Rightarrow> nat \<Rightarrow> bool \<Rightarrow> (string \<times> int) list option \<Rightarrow> nat \<Rightarrow> bool" where
  "part_denotes part n zero_unused names j \<longleftrightarrow>
     (\<exists>input step has_step v w. parse_step part (int n - 1) = Inr (input, step, has_step)
        \<and> parse_range input (if zero_unused then 1 else 0) (int n - 1) has_step zero_unused names step = Inr (v, w)
        \<and> (if v > w then \<exists>k \<ge> 0. v + k * step \<le> 7 \<and> (v + k * step) mod int n = int j
           else \<exists>k \<ge> 0. v + k * step \<le> w \<and> v + k * step = int j))"

definition names_ok :: "(string \<times> int) list option \<Rightarrow> int \<Rightarrow> int \<Rightarrow> bool" where
  "names_ok names lo hi \<longleftrightarrow> (case names of None \<Rightarrow> True
     | Some ns \<Rightarrow> list_all (\<lambda>(k, v). lo \<le> v \<and> v \<le> hi) ns)"

lemma parse_value_range:
  assumes "parse_value input hi zu names = Inr v" and "names_ok names (if zu then 1 else 0) hi"
  shows "(if zu then 1 else 0) \<le> v \<and> v \<le> hi"
  using assms
  by (auto simp: parse_value_def names_ok_def list_all_iff Let_def
      split: option.splits if_splits dest!: map_of_SomeD)

lemma parse_range_range:
  assumes "parse_range input lo hi hs zu names step = Inr (v, w)"
    and "names_ok names lo hi" and "lo = (if zu then 1 else 0)" and "lo \<le> hi"
  shows "lo \<le> v \<and> v \<le> hi \<and> lo \<le> w \<and> w \<le> hi"
proof (cases "input = ''*''")
  case False
  obtain before after is_range where c: "cut (CHR ''-'') input = (before, after, is_range)"
    by (metis prod.exhaust)
  obtain v' where v': "parse_value before hi zu names = Inr v'"
    using assms(1) False c by (cases "parse_value before hi zu names") (auto simp: parse_range_def)
  show ?thesis
    using assms(1) False c v' parse_value_range [OF v'] parse_value_range [of after hi zu names w] assms(2,3)
    by (auto simp: parse_range_def split: if_splits sum.splits)
qed (use assms in \<open>auto simp: parse_range_def\<close>)

lemma parse_step_pos: "parse_step part hi = Inr (input, step, hs) \<Longrightarrow> 0 < step"
  by (auto simp: parse_step_def split: prod.splits option.splits if_splits)

lemma parse_part_denotes:
  assumes "parse_part part out zu names = Inr out'"
    and "names_ok names (if zu then 1 else 0) (int (length out) - 1)"
    and "(if zu then 2 else 1) \<le> length out" and "names \<noteq> None \<Longrightarrow> map_of (the names) ''sat'' = Some 6 \<Longrightarrow> \<not> zu \<and> length out = 7"
  shows "length out' = length out"
    and "\<And>j. j < length out \<Longrightarrow> out' ! j \<longleftrightarrow> out ! j \<or> part_denotes part (length out) zu names j"
    and "\<exists>j < length out. part_denotes part (length out) zu names j"
    and "zu \<Longrightarrow> \<not> part_denotes part (length out) zu names 0"
proof -
  define lo where "lo = (if zu then 1 else 0 :: int)"
  define hi where "hi = int (length out) - 1"
  have lohi: "lo \<le> hi" "0 \<le> lo" using assms(3) by (auto simp: lo_def hi_def)
  obtain input step hs where st: "parse_step part hi = Inr (input, step, hs)"
    using assms(1) by (cases "parse_step part hi") (auto simp: parse_part_def hi_def Let_def)
  obtain v w where vw: "parse_range input lo hi hs zu names step = Inr (v, w)"
    using assms(1) st
    by (cases "parse_range input lo hi hs zu names step") (auto simp: parse_part_def hi_def lo_def Let_def)
  note range = parse_range_range [OF vw _ lo_def lohi(1)] and step = parse_step_pos [OF st]
  have r: "lo \<le> v" "v \<le> hi" "lo \<le> w" "w \<le> hi" using range assms(2) by (auto simp: lo_def hi_def)
  define sun where "sun \<longleftrightarrow> v > 0 \<and> w = 0 \<and> names \<noteq> None \<and> map_of (the names) ''sat'' = Some 6"
  have out': "out' = set_steps v (if sun then 7 else w) step out" and ord: "v \<le> w \<or> sun"
    using assms(1) st vw unfolding parse_part_def hi_def lo_def sun_def Let_def by (auto split: if_splits)
  have sun7: "sun \<Longrightarrow> length out = 7 \<and> v > w \<and> \<not> zu" using assms(4) by (auto simp: sun_def)
  have den: "part_denotes part (length out) zu names j \<longleftrightarrow>
      (if v > w then \<exists>k \<ge> 0. v + k * step \<le> 7 \<and> (v + k * step) mod int (length out) = int j
       else \<exists>k \<ge> 0. v + k * step \<le> w \<and> v + k * step = int j)" for j
    using st vw by (auto simp: part_denotes_def hi_def lo_def)
  show "length out' = length out" by (simp add: out')
  have nonneg: "0 \<le> v" using r(1) lohi(2) by simp
  show "out' ! j \<longleftrightarrow> out ! j \<or> part_denotes part (length out) zu names j" if j: "j < length out" for j
  proof (cases sun)
    case True
    with sun7 ord show ?thesis unfolding out' den set_steps_iff [OF step nonneg j] by auto
  next
    case False
    then have "v \<le> w" using ord by simp
    moreover have "(\<exists>k \<ge> 0. v + k * step \<le> w \<and> (v + k * step) mod int (length out) = int j)
        \<longleftrightarrow> (\<exists>k \<ge> 0. v + k * step \<le> w \<and> v + k * step = int j)"
    proof -
      have "(v + k * step) mod int (length out) = v + k * step" if "0 \<le> k" "v + k * step \<le> w" for k
        using that r(4) nonneg step by (intro mod_pos_pos_trivial) (auto simp: hi_def)
      then show ?thesis by metis
    qed
    ultimately show ?thesis using False unfolding out' den set_steps_iff [OF step nonneg j] by simp
  qed
  have "nat v < length out" using r(2) nonneg by (auto simp: hi_def)
  moreover have "part_denotes part (length out) zu names (nat v)"
  proof (cases sun)
    case True
    with sun7 r(2) nonneg show ?thesis
      unfolding den by (auto simp: hi_def intro!: exI [of _ 0])
  next
    case False
    with ord nonneg show ?thesis unfolding den by (auto intro!: exI [of _ 0])
  qed
  ultimately show "\<exists>j < length out. part_denotes part (length out) zu names j" by blast
  show "\<not> part_denotes part (length out) zu names 0" if zu
  proof -
    have "v \<le> w" using ord sun7 that by blast
    moreover have "1 \<le> v" using r(1) that by (simp add: lo_def)
    moreover have "v + k * step \<noteq> 0" if "0 \<le> k" for k
      using that \<open>1 \<le> v\<close> step mult_nonneg_nonneg [of k step] by linarith
    ultimately show ?thesis unfolding den by auto
  qed
qed

lemma parse_parts_denotes:
  assumes "parse_parts parts out zu names = Inr out'"
    and "names_ok names (if zu then 1 else 0) (int (length out) - 1)"
    and "(if zu then 2 else 1) \<le> length out"
    and "names \<noteq> None \<Longrightarrow> map_of (the names) ''sat'' = Some 6 \<Longrightarrow> \<not> zu \<and> length out = 7"
  shows "length out' = length out
    \<and> (\<forall>j < length out. out' ! j \<longleftrightarrow> out ! j \<or> (\<exists>p \<in> set parts. part_denotes p (length out) zu names j))
    \<and> (\<forall>p \<in> set parts. (\<exists>j < length out. part_denotes p (length out) zu names j)
        \<and> (zu \<longrightarrow> \<not> part_denotes p (length out) zu names 0))"
  using assms
proof (induction parts arbitrary: out)
  case (Cons p parts)
  obtain out1 where one: "parse_part p out zu names = Inr out1"
    using Cons.prems(1) by (cases "parse_part p out zu names") auto
  note d = parse_part_denotes [OF one Cons.prems(2-4)]
  have "parse_parts parts out1 zu names = Inr out'" using Cons.prems(1) one by simp
  from Cons.IH [OF this] Cons.prems(2-4) d show ?case by auto
qed simp

definition field_names_ok :: "nat \<Rightarrow> bool \<Rightarrow> (string \<times> int) list option \<Rightarrow> bool" where
  "field_names_ok n zu names \<longleftrightarrow>
     names_ok names (if zu then 1 else 0) (int n - 1) \<and> (if zu then 2 else 1) \<le> n
     \<and> (names \<noteq> None \<and> map_of (the names) ''sat'' = Some 6 \<longrightarrow> \<not> zu \<and> n = 7)"

lemma parse_field_denotes:
  assumes "parse_field input (replicate n False) zu names = Inr out" and "field_names_ok n zu names"
  shows "length out = n"
    and "\<And>j. j < n \<Longrightarrow> out ! j
      \<longleftrightarrow> (\<exists>p \<in> set (split_char (CHR '','') input). part_denotes p n zu names j)"
    and "\<exists>j < n. out ! j" and "zu \<Longrightarrow> \<not> out ! 0"
proof -
  have d: "length out = n
    \<and> (\<forall>j < n. out ! j \<longleftrightarrow> (\<exists>p \<in> set (split_char (CHR '','') input). part_denotes p n zu names j))
    \<and> (\<forall>p \<in> set (split_char (CHR '','') input). (\<exists>j < n. part_denotes p n zu names j)
        \<and> (zu \<longrightarrow> \<not> part_denotes p n zu names 0))"
    using parse_parts_denotes [of "split_char (CHR '','') input" "replicate n False" zu names out] assms
    by (simp add: parse_field_def field_names_ok_def)
  then show "length out = n"
    and "\<And>j. j < n \<Longrightarrow> out ! j
      \<longleftrightarrow> (\<exists>p \<in> set (split_char (CHR '','') input). part_denotes p n zu names j)" by auto
  have "hd (split_char (CHR '','') input) \<in> set (split_char (CHR '','') input)" by simp
  with d show "\<exists>j < n. out ! j" by blast
  have "0 < n" using assms(2) by (auto simp: field_names_ok_def split: if_splits)
  with d show "zu \<Longrightarrow> \<not> out ! 0" by auto
qed

lemma fields_ok:
  "field_names_ok 60 False None" "field_names_ok 24 False None" "field_names_ok 32 True None"
  "field_names_ok 13 True (Some month_names)" "field_names_ok 7 False (Some day_names)"
  by (simp_all add: field_names_ok_def names_ok_def month_names_def day_names_def)

text \<open>A star alone denotes the whole range.\<close>

lemma star_denotes:
  "part_denotes ''*'' n zu names j \<longleftrightarrow> (if zu then 1 else 0) \<le> j \<and> j < n" if "(if zu then 2 else 1) \<le> n"
proof -
  have st: "parse_step ''*'' hi = Inr (''*'', 1, False)" for hi by (simp add: parse_step_def)
  have "(\<exists>k \<ge> 0. lo + k * 1 \<le> int n - 1 \<and> lo + k * 1 = int j) \<longleftrightarrow> lo \<le> int j \<and> j < n" for lo :: int
    by (auto intro!: exI [of _ "int j - lo"])
  then show ?thesis using that by (cases zu) (auto simp: part_denotes_def st parse_range_def)
qed

definition field_ok :: "bool list \<Rightarrow> nat \<Rightarrow> bool \<Rightarrow> bool" where
  "field_ok xs n zu \<longleftrightarrow> length xs = n \<and> (\<exists>j < n. xs ! j) \<and> (zu \<longrightarrow> \<not> xs ! 0)"

text \<open>A schedule of five fields.\<close>

definition calendar_ok :: "schedule \<Rightarrow> bool" where
  "calendar_ok s \<longleftrightarrow>
     field_ok (minutes s) 60 False \<and> field_ok (hours s) 24 False \<and> field_ok (days_of_month s) 32 True
     \<and> field_ok (months s) 13 True \<and> field_ok (days_of_week s) 7 False
     \<and> (\<not> dom_restricted s \<longrightarrow> (\<forall>j \<in> {1..31}. days_of_month s ! j))
     \<and> (\<not> dow_restricted s \<longrightarrow> (\<forall>j \<in> {0..6}. days_of_week s ! j))
     \<and> every s = 0 \<and> \<not> one_time s \<and> \<not> one_time_left s \<and> timezone s \<noteq> None"

definition schedule_ok :: "schedule \<Rightarrow> bool" where
  "schedule_ok s \<longleftrightarrow>
     s = zero_schedule\<lparr>one_time := True, one_time_left := True\<rparr>
     \<or> (\<exists>d. second \<le> d \<and> second dvd d \<and> s = zero_schedule\<lparr>every := d\<rparr>)
     \<or> calendar_ok s"

lemma in_field_Inr: "in_field i r k = Inr s \<longleftrightarrow> (\<exists>v. r = Inr v \<and> k v = Inr s)"
  by (cases r) (auto simp: in_field_def)

lemma parse_field_ok:
  "parse_field input (replicate n False) zu names = Inr out \<Longrightarrow> field_names_ok n zu names \<Longrightarrow> field_ok out n zu"
  using parse_field_denotes [of input n zu names out] by (auto simp: field_ok_def)

lemma parse_star:
  assumes "parse_field ''*'' (replicate n False) zu names = Inr out" and "field_names_ok n zu names"
    and "j < n" and "zu \<Longrightarrow> 1 \<le> j"
  shows "out ! j"
proof -
  have "split_char (CHR '','') ''*'' = [''*'']" by (simp add: split_char_def)
  moreover have "(if zu then 2 else 1) \<le> n" using assms(2) by (simp add: field_names_ok_def)
  ultimately show ?thesis
    using parse_field_denotes(2) [OF assms(1,2,3)] star_denotes [of zu n names j] assms(3,4) by auto
qed

lemma parse_fields_ok:
  assumes "parse_fields fs tz = Inr s"
  shows "calendar_ok s"
proof -
  obtain mi h dom mo dow where
    p: "parse_field (fs ! 0) (replicate 60 False) False None = Inr mi"
      "parse_field (fs ! 1) (replicate 24 False) False None = Inr h"
      "parse_field (fs ! 2) (replicate 32 False) True None = Inr dom"
      "parse_field (fs ! 3) (replicate 13 False) True (Some month_names) = Inr mo"
      "parse_field (fs ! 4) (replicate 7 False) False (Some day_names) = Inr dow"
    and s: "s = zero_schedule\<lparr>minutes := mi, hours := h, days_of_month := dom, months := mo,
              days_of_week := dow, dom_restricted := (fs ! 2 \<noteq> ''*''),
              dow_restricted := (fs ! 4 \<noteq> ''*''),
              timezone := Some (case tz of None \<Rightarrow> utc | Some l \<Rightarrow> l)\<rparr>"
    using assms unfolding parse_fields_def in_field_Inr by (elim exE conjE) (simp add: in_field_Inr)
  have "dom ! j" if "fs ! 2 = ''*''" "j \<in> {1..31}" for j
    using parse_star [OF p(3) [unfolded that(1)] fields_ok(3), of j] that(2) by simp
  moreover have "dow ! j" if "fs ! 4 = ''*''" "j \<in> {0..6}" for j
    using parse_star [OF p(5) [unfolded that(1)] fields_ok(5), of j] that(2) by simp
  ultimately show ?thesis
    using p parse_field_ok [OF _ fields_ok(1)] parse_field_ok [OF _ fields_ok(2)]
      parse_field_ok [OF _ fields_ok(3)] parse_field_ok [OF _ fields_ok(4)] parse_field_ok [OF _ fields_ok(5)]
    unfolding calendar_ok_def s by (simp add: zero_schedule_def)
qed

lemma parse_cron_ok: "parse_cron spec tz = Inr s \<Longrightarrow> schedule_ok s"
proof -
  assume p: "parse_cron spec tz = Inr s"
  define spec1 where "spec1 = to_lower (trim_space spec)"
  define fs where "fs = str_fields (case map_of predefined spec1 of Some t \<Rightarrow> t | None \<Rightarrow> spec1)"
  define A B C where "A \<longleftrightarrow> length fs = 1 \<and> fs ! 0 \<in> set reboot_aliases"
    and "B \<longleftrightarrow> length fs > 1 \<and> fs ! 0 = ''@every''" and "C \<longleftrightarrow> length fs \<noteq> 5"
  define pd where "pd = parse_duration (join [] (tl fs))"
  have eq: "(if A then Inr (zero_schedule\<lparr>one_time := True, one_time_left := True\<rparr>)
      else if B then case pd of None \<Rightarrow> Inl (InvalidEvery (join [] (tl fs)))
        | Some d \<Rightarrow> if d < second then Inl (InvalidEvery (join [] (tl fs)))
          else Inr (zero_schedule\<lparr>every := d - d mod second\<rparr>)
      else if C then Inl (FieldCount (length fs)) else parse_fields fs tz) = Inr s"
    using p unfolding parse_cron_def Let_def spec1_def [symmetric] fs_def [symmetric]
      A_def [symmetric] B_def [symmetric] C_def [symmetric] pd_def [symmetric] .
  consider (once) "A" | (every) d where "\<not> A" B "pd = Some d" "second \<le> d" | (five) "\<not> A" "\<not> B" "\<not> C"
    using eq by (cases A; cases B; cases C; cases pd) (auto split: if_splits)
  then show ?thesis
  proof cases
    case once
    with eq show ?thesis by (auto simp: schedule_ok_def)
  next
    case (every d)
    have "second dvd d - d mod second" by (simp add: dvd_minus_mod)
    moreover have "second \<le> d - d mod second"
      using every(4) truncate_to_greatest [of second second d] by (simp add: truncate_to_def)
    moreover have "s = zero_schedule\<lparr>every := d - d mod second\<rparr>" using eq every by simp
    ultimately show ?thesis unfolding schedule_ok_def by blast
  next
    case five
    with eq have "parse_fields fs tz = Inr s" by simp
    then show ?thesis by (simp add: schedule_ok_def parse_fields_ok)
  qed
qed

text \<open>Every accepted cronspec is well formed. It is a one-time schedule; or an interval of
  at least a second, in whole seconds; or five fields of the right sizes, none of them
  empty, with nothing at the unused index 0 of days and months, and complete where the
  field is a star. So no lookup of the search for the next time is out of range, and the
  search never runs with an empty field.\<close>

theorem parse_cron_well_formed:
  assumes "parse_cron spec tz = Inr s"
  shows "schedule_ok s"
  using assms by (rule parse_cron_ok)

lemma demo_spec_parses: "\<not> isl (parse_cron ''30 4 29 feb *'' None)"
  by code_simp

definition demo_schedule :: schedule where
  "demo_schedule = projr (parse_cron ''30 4 29 feb *'' None)"

lemma demo_parsed: "parse_cron ''30 4 29 feb *'' None = Inr demo_schedule"
  using demo_spec_parses by (simp add: demo_schedule_def)

theorem parse_cron_well_formed_witness: "schedule_ok demo_schedule"
  by (rule parse_cron_well_formed [OF demo_parsed])

section \<open>The notation of fields\<close>

text \<open>
  What docs/config/collector/schedule.md says about the parts of a field, independently of the
  parser. A value is a name or a number within the bounds of the field, where a day of the
  week may be 7.
\<close>

definition field_value :: "nat \<Rightarrow> bool \<Rightarrow> (string \<times> int) list option \<Rightarrow> string \<Rightarrow> int \<Rightarrow> bool" where
  "field_value n zero_unused names s v \<longleftrightarrow>
     (case (case names of None \<Rightarrow> None | Some ns \<Rightarrow> map_of ns s) of
        Some u \<Rightarrow> v = u
      | None \<Rightarrow> atoi s = Some v \<and> (if zero_unused then 1 else 0) \<le> v
                \<and> (v < int n \<or> n = 7 \<and> \<not> zero_unused \<and> v = 7))"

text \<open>Every \<open>d\<close>-th value from \<open>v\<close> to \<open>w\<close>; 7 is the day 0.\<close>

definition counts :: "nat \<Rightarrow> int \<Rightarrow> int \<Rightarrow> int \<Rightarrow> nat \<Rightarrow> bool" where
  "counts n v w d j \<longleftrightarrow> (\<exists>i. v \<le> i \<and> i \<le> w \<and> d dvd i - v \<and> i mod int n = int j)"

text \<open>A range that ends on Sunday ends the week, and one that starts on day 7 starts it.\<close>

definition range_ends :: "int \<Rightarrow> int \<Rightarrow> int \<times> int" where
  "range_ends v w = (if w = 0 \<and> 0 < v \<and> v < 7 then (v, 7) else if v = 7 \<and> w < 7 then (0, w) else (v, w))"

inductive selects :: "nat \<Rightarrow> bool \<Rightarrow> (string \<times> int) list option \<Rightarrow> string \<Rightarrow> nat \<Rightarrow> bool"
  for n zero_unused names where
  wildcard: "counts n (if zero_unused then 1 else 0) (int n - 1) 1 j \<Longrightarrow> selects n zero_unused names ''*'' j"
| every: "atoi k = Some d \<Longrightarrow> counts n (if zero_unused then 1 else 0) (int n - 1) d j
    \<Longrightarrow> selects n zero_unused names (''*/'' @ k) j"
| single: "CHR ''-'' \<notin> set s \<Longrightarrow> CHR ''/'' \<notin> set s \<Longrightarrow> s \<noteq> ''*'' \<Longrightarrow> field_value n zero_unused names s v
    \<Longrightarrow> counts n v v 1 j \<Longrightarrow> selects n zero_unused names s j"
| range: "CHR ''-'' \<notin> set a \<Longrightarrow> CHR ''/'' \<notin> set (a @ b) \<Longrightarrow> field_value n zero_unused names a v
    \<Longrightarrow> field_value n zero_unused names b w \<Longrightarrow> range_ends v w = (v', w') \<Longrightarrow> counts n v' w' 1 j
    \<Longrightarrow> selects n zero_unused names (a @ ''-'' @ b) j"
| range_step: "CHR ''-'' \<notin> set a \<Longrightarrow> CHR ''/'' \<notin> set (a @ b) \<Longrightarrow> field_value n zero_unused names a v
    \<Longrightarrow> field_value n zero_unused names b w \<Longrightarrow> range_ends v w = (v', w') \<Longrightarrow> atoi k = Some d
    \<Longrightarrow> counts n v' w' d j \<Longrightarrow> selects n zero_unused names (a @ ''-'' @ b @ ''/'' @ k) j"

text \<open>The one range that the parser reads differently: from day 0 to day 7.\<close>

definition sunday_to_seven :: "nat \<Rightarrow> bool \<Rightarrow> (string \<times> int) list option \<Rightarrow> string \<Rightarrow> bool" where
  "sunday_to_seven n zero_unused names part \<longleftrightarrow>
     n = 7 \<and> \<not> zero_unused \<and>
     (\<exists>a b r. part = a @ ''-'' @ b @ r \<and> (r = [] \<or> hd r = CHR ''/'') \<and> CHR ''-'' \<notin> set a \<and> CHR ''/'' \<notin> set (a @ b)
        \<and> field_value n zero_unused names a 0 \<and> field_value n zero_unused names b 7)"

lemma field_value_unique: "field_value n zu names s v \<Longrightarrow> field_value n zu names s w \<Longrightarrow> v = w"
  by (auto simp: field_value_def split: option.splits)

lemma field_value_range:
  assumes "field_value n zu names s v" and "names_ok names (if zu then 1 else 0) (int n - 1)" and "0 < n"
  shows "(if zu then 1 else 0) \<le> v \<and> (v < int n \<or> n = 7 \<and> \<not> zu \<and> v = 7)"
  using assms by (auto simp: field_value_def names_ok_def list_all_iff split: option.splits dest!: map_of_SomeD)

lemma parse_value_spec:
  assumes "names_ok names (if zu then 1 else 0) (int n - 1)" and "0 < n"
  shows "parse_value s (int n - 1) zu names = Inr u \<longleftrightarrow> (\<exists>v. field_value n zu names s v \<and> u = v mod int n)"
proof (cases "case names of None \<Rightarrow> None | Some ns \<Rightarrow> map_of ns s")
  case (Some x)
  then have "field_value n zu names s v \<longleftrightarrow> v = x" for v by (simp add: field_value_def)
  moreover have "x mod int n = x"
    using Some field_value_range [OF _ assms, of s x] assms
    by (intro mod_pos_pos_trivial) (auto simp: names_ok_def list_all_iff split: option.splits if_splits dest!: map_of_SomeD)
  ultimately show ?thesis using Some by (auto simp: parse_value_def)
next
  case None
  then show ?thesis using assms(2)
    by (auto simp: parse_value_def field_value_def Let_def split: option.splits)
qed

text \<open>Texts are cut in one way only.\<close>

definition starts_with :: "char \<Rightarrow> string \<Rightarrow> bool" where
  "starts_with c r \<longleftrightarrow> r = [] \<or> hd r = c"

lemma cut_once:
  assumes "c \<notin> set a" and "c \<notin> set b" and "starts_with c r" and "starts_with c s"
  shows "a @ r = b @ s \<longleftrightarrow> a = b \<and> r = s"
  using assms
proof (induction a arbitrary: b)
  case Nil
  then show ?case by (cases b) (auto simp: starts_with_def)
next
  case (Cons x a)
  then show ?case by (cases b) (auto simp: starts_with_def)
qed

lemma starts_with_simps [simp]: "starts_with c []" "starts_with c (c # s)"
  by (simp_all add: starts_with_def)

text \<open>What a part selects, by its text before the first slash and the step after it.\<close>

definition body_selects ::
  "nat \<Rightarrow> bool \<Rightarrow> (string \<times> int) list option \<Rightarrow> string \<Rightarrow> bool \<Rightarrow> int \<Rightarrow> nat \<Rightarrow> bool" where
  "body_selects n zu names body has_step d j \<longleftrightarrow>
     body = ''*'' \<and> counts n (if zu then 1 else 0) (int n - 1) d j
     \<or> body \<noteq> ''*'' \<and> CHR ''-'' \<notin> set body \<and> \<not> has_step \<and> (\<exists>v. field_value n zu names body v \<and> counts n v v 1 j)
     \<or> (\<exists>a b v w v' w'. body = a @ ''-'' @ b \<and> CHR ''-'' \<notin> set a \<and> field_value n zu names a v
          \<and> field_value n zu names b w \<and> range_ends v w = (v', w') \<and> counts n v' w' d j)"

lemma body_selects_range:
  "CHR ''-'' \<notin> set a \<Longrightarrow> field_value n zu names a v \<Longrightarrow> field_value n zu names b w \<Longrightarrow> range_ends v w = (v', w')
    \<Longrightarrow> counts n v' w' d j \<Longrightarrow> body_selects n zu names (a @ ''-'' @ b) has_step d j"
  unfolding body_selects_def by blast

lemma selects_body:
  assumes "CHR ''/'' \<notin> set body"
  shows "selects n zu names body j \<longleftrightarrow> body_selects n zu names body False 1 j"
proof
  assume "selects n zu names body j"
  then show "body_selects n zu names body False 1 j"
  proof (cases rule: selects.cases)
    case (range a b v w v' w')
    then show ?thesis using body_selects_range [of a n zu names v b w v' w' 1 j False] by simp
  qed (use assms in \<open>auto simp: body_selects_def\<close>)
next
  assume "body_selects n zu names body False 1 j"
  then show "selects n zu names body j"
    using assms selects.wildcard [of n zu j names] selects.single [of body n zu names _ j] selects.range [of _ _ n zu names _ _ _ _ j]
    unfolding body_selects_def by auto
qed

lemma selects_step:
  assumes "CHR ''/'' \<notin> set body" and "atoi k = Some d"
  shows "selects n zu names (body @ ''/'' @ k) j \<longleftrightarrow> body_selects n zu names body True d j"
proof
  assume "selects n zu names (body @ ''/'' @ k) j"
  then show "body_selects n zu names body True d j"
  proof (cases rule: selects.cases)
    case (every k' d')
    then have "body @ ''/'' @ k = ''*'' @ ''/'' @ k'" by simp
    with assms(1) have "body = ''*'' \<and> k = k'" by (subst (asm) cut_once [of "CHR ''/''"]) auto
    with every assms(2) show ?thesis by (simp add: body_selects_def)
  next
    case (range_step a b v w v' w' k' d')
    then have "body @ ''/'' @ k = (a @ ''-'' @ b) @ ''/'' @ k'" by simp
    with assms(1) range_step(3) have "body = a @ ''-'' @ b \<and> k = k'" by (subst (asm) cut_once [of "CHR ''/''"]) auto
    with range_step assms(2) show ?thesis using body_selects_range [of a n zu names v b w v' w' d j True] by simp
  next
    case wildcard
    have "body @ ''/'' @ k \<noteq> ''*''" by (cases body) simp_all
    with wildcard(1) show ?thesis by (rule notE [rotated])
  next
    case single
    then show ?thesis by simp
  next
    case (range a b v w v' w')
    have "CHR ''/'' \<in> set (body @ ''/'' @ k)" by simp
    then have "CHR ''/'' \<in> set (a @ ''-'' @ b)" unfolding range(1) .
    with range(3) show ?thesis by simp
  qed
next
  assume "body_selects n zu names body True d j"
  then consider "body = ''*''" "counts n (if zu then 1 else 0) (int n - 1) d j"
    | a b v w v' w' where "body = a @ ''-'' @ b" "CHR ''-'' \<notin> set a" "field_value n zu names a v"
        "field_value n zu names b w" "range_ends v w = (v', w')" "counts n v' w' d j"
    unfolding body_selects_def by auto
  then show "selects n zu names (body @ ''/'' @ k) j"
  proof cases
    case 1
    with assms(2) show ?thesis using selects.every [of k d n zu j names] by simp
  next
    case 2
    with assms show ?thesis using selects.range_step [of a b n zu names v w v' w' k d j] by simp
  qed
qed

definition body_to_seven :: "nat \<Rightarrow> bool \<Rightarrow> (string \<times> int) list option \<Rightarrow> string \<Rightarrow> bool" where
  "body_to_seven n zu names body \<longleftrightarrow>
     n = 7 \<and> \<not> zu \<and> (\<exists>a b. body = a @ ''-'' @ b \<and> CHR ''-'' \<notin> set a \<and> field_value n zu names a 0 \<and> field_value n zu names b 7)"

lemma to_seven_body:
  assumes "CHR ''/'' \<notin> set body" and "starts_with (CHR ''/'') r"
  shows "sunday_to_seven n zu names (body @ r) \<longleftrightarrow> body_to_seven n zu names body"
proof -
  have "body @ r = a @ ''-'' @ b @ r' \<longleftrightarrow> body = a @ ''-'' @ b \<and> r = r'"
    if "CHR ''/'' \<notin> set (a @ b)" "starts_with (CHR ''/'') r'" for a b r'
    using cut_once [of "CHR ''/''" body "a @ ''-'' @ b" r r'] assms that by auto
  then show ?thesis using assms unfolding sunday_to_seven_def body_to_seven_def starts_with_def [symmetric]
    by (smt (verit, best) in_set_conv_decomp set_append Un_iff)
qed

lemma counts_steps:
  assumes "0 < d"
  shows "counts n v w d j \<longleftrightarrow> (\<exists>k \<ge> 0. v + k * d \<le> w \<and> (v + k * d) mod int n = int j)"
proof
  assume "counts n v w d j"
  then obtain i where i: "v \<le> i" "i \<le> w" "d dvd i - v" "i mod int n = int j" by (auto simp: counts_def)
  then obtain k where k: "i - v = d * k" by (auto elim: dvdE)
  with i(1) assms have "0 \<le> k" by (metis diff_ge_0_iff_ge zero_le_mult_iff not_less)
  with i k show "\<exists>k \<ge> 0. v + k * d \<le> w \<and> (v + k * d) mod int n = int j"
    by (intro exI [of _ k]) (metis add.commute diff_add_cancel mult.commute)
next
  assume "\<exists>k \<ge> 0. v + k * d \<le> w \<and> (v + k * d) mod int n = int j"
  then obtain k where "0 \<le> k" "v + k * d \<le> w" "(v + k * d) mod int n = int j" by blast
  then show "counts n v w d j" using assms unfolding counts_def by (intro exI [of _ "v + k * d"]) simp
qed

text \<open>What the parser denotes by a part, where it parses.\<close>

lemma range_text:
  assumes "parse_range body lo hi hs zu names step = Inr (v, w)" and "body \<noteq> ''*''"
  obtains (range) a b where "body = a @ ''-'' @ b" "CHR ''-'' \<notin> set a"
    "parse_value a hi zu names = Inr v" "parse_value b hi zu names = Inr w"
  | (single) "CHR ''-'' \<notin> set body" "\<not> hs" "parse_value body hi zu names = Inr v" "w = v"
  using assms
  by (cases rule: cut_cases [of "CHR ''-''" body])
    (auto simp: parse_range_def split: sum.splits if_splits)

lemma counts_one: "counts n i i d j \<longleftrightarrow> i mod int n = int j"
  by (auto simp: counts_def intro: exI [of _ i])

lemma ends_counts:
  assumes "range_ends v0 w0 = (v', w')" and "v = v0 mod int n" and "w = w0 mod int n"
    and "(if zu then 1 else 0) \<le> v0 \<and> (v0 < int n \<or> n = 7 \<and> \<not> zu \<and> v0 = 7)"
    and "(if zu then 1 else 0) \<le> w0 \<and> (w0 < int n \<or> n = 7 \<and> \<not> zu \<and> w0 = 7)"
    and "v \<le> w \<or> 0 < v \<and> w = 0 \<and> n = 7 \<and> \<not> zu" and "0 < n" and "\<not> (v0 = 0 \<and> w0 = 7 \<and> n = 7 \<and> \<not> zu)"
  shows "counts n v (if v > w then 7 else w) d j \<longleftrightarrow> counts n v' w' d j"
proof -
  have nonneg: "0 \<le> v0" "0 \<le> w0" using assms(4,5) by (auto split: if_splits)
  consider "v0 < int n" "w0 < int n" | "n = 7" "v0 = 7" "w0 < 7" | "n = 7" "v0 = 7" "w0 = 7" | "n = 7" "\<not> zu" "v0 < 7" "w0 = 7"
    using assms(4,5) by auto
  then show ?thesis
  proof cases
    case 1
    then have "v = v0" "w = w0" using assms(2,3) nonneg by simp_all
    with 1 assms(1,6) nonneg show ?thesis by (auto simp: range_ends_def split: if_splits)
  next
    case 2
    then have "v = 0" "w = w0" using assms(2,3) nonneg by simp_all
    with 2 assms(1) nonneg show ?thesis by (auto simp: range_ends_def)
  next
    case 3
    then show ?thesis using assms(1-3) by (auto simp: range_ends_def counts_one)
  next
    case 4
    then have "v = v0" "w = 0" "0 < v0" using assms(2,3,8) nonneg by (simp_all add: order_less_le)
    with 4 assms(1) show ?thesis by (auto simp: range_ends_def)
  qed
qed

lemma parsed_body:
  assumes "parse_range body lo (int n - 1) hs zu names step = Inr (v, w)" and "lo = (if zu then 1 else 0)"
    and "v \<le> w \<or> 0 < v \<and> w = 0 \<and> n = 7 \<and> \<not> zu" and "0 < n" and "names_ok names lo (int n - 1)"
    and "0 < step" and "hs \<or> step = 1" and "j < n"
  shows "counts n v (if v > w then 7 else w) step j
    \<longleftrightarrow> (if body_to_seven n zu names body then j = 0 else body_selects n zu names body hs step j)"
proof (cases "body = ''*''")
  case True
  then have "v = lo" "w = int n - 1" using assms(1) by (auto simp: parse_range_def)
  moreover have "\<not> body_to_seven n zu names ''*''" by (auto simp: body_to_seven_def append_eq_Cons_conv Cons_eq_append_conv)
  ultimately show ?thesis using True assms(2,3,4) by (auto simp: body_selects_def append_eq_Cons_conv Cons_eq_append_conv)
next
  case False
  have ok: "names_ok names (if zu then 1 else 0) (int n - 1)" using assms(2,5) by simp
  note pv = parse_value_spec [OF ok assms(4)] and rng = field_value_range [OF _ ok assms(4)]
  from assms(1) False show ?thesis
  proof (cases rule: range_text)
    case (range a b)
    obtain v0 where v0: "field_value n zu names a v0" "v = v0 mod int n" using range(3) pv by blast
    obtain w0 where w0: "field_value n zu names b w0" "w = w0 mod int n" using range(4) pv by blast
    have cut: "body = a' @ ''-'' @ b' \<and> CHR ''-'' \<notin> set a' \<longleftrightarrow> a' = a \<and> b' = b" for a' b'
      using range(1,2) cut_once [of "CHR ''-''" a a' "''-'' @ b" "''-'' @ b'"] by (auto simp: starts_with_def)
    obtain v' w' where e: "range_ends v0 w0 = (v', w')" by fastforce
    have seven: "body_to_seven n zu names body \<longleftrightarrow> v0 = 0 \<and> w0 = 7 \<and> n = 7 \<and> \<not> zu"
    proof
      assume "body_to_seven n zu names body"
      then obtain a' b' where x: "body = a' @ ''-'' @ b'" "CHR ''-'' \<notin> set a'"
        "field_value n zu names a' 0" "field_value n zu names b' 7" unfolding body_to_seven_def by blast
      with cut [of a' b'] have "a' = a" "b' = b" by simp_all
      with x(3,4) v0(1) w0(1) show "v0 = 0 \<and> w0 = 7 \<and> n = 7 \<and> \<not> zu"
        using field_value_unique \<open>body_to_seven n zu names body\<close> by (simp add: body_to_seven_def)
    next
      assume "v0 = 0 \<and> w0 = 7 \<and> n = 7 \<and> \<not> zu"
      with range(1,2) v0(1) w0(1) show "body_to_seven n zu names body" unfolding body_to_seven_def by blast
    qed
    have "body_selects n zu names body hs step j \<longleftrightarrow> counts n v' w' step j"
    proof
      assume "body_selects n zu names body hs step j"
      then obtain a' b' v1 w1 v2 w2 where x: "body = a' @ ''-'' @ b'" "CHR ''-'' \<notin> set a'" "field_value n zu names a' v1"
        "field_value n zu names b' w1" "range_ends v1 w1 = (v2, w2)" "counts n v2 w2 step j"
        using False range(1) unfolding body_selects_def by auto
      with cut [of a' b'] have "a' = a" "b' = b" by simp_all
      with x(3,4) v0(1) w0(1) have "v1 = v0" "w1 = w0" using field_value_unique by blast+
      with x(5,6) e show "counts n v' w' step j" by simp
    qed (use body_selects_range [OF range(2) v0(1) w0(1) e] range(1) in simp)
    moreover have "counts n v (if v > w then 7 else w) step j \<longleftrightarrow> counts n v' w' step j" if "\<not> (v0 = 0 \<and> w0 = 7 \<and> n = 7 \<and> \<not> zu)"
      using ends_counts [OF e v0(2) w0(2) rng [OF v0(1)] rng [OF w0(1)] assms(3,4)] that by blast
    moreover have "counts n v (if v > w then 7 else w) step j \<longleftrightarrow> j = 0" if "v0 = 0 \<and> w0 = 7 \<and> n = 7 \<and> \<not> zu"
      using that rng [OF w0(1)] v0(2) w0(2) by (auto simp: counts_def)
    ultimately show ?thesis using seven by auto
  next
    case single
    obtain v0 where v0: "field_value n zu names body v0" "v = v0 mod int n" using single(3) pv by blast
    have nodash: "body \<noteq> a @ ''-'' @ b" for a b using single(1) by auto
    have "body_selects n zu names body hs step j \<longleftrightarrow> counts n v0 v0 1 j"
      using nodash False single(1,2) v0(1) field_value_unique unfolding body_selects_def by blast
    moreover have "step = 1" using assms(7) single(2) by simp
    moreover have "counts n v0 v0 1 j \<longleftrightarrow> counts n v v 1 j" using v0(2) by (simp add: counts_one)
    moreover have "\<not> body_to_seven n zu names body" using nodash by (auto simp: body_to_seven_def)
    ultimately show ?thesis using single(4) by simp
  qed
qed

lemma part_selects:
  assumes "parse_part part out zu names = Inr out'"
    and "names_ok names (if zu then 1 else 0) (int (length out) - 1)"
    and "(if zu then 2 else 1) \<le> length out" and "names \<noteq> None \<Longrightarrow> map_of (the names) ''sat'' = Some 6 \<Longrightarrow> \<not> zu \<and> length out = 7"
    and "j < length out"
  shows "part_denotes part (length out) zu names j \<longleftrightarrow>
    (if sunday_to_seven (length out) zu names part then j = 0 else selects (length out) zu names part j)"
proof -
  define n where "n = length out"
  define lo where "lo = (if zu then 1 else 0 :: int)"
  obtain body step hs where st: "parse_step part (int n - 1) = Inr (body, step, hs)"
    using assms(1) by (cases "parse_step part (int n - 1)") (auto simp: parse_part_def n_def Let_def)
  obtain v w where vw: "parse_range body lo (int n - 1) hs zu names step = Inr (v, w)"
    using assms(1) st
    by (cases "parse_range body lo (int n - 1) hs zu names step") (auto simp: parse_part_def n_def lo_def Let_def)
  have n: "0 < n" "lo \<le> int n - 1" using assms(3) by (auto simp: n_def lo_def split: if_splits)
  have ok: "names_ok names lo (int n - 1)" using assms(2) by (simp add: n_def lo_def)
  have r: "0 \<le> v" "v < int n" "w < int n" using parse_range_range [OF vw ok lo_def n(2)] by (auto simp: lo_def split: if_splits)
  have ord: "v \<le> w \<or> 0 < v \<and> w = 0 \<and> n = 7 \<and> \<not> zu"
    using assms(1,4) st vw unfolding parse_part_def n_def lo_def Let_def by (auto split: if_splits)
  have step: "0 < step" by (rule parse_step_pos [OF st])
  have "part_denotes part n zu names j \<longleftrightarrow> counts n v (if v > w then 7 else w) step j"
  proof -
    have m: "(v + k * step) mod int n = v + k * step" if "0 \<le> k" "v + k * step \<le> w" for k
      using that r step by (intro mod_pos_pos_trivial) auto
    have "(\<exists>k \<ge> 0. v + k * step \<le> w \<and> v + k * step = int j)
        \<longleftrightarrow> (\<exists>k \<ge> 0. v + k * step \<le> w \<and> (v + k * step) mod int n = int j)" using m by metis
    with st vw show ?thesis by (simp add: part_denotes_def lo_def counts_steps [OF step])
  qed
  moreover consider k where "hs" "part = body @ ''/'' @ k" "CHR ''/'' \<notin> set body" "atoi k = Some step"
    | "\<not> hs" "part = body" "CHR ''/'' \<notin> set body" "step = 1"
    using st by (cases rule: cut_cases [of "CHR ''/''" part]) (auto simp: parse_step_def split: option.splits if_splits)
  then have "(sunday_to_seven n zu names part = body_to_seven n zu names body
    \<and> selects n zu names part j = body_selects n zu names body hs step j) \<and> (hs \<or> step = 1)"
  proof cases
    case (1 k)
    then show ?thesis
      using selects_step [of body k step n zu names j] to_seven_body [of body "''/'' @ k" n zu names] by simp
  next
    case 2
    then show ?thesis
      using selects_body [of body n zu names j] to_seven_body [of body "[]" n zu names] by simp
  qed
  ultimately show ?thesis
    using parsed_body [OF vw lo_def ord n(1) ok step] assms(5) by (simp add: n_def)
qed

lemma parse_parts_each:
  "parse_parts parts out zu names = Inr out' \<Longrightarrow> p \<in> set parts
    \<Longrightarrow> \<exists>o1 o2. length o1 = length out \<and> parse_part p o1 zu names = Inr o2"
proof (induction parts arbitrary: out)
  case (Cons x parts)
  obtain out1 where one: "parse_part x out zu names = Inr out1"
    using Cons.prems(1) by (cases "parse_part x out zu names") auto
  then have "length out1 = length out" by (auto simp: parse_part_def Let_def split: sum.splits if_splits)
  moreover have "parse_parts parts out1 zu names = Inr out'" using Cons.prems(1) one by simp
  ultimately show ?case using one Cons.IH [of out1] Cons.prems(2) by (metis set_ConsD)
qed simp

text \<open>C31: A field means what its notation says. A field that is parsed contains exactly the values
  that one of its comma-separated parts selects: a wildcard selects all values of the field, a
  name or a number that value (7 is the day 0), a range everything from one end to the other -
  where a range of week days may end on Sunday - and a step every so many of them, from the
  first one. There is one exception: the range from day 0 to day 7 selects day 0 alone. No
  field is empty, and the unused value 0 of days and months is never in one.\<close>

theorem parse_field_union:
  assumes "parse_field input (replicate n False) zu names = Inr out" and "field_names_ok n zu names"
  shows "length out = n
    \<and> (\<forall>j \<in> {..<n}. out ! j = (\<exists>p \<in> set (split_char (CHR '','') input).
          if sunday_to_seven n zu names p then j = 0 else selects n zu names p j))
    \<and> (\<exists>j \<in> {..<n}. out ! j) \<and> (zu \<longrightarrow> \<not> out ! 0)"
proof -
  have "part_denotes p n zu names j \<longleftrightarrow> (if sunday_to_seven n zu names p then j = 0 else selects n zu names p j)"
    if p: "p \<in> set (split_char (CHR '','') input)" "j < n" for p j
  proof -
    obtain o1 o2 where o: "length o1 = n" "parse_part p o1 zu names = Inr o2"
      using parse_parts_each [of _ "replicate n False" zu names out p] p(1) assms(1)
      unfolding parse_field_def length_replicate by blast
    from part_selects [of p o1 zu names o2 j, unfolded o(1), OF o(2)] assms(2) p(2) show ?thesis
      unfolding field_names_ok_def by blast
  qed
  then have eq: "(\<exists>p \<in> set (split_char (CHR '','') input). part_denotes p n zu names j) \<longleftrightarrow>
      (\<exists>p \<in> set (split_char (CHR '','') input). if sunday_to_seven n zu names p then j = 0 else selects n zu names p j)"
    if "j < n" for j using that by (intro bex_cong) simp_all
  note d = parse_field_denotes [OF assms]
  have "\<exists>j \<in> {..<n}. out ! j" using d(3) by blast
  moreover have "\<forall>j \<in> {..<n}. out ! j = (\<exists>p \<in> set (split_char (CHR '','') input).
      if sunday_to_seven n zu names p then j = 0 else selects n zu names p j)" using d(2) eq by simp
  ultimately show ?thesis using d(1,4) by blast
qed

lemma demo_field: "parse_field ''fri-sun,2'' (replicate 7 False) False (Some day_names)
    = Inr [True, False, True, False, False, True, True]"
  by code_simp

theorem parse_field_union_witness:
  "\<exists>p \<in> set (split_char (CHR '','') ''fri-sun,2'').
     if sunday_to_seven 7 False (Some day_names) p then (6 :: nat) = 0 else selects 7 False (Some day_names) p 6"
proof -
  from parse_field_union [OF demo_field fields_ok(5)]
  have "\<forall>j \<in> {..<7}. [True, False, True, False, False, True, True] ! j
    = (\<exists>p \<in> set (split_char (CHR '','') ''fri-sun,2'').
         if sunday_to_seven 7 False (Some day_names) p then j = 0 else selects 7 False (Some day_names) p j)" by (elim conjE)
  from bspec [OF this, of 6] show ?thesis by simp
qed

section \<open>Soundness of the search in any location\<close>

text \<open>The times that a schedule of five fields means.\<close>

definition matches :: "schedule \<Rightarrow> location \<Rightarrow> instant \<Rightarrow> bool" where
  "matches s loc t \<longleftrightarrow>
     months s ! nat (month_of_day (local_day loc t)) \<and> day_matches s (local_day loc t)
     \<and> hours s ! nat (hour_of loc t) \<and> minutes s ! nat (minute_of loc t)"

lemma next_step_None: "next_step s loc t = None \<longleftrightarrow> matches s loc t"
  by (auto simp: next_step_def matches_def Let_def)

lemma next_loop_sound:
  assumes "next_loop s loc limit t = Some r"
  shows "r = 0 \<or> (matches s loc r \<and> r < limit)"
  by (rule next_loop.raw_induct [where P = "\<lambda>s loc limit t r. r = 0 \<or> (matches s loc r \<and> r < limit)",
        OF _ assms])
     (auto simp: next_step_None [symmetric] split: option.splits if_splits)

text \<open>What the search finds matches, in every location. Whatever the time zone data, when
  Next of a well-formed schedule of five fields returns a time other than the zero time,
  the month, the day, the hour and the minute of that time in the schedule's location all
  match, and it is less than eight years and a day after the given time.\<close>

theorem next_time_sound:
  assumes "calendar_ok s" and "next_time s now after = (s', Some r)" and "r \<noteq> zero_time"
  shows "matches s (the (timezone s)) r \<and> r < add_date (the (timezone s)) after 8 0 1"
proof -
  obtain loc where loc: "timezone s = Some loc" using assms(1) by (auto simp: calendar_ok_def)
  have "next_loop s loc (add_date loc after 8 0 1) (truncate_to minute (after + minute)) = Some r"
    using assms(1,2) loc by (simp add: next_time_def calendar_ok_def Let_def)
  from next_loop_sound [OF this] assms(3) loc show ?thesis by simp
qed

definition minutely :: schedule where
  "minutely = projr (parse_cron ''* * * * *'' None)"

lemma minutely_parsed: "parse_cron ''* * * * *'' None = Inr minutely"
proof -
  have "\<not> isl (parse_cron ''* * * * *'' None)" by code_simp
  then show ?thesis by (simp add: minutely_def)
qed

lemma parse_fields_timezone:
  assumes "parse_fields fs tz = Inr s"
  shows "timezone s = Some (case tz of None \<Rightarrow> utc | Some l \<Rightarrow> l)"
  using assms by (auto simp: parse_fields_def in_field_def split: sum.splits)

lemma parse_cron_timezone:
  assumes "parse_cron spec tz = Inr s" and "every s = 0" and "\<not> one_time s"
  shows "timezone s = Some (case tz of None \<Rightarrow> utc | Some l \<Rightarrow> l)"
proof -
  have "\<not> d < second \<Longrightarrow> d - d mod second \<noteq> 0" for d :: int
    using pos_mod_bound [of second d] by linarith
  with assms show ?thesis
    by (auto simp: parse_cron_def Let_def parse_fields_timezone split: option.splits if_splits)
qed

lemma schedule_ok_calendar:
  assumes "schedule_ok s" and "every s = 0" and "\<not> one_time s"
  shows "calendar_ok s"
  using assms by (auto simp: schedule_ok_def)

lemma minutely_next: "next_time minutely 0 1 = (minutely, Some 60000000000)"
proof -
  have every: "every minutely = 0" and left: "\<not> one_time_left minutely" "\<not> one_time minutely"
    by code_simp+
  have tz: "timezone minutely = Some utc"
    using parse_cron_timezone [OF minutely_parsed every left(2)] by simp
  have limit: "60000000000 < add_date utc 1 8 0 1" by code_simp
  have "next_step minutely utc 60000000000 = None" by code_simp
  then have "next_loop minutely utc (add_date utc 1 8 0 1) 60000000000 = Some 60000000000"
    using limit by (simp add: next_loop.simps)
  moreover have "truncate_to minute (1 + minute) = 60000000000" by code_simp
  moreover have "minutely\<lparr>one_time_left := False\<rparr> = minutely" using left by simp
  ultimately show ?thesis using every left tz by (simp add: next_time_def Let_def)
qed

theorem next_time_sound_witness:
  "matches minutely (the (timezone minutely)) 60000000000
    \<and> 60000000000 < add_date (the (timezone minutely)) 1 8 0 1"
proof (rule next_time_sound [OF _ minutely_next])
  have "every minutely = 0" "\<not> one_time minutely" by code_simp+
  with parse_cron_ok [OF minutely_parsed] show "calendar_ok minutely" by (rule schedule_ok_calendar)
qed simp

section \<open>The search in a fixed zone\<close>

text \<open>
  In UTC, and in any zone with a fixed offset of whole minutes, the local minutes are
  numbered without gaps; minute \<open>n\<close> begins at \<open>minute_start off n\<close>.
\<close>

definition minute_start :: "int \<Rightarrow> int \<Rightarrow> instant" where
  "minute_start off n = n * minute - off * second"

definition matches_minute :: "schedule \<Rightarrow> int \<Rightarrow> bool" where
  "matches_minute s n \<longleftrightarrow>
     months s ! nat (month_of_day (n div 1440)) \<and> day_matches s (n div 1440)
     \<and> hours s ! nat (n div 60 mod 24) \<and> minutes s ! nat (n mod 60)"

lemma minute_start_fields:
  "local_day (fixed_zone off) (minute_start off n) = n div 1440"
  "hour_of (fixed_zone off) (minute_start off n) = n div 60 mod 24"
  "minute_of (fixed_zone off) (minute_start off n) = n mod 60"
proof -
  have "minute_start off n = (n * 60 - off) * second" by (simp add: minute_start_def)
  then have s: "local_seconds (fixed_zone off) (minute_start off n) = 60 * n"
    by (simp add: local_seconds_def)
  have d: "60 * n div (60 * k) = n div k" "60 * n mod (60 * k) = 60 * (n mod k)" for k
    by (simp_all add: mod_mult_mult1)
  show "local_day (fixed_zone off) (minute_start off n) = n div 1440"
    using d(1) [of 1440] by (simp add: local_day_def s)
  have "60 * (n mod 1440) div (60 * 60) = (n mod 1440) div 60" by simp
  also have "\<dots> = n div 60 mod 24"
    by (rule int_div_pos_eq [where r = "n mod 60"]) (use zmod_zmult2_eq [of 24 n 60] in simp_all)
  finally show "hour_of (fixed_zone off) (minute_start off n) = n div 60 mod 24"
    using d(2) [of 1440] by (simp add: hour_of_def s)
  show "minute_of (fixed_zone off) (minute_start off n) = n mod 60"
    using d(2) [of 60] by (simp add: minute_of_def s)
qed

lemma minute_start_mono: "minute_start off m < minute_start off n \<longleftrightarrow> m < n"
  by (simp add: minute_start_def)

lemma matches_minute_start: "matches s (fixed_zone off) (minute_start off n) = matches_minute s n"
  by (simp add: matches_def matches_minute_def minute_start_fields)

lemma index_true_spec:
  "index_true xs = - 1 \<and> (\<forall>j < length xs. \<not> xs ! j)
   \<or> (\<exists>i < length xs. index_true xs = int i \<and> xs ! i \<and> (\<forall>j < i. \<not> xs ! j))"
proof (induction xs)
  case (Cons x xs)
  show ?case
  proof (cases x)
    case True
    then show ?thesis by (intro disjI2 exI [of _ 0]) simp
  next
    case False
    from Cons show ?thesis
    proof
      assume "index_true xs = - 1 \<and> (\<forall>j < length xs. \<not> xs ! j)"
      with False show ?thesis by (auto simp: less_Suc_eq_0_disj)
    next
      assume "\<exists>i < length xs. index_true xs = int i \<and> xs ! i \<and> (\<forall>j < i. \<not> xs ! j)"
      then obtain i where "i < length xs" "index_true xs = int i" "xs ! i" "\<forall>j < i. \<not> xs ! j" by blast
      with False show ?thesis
        by (intro disjI2 exI [of _ "Suc i"]) (auto simp: less_Suc_eq_0_disj)
    qed
  qed
qed simp

lemma less_next_multiple: "0 < k \<Longrightarrow> n < k * (n div k + 1)" for k n :: int
proof -
  assume "0 < k"
  moreover have "n = k * (n div k) + n mod k" by simp
  ultimately show ?thesis using pos_mod_bound [of k n] unfolding distrib_left mult_1_right by linarith
qed

text \<open>Minutes of the same day, or of the same hour.\<close>

lemma same_day_span: "n \<le> m \<Longrightarrow> m < 1440 * e \<Longrightarrow> n div 1440 \<le> m div 1440 \<and> m div 1440 < (e::int)"
  by (simp add: zdiv_mono1 div_less_iff_less_mult mult.commute)

lemma same_hour_span:
  assumes "n \<le> m" and "m < n + (60 - n mod 60)"
  shows "m div 60 = n div (60::int)" and "m mod 60 = n mod 60 + (m - n)"
proof -
  have n: "n = 60 * (n div 60) + n mod 60" by simp
  have r: "0 \<le> n mod 60 + (m - n)" "n mod 60 + (m - n) < 60" using assms by simp_all
  have m: "m = 60 * (n div 60) + (n mod 60 + (m - n))" using n by linarith
  from int_div_pos_eq [OF m r] show "m div 60 = n div 60" .
  from int_mod_pos_eq [OF m r] show "m mod 60 = n mod 60 + (m - n)" .
qed

text \<open>One round of the loop goes forward and skips no match.\<close>

lemma next_step_skips:
  assumes "calendar_ok s" and "next_step s (fixed_zone off) (minute_start off n) = Some u"
  shows "\<exists>n' > n. u = minute_start off n' \<and> (\<forall>m. n \<le> m \<and> m < n' \<longrightarrow> \<not> matches_minute s m)"
proof -
  let ?d = "n div 1440"
  let ?y = "year_of_day ?d" and ?mo = "month_of_day ?d" and ?dd = "day_of_month ?d"
  note st = assms(2) [unfolded next_step_def Let_def minute_start_fields go_date_fixed]
  have n_day: "n < 1440 * (?d + 1)" by (rule less_next_multiple) simp
  have date: "(e * 86400 - off) * second = minute_start off (1440 * e)" for e
    by (simp add: minute_start_def algebra_simps)
  consider (month) "\<not> months s ! nat ?mo"
    | (day) "months s ! nat ?mo" "\<not> day_matches s ?d"
    | (hour) "months s ! nat ?mo" "day_matches s ?d" "\<not> hours s ! nat (n div 60 mod 24)"
    | (minute) "months s ! nat ?mo" "day_matches s ?d" "hours s ! nat (n div 60 mod 24)"
        "\<not> minutes s ! nat (n mod 60)"
    | (none) "months s ! nat ?mo" "day_matches s ?d" "hours s ! nat (n div 60 mod 24)"
        "minutes s ! nat (n mod 60)"
    by blast
  then show ?thesis
  proof cases
    case month
    define e where "e = day_of_civil ?y (?mo + 1) 1"
    note nm = next_month_start [of ?d, folded e_def]
    have "n < 1440 * e" using n_day nm(1) by linarith
    then have "minute_start off n < minute_start off (1440 * e)" by (simp add: minute_start_mono)
    with st month have "u = minute_start off (1440 * e)"
      by (simp add: e_def [symmetric] date [symmetric])
    moreover have "\<not> matches_minute s m" if "n \<le> m" "m < 1440 * e" for m
    proof -
      have "month_of_day (m div 1440) = ?mo"
        using same_day_span [OF that] by (intro nm(2)) simp_all
      with month show ?thesis by (simp add: matches_minute_def)
    qed
    ultimately show ?thesis using \<open>n < 1440 * e\<close> by blast
  next
    case day
    define e where "e = day_of_civil ?y ?mo (?dd + 1)"
    have e: "e = ?d + 1"
      using day_of_civil_of_day [of ?d] day_of_civil_add by (simp add: e_def)
    have "n < 1440 * e" using n_day by (simp add: e)
    then have "minute_start off n < minute_start off (1440 * e)" by (simp add: minute_start_mono)
    with st day have "u = minute_start off (1440 * e)"
      by (simp add: e_def [symmetric] date [symmetric])
    moreover have "\<not> matches_minute s m" if "n \<le> m" "m < 1440 * e" for m
    proof -
      have "m div 1440 = ?d" using same_day_span [OF that] e by simp
      with day show ?thesis by (simp add: matches_minute_def)
    qed
    ultimately show ?thesis using \<open>n < 1440 * e\<close> by blast
  next
    case hour
    let ?n' = "n + (60 - n mod 60)"
    from st hour have "u = minute_start off ?n'" by (simp add: minute_start_def algebra_simps)
    moreover have "n < ?n'" by simp
    moreover have "\<not> matches_minute s m" if "n \<le> m" "m < ?n'" for m
      using same_hour_span(1) [OF that] hour by (simp add: matches_minute_def)
    ultimately show ?thesis by blast
  next
    case minute
    let ?k = "nat (n mod 60)"
    have k: "?k < 60" "int ?k = n mod 60" by simp_all
    let ?rest = "drop (?k + 1) (minutes s)"
    have len: "length (minutes s) = 60" using assms(1) by (simp add: calendar_ok_def field_ok_def)
    define i where "i = 1 + index_true ?rest"
    define step where "step = (if i = 0 then 60 - n mod 60 else i)"
    from st [folded i_def, folded step_def] minute have u: "u = minute_start off (n + step)"
      by (simp add: minute_start_def algebra_simps)
    have spec: "0 < step \<and> step \<le> 60 - n mod 60 \<and> (\<forall>j. 0 < j \<and> j < step \<longrightarrow> \<not> minutes s ! nat (n mod 60 + j))"
      using index_true_spec [of ?rest]
    proof
      assume a: "index_true ?rest = - 1 \<and> (\<forall>j < length ?rest. \<not> ?rest ! j)"
      then have "step = 60 - n mod 60" by (simp add: i_def step_def)
      moreover have "\<not> minutes s ! nat (n mod 60 + j)" if "0 < j" "j < 60 - n mod 60" for j
      proof -
        have "nat (n mod 60 + j) = ?k + 1 + nat (j - 1)" using that k by linarith
        moreover have "nat (j - 1) < length ?rest" using that k len by simp
        ultimately show ?thesis using a len k by simp
      qed
      ultimately show ?thesis by simp
    next
      assume "\<exists>i < length ?rest. index_true ?rest = int i \<and> ?rest ! i \<and> (\<forall>j < i. \<not> ?rest ! j)"
      then obtain i' where i': "i' < length ?rest" "index_true ?rest = int i'" "\<forall>j < i'. \<not> ?rest ! j" by blast
      then have "step = int i' + 1" by (simp add: i_def step_def)
      moreover have "int i' + 1 \<le> 60 - n mod 60" using i'(1) len k by simp
      moreover have "\<not> minutes s ! nat (n mod 60 + j)" if "0 < j" "j < int i' + 1" for j
      proof -
        have "nat (n mod 60 + j) = ?k + 1 + nat (j - 1)" using that k by linarith
        moreover have "nat (j - 1) < i'" using that by linarith
        ultimately show ?thesis using i'(1,3) len k by simp
      qed
      ultimately show ?thesis by simp
    qed
    have "\<not> matches_minute s m" if "n \<le> m" "m < n + step" for m
    proof -
      have "m < n + (60 - n mod 60)" using that(2) spec by linarith
      note same = same_hour_span [OF that(1) this]
      show ?thesis
      proof (cases "m = n")
        case False
        with that spec have "\<not> minutes s ! nat (m mod 60)" unfolding same(2) by simp
        then show ?thesis by (simp add: matches_minute_def)
      qed (use minute in \<open>simp add: matches_minute_def\<close>)
    qed
    with u spec show ?thesis by (intro exI [of _ "n + step"]) simp
  next
    case none
    with st show ?thesis by simp
  qed
qed

text \<open>The whole loop finds the first match before the limit, and always ends.\<close>

definition first_match :: "schedule \<Rightarrow> int \<Rightarrow> int \<Rightarrow> instant \<Rightarrow> int \<Rightarrow> bool" where
  "first_match s off n limit m \<longleftrightarrow>
     n \<le> m \<and> minute_start off m < limit \<and> matches_minute s m \<and> (\<forall>k. n \<le> k \<and> k < m \<longrightarrow> \<not> matches_minute s k)"

lemma next_loop_fixed:
  assumes "calendar_ok s"
  shows "(\<exists>m. next_loop s (fixed_zone off) limit (minute_start off n) = Some (minute_start off m)
      \<and> first_match s off n limit m)
    \<or> (next_loop s (fixed_zone off) limit (minute_start off n) = Some zero_time
      \<and> (\<forall>m \<ge> n. minute_start off m < limit \<longrightarrow> \<not> matches_minute s m))"
proof (induction "nat (limit - minute_start off n)" arbitrary: n rule: less_induct)
  case less
  show ?case
  proof (cases "minute_start off n < limit")
    case False
    then have "\<not> minute_start off m < limit" if "n \<le> m" for m
      using that minute_start_mono [of off m n] by linarith
    with False show ?thesis by (subst next_loop.simps) (auto simp: next_loop.simps)
  next
    case True
    show ?thesis
    proof (cases "next_step s (fixed_zone off) (minute_start off n)")
      case None
      then have "matches_minute s n" by (simp add: next_step_None matches_minute_start)
      with True None have "next_loop s (fixed_zone off) limit (minute_start off n) = Some (minute_start off n)
          \<and> first_match s off n limit n"
        by (subst next_loop.simps) (auto simp: first_match_def)
      then show ?thesis by blast
    next
      case (Some u)
      then obtain n' where n': "n < n'" "u = minute_start off n'"
          "\<And>m. n \<le> m \<Longrightarrow> m < n' \<Longrightarrow> \<not> matches_minute s m"
        using next_step_skips [OF assms Some] by blast
      have "nat (limit - minute_start off n') < nat (limit - minute_start off n)"
        using True minute_start_mono [of off n n'] n'(1) by simp
      note IH = less [OF this]
      have eq: "next_loop s (fixed_zone off) limit (minute_start off n)
          = next_loop s (fixed_zone off) limit (minute_start off n')"
        using True Some n'(2) by (subst next_loop.simps) simp
      from IH show ?thesis
      proof
        assume "\<exists>m. next_loop s (fixed_zone off) limit (minute_start off n') = Some (minute_start off m)
          \<and> first_match s off n' limit m"
        then obtain m where "next_loop s (fixed_zone off) limit (minute_start off n') = Some (minute_start off m)"
          "first_match s off n' limit m" by blast
        moreover from this(2) have "first_match s off n limit m"
          unfolding first_match_def using n'(1,3) by (metis less_le_trans linorder_not_less order_less_imp_le)
        ultimately show ?thesis using eq by auto
      next
        assume "next_loop s (fixed_zone off) limit (minute_start off n') = Some zero_time
          \<and> (\<forall>m \<ge> n'. minute_start off m < limit \<longrightarrow> \<not> matches_minute s m)"
        then have "next_loop s (fixed_zone off) limit (minute_start off n) = Some zero_time"
          and "\<forall>m \<ge> n. minute_start off m < limit \<longrightarrow> \<not> matches_minute s m"
          using eq n'(3) by (auto simp: not_le [symmetric])
        then show ?thesis by blast
      qed
    qed
  qed
qed

section \<open>Eight years and a day are enough\<close>

text \<open>A day on which the schedule runs, if its hours and minutes allow it.\<close>

definition day_ok :: "schedule \<Rightarrow> int \<Rightarrow> bool" where
  "day_ok s d \<longleftrightarrow> months s ! nat (month_of_day d) \<and> day_matches s d"

text \<open>A matching day matches for its date, or for its weekday.\<close>

lemma day_ok_reason:
  assumes "calendar_ok s" and "day_ok s d"
  shows "(\<forall>d'. month_of_day d' = month_of_day d \<and> day_of_month d' = day_of_month d \<longrightarrow> day_ok s d')
    \<or> (\<forall>d'. month_of_day d' = month_of_day d \<and> weekday d' = weekday d \<longrightarrow> day_ok s d')"
proof -
  have dom: "days_of_month s ! nat (day_of_month d')" if "\<not> dom_restricted s" for d'
  proof -
    have "nat (day_of_month d') \<in> {1..31}"
      using day_of_month_range(1) [of d'] day_of_month_le_31 [of d'] by auto
    with assms(1) that show ?thesis by (auto simp: calendar_ok_def)
  qed
  have dow: "days_of_week s ! nat (weekday d')" if "\<not> dow_restricted s" for d'
  proof -
    have "nat (weekday d') \<in> {0..6}" using weekday_range [of d'] by auto
    with assms(1) that show ?thesis by (auto simp: calendar_ok_def)
  qed
  from assms(2) dom dow show ?thesis
    by (cases "dom_restricted s"; cases "dow_restricted s")
       (auto simp: day_ok_def day_matches_def Let_def)
qed

lemma date_after:
  assumes "1 \<le> m" and "m \<le> 12" and "1 \<le> dd" and "dd \<le> days_in_month (is_leap y) m"
  shows "days_before_year y \<le> day_of_civil y m dd" and "day_of_civil y m dd < days_before_year (y + 1)"
  using year_of_day_bounds [of "day_of_civil y m dd"] civil_of_day_of_civil(1) [OF assms] by simp_all

lemma later_year: "day_of_civil y m dd \<le> d \<Longrightarrow> y < z \<Longrightarrow> d < days_before_year (y + 1) \<Longrightarrow> d < days_before_year z"
  using days_before_year_mono [of "y + 1" z] by simp

lemma leap_within_8: "\<exists>z. y < z \<and> z \<le> y + 8 \<and> is_leap z \<and> (z = y + 8 \<longrightarrow> is_leap y)"
proof -
  define r where "r = y mod 4"
  have r: "0 \<le> r" "r < 4" by (simp_all add: r_def)
  define a where "a = y - r + 4"
  have a4: "a mod 4 = 0" by (simp add: a_def r_def mod_simps minus_mod_eq_mult_div)
  have rng: "y < a" "a \<le> y + 4" using r by (simp_all add: a_def)
  show ?thesis
  proof (cases "is_leap a")
    case True
    with rng show ?thesis by (intro exI [of _ a]) simp
  next
    case False
    then have "a mod 100 = 0" using a4 by (simp add: is_leap_def)
    then have "100 dvd a" by (simp add: dvd_eq_mod_eq_0)
    then have "\<not> 100 dvd a + 4" "\<not> 100 dvd a - 4"
      using dvd_diff [of 100 "a + 4" a] dvd_diff [of 100 a "a - 4"] by auto
    then have n100: "(a + 4) mod 100 \<noteq> 0" "(a - 4) mod 100 \<noteq> 0" by (simp_all add: dvd_eq_mod_eq_0)
    have m4: "(a + 4) mod 4 = 0" "(a - 4) mod 4 = 0" using a4 by simp_all
    have leap: "is_leap (a + 4)" "is_leap (a - 4)" using n100 m4 by (simp_all add: is_leap_def)
    show ?thesis
    proof (cases "a = y + 4")
      case True
      then have "a - 4 = y" "a + 4 = y + 8" by simp_all
      with leap show ?thesis by (intro exI [of _ "y + 8"]) simp
    next
      case False
      with leap(1) rng show ?thesis by (intro exI [of _ "a + 4"]) simp
    qed
  qed
qed

text \<open>February 29th comes again within eight years.\<close>

lemma days_in_february: "days_in_month l 2 = (if l then 29 else 28)"
  by (simp add: days_in_month_def days_before_month_vals)

lemma leap_day_within_8:
  fixes d :: int
  defines "y \<equiv> year_of_day d" and "m \<equiv> month_of_day d" and "dd \<equiv> day_of_month d"
  shows "\<exists>z. is_leap z \<and> d < day_of_civil z 2 29 \<and> day_of_civil z 2 29 \<le> day_of_civil (y + 8) m dd"
proof -
  have d: "d = days_before_year y + days_before_month (is_leap y) m + dd - 1"
    using day_of_civil_of_day [of d] month_of_day_range [of d]
    by (simp add: y_def m_def dd_def day_of_civil_def Let_def)
  have end_year: "d < days_before_year (y + 1)" using year_of_day_bounds [of d] by (simp add: y_def)
  have m: "1 \<le> m" "m \<le> 12" and dd: "1 \<le> dd" using month_of_day_range [of d] day_of_month_range [of d]
    by (simp_all add: m_def dd_def)
  have last: "day_of_civil (y + 8) m dd = days_before_year (y + 8) + days_before_month (is_leap (y + 8)) m + dd - 1"
    using m by (simp add: day_of_civil_def Let_def)
  have nonneg: "0 \<le> days_before_month l m" for l using days_before_month_end [OF m] by blast
  obtain z where z: "y < z" "z \<le> y + 8" "is_leap z" "z = y + 8 \<longrightarrow> is_leap y"
    using leap_within_8 by blast
  have feb: "days_before_year z \<le> day_of_civil z 2 29" "day_of_civil z 2 29 < days_before_year (z + 1)"
    if "is_leap z" for z
    using date_after [of 2 29 z] that by (simp_all add: days_in_february)
  have after_z: "d < day_of_civil z 2 29"
    using feb(1) [OF z(3)] end_year days_before_year_mono [of "y + 1" z] z(1) by simp
  show ?thesis
  proof (cases "z = y + 8")
    case False
    then have "days_before_year (z + 1) \<le> days_before_year (y + 8)"
      using z(2) days_before_year_mono [of "z + 1" "y + 8"] by simp
    then have "day_of_civil z 2 29 \<le> day_of_civil (y + 8) m dd"
      using feb(2) [OF z(3)] last nonneg [of "is_leap (y + 8)"] dd by simp
    with z(3) after_z show ?thesis by blast
  next
    case True
    have leap_y: "is_leap y" using True z(4) by simp
    have civ: "day_of_civil x 2 29 = days_before_year x + 59" for x
      by (simp add: day_of_civil_def days_before_month_vals)
    show ?thesis
    proof (cases "d < day_of_civil y 2 29")
      case True
      have "days_before_year (y + 1) \<le> days_before_year (y + 8)"
        using days_before_year_mono [of "y + 1" "y + 8"] by simp
      then have "day_of_civil y 2 29 \<le> day_of_civil (y + 8) m dd"
        using feb(2) [OF leap_y] last nonneg [of "is_leap (y + 8)"] dd by simp
      with True leap_y show ?thesis by blast
    next
      case False
      then have "59 \<le> days_before_month (is_leap y) m + dd - 1" using d civ [of y] by simp
      then have "day_of_civil z 2 29 \<le> day_of_civil (y + 8) m dd"
        using last civ [of z] True z(3) leap_y by simp
      with z(3) after_z show ?thesis by blast
    qed
  qed
qed

text \<open>If a schedule has a matching day at all, it has one within eight years.\<close>

lemma day_ok_within_8:
  assumes "calendar_ok s" and "day_ok s e"
  shows "\<exists>d'. d < d' \<and> d' \<le> day_of_civil (year_of_day d + 8) (month_of_day d) (day_of_month d) \<and> day_ok s d'"
proof -
  let ?y = "year_of_day d" and ?m = "month_of_day e" and ?dd = "day_of_month e"
  let ?last = "day_of_civil (?y + 8) (month_of_day d) (day_of_month d)"
  have mr: "1 \<le> ?m" "?m \<le> 12" using month_of_day_range by simp_all
  have end_year: "d < days_before_year (?y + 1)" using year_of_day_bounds [of d] by simp
  have last: "days_before_year (?y + 8) \<le> ?last"
    using days_before_month_end [OF month_of_day_range [of d], of "is_leap (?y + 8)"] day_of_month_range(1) [of d]
      month_of_day_range [of d] by (simp add: day_of_civil_def Let_def)
  have next_year: "d < f \<and> f \<le> ?last" if "days_before_year (?y + 1) \<le> f" "f < days_before_year (?y + 2)" for f
    using that end_year last days_before_year_mono [of "?y + 2" "?y + 8"] by simp
  from day_ok_reason [OF assms] show ?thesis
  proof
    assume date: "\<forall>d'. month_of_day d' = ?m \<and> day_of_month d' = ?dd \<longrightarrow> day_ok s d'"
    show ?thesis
    proof (cases "?m = 2 \<and> ?dd = 29")
      case False
      have "?dd \<le> days_in_month (is_leap (?y + 1)) ?m"
        using day_of_month_range(2) [of e] False mr
        by (auto elim!: month_cases simp: days_in_month_def days_before_month_vals split: if_splits)
      note valid = mr day_of_month_range(1) [of e] this
      let ?f = "day_of_civil (?y + 1) ?m ?dd"
      have "day_ok s ?f" using date civil_of_day_of_civil(2,3) [OF valid] by blast
      with next_year [of ?f] date_after [OF valid] show ?thesis by (auto simp: add.assoc)
    next
      case True
      obtain z where z: "is_leap z" "d < day_of_civil z 2 29" "day_of_civil z 2 29 \<le> ?last"
        using leap_day_within_8 by blast
      have "29 \<le> days_in_month (is_leap z) 2" using z(1) by (simp add: days_in_february)
      then have "day_ok s (day_of_civil z 2 29)"
        using date True civil_of_day_of_civil(2,3) [of 2 29 z] by simp
      with z show ?thesis by blast
    qed
  next
    assume wd: "\<forall>d'. month_of_day d' = ?m \<and> weekday d' = weekday e \<longrightarrow> day_ok s d'"
    define g where "g = day_of_civil (?y + 1) ?m 1"
    define k where "k = (weekday e - weekday g) mod 7"
    have k: "0 \<le> k" "k < 7" by (simp_all add: k_def)
    have "28 \<le> days_in_month (is_leap (?y + 1)) ?m" using days_before_month_end [OF mr] by blast
    then have valid: "1 \<le> 1 + k" "1 + k \<le> days_in_month (is_leap (?y + 1)) ?m" using k by simp_all
    have f: "day_of_civil (?y + 1) ?m (1 + k) = g + k" by (simp add: g_def day_of_civil_add)
    have "weekday (g + k) = (weekday g + k) mod 7" by (simp add: weekday_def mod_simps add.commute add.left_commute)
    also have "\<dots> = weekday e mod 7" by (simp add: k_def mod_simps)
    also have "\<dots> = weekday e" using weekday_range [of e] by simp
    finally have "day_ok s (g + k)"
      using wd civil_of_day_of_civil(2) [OF mr valid] f by simp
    with next_year [of "g + k"] date_after [OF mr valid] f show ?thesis by (auto simp: add.assoc)
  qed
qed

lemma add_date_8_fixed:
  assumes "d = local_day (fixed_zone off) after"
  shows "(day_of_civil (year_of_day d + 8) (month_of_day d) (day_of_month d) + 1) * 86400 * second - off * second
    \<le> add_date (fixed_zone off) after 8 0 1"
proof -
  have "0 \<le> second_of (fixed_zone off) after" by (simp add: second_of_def)
  moreover have "0 \<le> after mod second" by simp
  ultimately show ?thesis
    using hour_of_range(1) [of "fixed_zone off" after] minute_of_range(1) [of "fixed_zone off" after]
    by (simp add: add_date_def go_date_fixed assms [symmetric] day_of_civil_add)
qed

lemma less_mult_iff_div:
  fixes a b c :: int
  assumes "0 < c"
  shows "a < b * c \<longleftrightarrow> a div c < b"
proof -
  have a: "a div c * c \<le> a" "a < (a div c + 1) * c"
    using pos_mod_sign [OF assms, of a] pos_mod_bound [OF assms, of a] div_mult_mod_eq [of a c]
    unfolding distrib_right mult_1 by linarith+
  show ?thesis
  proof
    assume "a < b * c"
    with a(1) have "a div c * c < b * c" by simp
    with assms show "a div c < b" by simp
  next
    assume "a div c < b"
    with assms have "(a div c + 1) * c \<le> b * c" by (intro mult_right_mono) simp_all
    with a(2) show "a < b * c" by simp
  qed
qed

text \<open>C21: In UTC and every zone with a fixed offset of whole minutes, the search always ends and
  is exact. It returns the start of the first matching minute after the given time (which
  may be a minute away or eight years); and it returns the zero time only if no minute
  after the given time ever matches, so the limit of eight years and a day loses nothing,
  even for February 29th across a year like 2100.\<close>

theorem next_time_exact:
  assumes "calendar_ok s" and "timezone s = Some (fixed_zone off)" and "60 dvd off"
  shows "\<exists>r. next_time s now after = (s, Some r)
    \<and> ((after < r \<and> minute dvd r \<and> matches s (fixed_zone off) r
         \<and> (\<forall>t. after < t \<and> t < r \<and> minute dvd t \<longrightarrow> \<not> matches s (fixed_zone off) t))
      \<or> (r = zero_time \<and> (\<forall>t. after < t \<and> minute dvd t \<longrightarrow> \<not> matches s (fixed_zone off) t)))"
proof -
  obtain k where k: "off = 60 * k" using assms(3) by (auto simp: dvd_def)
  have start: "minute_start off n = (n - k) * minute" for n by (simp add: minute_start_def k algebra_simps)
  define n0 where "n0 = (after + minute) div minute + k"
  have first: "truncate_to minute (after + minute) = minute_start off n0"
    unfolding start n0_def by (simp only: truncate_to_div zero_less_numeral add_diff_cancel_right')
  have after_n0: "after < minute_start off n \<longleftrightarrow> n0 \<le> n" for n
  proof -
    have "after < (n - k) * minute \<longleftrightarrow> after div minute < n - k"
      by (rule less_mult_iff_div) simp
    moreover have "(after + minute) div minute = after div minute + 1" by simp
    ultimately show ?thesis by (simp only: start n0_def) linarith
  qed
  have all_minutes: "\<exists>n \<ge> n0. t = minute_start off n" if aft: "after < t" and dv: "minute dvd t" for t
  proof -
    obtain j where "t = minute * j" using dv by (auto simp: dvd_def)
    then have "t = minute_start off (j + k)" by (simp add: start)
    with aft after_n0 show ?thesis by blast
  qed
  define limit where "limit = add_date (fixed_zone off) after 8 0 1"
  have next_eq: "next_time s now after = (s, next_loop s (fixed_zone off) limit (minute_start off n0))"
    using assms(1,2) first by (simp add: next_time_def calendar_ok_def limit_def Let_def)
  from next_loop_fixed [OF assms(1), of off limit n0] show ?thesis
  proof
    assume "\<exists>m. next_loop s (fixed_zone off) limit (minute_start off n0) = Some (minute_start off m)
      \<and> first_match s off n0 limit m"
    then obtain m where r: "next_loop s (fixed_zone off) limit (minute_start off n0) = Some (minute_start off m)"
      and fm: "first_match s off n0 limit m" by blast
    have "after < minute_start off m" using fm after_n0 by (simp add: first_match_def)
    moreover have "minute dvd minute_start off m" by (simp add: start)
    moreover have "matches s (fixed_zone off) (minute_start off m)"
      using fm by (simp add: first_match_def matches_minute_start)
    moreover have "\<not> matches s (fixed_zone off) t"
      if "after < t \<and> t < minute_start off m \<and> minute dvd t" for t
      using all_minutes [of t] that fm
      by (auto simp: first_match_def matches_minute_start minute_start_mono)
    ultimately show ?thesis using next_eq r by (intro exI [of _ "minute_start off m"]) auto
  next
    assume none: "next_loop s (fixed_zone off) limit (minute_start off n0) = Some zero_time
      \<and> (\<forall>m \<ge> n0. minute_start off m < limit \<longrightarrow> \<not> matches_minute s m)"
    have "\<not> matches s (fixed_zone off) t" if t: "after < t" "minute dvd t" for t
    proof
      assume "matches s (fixed_zone off) t"
      then obtain m where m: "n0 \<le> m" "matches_minute s m" using all_minutes [OF t] matches_minute_start by auto
      define d where "d = local_day (fixed_zone off) after"
      define last where "last = day_of_civil (year_of_day d + 8) (month_of_day d) (day_of_month d)"
      have "day_ok s (m div 1440)" using m(2) by (simp add: matches_minute_def day_ok_def)
      then obtain e where e: "d < e" "e \<le> last" "day_ok s e"
        using day_ok_within_8 [OF assms(1)] unfolding last_def by blast
      define m' where "m' = 1440 * e + m mod 1440"
      have mr: "0 \<le> m mod 1440" "m mod 1440 < 1440" by simp_all
      have day: "m' div 1440 = e" unfolding m'_def by (rule int_div_pos_eq) (use mr in auto)
      have "m' mod 1440 = m mod 1440" by (simp add: m'_def)
      then have "m' mod 60 = m mod 60" "m' div 60 mod 24 = m div 60 mod 24"
        using zmod_zmult2_eq [of 24 m' 60] zmod_zmult2_eq [of 24 m 60] mod_mod_cancel [of 60 1440 m']
          mod_mod_cancel [of 60 1440 m] by simp_all
      then have match: "matches_minute s m'"
        using m(2) e(3) day unfolding matches_minute_def day_ok_def by argo
      have "after div second + off < 86400 * e"
        using e(1) less_mult_iff_div [of 86400 "after div second + off" e]
        by (simp add: d_def local_day_def local_seconds_def mult.commute)
      then have "after < (86400 * e - off) * second"
        using less_mult_iff_div [of second after "86400 * e - off"] by simp
      also have "\<dots> \<le> minute_start off m'" using mr by (simp add: minute_start_def m'_def)
      finally have "n0 \<le> m'" using after_n0 by simp
      moreover have "minute_start off m' < (last + 1) * 86400 * second - off * second"
        using mr e(2) by (simp add: minute_start_def m'_def)
      then have "minute_start off m' < limit"
        using add_date_8_fixed [OF d_def] unfolding limit_def last_def by linarith
      ultimately show False using none match by blast
    qed
    with none next_eq show ?thesis by (intro exI [of _ zero_time]) auto
  qed
qed

lemma demo_calendar: "calendar_ok demo_schedule"
proof -
  have "every demo_schedule = 0" "\<not> one_time demo_schedule" by code_simp+
  with parse_cron_ok [OF demo_parsed] show ?thesis by (rule schedule_ok_calendar)
qed

theorem next_time_exact_witness:
  "\<exists>r. next_time demo_schedule 0 0 = (demo_schedule, Some r)
    \<and> ((0 < r \<and> minute dvd r \<and> matches demo_schedule (fixed_zone 0) r
         \<and> (\<forall>t. 0 < t \<and> t < r \<and> minute dvd t \<longrightarrow> \<not> matches demo_schedule (fixed_zone 0) t))
      \<or> (r = zero_time \<and> (\<forall>t. 0 < t \<and> minute dvd t \<longrightarrow> \<not> matches demo_schedule (fixed_zone 0) t)))"
proof (rule next_time_exact [OF demo_calendar])
  have "every demo_schedule = 0" "\<not> one_time demo_schedule" by code_simp+
  then show "timezone demo_schedule = Some (fixed_zone 0)"
    using parse_cron_timezone [OF demo_parsed] by (simp add: utc_def)
qed simp

end
