(* ===== verification/Codec.thy ===== *)
theory Codec
  imports Config
begin

text \<open>
  Formats of structured data (pkg/codec/format.go) and the parts of the JSON formatter that
  do not depend on the JSON syntax itself (pkg/codec/json.go): what an empty payload and
  the frame of a payload look like, and unique non-empty names for the columns of a row.
\<close>

section \<open>Formats\<close>

type_synonym format = string

definition format_default :: format where "format_default = ''default''"
definition format_json :: format where "format_json = ''json''"
definition format_json_array :: format where "format_json_array = ''json_array''"
definition format_ndjson :: format where "format_ndjson = ''ndjson''"
definition format_raw :: format where "format_raw = ''raw''"

definition valid_formats :: "format list" where
  "valid_formats = [format_default, format_json, format_json_array, format_ndjson, format_raw]"

definition mime_type_json :: string where "mime_type_json = ''application/json''"
definition mime_type_ndjson :: string where "mime_type_ndjson = ''application/x-ndjson''"

record json_format =
  mime :: string
  array :: bool

definition fmt_json :: json_format where
  "fmt_json = \<lparr>mime = mime_type_json, array = False\<rparr>"

definition fmt_json_array :: json_format where
  "fmt_json_array = \<lparr>mime = mime_type_json, array = True\<rparr>"

definition fmt_ndjson :: json_format where
  "fmt_ndjson = \<lparr>mime = mime_type_ndjson, array = False\<rparr>"

definition structured_formats :: "(format \<times> json_format) list" where
  "structured_formats =
     [(format_json, fmt_json), (format_json_array, fmt_json_array), (format_ndjson, fmt_ndjson)]"

lemmas format_defs [go_defs] = format_default_def format_json_def format_json_array_def
  format_ndjson_def format_raw_def valid_formats_def structured_formats_def
  fmt_json_def fmt_json_array_def fmt_ndjson_def mime_type_json_def mime_type_ndjson_def

datatype format_error = UnrecognizedFormat string | NotStructured format

definition parse_format :: "table \<Rightarrow> format_error + format" where
  "parse_format cfg =
     (let format = to_lower (trim_space (cfg_value as_string cfg ''format'' format_default))
      in if format \<notin> set valid_formats then Inl (UnrecognizedFormat format) else Inr format)"

definition parse_structured_format :: "table \<Rightarrow> format_error + format" where
  "parse_structured_format cfg =
     (case parse_format cfg of
        Inl e \<Rightarrow> Inl e
      | Inr format \<Rightarrow>
          (if map_of structured_formats format = None \<and> format \<noteq> format_default
           then Inl (NotStructured format) else Inr format))"

text \<open>Resolve panics when neither format is structured.\<close>

definition resolve_format :: "format \<Rightarrow> format \<Rightarrow> (format \<times> json_format) option" where
  "resolve_format preferred fallback =
     (case map_of structured_formats preferred of
        Some f \<Rightarrow> Some (preferred, f)
      | None \<Rightarrow> (case map_of structured_formats fallback of
                  Some f \<Rightarrow> Some (fallback, f)
                | None \<Rightarrow> None))"

section \<open>Frames\<close>

definition empty_payload :: "json_format \<Rightarrow> nat \<Rightarrow> bytes option \<times> bool" where
  "empty_payload f n =
     (if n > 0 then (None, False)
      else if mime f = mime_type_ndjson then (None, True)
      else if array f then (Some ''[]'', True)
      else (Some ''{}'', True))"

definition shape :: "json_format \<Rightarrow> nat \<Rightarrow> bool \<times> bool" where
  "shape f n =
     (let ndjson = (mime f = mime_type_ndjson) in (ndjson, \<not> ndjson \<and> (array f \<or> n > 1)))"

section \<open>Column names\<close>

text \<open>
  The first pass: \<open>taken\<close> maps each name to the position where it is kept. The flag says
  whether any name has to change.
\<close>

fun take_first :: "nat \<Rightarrow> string list \<Rightarrow> (string \<times> int) list \<Rightarrow> bool \<Rightarrow> (string \<times> int) list \<times> bool"
  where
  "take_first i [] taken needs_change = (taken, needs_change)"
| "take_first i (col # cols) taken needs_change =
     (if map_of taken col \<noteq> None \<or> col = [] then take_first (Suc i) cols taken True
      else take_first (Suc i) cols (AList.update col (int i) taken) needs_change)"

definition col_suffix :: "nat \<Rightarrow> string" where
  "col_suffix i = CHR ''_'' # itoa (i + 1)"

text \<open>The inner loop appends the suffix until the name is free.\<close>

function free_name :: "(string \<times> int) list \<Rightarrow> nat \<Rightarrow> string \<Rightarrow> string" where
  "free_name taken i name =
     (if map_of taken name = None then name else free_name taken i (name @ col_suffix i))"
  by pat_completeness auto
termination
proof (relation "measure (\<lambda>(taken, i, name). length (filter (\<lambda>(k, p). length name \<le> length k) taken))")
  fix taken :: "(string \<times> int) list" and i name
  assume "map_of taken name \<noteq> None"
  then obtain p where p: "(name, p) \<in> set taken" by (auto dest: map_of_SomeD)
  let ?P = "\<lambda>(k, p::int). length name \<le> length k"
  let ?Q = "\<lambda>(k, p::int). length (name @ col_suffix i) \<le> length k"
  have "filter ?Q taken = filter ?Q (filter ?P taken)"
    by (simp add: filter_filter) (rule filter_cong; auto simp: col_suffix_def)
  moreover have "length (filter ?Q (filter ?P taken)) < length (filter ?P taken)"
    by (rule length_filter_less [of "(name, p)"]) (use p in \<open>auto simp: col_suffix_def\<close>)
  ultimately show "((taken, i, name @ col_suffix i), taken, i, name)
      \<in> measure (\<lambda>(taken, i, name). length (filter (\<lambda>(k, p). length name \<le> length k) taken))"
    by simp
qed simp

declare free_name.simps [simp del]

fun rename_cols :: "nat \<Rightarrow> string list \<Rightarrow> (string \<times> int) list \<Rightarrow> string list" where
  "rename_cols i [] taken = []"
| "rename_cols i (col # cols) taken =
     (if map_of taken col = Some (int i) then col # rename_cols (Suc i) cols taken
      else
        (let name = free_name taken i (col @ col_suffix i)
         in name # rename_cols (Suc i) cols (AList.update name (- 1) taken)))"

definition column_names :: "string list \<Rightarrow> string list" where
  "column_names cols =
     (let (taken, needs_change) = take_first 0 cols [] False
      in if \<not> needs_change then cols else rename_cols 0 cols taken)"

text \<open>The name that the inner loop finds is free, and extends the one it started from.\<close>

lemma free_name_free: "map_of taken (free_name taken i name) = None"
proof (induction taken i name rule: free_name.induct)
  case (1 taken i name)
  then show ?case by (subst free_name.simps) auto
qed

lemma free_name_extends: "\<exists>s. free_name taken i name = name @ s"
proof (induction taken i name rule: free_name.induct)
  case (1 taken i name)
  show ?case
  proof (cases "map_of taken name = None")
    case True
    then show ?thesis by (subst free_name.simps) simp
  next
    case False
    with 1 obtain s where "free_name taken i (name @ col_suffix i) = (name @ col_suffix i) @ s" by blast
    with False show ?thesis by (subst free_name.simps) simp
  qed
qed

text \<open>What the first pass leaves: each non-empty name at its first position.\<close>

definition first_at :: "string list \<Rightarrow> nat \<Rightarrow> bool" where
  "first_at cols i \<longleftrightarrow> cols ! i \<noteq> [] \<and> cols ! i \<notin> set (take i cols)"

lemma take_first_spec:
  assumes "take_first (length pre) cols taken nc = (taken', nc')"
    and "\<forall>c p. map_of taken c = Some p \<longleftrightarrow> (\<exists>i < length pre. p = int i \<and> pre ! i = c \<and> first_at pre i)"
    and "nc \<longleftrightarrow> \<not> (distinct pre \<and> [] \<notin> set pre)"
  shows "(\<forall>c p. map_of taken' c = Some p
      \<longleftrightarrow> (\<exists>i < length (pre @ cols). p = int i \<and> (pre @ cols) ! i = c \<and> first_at (pre @ cols) i))
    \<and> (nc' \<longleftrightarrow> \<not> (distinct (pre @ cols) \<and> [] \<notin> set (pre @ cols)))"
  using assms
proof (induction cols arbitrary: pre taken nc)
  case (Cons col cols)
  have known: "map_of taken col \<noteq> None \<longleftrightarrow> col \<in> set pre \<and> col \<noteq> []"
  proof
    assume "map_of taken col \<noteq> None"
    then show "col \<in> set pre \<and> col \<noteq> []" using Cons.prems(2) by (auto simp: first_at_def)
  next
    assume "col \<in> set pre \<and> col \<noteq> []"
    then obtain i where "i < length pre" "pre ! i = col" "\<forall>j < i. pre ! j \<noteq> col"
      using exists_least_iff [of "\<lambda>i. i < length pre \<and> pre ! i = col"]
      by (auto simp: in_set_conv_nth)
    then have "first_at pre i"
      using \<open>col \<in> set pre \<and> col \<noteq> []\<close> by (auto simp: first_at_def in_set_conv_nth)
    with \<open>i < length pre\<close> \<open>pre ! i = col\<close> show "map_of taken col \<noteq> None"
      using Cons.prems(2) by blast
  qed
  have old: "first_at (pre @ [col]) i = first_at pre i" if "i < length pre" for i
    using that by (simp add: first_at_def nth_append)
  have new: "first_at (pre @ [col]) (length pre) \<longleftrightarrow> col \<noteq> [] \<and> col \<notin> set pre"
    by (simp add: first_at_def)
  let ?taken = "if map_of taken col \<noteq> None \<or> col = [] then taken else AList.update col (int (length pre)) taken"
  let ?nc = "nc \<or> map_of taken col \<noteq> None \<or> col = []"
  have "take_first (length (pre @ [col])) cols ?taken ?nc = (taken', nc')"
    using Cons.prems(1) by (auto split: if_splits)
  moreover have "\<forall>c p. map_of ?taken c = Some p \<longleftrightarrow>
      (\<exists>i < length (pre @ [col]). p = int i \<and> (pre @ [col]) ! i = c \<and> first_at (pre @ [col]) i)"
  proof (intro allI)
    fix c p
    have "(\<exists>i < length (pre @ [col]). p = int i \<and> (pre @ [col]) ! i = c \<and> first_at (pre @ [col]) i)
        \<longleftrightarrow> (\<exists>i < length pre. p = int i \<and> pre ! i = c \<and> first_at pre i)
          \<or> (p = int (length pre) \<and> col = c \<and> col \<noteq> [] \<and> col \<notin> set pre)"
      using old new by (auto simp: less_Suc_eq nth_append)
    also have "\<dots> \<longleftrightarrow> map_of taken c = Some p
          \<or> (p = int (length pre) \<and> col = c \<and> col \<noteq> [] \<and> map_of taken col = None)"
    proof -
      have eq: "(\<exists>i < length pre. p = int i \<and> pre ! i = c \<and> first_at pre i) \<longleftrightarrow> map_of taken c = Some p"
        using Cons.prems(2) by simp
      show ?thesis unfolding eq using known by auto
    qed
    finally show "map_of ?taken c = Some p \<longleftrightarrow>
      (\<exists>i < length (pre @ [col]). p = int i \<and> (pre @ [col]) ! i = c \<and> first_at (pre @ [col]) i)"
      by auto
  qed
  moreover have "?nc \<longleftrightarrow> \<not> (distinct (pre @ [col]) \<and> [] \<notin> set (pre @ [col]))"
    using Cons.prems(3) known by auto
  ultimately show ?case using Cons.IH [of "pre @ [col]" ?taken ?nc] by simp
qed simp

text \<open>What the second pass makes of a column: itself, or itself with something after it.\<close>

definition named_for :: "string list \<Rightarrow> nat \<Rightarrow> string \<Rightarrow> bool" where
  "named_for cols i name \<longleftrightarrow>
     (if first_at cols i then name = cols ! i else (\<exists>s. s \<noteq> [] \<and> name = cols ! i @ s))"

definition first_taken :: "string list \<Rightarrow> (string \<times> int) list \<Rightarrow> bool" where
  "first_taken cols taken \<longleftrightarrow>
     (\<forall>c j. map_of taken c = Some (int j) \<longleftrightarrow> j < length cols \<and> cols ! j = c \<and> first_at cols j)"

definition names_taken :: "string list \<Rightarrow> (string \<times> int) list \<Rightarrow> string list \<Rightarrow> bool" where
  "names_taken cols taken ns \<longleftrightarrow>
     first_taken cols taken \<and> distinct ns \<and> [] \<notin> set ns
     \<and> (\<forall>n \<in> set ns. \<exists>p < int (length ns). map_of taken n = Some p)
     \<and> (\<forall>i < length ns. named_for cols i (ns ! i))"

lemma first_takenD:
  "first_taken cols taken \<Longrightarrow> map_of taken c = Some (int j)
    \<longleftrightarrow> j < length cols \<and> cols ! j = c \<and> first_at cols j"
  by (simp add: first_taken_def)

lemma first_taken_fresh:
  assumes "first_taken cols taken" and "map_of taken name = None"
  shows "first_taken cols (AList.update name (- 1) taken)"
proof -
  have "map_of (AList.update name (- 1) taken) c = Some (int j) \<longleftrightarrow> map_of taken c = Some (int j)" for c j
    using assms(2) by simp
  with assms(1) show ?thesis unfolding first_taken_def by blast
qed

lemma names_taken_snoc:
  assumes "names_taken cols taken ns" and "first_taken cols taken'"
    and "\<And>n. n \<in> set ns \<Longrightarrow> map_of taken' n = map_of taken n"
    and "name \<notin> set ns" and "name \<noteq> []" and "named_for cols (length ns) name"
    and "\<exists>p \<le> int (length ns). map_of taken' name = Some p"
  shows "names_taken cols taken' (ns @ [name])"
proof -
  have "\<exists>p < int (length (ns @ [name])). map_of taken' n = Some p" if "n \<in> set (ns @ [name])" for n
  proof (cases "n \<in> set ns")
    case True
    then obtain p where "p < int (length ns)" "map_of taken n = Some p"
      using assms(1) by (auto simp: names_taken_def)
    with assms(3) [OF True] show ?thesis by (intro exI [of _ p]) simp
  next
    case False
    with that have "n = name" by simp
    with assms(7) show ?thesis by auto
  qed
  moreover have "named_for cols i ((ns @ [name]) ! i)" if "i < length (ns @ [name])" for i
    using that assms(1,6) by (cases "i = length ns") (auto simp: names_taken_def nth_append)
  ultimately show ?thesis
    using assms(1,2,4,5) by (simp add: names_taken_def)
qed

lemma names_taken_keep:
  assumes "names_taken cols taken ns"
    and "map_of taken (cols ! length ns) = Some (int (length ns))"
  shows "names_taken cols taken (ns @ [cols ! length ns])"
proof (rule names_taken_snoc [OF assms(1)])
  show ft: "first_taken cols taken" using assms(1) by (simp add: names_taken_def)
  have first: "first_at cols (length ns)" using first_takenD [OF ft] assms(2) by blast
  show "cols ! length ns \<notin> set ns" using assms by (force simp: names_taken_def)
  show "cols ! length ns \<noteq> []" "named_for cols (length ns) (cols ! length ns)"
    using first by (simp_all add: first_at_def named_for_def)
  show "\<exists>p \<le> int (length ns). map_of taken (cols ! length ns) = Some p" using assms(2) by blast
qed simp

lemma names_taken_fresh:
  assumes "names_taken cols taken ns" and "length ns < length cols"
    and "map_of taken (cols ! length ns) \<noteq> Some (int (length ns))"
  defines "name \<equiv> free_name taken (length ns) (cols ! length ns @ col_suffix (length ns))"
  shows "names_taken cols (AList.update name (- 1) taken) (ns @ [name])"
proof (rule names_taken_snoc [OF assms(1)])
  have ft: "first_taken cols taken" using assms(1) by (simp add: names_taken_def)
  have free: "map_of taken name = None" by (simp add: name_def free_name_free)
  show "first_taken cols (AList.update name (- 1) taken)" by (rule first_taken_fresh [OF ft free])
  obtain s where s: "name = (cols ! length ns @ col_suffix (length ns)) @ s"
    using free_name_extends unfolding name_def by blast
  then show "name \<noteq> []" by (simp add: col_suffix_def)
  have "\<not> first_at cols (length ns)" using first_takenD [OF ft] assms(2,3) by blast
  with s show "named_for cols (length ns) name" by (auto simp: named_for_def col_suffix_def)
  show fresh: "name \<notin> set ns" using free assms(1) by (force simp: names_taken_def)
  show "map_of (AList.update name (- 1) taken) n = map_of taken n" if "n \<in> set ns" for n
    using that fresh by auto
  show "\<exists>p \<le> int (length ns). map_of (AList.update name (- 1) taken) name = Some p" by simp
qed

lemma rename_cols_spec:
  assumes "names_taken cols taken ns" and "cols = pre @ rest" and "length ns = length pre"
  shows "\<exists>taken'. names_taken cols taken' (ns @ rename_cols (length ns) rest taken)
    \<and> length (ns @ rename_cols (length ns) rest taken) = length cols"
  using assms
proof (induction rest arbitrary: pre ns taken)
  case Nil
  then show ?case by auto
next
  case (Cons col rest)
  have col: "col = cols ! length ns" "length ns < length cols" using Cons.prems by (simp_all add: nth_append)
  show ?case
  proof (cases "map_of taken col = Some (int (length ns))")
    case True
    then have "names_taken cols taken (ns @ [col])"
      using names_taken_keep [OF Cons.prems(1)] unfolding col(1) by simp
    from Cons.IH [OF this, of "pre @ [col]"] Cons.prems(2,3) True show ?thesis by simp
  next
    case False
    let ?name = "free_name taken (length ns) (col @ col_suffix (length ns))"
    have "names_taken cols (AList.update ?name (- 1) taken) (ns @ [?name])"
      using names_taken_fresh [OF Cons.prems(1) col(2)] False col(1) by simp
    from Cons.IH [OF this, of "pre @ [col]"] Cons.prems(2,3) False show ?thesis by (simp add: Let_def)
  qed
qed

lemma column_names_facts:
  "distinct (column_names cols) \<and> [] \<notin> set (column_names cols)
   \<and> length (column_names cols) = length cols
   \<and> (\<forall>i \<in> {..<length cols}. named_for cols i (column_names cols ! i))
   \<and> (column_names cols = cols \<longleftrightarrow> distinct cols \<and> [] \<notin> set cols)"
proof -
  obtain taken nc where first: "take_first 0 cols [] False = (taken, nc)" by fastforce
  from first take_first_spec [of "[]" cols "[]" False taken nc]
  have taken: "map_of taken c = Some p \<longleftrightarrow> (\<exists>i < length cols. p = int i \<and> cols ! i = c \<and> first_at cols i)"
    and nc: "nc \<longleftrightarrow> \<not> (distinct cols \<and> [] \<notin> set cols)" for c p
    by auto
  show ?thesis
  proof (cases nc)
    case False
    then have "column_names cols = cols" by (simp add: column_names_def first)
    moreover have "first_at cols i" if "i < length cols" for i
      using that False nc by (auto simp: first_at_def nth_eq_iff_index_eq in_set_conv_nth)
    ultimately show ?thesis using False nc by (auto simp: named_for_def)
  next
    case True
    have "names_taken cols taken []" using taken by (auto simp: names_taken_def first_taken_def)
    with rename_cols_spec [of cols taken "[]" "[]" cols]
    obtain taken' where "names_taken cols taken' (rename_cols 0 cols taken)"
      and len: "length (rename_cols 0 cols taken) = length cols" by auto
    moreover have "column_names cols = rename_cols 0 cols taken"
      using True by (simp add: column_names_def first)
    ultimately show ?thesis using True nc
      by (auto simp: names_taken_def)
  qed
qed

text \<open>Column names become valid JSON member names. For any column names, columnNames
  returns as many names, pairwise different and non-empty; the first occurrence of every
  non-empty name is kept in place, every other name is the original with a suffix; and
  names that already are unique and non-empty are returned as they are. Its inner loop
  always ends.\<close>

theorem column_names_spec:
  "distinct (column_names cols) \<and> [] \<notin> set (column_names cols)
   \<and> length (column_names cols) = length cols
   \<and> (\<forall>i \<in> {..<length cols}. named_for cols i (column_names cols ! i))
   \<and> (column_names cols = cols \<longleftrightarrow> distinct cols \<and> [] \<notin> set cols)"
  by (rule column_names_facts)

theorem column_names_spec_witness:
  "named_for [''id'', ''id'', [], ''id_2''] 1 (column_names [''id'', ''id'', [], ''id_2''] ! 1)"
  using column_names_spec [of "[''id'', ''id'', [], ''id_2'']"] by simp

section \<open>Format properties\<close>

text \<open>Formats always resolve. A format that ParseFormat accepts is one of the five formats;
  one that ParseStructuredFormat accepts is structured or the default; and Resolve never
  panics for a structured fallback, whatever the preferred format: it keeps the preferred
  format if that is structured and otherwise takes the fallback.\<close>

theorem formats_resolve:
  assumes "parse_structured_format cfg = Inr fmt" and "fallback \<in> {format_json, format_ndjson}"
  shows "parse_format cfg = Inr fmt \<and> fmt \<in> set valid_formats \<and> fmt \<noteq> format_raw
    \<and> resolve_format fmt fallback = (if fmt = format_default
        then Some (fallback, the (map_of structured_formats fallback))
        else Some (fmt, the (map_of structured_formats fmt)))"
proof -
  have fmt: "parse_format cfg = Inr fmt" "map_of structured_formats fmt \<noteq> None \<or> fmt = format_default"
    using assms(1) by (auto simp: parse_structured_format_def split: sum.splits if_splits)
  then consider "fmt = format_default" | "fmt = format_json" | "fmt = format_json_array" | "fmt = format_ndjson"
    by (auto simp: structured_formats_def split: if_splits)
  then show ?thesis
    by cases (use assms(2) fmt(1) in \<open>auto simp: format_defs resolve_format_def\<close>)
qed

theorem formats_resolve_witness:
  "resolve_format ''ndjson'' format_json = Some (''ndjson'', fmt_ndjson)"
proof -
  have "to_lower (trim_space '' NDJSON'') = ''ndjson''" by code_simp
  then have "parse_structured_format [(''format'', TString '' NDJSON'')] = Inr ''ndjson''"
    by (simp add: parse_structured_format_def parse_format_def cfg_value_def format_defs)
  from formats_resolve [OF this, of format_json] show ?thesis by (simp add: format_defs)
qed

end
