(* ===== verification/Json.thy ===== *)
theory Json
  imports GoStrings
begin

text \<open>
  The JSON syntax as Go's encoding/json/jsontext reads it, which pkg/codec/json.go builds
  on: the lexical grammar, the state machine over tokens with its stack of objects and
  arrays, and the functions AppendFormat, PeekKind and ReadValue. The defaults of the
  package apply: names are unique within an object, strings are valid UTF-8 without lone
  surrogates, and values nest at most 10,000 levels deep.

  A text is first cut into lexemes. What cannot be cut becomes a final \<open>TBad\<close>, which the
  state machine rejects when it gets there, so an error is found at the same point as by
  the incremental reader.
\<close>

section \<open>Strings\<close>

definition cont_byte :: "char \<Rightarrow> bool" where
  "cont_byte c \<longleftrightarrow> 128 \<le> char_code c \<and> char_code c \<le> 191"

text \<open>The second byte of a sequence of three or four: no overlong forms, no surrogates.\<close>

definition second_byte :: "nat \<Rightarrow> char \<Rightarrow> bool" where
  "second_byte b c \<longleftrightarrow>
     (let n = char_code c
      in (if b = 224 then 160 else if b = 240 then 144 else 128) \<le> n
         \<and> n \<le> (if b = 237 then 159 else if b = 244 then 143 else 191))"

definition utf8_len :: "string \<Rightarrow> nat option" where
  "utf8_len s =
     (case s of
        [] \<Rightarrow> None
      | c0 # s1 \<Rightarrow>
          (let b = char_code c0
           in if b < 128 then Some 1
              else if 194 \<le> b \<and> b \<le> 223 then
                (case s1 of c1 # _ \<Rightarrow> if cont_byte c1 then Some 2 else None | [] \<Rightarrow> None)
              else if 224 \<le> b \<and> b \<le> 239 then
                (case s1 of
                   c1 # c2 # _ \<Rightarrow> if second_byte b c1 \<and> cont_byte c2 then Some 3 else None
                 | _ \<Rightarrow> None)
              else if 240 \<le> b \<and> b \<le> 244 then
                (case s1 of
                   c1 # c2 # c3 # _ \<Rightarrow>
                     if second_byte b c1 \<and> cont_byte c2 \<and> cont_byte c3 then Some 4 else None
                 | _ \<Rightarrow> None)
              else None))"

definition json_hex :: "char \<Rightarrow> nat option" where
  "json_hex c =
     (let n = char_code c
      in if 48 \<le> n \<and> n \<le> 57 then Some (n - 48)
         else if 97 \<le> n \<and> n \<le> 102 then Some (n - 87)
         else if 65 \<le> n \<and> n \<le> 70 then Some (n - 55)
         else None)"

text \<open>The code unit of an escape \<open>uXXXX\<close> at the head of a string.\<close>

definition code_unit :: "string \<Rightarrow> nat option" where
  "code_unit s =
     (case s of
        u # a # b # c # d # _ \<Rightarrow>
          (if u \<noteq> CHR ''u'' then None
           else (case (json_hex a, json_hex b, json_hex c, json_hex d) of
                   (Some i, Some j, Some k, Some l) \<Rightarrow> Some (((i * 16 + j) * 16 + k) * 16 + l)
                 | _ \<Rightarrow> None))
      | _ \<Rightarrow> None)"

definition backslash :: char where
  "backslash = CHR 0x5C"

definition dquote :: char where
  "dquote = CHR 0x22"

definition simple_escapes :: "(char \<times> char) list" where
  "simple_escapes =
     [(dquote, dquote), (backslash, backslash), (CHR ''/'', CHR ''/''), (CHR ''b'', CHR 0x08),
      (CHR ''f'', CHR 0x0C), (CHR ''n'', CHR 0x0A), (CHR ''r'', CHR 0x0D), (CHR ''t'', CHR 0x09)]"

text \<open>The length of the escape sequence that begins with a backslash.\<close>

definition escape_len :: "string \<Rightarrow> nat option" where
  "escape_len s =
     (case s of
        _ # c # r \<Rightarrow>
          (if map_of simple_escapes c \<noteq> None then Some 2
           else
             (case code_unit (c # r) of
                None \<Rightarrow> None
              | Some v \<Rightarrow>
                  (if 56320 \<le> v \<and> v \<le> 57343 then None
                   else if 55296 \<le> v \<and> v \<le> 56319 then
                     (case drop 4 r of
                        b # t \<Rightarrow>
                          (if b \<noteq> backslash then None
                           else (case code_unit t of
                                   Some w \<Rightarrow> if 56320 \<le> w \<and> w \<le> 57343 then Some 12 else None
                                 | None \<Rightarrow> None))
                      | [] \<Rightarrow> None)
                   else Some 6)))
      | _ \<Rightarrow> None)"

text \<open>The length of the next character or escape sequence of a string.\<close>

definition str_unit :: "string \<Rightarrow> nat option" where
  "str_unit s =
     (case s of
        [] \<Rightarrow> None
      | c # _ \<Rightarrow>
          (if c = backslash then escape_len s
           else if c = dquote \<or> char_code c < 32 then None
           else utf8_len s))"

text \<open>What these functions return depends on the bytes they count only.\<close>

definition unit_at :: "(string \<Rightarrow> nat option) \<Rightarrow> string \<Rightarrow> nat \<Rightarrow> bool" where
  "unit_at f s n \<longleftrightarrow> (\<exists>u r. s = u @ r \<and> length u = n \<and> 0 < n \<and> (\<forall>r'. f (u @ r') = Some n))"

lemma unit_atI: "s = u @ r \<Longrightarrow> length u = n \<Longrightarrow> 0 < n \<Longrightarrow> (\<And>r'. f (u @ r') = Some n) \<Longrightarrow> unit_at f s n"
  by (auto simp: unit_at_def)

lemma utf8_len_at:
  assumes "utf8_len s = Some n"
  shows "unit_at utf8_len s n"
proof -
  obtain c0 s1 where s: "s = c0 # s1" using assms by (cases s) (auto simp: utf8_len_def)
  note u = assms [unfolded s utf8_len_def list.case Let_def]
  consider "n = 1" "char_code c0 < 128"
    | c1 r where "n = 2" "s1 = c1 # r" "\<not> char_code c0 < 128" "194 \<le> char_code c0" "char_code c0 \<le> 223" "cont_byte c1"
    | c1 c2 r where "n = 3" "s1 = c1 # c2 # r" "224 \<le> char_code c0" "char_code c0 \<le> 239"
        "second_byte (char_code c0) c1" "cont_byte c2"
    | c1 c2 c3 r where "n = 4" "s1 = c1 # c2 # c3 # r" "240 \<le> char_code c0" "char_code c0 \<le> 244"
        "second_byte (char_code c0) c1" "cont_byte c2" "cont_byte c3"
    using u by (simp split: if_splits list.splits)
  then show ?thesis
  proof cases
    case 1 then show ?thesis by (intro unit_atI [of _ "[c0]"]) (auto simp: s utf8_len_def)
  next
    case 2 then show ?thesis by (intro unit_atI [of _ "[c0, c1]"]) (auto simp: s utf8_len_def)
  next
    case 3 then show ?thesis by (intro unit_atI [of _ "[c0, c1, c2]"]) (auto simp: s utf8_len_def)
  next
    case 4 then show ?thesis by (intro unit_atI [of _ "[c0, c1, c2, c3]"]) (auto simp: s utf8_len_def)
  qed
qed

lemma code_unit_at:
  assumes "code_unit s = Some v"
  obtains u r where "s = u @ r" "length u = 5" "\<And>r'. code_unit (u @ r') = Some v"
proof -
  obtain u a b c d r where s: "s = u # a # b # c # d # r"
    using assms by (auto simp: code_unit_def split: list.splits)
  then have "code_unit ([u, a, b, c, d] @ r') = Some v" for r'
    using assms by (simp add: code_unit_def)
  with s show ?thesis by (intro that [of "[u, a, b, c, d]" r]) auto
qed

lemma escape_len_at:
  assumes "escape_len s = Some n"
  shows "unit_at escape_len s n"
proof -
  obtain b c r where s: "s = b # c # r" using assms by (auto simp: escape_len_def split: list.splits)
  note e = assms [unfolded s escape_len_def list.case]
  show ?thesis
  proof (cases "map_of simple_escapes c = None")
    case False
    with e show ?thesis by (intro unit_atI [of _ "[b, c]"]) (auto simp: s escape_len_def)
  next
    case True
    with e obtain v where v: "code_unit (c # r) = Some v" by (auto split: option.splits)
    from code_unit_at [OF v] obtain u r2 where u: "c # r = u @ r2" "length u = 5"
      and cu: "\<And>r'. code_unit (u @ r') = Some v" by blast
    then obtain u' where u': "u = c # u'" "r = u' @ r2" "length u' = 4" by (cases u) auto
    have esc: "escape_len (b # u @ r') = (if 56320 \<le> v \<and> v \<le> 57343 then None
        else if 55296 \<le> v \<and> v \<le> 56319 then
          (case r' of
             b # t \<Rightarrow> (if b \<noteq> backslash then None
                else (case code_unit t of
                        Some w \<Rightarrow> if 56320 \<le> w \<and> w \<le> 57343 then Some 12 else None | None \<Rightarrow> None))
           | [] \<Rightarrow> None)
        else Some 6)" for r'
      using True cu [of r'] u' by (simp add: escape_len_def)
    have e': "escape_len (b # u @ r2) = Some n" using assms s u by simp
    show ?thesis
    proof (cases "55296 \<le> v \<and> v \<le> 56319")
      case False
      with e' have "n = 6" and "\<not> (56320 \<le> v \<and> v \<le> 57343)" unfolding esc by (auto split: if_splits)
      with False u show ?thesis
        by (intro unit_atI [of _ "b # u" r2]) (auto simp: s esc)
    next
      case True
      with e' obtain t w where t: "r2 = backslash # t" "code_unit t = Some w" "56320 \<le> w" "w \<le> 57343" "n = 12"
        unfolding esc by (auto split: list.splits if_splits option.splits)
      from code_unit_at [OF t(2)] obtain x r3 where x: "t = x @ r3" "length x = 5"
        and cx: "\<And>r'. code_unit (x @ r') = Some w" by blast
      show ?thesis
      proof (rule unit_atI [of _ "b # u @ backslash # x" r3])
        fix r'
        show "escape_len ((b # u @ backslash # x) @ r') = Some n"
          using esc [of "backslash # x @ r'"] cx [of r'] True t by simp
      qed (use u x t in \<open>auto simp: s\<close>)
    qed
  qed
qed

lemma str_unit_at:
  assumes "str_unit s = Some n"
  shows "unit_at str_unit s n"
proof -
  obtain c r where s: "s = c # r" using assms by (cases s) (auto simp: str_unit_def)
  consider (esc) "c = backslash" "escape_len s = Some n"
    | (plain) "c \<noteq> backslash" "c \<noteq> dquote" "\<not> char_code c < 32" "utf8_len s = Some n"
    using assms by (auto simp: str_unit_def s split: if_splits)
  then show ?thesis
  proof cases
    case esc
    from escape_len_at [OF esc(2)] obtain u r2 where u: "s = u @ r2" "length u = n" "0 < n"
      "\<And>r'. escape_len (u @ r') = Some n" by (auto simp: unit_at_def)
    then obtain u' where "u = c # u'" using s by (cases u) auto
    with u esc show ?thesis by (intro unit_atI [of _ u r2]) (auto simp: str_unit_def)
  next
    case plain
    from utf8_len_at [OF plain(4)] obtain u r2 where u: "s = u @ r2" "length u = n" "0 < n"
      "\<And>r'. utf8_len (u @ r') = Some n" by (auto simp: unit_at_def)
    then obtain u' where "u = c # u'" using s by (cases u) auto
    with u plain show ?thesis by (intro unit_atI [of _ u r2]) (auto simp: str_unit_def)
  qed
qed

lemma str_unit_split:
  assumes "str_unit s = Some n"
  shows "s = take n s @ drop n s" and "length (take n s) = n" and "0 < n"
    and "str_unit (take n s @ r) = Some n"
  using str_unit_at [OF assms] by (auto simp: unit_at_def)

text \<open>The characters and escape sequences of a string up to its closing quote.\<close>

function scan_units :: "string \<Rightarrow> (string list \<times> string) option" where
  "scan_units s =
     (case s of
        [] \<Rightarrow> None
      | c # r \<Rightarrow>
          (if c = dquote then Some ([], r)
           else
             (case str_unit s of
                None \<Rightarrow> None
              | Some n \<Rightarrow>
                  (case scan_units (drop n s) of
                     None \<Rightarrow> None
                   | Some (us, r) \<Rightarrow> Some (take n s # us, r)))))"
  by pat_completeness auto
termination
  by (relation "measure length") (auto dest!: str_unit_split(3))

declare scan_units.simps [simp del]

lemma scan_units_step:
  assumes "str_unit (u @ t) = Some (length u)" and "u = c # u'" and "c \<noteq> dquote" and "scan_units t = Some (us, r)"
  shows "scan_units (u @ t) = Some (u # us, r)"
  using assms by (subst scan_units.simps) simp

lemma scan_units_local:
  "scan_units s = Some (us, r) \<Longrightarrow>
     s = concat us @ dquote # r \<and> scan_units (concat us @ dquote # r') = Some (us, r')"
proof (induction s arbitrary: us rule: scan_units.induct)
  case (1 s)
  note sc = 1(2) [unfolded scan_units.simps [of s]]
  then obtain c t where s: "s = c # t" by (cases s) auto
  show ?case
  proof (cases "c = dquote")
    case True
    with sc show ?thesis by (auto simp: s scan_units.simps [of "dquote # _"])
  next
    case False
    with sc obtain n us' where n: "str_unit s = Some n" "scan_units (drop n s) = Some (us', r)"
      "us = take n s # us'"
      by (auto simp: s split: option.splits)
    from 1(1) [OF s False n(1) n(2)] have ih: "drop n s = concat us' @ dquote # r"
      "scan_units (concat us' @ dquote # r') = Some (us', r')" by auto
    define u where "u = take n s"
    have u: "length u = n" "s = u @ drop n s" using str_unit_split [OF n(1)] by (simp_all add: u_def)
    then obtain u' where u': "u = c # u'" using s str_unit_split(3) [OF n(1)] by (cases u) auto
    have "str_unit (u @ concat us' @ dquote # r') = Some (length u)"
      using str_unit_split(4) [OF n(1)] u(1) by (simp add: u_def)
    from scan_units_step [OF this u' False ih(2)] show ?thesis
      using n(3) ih(1) u(2) by (simp add: u_def [symmetric])
  qed
qed

text \<open>The bytes that a character or an escape sequence stands for.\<close>

definition utf8_encode :: "nat \<Rightarrow> string" where
  "utf8_encode n =
     (if n < 128 then [char_of n]
      else if n < 2048 then [char_of (192 + n div 64), char_of (128 + n mod 64)]
      else if n < 65536 then
        [char_of (224 + n div 4096), char_of (128 + n div 64 mod 64), char_of (128 + n mod 64)]
      else [char_of (240 + n div 262144), char_of (128 + n div 4096 mod 64),
            char_of (128 + n div 64 mod 64), char_of (128 + n mod 64)])"

definition unit_value :: "string \<Rightarrow> string" where
  "unit_value u =
     (case u of
        c # e # t \<Rightarrow>
          (if c \<noteq> backslash then u
           else
             (case map_of simple_escapes e of
                Some x \<Rightarrow> [x]
              | None \<Rightarrow>
                  (case code_unit (e # t) of
                     None \<Rightarrow> u
                   | Some v \<Rightarrow>
                       (case code_unit (drop 5 t) of
                          None \<Rightarrow> utf8_encode v
                        | Some w \<Rightarrow> utf8_encode (65536 + (v - 55296) * 1024 + (w - 56320))))))
      | _ \<Rightarrow> u)"

section \<open>Numbers\<close>

definition scan_digits :: "string \<Rightarrow> string \<times> string" where
  "scan_digits s = (takeWhile is_digit s, dropWhile is_digit s)"

definition scan_int :: "string \<Rightarrow> (string \<times> string) option" where
  "scan_int s =
     (case s of
        [] \<Rightarrow> None
      | c # r \<Rightarrow> if c = CHR ''0'' then Some ([c], r)
                 else if is_digit c then Some (scan_digits s) else None)"

definition scan_frac :: "string \<Rightarrow> (string \<times> string) option" where
  "scan_frac s =
     (case s of
        [] \<Rightarrow> Some ([], s)
      | c # r \<Rightarrow>
          (if c \<noteq> CHR ''.'' then Some ([], s)
           else (let (d, r2) = scan_digits r in if d = [] then None else Some (c # d, r2))))"

definition is_sign :: "char \<Rightarrow> bool" where
  "is_sign c \<longleftrightarrow> c = CHR ''+'' \<or> c = CHR ''-''"

definition scan_exp :: "string \<Rightarrow> (string \<times> string) option" where
  "scan_exp s =
     (case s of
        [] \<Rightarrow> Some ([], s)
      | c # r \<Rightarrow>
          (if c \<noteq> CHR ''e'' \<and> c \<noteq> CHR ''E'' then Some ([], s)
           else
             (let sg = takeWhile is_sign (take 1 r);
                  (d, r2) = scan_digits (drop (length sg) r)
              in if d = [] then None else Some (c # sg @ d, r2))))"

definition scan_sign :: "string \<Rightarrow> string \<times> string" where
  "scan_sign s =
     (case s of c # r \<Rightarrow> if c = CHR ''-'' then ([c], r) else ([], s) | [] \<Rightarrow> ([], []))"

definition scan_number :: "string \<Rightarrow> (string \<times> string) option" where
  "scan_number s =
     (let (sg, s0) = scan_sign s
      in case scan_int s0 of
           None \<Rightarrow> None
         | Some (i, s1) \<Rightarrow>
             (case scan_frac s1 of
                None \<Rightarrow> None
              | Some (f, s2) \<Rightarrow>
                  (case scan_exp s2 of
                     None \<Rightarrow> None
                   | Some (e, s3) \<Rightarrow> Some (sg @ i @ f @ e, s3))))"

text \<open>What may continue a number.\<close>

definition number_char :: "char \<Rightarrow> bool" where
  "number_char c \<longleftrightarrow> is_digit c \<or> c = CHR ''.'' \<or> c = CHR ''e'' \<or> c = CHR ''E''"

definition number_ends :: "string \<Rightarrow> bool" where
  "number_ends r \<longleftrightarrow> (case r of [] \<Rightarrow> True | c # _ \<Rightarrow> \<not> number_char c)"

lemma scan_digits_local:
  assumes "scan_digits s = (d, r)" and "r' = [] \<or> \<not> is_digit (hd r')"
  shows "s = d @ r \<and> scan_digits (d @ r') = (d, r')"
proof -
  have d: "d = takeWhile is_digit s" "r = dropWhile is_digit s" using assms(1) by (auto simp: scan_digits_def)
  then have all: "\<forall>c \<in> set d. is_digit c" by (auto dest: set_takeWhileD)
  then have "takeWhile is_digit (d @ r') = d @ takeWhile is_digit r'"
    and "dropWhile is_digit (d @ r') = dropWhile is_digit r'"
    by (induction d) auto
  moreover have "takeWhile is_digit r' = []" "dropWhile is_digit r' = r'"
    using assms(2) by (cases r'; auto)+
  ultimately show ?thesis using d by (simp add: scan_digits_def)
qed

lemma scan_int_local:
  assumes "scan_int s = Some (i, r)" and "r' = [] \<or> \<not> is_digit (hd r')"
  shows "s = i @ r \<and> i \<noteq> [] \<and> is_digit (hd i) \<and> scan_int (i @ r') = Some (i, r')"
proof -
  obtain c t where s: "s = c # t" using assms(1) by (cases s) (auto simp: scan_int_def)
  show ?thesis
  proof (cases "c = CHR ''0''")
    case True
    then have "is_digit c" by (simp add: is_digit_def char_code_def)
    with assms True show ?thesis by (auto simp: s scan_int_def)
  next
    case False
    with assms(1) have d: "is_digit c" "scan_digits s = (i, r)"
      by (auto simp: s scan_int_def split: if_splits)
    then obtain i' where "i = c # i'" by (auto simp: scan_digits_def s)
    with scan_digits_local [OF d(2) assms(2)] d(1) False show ?thesis by (auto simp: scan_int_def)
  qed
qed

lemma scan_frac_local:
  assumes "scan_frac s = Some (f, r)" and "r' = [] \<or> (\<not> is_digit (hd r') \<and> hd r' \<noteq> CHR ''.'')"
  shows "s = f @ r \<and> (f = [] \<or> hd f = CHR ''.'') \<and> scan_frac (f @ r') = Some (f, r')"
proof (cases "f = []")
  case True
  with assms show ?thesis by (cases s; cases r') (auto simp: scan_frac_def split: if_splits prod.splits)
next
  case False
  with assms(1) obtain d t where f: "f = CHR ''.'' # d" "s = CHR ''.'' # t" "scan_digits t = (d, r)" "d \<noteq> []"
    by (auto simp: scan_frac_def split: list.splits if_splits prod.splits)
  with scan_digits_local [OF f(3), of r'] assms(2) show ?thesis by (auto simp: scan_frac_def)
qed

lemma scan_exp_local:
  assumes "scan_exp s = Some (e, r)" and "number_ends r'"
  shows "s = e @ r \<and> (e = [] \<or> hd e = CHR ''e'' \<or> hd e = CHR ''E'') \<and> scan_exp (e @ r') = Some (e, r')"
proof (cases "e = []")
  case True
  with assms show ?thesis
    by (cases s; cases r') (auto simp: scan_exp_def number_ends_def number_char_def Let_def split: if_splits prod.splits)
next
  case False
  with assms(1) obtain c t where s: "s = c # t" "c = CHR ''e'' \<or> c = CHR ''E''"
    by (auto simp: scan_exp_def split: list.splits if_splits)
  define sg where "sg = takeWhile is_sign (take 1 t)"
  from s assms(1) obtain d where d: "scan_digits (drop (length sg) t) = (d, r)" "d \<noteq> []" "e = c # sg @ d"
    by (auto simp: scan_exp_def sg_def Let_def split: prod.splits if_splits)
  have sgt: "sg = take (length sg) t" "length sg \<le> 1"
    by (cases t; auto simp: sg_def)+
  have "r' = [] \<or> \<not> is_digit (hd r')"
    using assms(2) by (cases r') (auto simp: number_ends_def number_char_def)
  note dl = scan_digits_local [OF d(1) this]
  have "takeWhile is_sign (take 1 (sg @ d @ r')) = sg"
  proof (cases sg)
    case Nil
    obtain x d' where "d = x # d'" using d(2) by (cases d) auto
    moreover have "is_digit x" using d(1) \<open>d = x # d'\<close>
      by (metis fst_conv list.set_intros(1) scan_digits_def set_takeWhileD)
    moreover have "\<not> is_digit y" if "is_sign y" for y
      using that by (auto simp: is_sign_def is_digit_def char_code_def)
    ultimately show ?thesis using Nil by auto
  next
    case (Cons x xs)
    with sgt(2) show ?thesis using sg_def by (cases t) (auto split: if_splits)
  qed
  moreover have "t = sg @ d @ r" using dl sgt(1) by (metis append_take_drop_id)
  ultimately show ?thesis using s d(2,3) dl by (auto simp: scan_exp_def Let_def)
qed

lemma scan_number_local:
  assumes "scan_number s = Some (n, r)" and "number_ends r'"
  shows "s = n @ r \<and> n \<noteq> [] \<and> (is_digit (hd n) \<or> hd n = CHR ''-'') \<and> scan_number (n @ r') = Some (n, r')"
proof -
  obtain sg s0 where sg: "scan_sign s = (sg, s0)" by fastforce
  with assms(1) obtain i s1 f s2 e where p: "scan_int s0 = Some (i, s1)" "scan_frac s1 = Some (f, s2)"
    "scan_exp s2 = Some (e, r)" "n = sg @ i @ f @ e"
    by (auto simp: scan_number_def split: option.splits)
  have minus: "\<not> is_digit (CHR ''-'')" "\<not> is_digit (CHR ''.'')" "\<not> is_digit (CHR ''e'')" "\<not> is_digit (CHR ''E'')"
    by (simp_all add: is_digit_def char_code_def)
  have r': "r' = [] \<or> (\<not> is_digit (hd r') \<and> hd r' \<noteq> CHR ''.'')"
    using assms(2) by (cases r') (auto simp: number_ends_def number_char_def)
  from scan_exp_local [OF p(3) assms(2)] have e: "s2 = e @ r" "e = [] \<or> hd e = CHR ''e'' \<or> hd e = CHR ''E''"
    "scan_exp (e @ r') = Some (e, r')" by auto
  then have er: "e @ r' = [] \<or> (\<not> is_digit (hd (e @ r')) \<and> hd (e @ r') \<noteq> CHR ''.'')"
    using r' minus by (cases e) auto
  from scan_frac_local [OF p(2) er] have f: "s1 = f @ s2" "f = [] \<or> hd f = CHR ''.''"
    "scan_frac (f @ e @ r') = Some (f, e @ r')" by auto
  then have fr: "f @ e @ r' = [] \<or> \<not> is_digit (hd (f @ e @ r'))"
    using er minus by (cases f) auto
  from scan_int_local [OF p(1) fr] have i: "s0 = i @ s1" "i \<noteq> []" "is_digit (hd i)"
    "scan_int (i @ f @ e @ r') = Some (i, f @ e @ r')" by auto
  have s: "s = sg @ s0" "sg = [] \<or> sg = ''-''" using sg by (auto simp: scan_sign_def split: list.splits if_splits)
  have "scan_sign (sg @ i @ f @ e @ r') = (sg, i @ f @ e @ r')"
    using s(2) i(2,3) minus by (cases i) (auto simp: scan_sign_def)
  then have "scan_number (n @ r') = Some (n, r')"
    using i(4) f(3) e(3) by (simp add: scan_number_def p(4))
  moreover have "hd n = CHR ''-'' \<or> is_digit (hd n)" using s(2) i(2,3) p(4) by auto
  ultimately show ?thesis using s(1) i(1,2) f(1) e(1) p(4) by auto
qed

section \<open>Lexemes\<close>

datatype jtoken =
  TBegObj
| TEndObj
| TBegArr
| TEndArr
| TComma
| TColon
| TStr "string list"
| TNum string
| TLit string
| TBad

fun tok_text :: "jtoken \<Rightarrow> string" where
  "tok_text TBegObj = ''{''"
| "tok_text TEndObj = ''}''"
| "tok_text TBegArr = ''[''"
| "tok_text TEndArr = '']''"
| "tok_text TComma = '',''"
| "tok_text TColon = '':''"
| "tok_text (TStr us) = dquote # concat us @ [dquote]"
| "tok_text (TNum s) = s"
| "tok_text (TLit s) = s"
| "tok_text TBad = []"

definition punctuation :: "(char \<times> jtoken) list" where
  "punctuation =
     [(CHR ''{'', TBegObj), (CHR ''}'', TEndObj), (CHR ''['', TBegArr), (CHR '']'', TEndArr),
      (CHR '','', TComma), (CHR '':'', TColon)]"

definition literals :: "string list" where
  "literals = [''null'', ''true'', ''false'']"

definition literal_at :: "string \<Rightarrow> string option" where
  "literal_at s = (case filter (has_prefix s) literals of l # _ \<Rightarrow> Some l | [] \<Rightarrow> None)"

definition lex_token :: "string \<Rightarrow> (jtoken \<times> string) option" where
  "lex_token s =
     (case s of
        [] \<Rightarrow> None
      | c # r \<Rightarrow>
          (case map_of punctuation c of
             Some t \<Rightarrow> Some (t, r)
           | None \<Rightarrow>
               (if c = dquote then map_option (\<lambda>(us, r). (TStr us, r)) (scan_units r)
                else if is_digit c \<or> c = CHR ''-'' then map_option (\<lambda>(n, r). (TNum n, r)) (scan_number s)
                else map_option (\<lambda>l. (TLit l, drop (length l) s)) (literal_at s))))"

definition json_space :: "char \<Rightarrow> bool" where
  "json_space c \<longleftrightarrow> c = CHR '' '' \<or> c = CHR 0x09 \<or> c = CHR 0x0A \<or> c = CHR 0x0D"

text \<open>A token that reads back as itself, before anything that cannot continue it.\<close>

definition tok_ok :: "jtoken \<Rightarrow> bool" where
  "tok_ok t \<longleftrightarrow> tok_text t \<noteq> [] \<and> \<not> json_space (hd (tok_text t))
     \<and> (\<forall>r. (\<exists>n. t = TNum n) \<longrightarrow> number_ends r \<longrightarrow> lex_token (tok_text t @ r) = Some (t, r))
     \<and> (\<forall>r. (\<nexists>n. t = TNum n) \<longrightarrow> lex_token (tok_text t @ r) = Some (t, r))"

lemma tok_ok_lex: "tok_ok t \<Longrightarrow> number_ends r \<Longrightarrow> lex_token (tok_text t @ r) = Some (t, r)"
  unfolding tok_ok_def by (cases "\<exists>n. t = TNum n") blast+

lemma punctuation_tok:
  assumes "map_of punctuation c = Some t"
  shows "tok_text t = [c] \<and> \<not> json_space c \<and> (\<nexists>n. t = TNum n)"
  using map_of_SomeD [OF assms] by (auto simp: punctuation_def json_space_def)

lemma literal_at_Some: "literal_at s = Some l \<Longrightarrow> l \<in> set literals \<and> has_prefix s l"
  by (auto simp: literal_at_def split: list.splits dest!: arg_cong [of _ _ set])

lemma literal_at_append: "l \<in> set literals \<Longrightarrow> literal_at (l @ r) = Some l"
  by (auto simp: literal_at_def literals_def has_prefix_def)

lemma literal_start:
  assumes "l \<in> set literals"
  obtains c l' where "l = c # l'" and "c \<in> {CHR ''n'', CHR ''t'', CHR ''f''}"
  using assms by (auto simp: literals_def)

lemma literal_tok:
  assumes "l \<in> set literals"
  shows "lex_token (l @ r) = Some (TLit l, r)"
proof -
  obtain c l' where "l = c # l'" and "c \<in> {CHR ''n'', CHR ''t'', CHR ''f''}" by (rule literal_start [OF assms])
  then have l: "l @ r = c # l' @ r" "map_of punctuation c = None" "c \<noteq> dquote" "\<not> is_digit c" "c \<noteq> CHR ''-''"
    by (auto simp: punctuation_def dquote_def is_digit_def char_code_def)
  show ?thesis unfolding lex_token_def using l literal_at_append [OF assms, of r] by simp
qed

lemma lex_token_ok:
  assumes "lex_token s = Some (t, r)"
  shows "s = tok_text t @ r \<and> tok_ok t \<and> t \<noteq> TBad"
proof -
  obtain c s' where s: "s = c # s'" using assms by (cases s) (auto simp: lex_token_def)
  have "(map_of punctuation c = Some t \<and> r = s')
    \<or> (map_of punctuation c = None \<and> c = dquote \<and> (\<exists>us. scan_units s' = Some (us, r) \<and> t = TStr us))
    \<or> (map_of punctuation c = None \<and> c \<noteq> dquote \<and> (is_digit c \<or> c = CHR ''-'')
        \<and> (\<exists>n. scan_number s = Some (n, r) \<and> t = TNum n))
    \<or> (\<exists>l. literal_at s = Some l \<and> t = TLit l \<and> r = drop (length l) s)"
  proof (cases "map_of punctuation c")
    case None
    then have lt: "lex_token s = (if c = dquote then map_option (\<lambda>(us, r). (TStr us, r)) (scan_units s')
        else if is_digit c \<or> c = CHR ''-'' then map_option (\<lambda>(n, r). (TNum n, r)) (scan_number s)
        else map_option (\<lambda>l. (TLit l, drop (length l) s)) (literal_at s))"
      by (simp add: lex_token_def s)
    show ?thesis
    proof (cases "c = dquote \<or> is_digit c \<or> c = CHR ''-''")
      case True
      with assms lt None show ?thesis by (cases "c = dquote") auto
    next
      case False
      with assms lt show ?thesis by auto
    qed
  qed (use assms in \<open>simp add: lex_token_def s\<close>)
  then consider (punct) "map_of punctuation c = Some t" "r = s'"
    | (str) us where "map_of punctuation c = None" "c = dquote" "scan_units s' = Some (us, r)" "t = TStr us"
    | (num) n where "map_of punctuation c = None" "c \<noteq> dquote" "is_digit c \<or> c = CHR ''-''"
        "scan_number s = Some (n, r)" "t = TNum n"
    | (lit) l where "l \<in> set literals" "has_prefix s l" "t = TLit l" "r = drop (length l) s"
    using literal_at_Some [of s] by blast
  then show ?thesis
  proof cases
    case punct
    with punctuation_tok [OF punct(1)] show ?thesis
      by (auto simp: s tok_ok_def lex_token_def)
  next
    case str
    with scan_units_local [OF str(3)] show ?thesis
      by (auto simp: s tok_ok_def lex_token_def dquote_def json_space_def)
  next
    case num
    have n: "s = n @ r" "n \<noteq> []" "is_digit (hd n) \<or> hd n = CHR ''-''"
      and l: "\<And>r'. number_ends r' \<Longrightarrow> scan_number (n @ r') = Some (n, r')"
      using scan_number_local [OF num(4), of "[]"] scan_number_local [OF num(4)] by (auto simp: number_ends_def)
    then obtain n' where n': "n = c # n'" using s by (cases n) auto
    have "\<not> json_space c" using num(3) by (auto simp: json_space_def is_digit_def char_code_def)
    with n n' l num show ?thesis by (auto simp: tok_ok_def lex_token_def)
  next
    case lit
    then have "s = l @ r" by (metis append_take_drop_id has_prefix_def)
    moreover have "l \<noteq> []" "\<not> json_space (hd l)" using lit(1) by (auto simp: literals_def json_space_def)
    ultimately show ?thesis using lit literal_tok [OF lit(1)] by (simp add: tok_ok_def)
  qed
qed

text \<open>A lexeme is a token with the white space before it.\<close>

type_synonym lexeme = "string \<times> jtoken"

function lex :: "string \<Rightarrow> lexeme list" where
  "lex s =
     (let w = takeWhile json_space s; s1 = dropWhile json_space s
      in if s1 = [] then []
         else (case lex_token s1 of
                 None \<Rightarrow> [(w, TBad)]
               | Some (t, r) \<Rightarrow> (w, t) # lex r))"
  by pat_completeness auto
termination
proof (relation "measure length")
  fix s :: string and w s1 x t r
  assume "s1 = dropWhile json_space s" and x: "lex_token s1 = Some x" "(t, r) = x"
  then have "length s1 \<le> length s" by (simp add: length_dropWhile_le)
  moreover have "s1 = tok_text t @ r" "tok_text t \<noteq> []" using lex_token_ok [of s1 t r] x by (auto simp: tok_ok_def)
  ultimately show "(r, s) \<in> measure length" by (cases "tok_text t") auto
qed simp

declare lex.simps [simp del]

lemma lex_eq:
  "lex s = (if dropWhile json_space s = [] then []
     else (case lex_token (dropWhile json_space s) of
             None \<Rightarrow> [(takeWhile json_space s, TBad)]
           | Some (t, r) \<Rightarrow> (takeWhile json_space s, t) # lex r))"
  by (subst lex.simps) (simp only: Let_def)

lemma lex_Nil [simp]: "lex [] = []"
  by (simp add: lex.simps)

lemma lex_step:
  assumes "lex_token (tok_text t @ r) = Some (t, r)" and "tok_ok t"
  shows "lex (tok_text t @ r) = ([], t) # lex r"
proof -
  obtain c u where c: "tok_text t = c # u" "\<not> json_space c" using assms(2) by (cases "tok_text t") (auto simp: tok_ok_def)
  then have "takeWhile json_space (tok_text t @ r) = []" "dropWhile json_space (tok_text t @ r) = tok_text t @ r"
    by simp_all
  then show ?thesis using assms(1) c by (subst lex.simps) (simp add: Let_def)
qed

lemma lex_tokens_ok: "(w, t) \<in> set (lex s) \<Longrightarrow> t \<noteq> TBad \<Longrightarrow> tok_ok t"
proof (induction s rule: lex.induct)
  case (1 s)
  show ?case
  proof (cases "dropWhile json_space s = []")
    case True
    with 1(2) show ?thesis by (subst (asm) lex.simps) simp
  next
    case False
    with 1 show ?thesis
      by (subst (asm) (2) lex.simps) (auto simp: Let_def split: option.splits if_splits dest: lex_token_ok)
  qed
qed

section \<open>The state machine\<close>

text \<open>An open object remembers the names of its members so far, unquoted.\<close>

datatype jframe = FObj "string list" | FArr

datatype expect = ExValue | ExFirstElem | ExFirstName | ExName | ExColon | ExAfter

definition max_depth :: nat where
  "max_depth = 10000"

definition value_ok :: "expect \<Rightarrow> bool" where
  "value_ok ex \<longleftrightarrow> ex = ExValue \<or> ex = ExFirstElem"

definition str_value :: "string list \<Rightarrow> string" where
  "str_value us = concat (map unit_value us)"

type_synonym jstate = "jframe list \<times> expect"

text \<open>One token; \<open>base\<close> is the number of levels around the value that is being read.\<close>

fun jstep :: "nat \<Rightarrow> jstate \<Rightarrow> jtoken \<Rightarrow> jstate option" where
  "jstep base (st, ex) (TStr us) =
     (if value_ok ex then Some (st, ExAfter)
      else if ex = ExFirstName \<or> ex = ExName then
        (case st of
           FObj ns # st' \<Rightarrow>
             (if str_value us \<in> set ns then None else Some (FObj (str_value us # ns) # st', ExColon))
         | _ \<Rightarrow> None)
      else None)"
| "jstep base (st, ex) (TNum _) = (if value_ok ex then Some (st, ExAfter) else None)"
| "jstep base (st, ex) (TLit _) = (if value_ok ex then Some (st, ExAfter) else None)"
| "jstep base (st, ex) TBegObj =
     (if value_ok ex \<and> base + length st < max_depth then Some (FObj [] # st, ExFirstName) else None)"
| "jstep base (st, ex) TBegArr =
     (if value_ok ex \<and> base + length st < max_depth then Some (FArr # st, ExFirstElem) else None)"
| "jstep base (st, ex) TEndObj =
     (case st of
        FObj _ # st' \<Rightarrow> if ex = ExFirstName \<or> ex = ExAfter then Some (st', ExAfter) else None
      | _ \<Rightarrow> None)"
| "jstep base (st, ex) TEndArr =
     (case st of
        FArr # st' \<Rightarrow> if ex = ExFirstElem \<or> ex = ExAfter then Some (st', ExAfter) else None
      | _ \<Rightarrow> None)"
| "jstep base (st, ex) TComma =
     (if ex \<noteq> ExAfter then None
      else (case st of
              FObj _ # _ \<Rightarrow> Some (st, ExName)
            | FArr # _ \<Rightarrow> Some (st, ExValue)
            | [] \<Rightarrow> None))"
| "jstep base (st, ex) TColon = (if ex = ExColon then Some (st, ExValue) else None)"
| "jstep base (st, ex) TBad = None"

text \<open>ReadValue: the lexemes of one value, and the rest.\<close>

fun read_value :: "nat \<Rightarrow> jstate \<Rightarrow> lexeme list \<Rightarrow> (lexeme list \<times> lexeme list) option" where
  "read_value base s [] = None"
| "read_value base s ((w, t) # ls) =
     (case jstep base s t of
        None \<Rightarrow> None
      | Some s' \<Rightarrow>
          (if s' = ([], ExAfter) then Some ([(w, t)], ls)
           else map_option (\<lambda>(vs, rest). ((w, t) # vs, rest)) (read_value base s' ls)))"

text \<open>The text of a value as it stands, and without its white space.\<close>

definition lexeme_text :: "lexeme \<Rightarrow> string" where
  "lexeme_text l = fst l @ tok_text (snd l)"

fun raw_text :: "lexeme list \<Rightarrow> string" where
  "raw_text [] = []"
| "raw_text ((w, t) # ls) = tok_text t @ concat (map lexeme_text ls)"

definition compact_text :: "lexeme list \<Rightarrow> string" where
  "compact_text vs = concat (map (\<lambda>l. tok_text (snd l)) vs)"

definition start_state :: jstate where
  "start_state = ([], ExValue)"

text \<open>AppendFormat with PreserveRawStrings: exactly one value, with white space around it.\<close>

definition append_format :: "string \<Rightarrow> string option" where
  "append_format src =
     (case read_value 0 start_state (lex src) of
        Some (vs, []) \<Rightarrow> Some (compact_text vs)
      | _ \<Rightarrow> None)"

lemma read_value_split: "read_value base s ls = Some (vs, rest) \<Longrightarrow> ls = vs @ rest \<and> vs \<noteq> []"
  by (induction base s ls arbitrary: vs rule: read_value.induct)
     (fastforce split: option.splits if_splits)+

lemma read_value_append: "read_value base s ls = Some (vs, rest) \<Longrightarrow> read_value base s (vs @ rest') = Some (vs, rest')"
proof (induction base s ls arbitrary: vs rule: read_value.induct)
  case (2 base s w t ls)
  then obtain s' where s': "jstep base s t = Some s'" by (auto split: option.splits)
  show ?case
  proof (cases "s' = ([], ExAfter)")
    case True
    with 2(2) s' show ?thesis by auto
  next
    case False
    with 2(2) s' obtain vs' where "read_value base s' ls = Some (vs', rest)" "vs = (w, t) # vs'" by auto
    with 2(1) [OF s' False] s' False show ?thesis by auto
  qed
qed simp

lemma read_value_space:
  "read_value base s ls = Some (vs, rest) \<Longrightarrow> map snd ls' = map snd ls \<Longrightarrow>
     \<exists>vs' rest'. read_value base s ls' = Some (vs', rest') \<and> map snd vs' = map snd vs \<and> map snd rest' = map snd rest
       \<and> ls' = vs' @ rest'"
proof (induction base s ls arbitrary: vs ls' rule: read_value.induct)
  case (2 base s w t ls)
  from 2(3) obtain w' ls2 where ls': "ls' = (w', t) # ls2" "map snd ls2 = map snd ls" by (cases ls') auto
  from 2(2) obtain s' where s': "jstep base s t = Some s'" by (auto split: option.splits)
  show ?case
  proof (cases "s' = ([], ExAfter)")
    case True
    with 2(2) s' ls' show ?thesis by auto
  next
    case False
    with 2(2) s' obtain vs' where v: "read_value base s' ls = Some (vs', rest)" "vs = (w, t) # vs'" by auto
    from 2(1) [OF s' False v(1) ls'(2)] obtain x y where "read_value base s' ls2 = Some (x, y)"
      "map snd x = map snd vs'" "map snd y = map snd rest" "ls2 = x @ y" by blast
    with s' False v ls' show ?thesis by auto
  qed
qed simp

section \<open>Compact texts read back\<close>

fun sep :: "jtoken list \<Rightarrow> bool" where
  "sep (t # t' # ts) \<longleftrightarrow> ((\<exists>n. t = TNum n) \<longrightarrow> t' \<in> {TComma, TEndObj, TEndArr}) \<and> sep (t' # ts)"
| "sep _ \<longleftrightarrow> True"

lemma jstep_ExAfter: "jstep base (st, ExAfter) t = Some s' \<Longrightarrow> t \<in> {TComma, TEndObj, TEndArr}"
  by (cases t) (auto simp: value_ok_def)

lemma jstep_not_bad: "jstep base s t = Some s' \<Longrightarrow> t \<noteq> TBad"
  by (cases s; cases t) auto

lemma jstep_TNum: "jstep base (st, ex) (TNum n) = Some s' \<Longrightarrow> s' = (st, ExAfter)"
  by (auto split: if_splits)

lemma read_value_sep: "read_value base s ls = Some (vs, rest) \<Longrightarrow> sep (map snd vs) \<and> TBad \<notin> snd ` set vs"
proof (induction base s ls arbitrary: vs rule: read_value.induct)
  case (2 base s w t ls)
  from 2(2) obtain s' where s': "jstep base s t = Some s'" by (auto split: option.splits)
  show ?case
  proof (cases "s' = ([], ExAfter)")
    case True
    with 2(2) s' jstep_not_bad [OF s'] show ?thesis by auto
  next
    case False
    with 2(2) s' obtain vs' where v: "read_value base s' ls = Some (vs', rest)" "vs = (w, t) # vs'" by auto
    then obtain w2 t2 vs2 where vs': "vs' = (w2, t2) # vs2" using read_value_split [OF v(1)] by (cases vs') auto
    have "t2 \<in> {TComma, TEndObj, TEndArr}" if n: "t = TNum n" for n
    proof -
      obtain st ex where s: "s = (st, ex)" by fastforce
      with s' n have "s' = (st, ExAfter)" using jstep_TNum by blast
      moreover have "ls = (w2, t2) # vs2 @ rest" using read_value_split [OF v(1)] vs' by simp
      then obtain s'' where "jstep base s' t2 = Some s''" using v(1) by (auto split: option.splits)
      ultimately show ?thesis using jstep_ExAfter by blast
    qed
    with 2(1) [OF s' False v(1)] v(2) vs' jstep_not_bad [OF s'] show ?thesis by auto
  qed
qed simp

lemma number_ends_tok:
  assumes "tok_ok t" and "t \<in> {TComma, TEndObj, TEndArr}"
  shows "number_ends (tok_text t @ r)"
  using assms(2) by (auto simp: number_ends_def number_char_def is_digit_def char_code_def)

lemma lex_single:
  assumes "tok_ok t" and "number_ends r"
  shows "lex (tok_text t @ r) = ([], t) # lex r"
proof -
  have "lex_token (tok_text t @ r) = Some (t, r)" using assms by (rule tok_ok_lex)
  from lex_step [OF this assms(1)] show ?thesis by simp
qed

lemma lex_texts:
  "(\<And>t. t \<in> set ts \<Longrightarrow> tok_ok t) \<Longrightarrow> sep ts \<Longrightarrow> number_ends r \<Longrightarrow>
     lex (concat (map tok_text ts) @ r) = map (Pair []) ts @ lex r"
proof (induction ts rule: sep.induct)
  case (1 t t' ts)
  let ?r = "concat (map tok_text (t' # ts)) @ r"
  have ok: "tok_ok t" "tok_ok t'" using 1(2) by auto
  have ne: "number_ends ?r" if "t = TNum n" for n
    using 1(3) that number_ends_tok [OF ok(2), of "concat (map tok_text ts) @ r"] by simp
  have "lex_token (tok_text t @ ?r) = Some (t, ?r)"
    using ok(1) ne unfolding tok_ok_def by (cases "\<exists>n. t = TNum n") blast+
  from lex_step [OF this ok(1)] 1 show ?case by simp
qed (simp_all add: lex_single)

lemma lex_compact:
  assumes "read_value base s (lex src) = Some (vs, rest)" and "number_ends r"
  shows "lex (compact_text vs @ r) = map (\<lambda>l. ([], snd l)) vs @ lex r"
proof -
  have ok: "tok_ok t" if t: "t \<in> set (map snd vs)" for t
  proof -
    obtain w where "(w, t) \<in> set vs" using t by auto
    then have "(w, t) \<in> set (lex src)" "t \<noteq> TBad"
      using read_value_split [OF assms(1)] read_value_sep [OF assms(1)] by force+
    then show ?thesis by (rule lex_tokens_ok)
  qed
  have "sep (map snd vs)" using read_value_sep [OF assms(1)] by blast
  from lex_texts [OF ok this assms(2)] show ?thesis by (simp add: compact_text_def comp_def)
qed

text \<open>Reading a compact text gives the same tokens back.\<close>

lemma read_compact:
  assumes "read_value base s (lex src) = Some (vs, rest)" and "number_ends r"
  shows "read_value base s (lex (compact_text vs @ r)) = Some (map (\<lambda>l. ([], snd l)) vs, lex r)"
proof -
  have "read_value base s (vs @ lex r) = Some (vs, lex r)" by (rule read_value_append [OF assms(1)])
  from read_value_space [OF this, of "map (\<lambda>l. ([], snd l)) vs @ lex r"]
  obtain vs' rest' where v: "read_value base s (map (\<lambda>l. ([], snd l)) vs @ lex r) = Some (vs', rest')"
    "map snd vs' = map snd vs" "map (\<lambda>l. ([], snd l)) vs @ lex r = vs' @ rest'" by auto
  then have "length vs' = length vs" by (metis length_map)
  with v(3) have "vs' = map (\<lambda>l. ([], snd l)) vs" "rest' = lex r" by auto
  with v(1) show ?thesis by (simp add: lex_compact [OF assms])
qed

lemma append_format_idem: "append_format src = Some c \<Longrightarrow> append_format c = Some c"
proof -
  assume "append_format src = Some c"
  then obtain vs where v: "read_value 0 start_state (lex src) = Some (vs, [])" "c = compact_text vs"
    by (auto simp: append_format_def split: option.splits list.splits)
  from read_compact [OF v(1), of "[]"] v(2) show ?thesis
    by (simp add: append_format_def number_ends_def compact_text_def comp_def)
qed

section \<open>White space\<close>

lemma lex_space:
  assumes "\<forall>c \<in> set w. json_space c"
  shows "lex (w @ s) = (case lex s of [] \<Rightarrow> [] | (w', t) # ls \<Rightarrow> (w @ w', t) # ls)"
proof -
  have "takeWhile json_space (w @ s) = w @ takeWhile json_space s"
    and "dropWhile json_space (w @ s) = dropWhile json_space s"
    using assms by (induction w) auto
  then show ?thesis unfolding lex_eq [of "w @ s"] lex_eq [of s] by (simp split: option.splits)
qed

lemma takeWhile_space: "\<forall>c \<in> set (takeWhile json_space s). json_space c"
  by (induction s) auto

lemma lex_space_ok: "(w, t) \<in> set (lex s) \<Longrightarrow> \<forall>c \<in> set w. json_space c"
proof (induction s rule: lex.induct)
  case (1 s)
  let ?s = "dropWhile json_space s"
  show ?case
  proof (cases "?s = []")
    case True
    then have "lex s = []" by (simp only: lex_eq [of s] if_True refl)
    with 1(2) show ?thesis by simp
  next
    case False
    show ?thesis
    proof (cases "lex_token ?s")
      case None
      with False lex_eq [of s] 1(2) have "w = takeWhile json_space s"
        by (simp only: if_False option.case) simp
      then show ?thesis using takeWhile_space by blast
    next
      case (Some x)
      obtain t' r where x: "x = (t', r)" by fastforce
      with Some False lex_eq [of s] 1(2) have "w = takeWhile json_space s \<or> (w, t) \<in> set (lex r)"
        by (simp only: if_False option.case prod.case) auto
      then show ?thesis
        using takeWhile_space 1(1) [OF refl refl False Some x [symmetric]] by blast
    qed
  qed
qed

text \<open>The lexemes are the text, up to white space at its end.\<close>

lemma lex_lossless:
  "TBad \<notin> snd ` set (lex s) \<Longrightarrow>
     \<exists>w. s = concat (map lexeme_text (lex s)) @ w \<and> (\<forall>c \<in> set w. json_space c)"
proof (induction s rule: lex.induct)
  case (1 s)
  let ?w = "takeWhile json_space s" and ?s = "dropWhile json_space s"
  have s: "s = ?w @ ?s" by simp
  show ?case
  proof (cases "?s = []")
    case True
    then have "lex s = []" by (subst lex.simps) simp
    moreover have "\<forall>c \<in> set s. json_space c" using True by (simp add: dropWhile_eq_Nil_conv)
    ultimately show ?thesis by simp
  next
    case False
    show ?thesis
    proof (cases "lex_token ?s")
      case None
      with False have "lex s = [(?w, TBad)]" by (subst lex.simps) (simp only: Let_def if_False option.case)
      with 1(2) show ?thesis by simp
    next
      case (Some x)
      obtain t r where x: "x = (t, r)" by fastforce
      with Some False have l: "lex s = (?w, t) # lex r"
        by (subst lex.simps) (simp only: Let_def if_False option.case prod.case)
      have st: "?s = tok_text t @ r" using lex_token_ok [of ?s t r] Some x by blast
      obtain w where w: "r = concat (map lexeme_text (lex r)) @ w" "\<forall>c \<in> set w. json_space c"
        using 1(1) [OF refl refl False Some x [symmetric]] 1(2) l by auto
      have "s = lexeme_text (?w, t) @ r" using s st by (simp add: lexeme_text_def)
      also have "\<dots> = (lexeme_text (?w, t) @ concat (map lexeme_text (lex r))) @ w" using w(1) by simp
      finally show ?thesis using w(2) l by auto
    qed
  qed
qed

lemma tok_end_obj: "tok_ok t \<Longrightarrow> hd (tok_text t) = CHR ''}'' \<longleftrightarrow> t = TEndObj"
proof
  assume ok: "tok_ok t" and h: "hd (tok_text t) = CHR ''}''"
  then obtain u where u: "tok_text t = CHR ''}'' # u" by (cases "tok_text t") (auto simp: tok_ok_def)
  have "lex_token (tok_text t @ []) = Some (t, [])"
    by (rule tok_ok_lex [OF ok]) (simp add: number_ends_def)
  with u show "t = TEndObj" by (simp add: lex_token_def punctuation_def)
qed simp

lemma read_value_mono:
  "read_value base s ls = Some (vs, rest) \<Longrightarrow> base' \<le> base \<Longrightarrow> read_value base' s ls = Some (vs, rest)"
proof (induction base s ls arbitrary: vs rule: read_value.induct)
  case (2 base s w t ls)
  from 2(2) obtain s' where s': "jstep base s t = Some s'" by (auto split: option.splits)
  have m: "jstep base' s t = Some s'"
    using s' 2(3) by (cases s; cases t) (auto split: if_splits)
  show ?case
  proof (cases "s' = ([], ExAfter)")
    case True
    with 2(2) s' m show ?thesis by auto
  next
    case False
    with 2(2) s' obtain vs' where v: "read_value base s' ls = Some (vs', rest)" "vs = (w, t) # vs'" by auto
    with 2(1) [OF s' False v(1) 2(3)] m False show ?thesis by auto
  qed
qed simp

end
