(* ===== verification/CodecJson.thy ===== *)
theory CodecJson
  imports Codec Json
begin

text \<open>
  The JSON formatter (pkg/codec/json.go): EncodeJSON, DecodeJSON and EncodeRows over the
  JSON syntax of theory Json. A payload of type \<open>bytes option\<close> is nil when it is \<open>None\<close>.
\<close>

section \<open>EncodeJSON\<close>

definition newline :: char where
  "newline = CHR 0x0A"

text \<open>The loop over the objects; an error carries the number of the object.\<close>

fun encode_objects :: "bool \<Rightarrow> bool \<Rightarrow> nat \<Rightarrow> bytes list \<Rightarrow> bytes \<Rightarrow> nat + bytes" where
  "encode_objects arr ndjson i [] payload = Inr payload"
| "encode_objects arr ndjson i (obj # objs) payload =
     (let p1 = (if arr \<and> i > 0 then payload @ '','' else payload)
      in case append_format obj of
           None \<Rightarrow> Inl (i + 1)
         | Some c \<Rightarrow>
             (let p2 = p1 @ c
              in encode_objects arr ndjson (Suc i) objs (if ndjson then p2 @ [newline] else p2)))"

definition encode_json :: "json_format \<Rightarrow> bytes list \<Rightarrow> nat + bytes option" where
  "encode_json f objects =
     (case empty_payload f (length objects) of
        (payload, True) \<Rightarrow> Inr payload
      | (_, False) \<Rightarrow>
          (let (ndjson, arr) = shape f (length objects)
           in case encode_objects arr ndjson 0 objects (if arr then ''['' else []) of
                Inl e \<Rightarrow> Inl e
              | Inr payload \<Rightarrow> Inr (Some (if arr then payload @ '']'' else payload))))"

section \<open>DecodeJSON\<close>

text \<open>A kind is the first byte of a token, \<open>None\<close> the invalid kind; a digit counts as a zero.\<close>

type_synonym kind = "char option"

fun kind_of :: "jtoken \<Rightarrow> kind" where
  "kind_of (TNum _) = Some (CHR ''0'')"
| "kind_of TComma = None"
| "kind_of TColon = None"
| "kind_of TBad = None"
| "kind_of t = Some (hd (tok_text t))"

datatype position = TopLevelValue | ArrayElement

datatype decode_error = DecodingError | UnexpectedKind char position

text \<open>
  PeekKind and ReadValue skip one comma before the next value, and fail unless there is one
  exactly where the reader's state needs it: within an array, after the first element.
\<close>

fun skip_delim :: "lexeme list \<Rightarrow> bool \<times> lexeme list" where
  "skip_delim ((w, TComma) # ls) = (True, ls)"
| "skip_delim ls = (False, ls)"

definition peek_kind :: "bool \<Rightarrow> lexeme list \<Rightarrow> kind" where
  "peek_kind need ls =
     (case skip_delim ls of
        (delim, []) \<Rightarrow> None
      | (delim, (w, t) # _) \<Rightarrow>
          (if delim \<noteq> (need \<and> t \<noteq> TEndArr \<and> t \<noteq> TEndObj) then None else kind_of t))"

definition next_value :: "nat \<Rightarrow> bool \<Rightarrow> lexeme list \<Rightarrow> (lexeme list \<times> lexeme list) option" where
  "next_value base need ls =
     (if peek_kind need ls = None then None
      else read_value base start_state (snd (skip_delim ls)))"

text \<open>bytes.TrimLeft of what follows the opening brace; a valid object never ends there.\<close>

definition empty_object :: "bytes \<Rightarrow> bool" where
  "empty_object raw =
     (case dropWhile json_space (tl raw) of c # _ \<Rightarrow> c = CHR ''}'' | [] \<Rightarrow> False)"

definition append_object ::
  "nat \<Rightarrow> bool \<Rightarrow> lexeme list \<Rightarrow> bytes list \<Rightarrow> (bytes list \<times> lexeme list) option" where
  "append_object base need ls objects =
     (case next_value base need ls of
        None \<Rightarrow> None
      | Some (vs, rest) \<Rightarrow>
          (let raw = raw_text vs
           in if empty_object raw then Some (objects, rest) else Some (objects @ [raw], rest)))"

definition unexpected_kind :: "nat \<Rightarrow> bool \<Rightarrow> lexeme list \<Rightarrow> position \<Rightarrow> decode_error" where
  "unexpected_kind base need ls pos =
     (case peek_kind need ls of
        None \<Rightarrow> DecodingError
      | Some k \<Rightarrow>
          (case next_value base need ls of
             None \<Rightarrow> DecodingError
           | Some _ \<Rightarrow> UnexpectedKind k pos))"

lemma skip_delim_length: "length (snd (skip_delim ls)) \<le> length ls"
  by (cases ls rule: skip_delim.cases) auto

lemma next_value_split:
  "next_value base need ls = Some (vs, rest) \<Longrightarrow> vs \<noteq> [] \<and> snd (skip_delim ls) = vs @ rest"
  by (auto simp: next_value_def split: if_splits dest: read_value_split)

lemma append_object_length:
  assumes "append_object base need ls objs = Some (objs', rest)"
  shows "length rest < length ls"
proof -
  obtain vs where "next_value base need ls = Some (vs, rest)"
    using assms by (auto simp: append_object_def Let_def split: option.splits if_splits)
  from next_value_split [OF this] have "vs \<noteq> []" "length vs + length rest \<le> length ls"
    using skip_delim_length [of ls] by auto
  then show ?thesis by (cases vs) auto
qed

text \<open>The objects of an array, up to its first element that is not an object.\<close>

function array_objects ::
  "bool \<Rightarrow> lexeme list \<Rightarrow> bytes list \<Rightarrow> (bytes list \<times> bool \<times> lexeme list) option" where
  "array_objects need ls objects =
     (if peek_kind need ls = Some (CHR ''{'')
      then (case append_object 1 need ls objects of
              None \<Rightarrow> None
            | Some (objects', rest) \<Rightarrow> array_objects True rest objects')
      else Some (objects, need, ls))"
  by pat_completeness auto
termination
  by (relation "measure (\<lambda>(_, ls, _). length ls)") (auto dest: append_object_length)

declare array_objects.simps [simp del]

lemma array_objects_length:
  "array_objects need ls objs = Some (objs', need', rest) \<Longrightarrow> length rest \<le> length ls"
proof (induction need ls objs rule: array_objects.induct)
  case (1 need ls objs)
  show ?case
  proof (cases "peek_kind need ls = Some (CHR ''{'')")
    case True
    with 1(2) obtain o2 r2 where a: "append_object 1 need ls objs = Some (o2, r2)"
      "array_objects True r2 o2 = Some (objs', need', rest)"
      by (subst (asm) array_objects.simps) (auto split: option.splits)
    from 1(1) [OF True a(1) refl a(2)] append_object_length [OF a(1)] show ?thesis by simp
  next
    case False
    with 1(2) show ?thesis by (subst (asm) array_objects.simps) auto
  qed
qed

function decode_stream :: "lexeme list \<Rightarrow> bytes list \<Rightarrow> decode_error + bytes list" where
  "decode_stream ls objects =
     (case peek_kind False ls of
        None \<Rightarrow> if ls = [] then Inr objects else Inl DecodingError
      | Some k \<Rightarrow>
          (if k = CHR ''{'' then
             (case append_object 0 False ls objects of
                None \<Rightarrow> Inl DecodingError
              | Some (objects', rest) \<Rightarrow> decode_stream rest objects')
           else if k = CHR ''['' then
             (case array_objects False (tl ls) objects of
                None \<Rightarrow> Inl DecodingError
              | Some (objects', need, rest) \<Rightarrow>
                  (if peek_kind need rest \<noteq> Some (CHR '']'')
                   then Inl (unexpected_kind 1 need rest ArrayElement)
                   else decode_stream (tl rest) objects'))
           else Inl (unexpected_kind 0 False ls TopLevelValue)))"
  by pat_completeness auto
termination
proof (relation "measure (\<lambda>(ls, _). length ls)")
  fix ls :: "lexeme list" and objects k x objects' y need rest
  assume "peek_kind False ls = Some k" and a: "array_objects False (tl ls) objects = Some x"
    "(objects', y) = x" "(need, rest) = y"
  then have "ls \<noteq> []" by (auto simp: peek_kind_def)
  moreover have "length rest \<le> length (tl ls)" using array_objects_length a by blast
  ultimately show "((tl rest, objects'), (ls, objects)) \<in> measure (\<lambda>(ls, _). length ls)"
    by (cases ls) auto
qed (auto dest: append_object_length)

declare decode_stream.simps [simp del]

definition decode_json :: "bytes \<Rightarrow> decode_error + bytes list" where
  "decode_json payload = decode_stream (lex payload) []"

section \<open>Decoding what was encoded\<close>

text \<open>
  A valid object with at least one member, that may stand within \<open>base\<close> levels, and its
  text without white space.
\<close>

definition nonempty_object :: "lexeme list \<Rightarrow> bool" where
  "nonempty_object vs \<longleftrightarrow>
     length vs \<ge> 2 \<and> snd (vs ! 0) = TBegObj \<and> snd (vs ! 1) \<noteq> TEndObj"

definition object_lexemes :: "nat \<Rightarrow> bytes \<Rightarrow> lexeme list \<Rightarrow> bool" where
  "object_lexemes base src vs \<longleftrightarrow>
     read_value base start_state (lex src) = Some (vs, []) \<and> nonempty_object vs"

definition json_object :: "nat \<Rightarrow> bytes \<Rightarrow> bool" where
  "json_object base src \<longleftrightarrow>
     (case read_value base start_state (lex src) of
        Some (vs, []) \<Rightarrow> nonempty_object vs
      | _ \<Rightarrow> False)"

lemma nonempty_objectE:
  assumes "nonempty_object vs"
  obtains w0 w1 t1 vs' where "vs = (w0, TBegObj) # (w1, t1) # vs'" and "t1 \<noteq> TEndObj"
proof -
  from assms obtain l0 l1 vs' where "vs = l0 # l1 # vs'"
    by (auto simp: nonempty_object_def Suc_le_length_iff numeral_2_eq_2)
  with assms that show thesis by (cases l0; cases l1) (auto simp: nonempty_object_def)
qed

definition compact :: "bytes \<Rightarrow> bytes" where
  "compact src = (case append_format src of Some c \<Rightarrow> c | None \<Rightarrow> src)"

lemma json_object_lexemes: "json_object base src \<longleftrightarrow> (\<exists>vs. object_lexemes base src vs)"
  unfolding json_object_def object_lexemes_def
  by (auto split: option.splits list.splits)

lemma object_lexemes_compact:
  assumes "object_lexemes base src vs"
  shows "append_format src = Some (compact_text vs)" and "compact src = compact_text vs"
proof -
  have "read_value 0 start_state (lex src) = Some (vs, [])"
    using assms read_value_mono [of base start_state "lex src" vs "[]" 0] by (simp add: object_lexemes_def)
  then show a: "append_format src = Some (compact_text vs)" by (simp add: append_format_def)
  then show "compact src = compact_text vs" by (simp add: compact_def)
qed

definition bare :: "lexeme list \<Rightarrow> lexeme list" where
  "bare vs = map (\<lambda>l. ([], snd l)) vs"

lemma raw_text_bare: "raw_text ((w, t) # bare vs) = tok_text t @ compact_text vs"
  by (simp add: bare_def compact_text_def lexeme_text_def comp_def)

lemma lex_object:
  assumes "object_lexemes base src vs" and "number_ends r" and "\<forall>c \<in> set w. json_space c"
  shows "lex (w @ compact_text vs @ r) = (w, TBegObj) # bare (tl vs) @ lex r"
proof -
  have v: "read_value base start_state (lex src) = Some (vs, [])" "vs \<noteq> []" "snd (hd vs) = TBegObj"
    using assms(1) by (auto simp: object_lexemes_def elim!: nonempty_objectE)
  then show ?thesis
    using lex_compact [OF v(1) assms(2)]
    by (cases vs) (simp_all add: lex_space [OF assms(3)] bare_def)
qed

lemma next_object:
  assumes o: "object_lexemes base src vs"
    and ls: "skip_delim ls = (need, (w, TBegObj) # bare (tl vs) @ rest)"
  shows "peek_kind need ls = Some (CHR ''{'')"
    and "append_object base need ls objs = Some (objs @ [compact_text vs], rest)"
proof -
  show p: "peek_kind need ls = Some (CHR ''{'')" by (simp add: peek_kind_def ls)
  from o obtain w0 w1 t1 vs' where v: "read_value base start_state (lex src) = Some (vs, [])"
    and vs: "vs = (w0, TBegObj) # (w1, t1) # vs'" "t1 \<noteq> TEndObj"
    unfolding object_lexemes_def by (blast elim: nonempty_objectE)
  have "read_value base start_state (vs @ rest) = Some (vs, rest)" by (rule read_value_append [OF v])
  from read_value_space [OF this, of "(w, TBegObj) # bare (tl vs) @ rest"] vs(1)
  obtain x y where xy: "read_value base start_state ((w, TBegObj) # bare (tl vs) @ rest) = Some (x, y)"
    "map snd x = map snd vs" "((w, TBegObj) # bare (tl vs)) @ rest = x @ y" by (auto simp: bare_def comp_def)
  then have "length x = length ((w, TBegObj) # bare (tl vs))" using vs(1)
    by (metis length_map length_Cons bare_def list.sel(3))
  then have x: "x = (w, TBegObj) # bare (tl vs)" "y = rest"
    using xy(3) append_eq_append_conv [of x "(w, TBegObj) # bare (tl vs)" y rest] by metis+
  have raw: "raw_text x = compact_text vs"
    unfolding x raw_text_bare using vs(1) by (simp add: compact_text_def)
  have "(w1, t1) \<in> set (lex src)" using read_value_split [OF v] vs(1) by simp
  moreover have "t1 \<noteq> TBad" using read_value_sep [OF v] vs(1) by auto
  ultimately have ok: "tok_ok t1" by (rule lex_tokens_ok)
  then obtain c u where c: "tok_text t1 = c # u" "\<not> json_space c" by (cases "tok_text t1") (auto simp: tok_ok_def)
  with tok_end_obj [OF ok] vs have "\<not> empty_object (compact_text vs)"
    by (auto simp: empty_object_def compact_text_def json_space_def)
  with p xy(1) x raw ls show "append_object base need ls objs = Some (objs @ [compact_text vs], rest)"
    by (simp add: append_object_def next_value_def Let_def)
qed

lemma decode_ndjson:
  assumes "\<forall>o1 \<in> set objs. json_object 0 o1" and "\<forall>c \<in> set w. json_space c"
  shows "decode_stream (lex (w @ concat (map (\<lambda>o1. compact o1 @ [newline]) objs))) acc
    = Inr (acc @ map compact objs)"
  using assms
proof (induction objs arbitrary: w acc)
  case Nil
  then have "lex w = []" using lex_space [of w "[]"] by simp
  then show ?case by (simp add: decode_stream.simps peek_kind_def)
next
  case (Cons a objs)
  let ?r = "[newline] @ concat (map (\<lambda>o1. compact o1 @ [newline]) objs)"
  from Cons(2) obtain vs where vs: "object_lexemes 0 a vs" by (auto simp: json_object_lexemes)
  note c = object_lexemes_compact [OF vs]
  have ends: "number_ends ?r" by (simp add: number_ends_def number_char_def newline_def is_digit_def char_code_def)
  have l: "lex (w @ compact_text vs @ ?r) = (w, TBegObj) # bare (tl vs) @ lex ?r"
    by (rule lex_object [OF vs ends Cons(3)])
  have sk: "skip_delim (lex (w @ compact_text vs @ ?r)) = (False, (w, TBegObj) # bare (tl vs) @ lex ?r)"
    unfolding l by simp
  have "decode_stream (lex (w @ compact_text vs @ ?r)) acc = decode_stream (lex ?r) (acc @ [compact_text vs])"
    using next_object [OF vs sk] by (subst decode_stream.simps) simp
  also have "\<dots> = Inr ((acc @ [compact_text vs]) @ map compact objs)"
    using Cons(1) [of "[newline]" "acc @ [compact_text vs]"] Cons(2) by (simp add: newline_def json_space_def)
  finally show ?case by (simp add: c)
qed

lemma lex_punctuation:
  assumes "map_of punctuation c = Some t"
  shows "lex (c # s) = ([], t) # lex s"
proof -
  have t: "tok_text t = [c]" "\<not> json_space c" "\<nexists>n. t = TNum n" using punctuation_tok [OF assms] by auto
  have l: "lex_token (c # s') = Some (t, s')" for s' using assms by (simp add: lex_token_def)
  then have "tok_ok t" using t by (auto simp: tok_ok_def)
  from lex_step [OF _ this, of s] l t show ?thesis by simp
qed

fun commas :: "bool \<Rightarrow> bytes list \<Rightarrow> bytes" where
  "commas need [] = []"
| "commas need (o1 # objs) = (if need then '','' else []) @ compact o1 @ commas True objs"

lemma number_ends_commas: "number_ends (commas True objs @ '']'')"
  by (cases objs) (simp_all add: number_ends_def number_char_def is_digit_def char_code_def)

lemma lex_bracket: "lex '']'' = [([], TEndArr)]"
  using lex_punctuation [of "CHR '']''" TEndArr "[]"] by (simp add: punctuation_def)

lemma array_objects_commas:
  "\<forall>o1 \<in> set objs. json_object 1 o1 \<Longrightarrow>
     array_objects need (lex (commas need objs @ '']'')) acc
       = Some (acc @ map compact objs, need \<or> objs \<noteq> [], [([], TEndArr)])"
proof (induction objs arbitrary: need acc)
  case Nil
  show ?case by (subst array_objects.simps) (simp add: lex_bracket peek_kind_def)
next
  case (Cons a objs)
  let ?r = "commas True objs @ '']''"
  from Cons(2) obtain vs where vs: "object_lexemes 1 a vs" by (auto simp: json_object_lexemes)
  note c = object_lexemes_compact [OF vs]
  have "lex ([] @ compact_text vs @ ?r) = ([], TBegObj) # bare (tl vs) @ lex ?r"
    by (rule lex_object [OF vs number_ends_commas]) simp
  then have l: "lex (compact_text vs @ ?r) = ([], TBegObj) # bare (tl vs) @ lex ?r" by simp
  have "skip_delim (lex (commas need (a # objs) @ '']'')) = (need, ([], TBegObj) # bare (tl vs) @ lex ?r)"
  proof (cases need)
    case True
    have "lex (CHR '','' # compact_text vs @ ?r) = ([], TComma) # ([], TBegObj) # bare (tl vs) @ lex ?r"
      unfolding l [symmetric] by (rule lex_punctuation) (simp add: punctuation_def)
    with True show ?thesis by (simp add: c)
  next
    case False
    with l show ?thesis by (simp add: c)
  qed
  from next_object [OF vs this]
  have "array_objects need (lex (commas need (a # objs) @ '']'')) acc
      = array_objects True (lex ?r) (acc @ [compact_text vs])"
    by (subst array_objects.simps) simp
  also have "\<dots> = Some ((acc @ [compact_text vs]) @ map compact objs, True, [([], TEndArr)])"
    using Cons(1) [of True "acc @ [compact_text vs]"] Cons(2) by simp
  finally show ?case by (simp add: c)
qed

lemma decode_array:
  assumes "\<forall>o1 \<in> set objs. json_object 1 o1"
  shows "decode_json (''['' @ commas False objs @ '']'') = Inr (map compact objs)"
proof -
  have l: "lex (''['' @ commas False objs @ '']'') = ([], TBegArr) # lex (commas False objs @ '']'')"
    using lex_punctuation [of "CHR ''[''" TBegArr] by (simp add: punctuation_def)
  have ended: "decode_stream [] os = Inr os" for os by (simp add: decode_stream.simps peek_kind_def)
  show ?thesis
    unfolding decode_json_def l
    by (subst decode_stream.simps) (simp add: peek_kind_def array_objects_commas [OF assms] ended)
qed

lemma map_enumerate_snd: "map (\<lambda>(j, x). g x) (enumerate i xs) = map g xs"
  by (induction xs arbitrary: i) auto

lemma encode_objects_ok:
  assumes "\<forall>o1 \<in> set objs. append_format o1 = Some (compact o1)"
  shows "encode_objects arr nd i objs p
    = Inr (p @ (if nd then concat (map (\<lambda>(j, o1). (if arr \<and> j > 0 then '','' else []) @ compact o1 @ [newline])
                              (enumerate i objs))
                else if arr then commas (i > 0) objs else concat (map compact objs)))"
  using assms by (induction arr nd i objs p rule: encode_objects.induct) (auto simp: Let_def)

lemma json_object_compact:
  assumes "json_object base o1"
  shows "append_format o1 = Some (compact o1)" and "json_object 0 o1"
proof -
  obtain vs where vs: "object_lexemes base o1 vs" using assms by (auto simp: json_object_lexemes)
  from object_lexemes_compact [OF vs] show "append_format o1 = Some (compact o1)" by simp
  have "object_lexemes 0 o1 vs"
    using vs read_value_mono [of base start_state "lex o1" vs "[]" 0] by (simp add: object_lexemes_def)
  then show "json_object 0 o1" by (auto simp: json_object_lexemes)
qed

lemma encode_decode:
  assumes "f \<in> {fmt_json, fmt_json_array, fmt_ndjson}" and "\<forall>o1 \<in> set objs. json_object 1 o1"
  shows "\<exists>p. encode_json f objs = Inr p
    \<and> decode_json (case p of Some b \<Rightarrow> b | None \<Rightarrow> []) = Inr (map compact objs)"
proof -
  have ok: "\<forall>o1 \<in> set objs. append_format o1 = Some (compact o1)" "\<forall>o1 \<in> set objs. json_object 0 o1"
    using assms(2) json_object_compact by blast+
  note enc = encode_objects_ok [OF ok(1)]
  have array: "decode_json (CHR ''['' # commas False objs @ '']'') = Inr (map compact objs)"
    using decode_array [OF assms(2)] by simp
  have no_objects: "decode_json [] = Inr []" "decode_json ''{}'' = Inr []" "decode_json ''[]'' = Inr []"
    by code_simp+
  show ?thesis
  proof (cases objs)
    case Nil
    with assms(1) show ?thesis
      by (auto simp: encode_json_def empty_payload_def format_defs no_objects)
  next
    case (Cons o1 os)
    then have ne: "0 < length objs" and many: "1 < length objs \<longleftrightarrow> os \<noteq> []" by simp_all
    consider (nd) "f = fmt_ndjson" | (arr) "f = fmt_json_array \<or> f = fmt_json \<and> os \<noteq> []"
      | (one) "f = fmt_json" "os = []" using assms(1) by auto
    then show ?thesis
    proof cases
      case nd
      have "concat (map (\<lambda>(j, o1). (if False \<and> j > 0 then '','' else []) @ compact o1 @ [newline]) (enumerate 0 objs))
          = concat (map (\<lambda>o1. compact o1 @ [newline]) objs)"
        by (simp add: map_enumerate_snd)
      then have "encode_json f objs = Inr (Some (concat (map (\<lambda>o1. compact o1 @ [newline]) objs)))"
        using nd ne by (simp add: encode_json_def empty_payload_def shape_def format_defs enc)
      with decode_ndjson [OF ok(2), of "[]" "[]"] show ?thesis by (simp add: decode_json_def)
    next
      case arr
      then have "encode_json f objs = Inr (Some (CHR ''['' # commas False objs @ '']''))"
        using ne many by (auto simp: encode_json_def empty_payload_def shape_def format_defs enc)
      with array show ?thesis by simp
    next
      case one
      have "encode_json f objs = Inr (Some (concat (map compact objs)))"
        using one ne many by (simp add: encode_json_def empty_payload_def shape_def format_defs enc)
      then have "encode_json f objs = Inr (Some (compact o1))" using one Cons by simp
      moreover obtain vs where vs: "object_lexemes 0 o1 vs" using ok(2) Cons by (auto simp: json_object_lexemes)
      have "decode_json (compact o1) = Inr [compact o1]"
      proof -
        have l: "lex (compact_text vs) = ([], TBegObj) # bare (tl vs) @ []"
          using lex_object [OF vs, of "[]" "[]"] by (simp add: number_ends_def)
        then have "skip_delim (lex (compact_text vs)) = (False, ([], TBegObj) # bare (tl vs) @ [])"
          unfolding l by simp
        from next_object(1) [OF vs this] next_object(2) [OF vs this, of "[]"] show ?thesis
          unfolding decode_json_def object_lexemes_compact(2) [OF vs]
          by (subst decode_stream.simps) (simp add: decode_stream.simps [of "[]"] peek_kind_def)
      qed
      ultimately show ?thesis using one Cons by simp
    qed
  qed
qed

text \<open>C19: Encoding and decoding structured data are inverse, up to white space. Any sequence of
  valid non-empty JSON objects (with room for one more level of nesting) is encoded without
  error in each of the formats json, json_array and ndjson, and decoding the payload gives
  the same objects in the same order, each with its member order, numbers and escape
  sequences as they were, only compacted; the empty sequence comes back empty.\<close>

theorem json_round_trip:
  assumes "f \<in> {fmt_json, fmt_json_array, fmt_ndjson}" and "\<forall>o1 \<in> set objs. json_object 1 o1"
  shows "\<exists>p. encode_json f objs = Inr p
    \<and> decode_json (case p of Some b \<Rightarrow> b | None \<Rightarrow> []) = Inr (map compact objs)"
  using assms by (rule encode_decode)

definition demo_objects :: "bytes list" where
  "demo_objects = [''{ ~id~ : 1, ~xs~: [1.50, null] }'', ''{~a~:{}}'']"

text \<open>The tilde stands for the double quote.\<close>

definition quoted :: "bytes \<Rightarrow> bytes" where
  "quoted = map (\<lambda>c. if c = CHR 0x7E then dquote else c)"

theorem json_round_trip_witness:
  "\<exists>p. encode_json fmt_ndjson (map quoted demo_objects) = Inr p
    \<and> decode_json (case p of Some b \<Rightarrow> b | None \<Rightarrow> [])
      = Inr (map quoted [''{~id~:1,~xs~:[1.50,null]}'', ''{~a~:{}}''])"
proof -
  have "list_all (json_object 1) (map quoted demo_objects)" by code_simp
  then have ok: "\<forall>o1 \<in> set (map quoted demo_objects). json_object 1 o1" by (simp add: list_all_iff)
  have "map compact (map quoted demo_objects) = map quoted [''{~id~:1,~xs~:[1.50,null]}'', ''{~a~:{}}'']"
    by code_simp
  with json_round_trip [of fmt_ndjson, OF _ ok] show ?thesis by simp
qed

section \<open>What decoding keeps\<close>

lemma empty_object_raw:
  assumes "\<And>w t. (w, t) \<in> set vs \<Longrightarrow> (\<forall>c \<in> set w. json_space c) \<and> tok_ok t"
    and "read_value base start_state ls = Some (vs, rest)" and "snd (hd vs) = TBegObj"
  shows "empty_object (raw_text vs) \<longleftrightarrow> \<not> nonempty_object vs"
proof -
  obtain w0 vs1 where vs1: "vs = (w0, TBegObj) # vs1"
    using assms(3) read_value_split [OF assms(2)] by (cases vs) auto
  have "vs1 \<noteq> []"
  proof
    assume "vs1 = []"
    with vs1 have "read_value base start_state ((w0, TBegObj) # rest) = Some ([(w0, TBegObj)], rest)"
      using assms(2) read_value_split [OF assms(2)] by simp
    then show False
      by (auto simp: start_state_def value_ok_def split: if_splits dest: read_value_split)
  qed
  then obtain w1 t1 vs2 where vs: "vs = (w0, TBegObj) # (w1, t1) # vs2" using vs1 by (cases vs1) auto
  then have sp: "\<forall>c \<in> set w1. json_space c" and ok: "tok_ok t1" using assms(1) by auto
  obtain c u where c: "tok_text t1 = c # u" "\<not> json_space c" using ok by (cases "tok_text t1") (auto simp: tok_ok_def)
  have "dropWhile json_space (w1 @ c # u @ r) = c # u @ r" for r
    using sp c(2) by (induction w1) auto
  then show ?thesis using tok_end_obj [OF ok] vs c
    by (auto simp: empty_object_def nonempty_object_def lexeme_text_def)
qed

text \<open>One piece of a payload: an object, or a bracket or comma between the objects.\<close>

definition is_object :: "lexeme list \<Rightarrow> bool" where
  "is_object v \<longleftrightarrow> (\<exists>base. read_value base start_state v = Some (v, [])) \<and> snd (hd v) = TBegObj"

definition is_glue :: "lexeme list \<Rightarrow> bool" where
  "is_glue v \<longleftrightarrow> (\<exists>w t. v = [(w, t)] \<and> t \<in> {TBegArr, TEndArr, TComma})"

definition pieces :: "lexeme list list \<Rightarrow> bool" where
  "pieces items \<longleftrightarrow> (\<forall>v \<in> set items. is_object v \<or> is_glue v)"

definition clean :: "lexeme list \<Rightarrow> bool" where
  "clean ls \<longleftrightarrow> (\<forall>(w, t) \<in> set ls. (\<forall>c \<in> set w. json_space c) \<and> (t \<noteq> TBad \<longrightarrow> tok_ok t))"

lemma clean_append: "clean (a @ b) \<longleftrightarrow> clean a \<and> clean b"
  by (auto simp: clean_def)

lemma peek_kind_token:
  assumes "peek_kind need ls = Some k"
  obtains w t r where "snd (skip_delim ls) = (w, t) # r" and "kind_of t = Some k"
    and "fst (skip_delim ls) = (need \<and> t \<noteq> TEndArr \<and> t \<noteq> TEndObj)"
  using assms by (cases "skip_delim ls") (auto simp: peek_kind_def split: list.splits if_splits)

lemma kind_of_punct:
  assumes "tok_ok t"
  shows "kind_of t = Some (CHR ''{'') \<Longrightarrow> t = TBegObj" and "kind_of t = Some (CHR ''['') \<Longrightarrow> t = TBegArr"
    and "kind_of t = Some (CHR '']'') \<Longrightarrow> t = TEndArr"
proof -
  have l: "t = t'" if m: "map_of punctuation c = Some t'" and h: "hd (tok_text t) = c" for c t'
  proof -
    obtain u where "tok_text t = c # u" using h assms by (cases "tok_text t") (auto simp: tok_ok_def)
    moreover have "lex_token (tok_text t @ []) = Some (t, [])"
      by (rule tok_ok_lex [OF assms]) (simp add: number_ends_def)
    ultimately show ?thesis using m by (simp add: lex_token_def)
  qed
  have h: "kind_of t = Some c \<Longrightarrow> c \<noteq> CHR ''0'' \<Longrightarrow> hd (tok_text t) = c" for c by (cases t) auto
  show "kind_of t = Some (CHR ''{'') \<Longrightarrow> t = TBegObj" and "kind_of t = Some (CHR ''['') \<Longrightarrow> t = TBegArr"
    and "kind_of t = Some (CHR '']'') \<Longrightarrow> t = TEndArr"
    using l [of "CHR ''{''" TBegObj] l [of "CHR ''[''" TBegArr] l [of "CHR '']''" TEndArr] h
    by (simp_all add: punctuation_def)
qed

lemma skip_delim_pieces: "\<exists>ds. ls = concat ds @ snd (skip_delim ls) \<and> (\<forall>v \<in> set ds. is_glue v)"
proof (cases ls rule: skip_delim.cases)
  case (1 w ls')
  then show ?thesis by (intro exI [of _ "[[(w, TComma)]]"]) (auto simp: is_glue_def)
qed (auto intro: exI [of _ "[]"])

lemma not_nonempty_glue: "is_glue v \<Longrightarrow> \<not> nonempty_object v"
  by (auto simp: is_glue_def nonempty_object_def)

lemma filter_glue: "(\<forall>v \<in> set ds. is_glue v) \<Longrightarrow> filter nonempty_object ds = []"
  by (auto simp: filter_empty_conv dest: not_nonempty_glue)

lemma append_object_pieces:
  assumes "append_object base need ls objs = Some (objs', rest)" and "peek_kind need ls = Some (CHR ''{'')"
    and "clean ls"
  shows "\<exists>items. ls = concat items @ rest \<and> pieces items
    \<and> objs' = objs @ map raw_text (filter nonempty_object items)"
proof -
  from assms(2) obtain w t r where t: "snd (skip_delim ls) = (w, t) # r" "kind_of t = Some (CHR ''{'')"
    by (rule peek_kind_token)
  obtain ds where ds: "ls = concat ds @ snd (skip_delim ls)" "\<forall>v \<in> set ds. is_glue v"
    using skip_delim_pieces by blast
  have "clean (snd (skip_delim ls))" using assms(3) ds(1) by (metis clean_append)
  then have "tok_ok t" using t by (cases t) (auto simp: clean_def)
  with t(2) have tb: "t = TBegObj" by (simp add: kind_of_punct)
  from assms(1) obtain vs where vs: "read_value base start_state (snd (skip_delim ls)) = Some (vs, rest)"
    "objs' = (if empty_object (raw_text vs) then objs else objs @ [raw_text vs])"
    by (auto simp: append_object_def next_value_def Let_def split: option.splits if_splits)
  note sp = read_value_split [OF vs(1)]
  have hd: "snd (hd vs) = TBegObj" using sp t tb by (cases vs) auto
  have "clean vs" using \<open>clean (snd (skip_delim ls))\<close> sp by (simp add: clean_append)
  moreover have "TBad \<notin> snd ` set vs" using read_value_sep [OF vs(1)] by blast
  ultimately have "\<And>w t. (w, t) \<in> set vs \<Longrightarrow> (\<forall>c \<in> set w. json_space c) \<and> tok_ok t"
    by (force simp: clean_def)
  from empty_object_raw [OF this vs(1) hd]
  have e: "empty_object (raw_text vs) \<longleftrightarrow> \<not> nonempty_object vs" .
  have "read_value base start_state (vs @ []) = Some (vs, [])" by (rule read_value_append [OF vs(1)])
  then have "is_object vs" using hd by (auto simp: is_object_def)
  with ds sp e vs(2) show ?thesis
    by (intro exI [of _ "ds @ [vs]"]) (auto simp: pieces_def filter_glue)
qed

lemma array_objects_pieces:
  "array_objects need ls objs = Some (objs', need', rest) \<Longrightarrow> clean ls \<Longrightarrow>
     \<exists>items. ls = concat items @ rest \<and> pieces items
       \<and> objs' = objs @ map raw_text (filter nonempty_object items)"
proof (induction need ls objs rule: array_objects.induct)
  case (1 need ls objs)
  show ?case
  proof (cases "peek_kind need ls = Some (CHR ''{'')")
    case True
    with 1(2) obtain o2 r2 where a: "append_object 1 need ls objs = Some (o2, r2)"
      "array_objects True r2 o2 = Some (objs', need', rest)"
      by (subst (asm) array_objects.simps) (auto split: option.splits)
    from append_object_pieces [OF a(1) True 1(3)] obtain xs where xs: "ls = concat xs @ r2" "pieces xs"
      "o2 = objs @ map raw_text (filter nonempty_object xs)" by blast
    then have "clean r2" using 1(3) by (simp add: clean_append)
    from 1(1) [OF True a(1) refl a(2) this] obtain ys where "r2 = concat ys @ rest" "pieces ys"
      "objs' = o2 @ map raw_text (filter nonempty_object ys)" by blast
    with xs show ?thesis by (intro exI [of _ "xs @ ys"]) (auto simp: pieces_def)
  next
    case False
    with 1(2) have "rest = ls" "objs' = objs" by (subst (asm) array_objects.simps; simp)+
    then show ?thesis by (intro exI [of _ "[]"]) (simp add: pieces_def)
  qed
qed

lemma decode_stream_pieces:
  "decode_stream ls objs = Inr objs' \<Longrightarrow> clean ls \<Longrightarrow>
     \<exists>items. ls = concat items \<and> pieces items \<and> objs' = objs @ map raw_text (filter nonempty_object items)"
proof (induction ls objs rule: decode_stream.induct)
  case (1 ls objs)
  show ?case
  proof (cases "peek_kind False ls")
    case None
    with 1(3) have "ls = []" "objs' = objs" by (subst (asm) decode_stream.simps; simp split: if_splits)+
    then show ?thesis by (intro exI [of _ "[]"]) (simp add: pieces_def)
  next
    case (Some k)
    consider (obj) "k = CHR ''{''" | (arr) "k = CHR ''[''" | "k \<noteq> CHR ''{''" "k \<noteq> CHR ''[''" by blast
    then show ?thesis
    proof cases
      case obj
      with 1(3) Some obtain o2 r2 where a: "append_object 0 False ls objs = Some (o2, r2)"
        "decode_stream r2 o2 = Inr objs'"
        by (subst (asm) decode_stream.simps) (auto split: option.splits)
      from append_object_pieces [OF a(1) _ 1(4)] Some obj obtain xs where xs: "ls = concat xs @ r2" "pieces xs"
        "o2 = objs @ map raw_text (filter nonempty_object xs)" by blast
      then have "clean r2" using 1(4) by (simp add: clean_append)
      from 1(1) [OF Some obj a(1) refl a(2) this] obtain ys where "r2 = concat ys" "pieces ys"
        "objs' = o2 @ map raw_text (filter nonempty_object ys)" by blast
      with xs show ?thesis by (intro exI [of _ "xs @ ys"]) (auto simp: pieces_def)
    next
      case arr
      then have no: "k \<noteq> CHR ''{''" by simp
      from 1(3) Some arr obtain o2 need r2 where a: "array_objects False (tl ls) objs = Some (o2, need, r2)"
        "peek_kind need r2 = Some (CHR '']'')" "decode_stream (tl r2) o2 = Inr objs'"
        by (subst (asm) decode_stream.simps) (auto split: option.splits if_splits)
      from peek_kind_token [OF Some] obtain w t r where t: "snd (skip_delim ls) = (w, t) # r" "kind_of t = Some k"
        "\<not> fst (skip_delim ls)" by auto
      then have ls: "ls = (w, t) # r" by (cases ls rule: skip_delim.cases) auto
      have "tok_ok t" using 1(4) ls t(2) by (cases t) (auto simp: clean_def)
      with t(2) arr have tb: "t = TBegArr" by (simp add: kind_of_punct)
      have cl: "clean (tl ls)" using 1(4) by (auto simp: ls clean_def)
      from array_objects_pieces [OF a(1) cl] obtain xs where xs: "tl ls = concat xs @ r2" "pieces xs"
        "o2 = objs @ map raw_text (filter nonempty_object xs)" by blast
      have cr: "clean r2" using cl xs(1) by (simp add: clean_append)
      from peek_kind_token [OF a(2)] obtain w2 t2 r3 where t2: "snd (skip_delim r2) = (w2, t2) # r3"
        "kind_of t2 = Some (CHR '']'')" "fst (skip_delim r2) = (need \<and> t2 \<noteq> TEndArr \<and> t2 \<noteq> TEndObj)" .
      have "(w2, t2) \<in> set r2" using t2(1) by (cases r2 rule: skip_delim.cases) auto
      then have "tok_ok t2" using cr t2(2) by (cases t2) (auto simp: clean_def)
      with t2(2) have te: "t2 = TEndArr" by (simp add: kind_of_punct)
      with t2 have r2: "r2 = (w2, TEndArr) # r3" by (cases r2 rule: skip_delim.cases) auto
      then have "clean (tl r2)" using cr by (auto simp: clean_def)
      from 1(2) [OF Some no arr a(1) refl refl _ a(3) this] a(2) obtain ys where ys: "tl r2 = concat ys" "pieces ys"
        "objs' = o2 @ map raw_text (filter nonempty_object ys)" by auto
      have "is_glue [(w, TBegArr)]" "is_glue [(w2, TEndArr)]" by (auto simp: is_glue_def)
      with xs ys ls tb r2 not_nonempty_glue show ?thesis
        by (intro exI [of _ "[(w, TBegArr)] # xs @ [(w2, TEndArr)] # ys"]) (auto simp: pieces_def)
    next
      case 3
      with 1(3) Some show ?thesis by (subst (asm) decode_stream.simps) auto
    qed
  qed
qed

text \<open>Decoding is lossless. When DecodeJSON accepts a payload, the payload is a sequence of
  pieces, each a valid JSON object or one of the brackets and commas between objects (with
  the white space before it), and the result is exactly the text of the non-empty objects
  among them, byte for byte as it stands in the payload and in the same order.\<close>

theorem decode_json_lossless:
  assumes "decode_json payload = Inr objs"
  shows "\<exists>items w. payload = concat (map (\<lambda>v. concat (map lexeme_text v)) items) @ w
    \<and> (\<forall>c \<in> set w. json_space c)
    \<and> (\<forall>v \<in> set items. is_object v \<or> is_glue v)
    \<and> objs = map raw_text (filter nonempty_object items)"
proof -
  have "clean (lex payload)" using lex_space_ok lex_tokens_ok by (fastforce simp: clean_def)
  from decode_stream_pieces [OF assms [unfolded decode_json_def] this] obtain items where i: "lex payload = concat items"
    "pieces items" "objs = map raw_text (filter nonempty_object items)" by auto
  have "TBad \<notin> snd ` set v" if v: "v \<in> set items" for v
  proof -
    have "is_object v \<or> is_glue v" using v i(2) by (simp add: pieces_def)
    then show ?thesis unfolding is_object_def is_glue_def using read_value_sep by fastforce
  qed
  then have "TBad \<notin> snd ` set (lex payload)" by (auto simp: i(1))
  from lex_lossless [OF this] obtain w where "payload = concat (map lexeme_text (concat items)) @ w"
    "\<forall>c \<in> set w. json_space c" by (auto simp: i(1))
  moreover have "concat (map lexeme_text (concat items)) = concat (map (\<lambda>v. concat (map lexeme_text v)) items)"
    by (induction items) auto
  ultimately show ?thesis using i(2,3) unfolding pieces_def by metis
qed

theorem decode_json_lossless_witness:
  "\<exists>items w. quoted '' [{~a~: 1}, { }] {~b~:2}'' = concat (map (\<lambda>v. concat (map lexeme_text v)) items) @ w
    \<and> map quoted [''{~a~: 1}'', ''{~b~:2}''] = map raw_text (filter nonempty_object items)"
proof -
  have "decode_json (quoted '' [{~a~: 1}, { }] {~b~:2}'') = Inr (map quoted [''{~a~: 1}'', ''{~b~:2}''])"
    by code_simp
  from decode_json_lossless [OF this] show ?thesis by blast
qed

end
