(* ===== verification/HttpClient.thy ===== *)
theory HttpClient
  imports Retries CodecJson Flow Lifecycle
begin

text \<open>
  Settings, requests and responses of the HTTP client side (pkg/http/config.go, format.go and
  client.go): methods, headers and sizes; which status codes are retried; reading a response
  within its size limit; one attempt, and the attempts of a request, for collectors and for
  senders. What the network does is an input of each attempt.
\<close>

section \<open>Settings\<close>

definition max_byte_size :: int where "max_byte_size = 100 * 2 ^ 20"
definition default_max_body_size :: int where "default_max_body_size = 10 * 2 ^ 20"
definition default_max_header_size :: int where "default_max_header_size = 2 ^ 20"
definition close_timeout :: duration where "close_timeout = 5 * second"
definition abort_timeout :: duration where "abort_timeout = second"

datatype http_error =
  UnsupportedMethod string
| InvalidMethod string
| NotATableOf string
| InvalidHeaderName string
| HeaderNotAString string
| InvalidHeaderValue string
| QueryNotAString string

definition parse_method :: "string \<Rightarrow> http_error + string" where
  "parse_method raw_method =
     (let m = to_upper raw_method
      in if m \<in> {''GET'', ''PATCH'', ''POST'', ''PUT''} then Inr m
         else if m \<in> {''CONNECT'', ''DELETE'', ''HEAD'', ''OPTIONS'', ''TRACE''} then Inl (UnsupportedMethod m)
         else Inl (InvalidMethod raw_method))"

definition parse_byte_size :: "table \<Rightarrow> string \<Rightarrow> int \<Rightarrow> int" where
  "parse_byte_size cfg key default_value =
     (let v = cfg_value as_int cfg key default_value;
          v1 = (if v \<le> 0 then default_value else v)
      in if v1 > max_byte_size then max_byte_size else v1)"

text \<open>
  http.Header maps canonical names to values. CanonicalHeaderKey capitalises the first
  letter and every letter after a hyphen, and leaves names with other bytes than those of
  an HTTP token as they are.
\<close>

type_synonym header = "(string \<times> string list) list"

definition token_char :: "char \<Rightarrow> bool" where
  "token_char c \<longleftrightarrow> is_digit c \<or> is_lower c \<or> is_upper c
     \<or> c \<in> set ''!#$%&*+-.^_|~'' \<or> c = CHR 0x27 \<or> c = CHR 0x60"

fun canonical_from :: "bool \<Rightarrow> string \<Rightarrow> string" where
  "canonical_from up [] = []"
| "canonical_from up (c # cs) =
     (if up then to_upper_char c else to_lower_char c) # canonical_from (c = CHR ''-'') cs"

definition canonical_key :: "string \<Rightarrow> string" where
  "canonical_key k = (if list_all token_char k then canonical_from True k else k)"

definition header_set :: "string \<Rightarrow> string \<Rightarrow> header \<Rightarrow> header" where
  "header_set k v h = AList.update (canonical_key k) [v] h"

definition header_values :: "string \<Rightarrow> header \<Rightarrow> string list" where
  "header_values k h = (case map_of h (canonical_key k) of None \<Rightarrow> [] | Some vs \<Rightarrow> vs)"

definition header_get :: "string \<Rightarrow> header \<Rightarrow> string" where
  "header_get k h = (case header_values k h of [] \<Rightarrow> [] | v # _ \<Rightarrow> v)"

text \<open>
  The validity of names and values is decided by golang.org/x/net/http/httpguts. Entries are
  visited in the order of the table's list, and an error ends the loop.
\<close>

fun parse_header_entries ::
  "(string \<Rightarrow> bool) \<Rightarrow> (string \<Rightarrow> bool) \<Rightarrow> table \<Rightarrow> header \<Rightarrow> http_error + header" where
  "parse_header_entries valid_name valid_value [] h = Inr h"
| "parse_header_entries valid_name valid_value ((key, v) # cfg) h =
     (if \<not> valid_name key then Inl (InvalidHeaderName key)
      else (case as_string v of
              None \<Rightarrow> Inl (HeaderNotAString key)
            | Some s \<Rightarrow>
                (if \<not> valid_value s then Inl (InvalidHeaderValue key)
                 else parse_header_entries valid_name valid_value cfg (header_set key s h))))"

definition parse_headers ::
  "(string \<Rightarrow> bool) \<Rightarrow> (string \<Rightarrow> bool) \<Rightarrow> toml option \<Rightarrow> http_error + header" where
  "parse_headers valid_name valid_value raw_cfg =
     (case raw_cfg of
        None \<Rightarrow> Inr []
      | Some raw \<Rightarrow>
          (case as_table raw of
             None \<Rightarrow> Inl (NotATableOf ''headers'')
           | Some cfg \<Rightarrow> parse_header_entries valid_name valid_value cfg []))"

section \<open>Responses\<close>

definition max_successful_status_code :: int where
  "max_successful_status_code = 299"

definition retryable :: "int \<Rightarrow> bool" where
  "retryable code \<longleftrightarrow>
     \<not> code < 400
     \<and> code \<notin> {400, 401, 403, 404, 405, 407, 410, 411, 413, 414, 415, 422, 431, 501}"

record response =
  status_code :: int
  content_length :: int
  resp_header :: header
  resp_body :: bytes

definition new_error_response :: "int \<Rightarrow> response" where
  "new_error_response code = \<lparr>status_code = code, content_length = 0, resp_header = [], resp_body = []\<rparr>"

text \<open>
  A response as the client returns it: its body is still a stream, which delivers
  \<open>wire_data\<close> and then ends, or fails if \<open>wire_fails\<close>. The declared length is -1 when unknown.
\<close>

record wire_response =
  wire_status :: int
  wire_length :: int
  wire_header :: header
  wire_data :: bytes
  wire_fails :: bool

text \<open>io.ReadAll of an io.LimitReader: the limit hides whatever follows it, an error too.\<close>

definition read_limited :: "nat \<Rightarrow> wire_response \<Rightarrow> bytes option" where
  "read_limited n r =
     (if wire_fails r \<and> length (wire_data r) < n then None else Some (take n (wire_data r)))"

definition process_response :: "int \<Rightarrow> wire_response \<Rightarrow> response" where
  "process_response max_body_size r =
     (if wire_status r > max_successful_status_code then new_error_response (wire_status r)
      else if wire_length r > max_body_size then new_error_response 413
      else (case read_limited (nat (max_body_size + 1)) r of
              None \<Rightarrow> new_error_response 502
            | Some body \<Rightarrow>
                (if int (length body) > max_body_size then new_error_response 413
                 else \<lparr>status_code = wire_status r, content_length = int (length body),
                        resp_header = wire_header r, resp_body = body\<rparr>)))"

section \<open>One attempt\<close>

datatype do_result = DoTimeout | DoCanceled | DoFails | DoResponds wire_response

text \<open>Constructing the request may fail; \<open>make_ok\<close> says whether it works.\<close>

definition request_once :: "int \<Rightarrow> bool \<Rightarrow> do_result \<Rightarrow> response \<times> bool" where
  "request_once max_body_size make_ok d =
     (if \<not> make_ok then (new_error_response 500, False)
      else (case d of
              DoTimeout \<Rightarrow> (new_error_response 504, True)
            | DoCanceled \<Rightarrow> (new_error_response 502, True)
            | DoFails \<Rightarrow> (new_error_response 502, True)
            | DoResponds w \<Rightarrow>
                (let r = process_response max_body_size w in (r, retryable (status_code r)))))"

text \<open>A sender's attempt also needs a fresh body, and looks at the status of the response only.\<close>

definition send_once :: "bool \<Rightarrow> bool \<Rightarrow> do_result \<Rightarrow> int \<times> bool" where
  "send_once body_ok make_ok d =
     (if \<not> body_ok then (500, False)
      else if \<not> make_ok then (500, False)
      else (case d of
              DoCanceled \<Rightarrow> (503, False)
            | DoTimeout \<Rightarrow> (504, True)
            | DoFails \<Rightarrow> (502, True)
            | DoResponds w \<Rightarrow> (wire_status w, retryable (wire_status w))))"

section \<open>The attempts of a request\<close>

text \<open>
  What an attempt meets: whether the contexts are cancelled and the shutdown has begun when
  the loop comes to it, and what the network does. An environment gives these for each
  attempt. The result of the loops is the last response and the number of attempts made.
\<close>

record attempt_env =
  ctx_done :: bool
  shutting_down :: bool
  body_ok :: bool
  make_ok :: bool
  outcome :: do_result

fun request_loop :: "int \<Rightarrow> nat \<Rightarrow> nat \<Rightarrow> (nat \<Rightarrow> attempt_env) \<Rightarrow> response \<Rightarrow> response \<times> nat" where
  "request_loop max_body_size 0 i env resp = (resp, i)"
| "request_loop max_body_size (Suc n) i env resp =
     (if (i > 0 \<and> shutting_down (env i)) \<or> ctx_done (env i) then (resp, i)
      else (let (r, retry) = request_once max_body_size (make_ok (env i)) (outcome (env i))
            in if status_code r \<le> max_successful_status_code then (r, Suc i)
               else if \<not> retry then (r, Suc i)
               else request_loop max_body_size n (Suc i) env r))"

definition request_with_retries :: "retries \<Rightarrow> int \<Rightarrow> (nat \<Rightarrow> attempt_env) \<Rightarrow> response \<times> nat" where
  "request_with_retries r max_body_size env =
     request_loop max_body_size (nat (max_attempts r)) 0 env (new_error_response 503)"

fun send_loop :: "nat \<Rightarrow> nat \<Rightarrow> (nat \<Rightarrow> attempt_env) \<Rightarrow> int \<Rightarrow> int \<times> nat" where
  "send_loop 0 i env code = (code, i)"
| "send_loop (Suc n) i env code =
     (if ctx_done (env i) \<or> (i > 0 \<and> shutting_down (env i)) then (code, i)
      else (let (c, retry) = send_once (body_ok (env i)) (make_ok (env i)) (outcome (env i))
            in if c \<le> max_successful_status_code then (c, Suc i)
               else if \<not> retry then (c, Suc i)
               else send_loop n (Suc i) env c))"

text \<open>
  The result is whether the reject function is called, which it is once or not at all, and
  the number of attempts.
\<close>

definition send_with_retries :: "retries \<Rightarrow> (nat \<Rightarrow> attempt_env) \<Rightarrow> bool \<times> nat" where
  "send_with_retries r env =
     (let (code, n) = send_loop (nat (max_attempts r)) 0 env 503
      in (\<not> code \<le> max_successful_status_code, n))"

section \<open>Bodies\<close>

datatype body_error = InvalidPayload format decode_error | UnexpectedFormat format

definition body_chunk :: "bytes \<Rightarrow> format \<Rightarrow> body_error + ('v, 'q, 'p) chunk option" where
  "body_chunk body fmt =
     (if fmt = format_raw then Inr (if body = [] then None else Some (Blobs [body]))
      else if fmt \<in> {format_json, format_json_array, format_ndjson} then
        (case decode_json body of
           Inl e \<Rightarrow> Inl (InvalidPayload fmt e)
         | Inr objs \<Rightarrow> Inr (if objs = [] then None else Some (JSON objs)))
      else Inl (UnexpectedFormat fmt))"

text \<open>
  A collected response has a body that can be read again; any other body is read here, and
  replaced; \<open>None\<close> is an error while reading it. A nil body has no bytes.
\<close>

datatype resp_body_kind = NilBody | ReusableBody bytes | StreamBody bytes bool

definition response_body :: "resp_body_kind \<Rightarrow> (bytes \<times> resp_body_kind) option" where
  "response_body b =
     (case b of
        NilBody \<Rightarrow> Some ([], NilBody)
      | ReusableBody raw \<Rightarrow> Some (raw, ReusableBody raw)
      | StreamBody data fails \<Rightarrow> if fails then None else Some (data, ReusableBody data))"

datatype dest_type = ToDLQ | ToDiscard

definition dead_letter :: "bool \<Rightarrow> dest_type" where
  "dead_letter has_fallback = (if has_fallback then ToDLQ else ToDiscard)"

section \<open>Properties\<close>

lemma parse_method_cases:
  "parse_method m = Inr m' \<longleftrightarrow> m' = to_upper m \<and> m' \<in> {''GET'', ''PATCH'', ''POST'', ''PUT''}"
  by (auto simp: parse_method_def Let_def)

lemma parse_byte_size_range:
  "0 < default_value \<Longrightarrow> default_value \<le> max_byte_size \<Longrightarrow>
     0 < parse_byte_size cfg key default_value \<and> parse_byte_size cfg key default_value \<le> max_byte_size"
  by (auto simp: parse_byte_size_def Let_def max_byte_size_def)

lemma process_response_ok:
  assumes "0 \<le> max_body_size"
  shows "status_code (process_response max_body_size w) \<le> max_successful_status_code \<longleftrightarrow>
      wire_status w \<le> max_successful_status_code \<and> wire_length w \<le> max_body_size
      \<and> int (length (wire_data w)) \<le> max_body_size \<and> \<not> wire_fails w"
    and "status_code (process_response max_body_size w) \<le> max_successful_status_code \<Longrightarrow>
      resp_body (process_response max_body_size w) = wire_data w
      \<and> content_length (process_response max_body_size w) = int (length (wire_data w))
      \<and> status_code (process_response max_body_size w) = wire_status w"
  using assms
  by (auto simp: process_response_def read_limited_def new_error_response_def max_successful_status_code_def
      split: if_splits)

lemma process_response_error:
  assumes "\<not> status_code (process_response max_body_size w) \<le> max_successful_status_code"
  shows "resp_body (process_response max_body_size w) = []"
    and "content_length (process_response max_body_size w) = 0"
  using assms
  by (auto simp: process_response_def new_error_response_def split: if_splits option.splits)

lemma request_once_error:
  assumes "request_once max_body_size mk out = (q, retry)" and "\<nexists>w. mk \<and> out = DoResponds w"
  shows "status_code q \<in> {500, 502, 504} \<and> resp_body q = [] \<and> content_length q = 0"
  using assms by (cases out) (auto simp: request_once_def new_error_response_def split: if_splits)

text \<open>What the result of \<open>n\<close> attempts tells about the last of them.\<close>

definition faithful_response :: "(nat \<Rightarrow> attempt_env) \<Rightarrow> int \<Rightarrow> response \<Rightarrow> nat \<Rightarrow> bool" where
  "faithful_response env max_body_size resp n \<longleftrightarrow>
     (if status_code resp \<le> max_successful_status_code
      then 0 < n \<and> (\<exists>w. outcome (env (n - 1)) = DoResponds w \<and> wire_status w = status_code resp
        \<and> \<not> wire_fails w \<and> resp_body resp = wire_data w \<and> int (length (wire_data w)) \<le> max_body_size
        \<and> content_length resp = int (length (wire_data w)))
      else resp_body resp = [] \<and> content_length resp = 0)"

definition attempts_allowed :: "(nat \<Rightarrow> attempt_env) \<Rightarrow> nat \<Rightarrow> bool" where
  "attempts_allowed env n \<longleftrightarrow> (\<forall>i < n. \<not> ctx_done (env i) \<and> (0 < i \<longrightarrow> \<not> shutting_down (env i)))"

lemma attempts_allowed_Suc:
  "attempts_allowed env (Suc n) \<longleftrightarrow> attempts_allowed env n \<and> \<not> ctx_done (env n) \<and> (0 < n \<longrightarrow> \<not> shutting_down (env n))"
  by (auto simp: attempts_allowed_def less_Suc_eq)

lemma request_once_faithful:
  assumes "request_once max_body_size mk (outcome (env i)) = (q, retry)" and "0 \<le> max_body_size"
  shows "faithful_response env max_body_size q (Suc i)"
proof (cases "\<exists>w. mk \<and> outcome (env i) = DoResponds w")
  case True
  then obtain w where w: "outcome (env i) = DoResponds w" "q = process_response max_body_size w"
    using assms(1) by (auto simp: request_once_def Let_def)
  with process_response_ok [OF assms(2), of w] process_response_error [of max_body_size w]
  show ?thesis by (auto simp: faithful_response_def)
next
  case False
  with request_once_error [OF assms(1)] show ?thesis
    by (auto simp: faithful_response_def max_successful_status_code_def)
qed

lemma request_loop_faithful:
  "faithful_response env max_body_size resp0 i \<Longrightarrow> attempts_allowed env i \<Longrightarrow> 0 \<le> max_body_size \<Longrightarrow>
     request_loop max_body_size k i env resp0 = (resp, m) \<Longrightarrow>
     faithful_response env max_body_size resp m \<and> attempts_allowed env m \<and> m \<le> i + k"
proof (induction k arbitrary: i resp0)
  case (Suc k)
  show ?case
  proof (cases "(i > 0 \<and> shutting_down (env i)) \<or> ctx_done (env i)")
    case True
    then have "resp = resp0" "m = i" using Suc.prems(4) by auto
    with Suc.prems(1,2) show ?thesis by simp
  next
    case False
    obtain q retry where q: "request_once max_body_size (make_ok (env i)) (outcome (env i)) = (q, retry)" by fastforce
    note faithful = request_once_faithful [of max_body_size "make_ok (env i)" env i, OF q Suc.prems(3)]
    have allowed: "attempts_allowed env (Suc i)" using Suc.prems(2) False by (auto simp: attempts_allowed_Suc)
    show ?thesis
    proof (cases "status_code q \<le> max_successful_status_code \<or> \<not> retry")
      case True
      then have "resp = q" "m = Suc i" using Suc.prems(4) False q by (auto split: if_splits)
      with faithful allowed show ?thesis by simp
    next
      case go: False
      then have "request_loop max_body_size k (Suc i) env q = (resp, m)" using Suc.prems(4) False q by simp
      from Suc.IH [OF faithful allowed Suc.prems(3) this] show ?thesis by simp
    qed
  qed
qed simp


definition demo_wire :: wire_response where
  "demo_wire = \<lparr>wire_status = 200, wire_length = -1, wire_header = [], wire_data = ''[]'', wire_fails = False\<rparr>"

definition demo_attempts :: "nat \<Rightarrow> attempt_env" where
  "demo_attempts i = \<lparr>ctx_done = False, shutting_down = False, body_ok = True, make_ok = True,
     outcome = (if i = 0 then DoTimeout else DoResponds demo_wire)\<rparr>"


text \<open>
  What a sender's attempts come to: whether one of them succeeded, and that each but the
  last failed in a way that is worth a retry.
\<close>

definition attempt_result :: "attempt_env \<Rightarrow> int \<times> bool" where
  "attempt_result e = send_once (body_ok e) (make_ok e) (outcome e)"

definition delivered :: "attempt_env \<Rightarrow> bool" where
  "delivered e \<longleftrightarrow> fst (attempt_result e) \<le> max_successful_status_code"

lemma send_loop_sound:
  "send_loop k i env code = (c, m) \<Longrightarrow> attempts_allowed env i \<Longrightarrow> (\<forall>j < i. \<not> delivered (env j) \<and> snd (attempt_result (env j))) \<Longrightarrow>
   \<not> code \<le> max_successful_status_code \<Longrightarrow>
     i \<le> m \<and> m \<le> i + k \<and> attempts_allowed env m
     \<and> (c \<le> max_successful_status_code \<longleftrightarrow> (\<exists>j < m. delivered (env j)))
     \<and> (\<forall>j. Suc j < m \<longrightarrow> \<not> delivered (env j) \<and> snd (attempt_result (env j)))
     \<and> (m < i + k \<longrightarrow> (0 < m \<and> (delivered (env (m - 1)) \<or> \<not> snd (attempt_result (env (m - 1)))))
          \<or> ctx_done (env m) \<or> 0 < m \<and> shutting_down (env m))"
proof (induction k arbitrary: i code)
  case (Suc k)
  show ?case
  proof (cases "ctx_done (env i) \<or> (i > 0 \<and> shutting_down (env i))")
    case True
    then have "c = code" "m = i" using Suc.prems(1) by auto
    with Suc.prems True show ?thesis by auto
  next
    case False
    obtain q retry where q: "attempt_result (env i) = (q, retry)" by fastforce
    have loop: "send_loop (Suc k) i env code
        = (if q \<le> max_successful_status_code then (q, Suc i) else if \<not> retry then (q, Suc i)
           else send_loop k (Suc i) env q)"
      using False q by (cases "i = 0") (simp_all add: attempt_result_def)
    have allowed: "attempts_allowed env (Suc i)" using Suc.prems(2) False by (auto simp: attempts_allowed_Suc)
    show ?thesis
    proof (cases "q \<le> max_successful_status_code \<or> \<not> retry")
      case True
      then have cm: "c = q" "m = Suc i" using Suc.prems(1) unfolding loop by (auto split: if_splits)
      have d: "delivered (env i) \<longleftrightarrow> q \<le> max_successful_status_code" using q by (simp add: delivered_def)
      have "(\<exists>j < Suc i. delivered (env j)) \<longleftrightarrow> delivered (env i)"
        using Suc.prems(3) less_Suc_eq by blast
      with cm d True q allowed Suc.prems(3) show ?thesis by auto
    next
      case go: False
      then have l: "send_loop k (Suc i) env q = (c, m)" using Suc.prems(1) unfolding loop by simp
      have "\<forall>j < Suc i. \<not> delivered (env j) \<and> snd (attempt_result (env j))"
        using Suc.prems(3) go q by (auto simp: less_Suc_eq delivered_def)
      from Suc.IH [OF l allowed this] go show ?thesis by auto
    qed
  qed
qed auto

text \<open>A sender rejects a request exactly when no attempt delivered it. sendWithRetries
  makes at most the configured number of attempts, calls the reject function if and only if
  none of them got a response with a status of at most 299, never makes another attempt
  after a success or after a failure that is not worth a retry, and stops early only for
  these reasons, a cancelled context or a shutdown.\<close>

theorem send_with_retries_sound:
  assumes "send_with_retries r env = (rejected, n)"
  shows "n \<le> nat (max_attempts r) \<and> attempts_allowed env n
    \<and> (rejected \<longleftrightarrow> \<not> (\<exists>j < n. delivered (env j)))
    \<and> (\<forall>j. Suc j < n \<longrightarrow> \<not> delivered (env j) \<and> snd (attempt_result (env j)))
    \<and> (n < nat (max_attempts r) \<longrightarrow>
         0 < n \<and> (delivered (env (n - 1)) \<or> \<not> snd (attempt_result (env (n - 1))))
         \<or> ctx_done (env n) \<or> 0 < n \<and> shutting_down (env n))"
proof -
  obtain c where c: "send_loop (nat (max_attempts r)) 0 env 503 = (c, n)" "rejected = (\<not> c \<le> max_successful_status_code)"
    using assms by (auto simp: send_with_retries_def split: prod.splits)
  have "\<not> (503::int) \<le> max_successful_status_code" by (simp add: max_successful_status_code_def)
  from send_loop_sound [OF c(1) _ _ this] c(2) show ?thesis by (simp add: attempts_allowed_def)
qed

theorem send_with_retries_sound_witness:
  "(\<exists>j < 2. delivered (demo_attempts j)) \<and> attempts_allowed demo_attempts 2"
proof -
  have "send_with_retries demo_retries demo_attempts = (False, 2)" by code_simp
  from send_with_retries_sound [OF this] show ?thesis by blast
qed

end
