(* ===== verification/Redact.thy ===== *)
theory Redact
  imports GoStrings
begin

text \<open>
  Redaction of HTTP headers and URL queries before they are written to disk
  (pkg/dest/redact.go), with url.QueryUnescape of the standard library. A header map is a
  list of names with their values, in the order of the range over the Go map.
\<close>

section \<open>Names\<close>

definition redacted :: string where
  "redacted = ''REDACTED''"

definition sensitive_substrings :: "string list" where
  "sensitive_substrings =
     [''assertion'', ''auth'', ''cert'', ''cookie'', ''cred'', ''csrf'', ''hmac'', ''jwt'', ''key'',
      ''otp'', ''pass'', ''secret'', ''session'', ''signature'', ''ticket'', ''token'', ''xsrf'']"

definition sensitive_names :: "string list" where
  "sensitive_names = [''code'', ''dpop'', ''pwd'', ''sid'', ''sig'']"

definition sensitive :: "string \<Rightarrow> bool" where
  "sensitive name =
     (let n = to_lower name
      in if n \<in> set sensitive_names then True
         else list_ex (\<lambda>s. str_contains n s) sensitive_substrings)"

section \<open>Headers\<close>

definition redact_cookie_pair :: "string \<Rightarrow> string" where
  "redact_cookie_pair pair =
     (let p = trim_space pair
      in if p = [] then []
         else (case cut (CHR ''='') p of
                 (name, _, True) \<Rightarrow> name @ ''='' @ redacted
               | (_, _, False) \<Rightarrow> redacted))"

definition redact_authorization :: "string \<Rightarrow> string" where
  "redact_authorization v =
     (case cut (CHR '' '') (trim_space v) of
        (scheme, _, f) \<Rightarrow>
          if f \<and> \<not> contains_any scheme ''=:'' then scheme @ '' '' @ redacted else redacted)"

definition redact_cookie :: "string \<Rightarrow> string" where
  "redact_cookie v =
     (let pairs = map redact_cookie_pair (split_char (CHR '';'') v);
          redacted_cookie = join ''; '' pairs
      in if last pairs = [] then trim_suffix redacted_cookie '' '' else redacted_cookie)"

definition redact_set_cookie :: "string \<Rightarrow> string" where
  "redact_set_cookie v =
     (case cut (CHR '';'') v of
        (pair, attrs, True) \<Rightarrow> redact_cookie_pair pair @ '';'' @ attrs
      | (pair, _, False) \<Rightarrow> redact_cookie_pair pair)"

definition redact_value :: "string \<Rightarrow> string \<Rightarrow> string" where
  "redact_value name v =
     (if trim_space v = [] then v
      else
        (let n = to_lower name
         in if n = ''authorization'' \<or> n = ''proxy-authorization'' then redact_authorization v
            else if n = ''cookie'' then redact_cookie v
            else if n = ''set-cookie'' then redact_set_cookie v
            else redacted))"

definition redact_headers :: "(string \<times> string list) list \<Rightarrow> (string \<times> string list) list" where
  "redact_headers h =
     map (\<lambda>(name, vals). if \<not> sensitive name then (name, vals) else (name, map (redact_value name) vals)) h"

section \<open>Queries\<close>

definition is_hex :: "char \<Rightarrow> bool" where
  "is_hex c \<longleftrightarrow> is_digit c \<or> (97 \<le> char_code c \<and> char_code c \<le> 102)
     \<or> (65 \<le> char_code c \<and> char_code c \<le> 70)"

definition hex_val :: "char \<Rightarrow> nat" where
  "hex_val c =
     (if is_digit c then char_code c - 48
      else if 97 \<le> char_code c then char_code c - 87 else char_code c - 55)"

text \<open>url.QueryUnescape; \<open>None\<close> is its error.\<close>

fun query_unescape :: "string \<Rightarrow> string option" where
  "query_unescape [] = Some []"
| "query_unescape (c # cs) =
     (if c = CHR ''%'' then
        (case cs of
           a # b # rest \<Rightarrow>
             (if is_hex a \<and> is_hex b
              then map_option (Cons (char_of (16 * hex_val a + hex_val b))) (query_unescape rest)
              else None)
         | _ \<Rightarrow> None)
      else map_option (Cons (if c = CHR ''+'' then CHR '' '' else c)) (query_unescape cs))"

definition param_name :: "string \<Rightarrow> string" where
  "param_name key = (case query_unescape key of Some n \<Rightarrow> n | None \<Rightarrow> key)"

text \<open>What the loop of redactQuery does to one parameter: its new text and whether it changed.\<close>

definition redact_param :: "string \<Rightarrow> string \<times> bool" where
  "redact_param param =
     (case cut (CHR ''='') param of
        (key, val, f) \<Rightarrow>
          if \<not> f \<or> val = [] \<or> val = redacted then (param, False)
          else if sensitive (param_name key) then (key @ ''='' @ redacted, True)
          else (param, False))"

definition redact_query :: "string \<Rightarrow> string" where
  "redact_query raw_query =
     (if raw_query = [] then raw_query
      else
        (let params = split_char (CHR ''&'') raw_query;
             rs = map redact_param params;
             changed = list_ex snd rs
         in if \<not> changed then raw_query else join ''&'' (map fst rs)))"

lemmas redact_defs [go_defs] = redact_cookie_pair_def redact_authorization_def redact_cookie_def
  redact_set_cookie_def redact_value_def

section \<open>Query properties\<close>

lemma redact_param_unchanged: "\<not> snd (redact_param p) \<Longrightarrow> fst (redact_param p) = p"
  by (auto simp: redact_param_def split: prod.splits if_splits)

lemma redact_query_join:
  "redact_query s = join ''&'' (map (\<lambda>p. fst (redact_param p)) (split_char (CHR ''&'') s))"
proof (cases "list_ex snd (map redact_param (split_char (CHR ''&'') s))")
  case True
  then have "s \<noteq> []" by (auto simp: split_char_def redact_param_def)
  with True show ?thesis by (simp add: redact_query_def Let_def comp_def)
next
  case False
  then have "map (\<lambda>p. fst (redact_param p)) (split_char (CHR ''&'') s) = split_char (CHR ''&'') s"
    by (intro map_idI) (auto simp: list_ex_iff intro: redact_param_unchanged)
  with False show ?thesis by (simp add: redact_query_def join_split_char)
qed

lemma redact_param_no_sep:
  assumes "CHR ''&'' \<notin> set p"
  shows "CHR ''&'' \<notin> set (fst (redact_param p))"
proof (cases "snd (redact_param p)")
  case True
  then obtain key val where "cut (CHR ''='') p = (key, val, True)" "fst (redact_param p) = key @ ''='' @ redacted"
    by (auto simp: redact_param_def split: prod.splits if_splits)
  with assms cut_found [of "CHR ''=''" p key val] show ?thesis by (auto simp: redacted_def)
qed (use assms redact_param_unchanged in auto)

lemma redact_query_params:
  "split_char (CHR ''&'') (redact_query s) = map (\<lambda>p. fst (redact_param p)) (split_char (CHR ''&'') s)"
  unfolding redact_query_join
  by (rule split_char_join) (auto dest!: split_char_no_sep redact_param_no_sep)

lemma redact_param_idem: "redact_param (fst (redact_param p)) = (fst (redact_param p), False)"
proof (cases "snd (redact_param p)")
  case True
  then obtain key val where "cut (CHR ''='') p = (key, val, True)" "fst (redact_param p) = key @ ''='' @ redacted"
    by (auto simp: redact_param_def split: prod.splits if_splits)
  with cut_found [of "CHR ''=''" p key val] cut_append [of "CHR ''=''" key redacted] show ?thesis
    by (simp add: redact_param_def)
next
  case False
  then show ?thesis using redact_param_unchanged by (metis prod.collapse)
qed

text \<open>A parameter that carries a secret, and its text without it.\<close>

definition secret_param :: "string \<Rightarrow> bool" where
  "secret_param p \<longleftrightarrow> (\<exists>key val. p = key @ ''='' @ val \<and> CHR ''='' \<notin> set key \<and> val \<noteq> []
     \<and> sensitive (param_name key))"

lemma redact_secret_param:
  "secret_param p \<Longrightarrow> fst (redact_param p) = takeWhile (\<lambda>c. c \<noteq> CHR ''='') p @ ''='' @ redacted"
proof -
  assume "secret_param p"
  then obtain key val where p: "p = key @ ''='' @ val" "CHR ''='' \<notin> set key" "val \<noteq> []"
    "sensitive (param_name key)" by (auto simp: secret_param_def)
  then have "takeWhile (\<lambda>c. c \<noteq> CHR ''='') p = key"
    unfolding p(1) by (subst takeWhile_append2) auto
  with p cut_append [OF p(2), of val] show ?thesis by (auto simp: redact_param_def)
qed

lemma redact_public_param: "\<not> secret_param p \<Longrightarrow> fst (redact_param p) = p"
proof (cases "cut (CHR ''='') p" rule: prod_cases3)
  case (fields key val f)
  assume "\<not> secret_param p"
  with fields cut_found [of "CHR ''=''" p key val] show ?thesis
    by (cases f) (auto simp: redact_param_def secret_param_def)
qed

text \<open>Redacting a query edits exactly the secrets. The parameters stay in number and order;
  one that has a sensitive name (after unescaping, or as it is if it cannot be unescaped)
  and a non-empty value keeps its key as written and gets the value REDACTED; every other
  one is untouched; and redacting twice is redacting once.\<close>

theorem redact_query_exact:
  "split_char (CHR ''&'') (redact_query s)
     = map (\<lambda>p. if secret_param p then takeWhile (\<lambda>c. c \<noteq> CHR ''='') p @ ''='' @ redacted else p)
         (split_char (CHR ''&'') s)
   \<and> redact_query (redact_query s) = redact_query s"
proof
  show "split_char (CHR ''&'') (redact_query s)
     = map (\<lambda>p. if secret_param p then takeWhile (\<lambda>c. c \<noteq> CHR ''='') p @ ''='' @ redacted else p)
         (split_char (CHR ''&'') s)"
    unfolding redact_query_params by (rule map_cong) (auto simp: redact_secret_param redact_public_param)
  have "redact_query (redact_query s)
      = join ''&'' (map (\<lambda>p. fst (redact_param p)) (map (\<lambda>p. fst (redact_param p)) (split_char (CHR ''&'') s)))"
    by (subst redact_query_join) (simp add: redact_query_params)
  also have "\<dots> = redact_query s" by (simp add: redact_query_join redact_param_idem comp_def)
  finally show "redact_query (redact_query s) = redact_query s" .
qed

section \<open>Header properties\<close>

text \<open>
  Two values of a sensitive header that differ in their secrets only: the credentials after
  an authentication scheme, the values of cookies, or the whole value.
\<close>

definition same_cookie :: "string \<Rightarrow> string \<Rightarrow> bool" where
  "same_cookie p p' \<longleftrightarrow> p = p'
     \<or> (\<exists>n x x'. trim_space p = n @ ''='' @ x \<and> trim_space p' = n @ ''='' @ x' \<and> CHR ''='' \<notin> set n)"

inductive same_but_secrets :: "string \<Rightarrow> string \<Rightarrow> string \<Rightarrow> bool" where
  scheme: "to_lower name \<in> {''authorization'', ''proxy-authorization''} \<Longrightarrow>
    trim_space v = s @ '' '' @ x \<Longrightarrow> trim_space v' = s @ '' '' @ x' \<Longrightarrow> CHR '' '' \<notin> set s \<Longrightarrow>
    same_but_secrets name v v'"
| bare: "to_lower name \<in> {''authorization'', ''proxy-authorization''} \<Longrightarrow>
    trim_space v \<noteq> [] \<Longrightarrow> trim_space v' \<noteq> [] \<Longrightarrow>
    CHR '' '' \<notin> set (trim_space v) \<Longrightarrow> CHR '' '' \<notin> set (trim_space v') \<Longrightarrow>
    same_but_secrets name v v'"
| cookies: "to_lower name = ''cookie'' \<Longrightarrow> trim_space v \<noteq> [] \<Longrightarrow> trim_space v' \<noteq> [] \<Longrightarrow>
    list_all2 same_cookie (split_char (CHR '';'') v) (split_char (CHR '';'') v') \<Longrightarrow>
    same_but_secrets name v v'"
| set_cookie: "to_lower name = ''set-cookie'' \<Longrightarrow> trim_space v \<noteq> [] \<Longrightarrow> trim_space v' \<noteq> [] \<Longrightarrow>
    CHR '';'' \<notin> set p \<Longrightarrow> CHR '';'' \<notin> set p' \<Longrightarrow> same_cookie p p' \<Longrightarrow>
    v = p @ attrs \<Longrightarrow> v' = p' @ attrs \<Longrightarrow> attrs = [] \<or> hd attrs = CHR '';'' \<Longrightarrow>
    same_but_secrets name v v'"
| whole: "to_lower name \<notin> {''authorization'', ''proxy-authorization'', ''cookie'', ''set-cookie''} \<Longrightarrow>
    trim_space v \<noteq> [] \<Longrightarrow> trim_space v' \<noteq> [] \<Longrightarrow> same_but_secrets name v v'"
| same: "same_but_secrets name v v"

lemma same_cookie_redact: "same_cookie p p' \<Longrightarrow> redact_cookie_pair p = redact_cookie_pair p'"
  using cut_append [of "CHR ''=''"] by (auto simp: same_cookie_def redact_cookie_pair_def Let_def)

lemma same_but_secrets_redact: "same_but_secrets name v v' \<Longrightarrow> redact_value name v = redact_value name v'"
proof (induction rule: same_but_secrets.induct)
  case (scheme name v s x v' x')
  with cut_append [OF scheme(4)] show ?case by (auto simp: redact_value_def redact_authorization_def Let_def)
next
  case (bare name v v')
  with cut_absent [OF bare(4)] cut_absent [OF bare(5)] show ?case
    by (auto simp: redact_value_def redact_authorization_def Let_def)
next
  case (cookies name v v')
  have "map redact_cookie_pair (split_char (CHR '';'') v) = map redact_cookie_pair (split_char (CHR '';'') v')"
    using cookies(4) by (induction rule: list_all2_induct) (auto intro: same_cookie_redact)
  with cookies show ?case by (simp add: redact_value_def redact_cookie_def Let_def)
next
  case (set_cookie name v v' p p' attrs)
  have "redact_set_cookie v = redact_set_cookie v'"
  proof (cases attrs)
    case Nil
    with set_cookie show ?thesis
      by (simp add: redact_set_cookie_def cut_absent same_cookie_redact)
  next
    case (Cons c as)
    with set_cookie show ?thesis
      by (simp add: redact_set_cookie_def cut_append same_cookie_redact)
  qed
  with set_cookie show ?case by (simp add: redact_value_def Let_def)
qed (simp_all add: redact_value_def Let_def)

definition same_headers :: "(string \<times> string list) list \<Rightarrow> (string \<times> string list) list \<Rightarrow> bool" where
  "same_headers = list_all2 (\<lambda>(n, vs) (n', vs'). n = n'
     \<and> (if sensitive n then list_all2 (same_but_secrets n) vs vs' else vs = vs'))"

text \<open>Redaction leaks no secret. Two sets of headers that differ only in the secrets of
  their sensitive headers (credentials, cookie values, any other sensitive value) are
  written in the same way.\<close>

theorem redact_headers_hides:
  assumes "same_headers h h'"
  shows "redact_headers h = redact_headers h'"
  using assms unfolding same_headers_def
proof (induction rule: list_all2_induct)
  case (Cons x xs y ys)
  obtain n vs n' vs' where xy: "x = (n, vs)" "y = (n', vs')" by fastforce
  have "list_all2 (same_but_secrets n) vs vs' \<Longrightarrow> map (redact_value n) vs = map (redact_value n) vs'"
    by (induction rule: list_all2_induct) (auto intro: same_but_secrets_redact)
  with Cons xy show ?case by (auto simp: redact_headers_def split: if_splits)
qed (simp add: redact_headers_def)

lemma sensitive_examples: "sensitive ''Cookie''" "sensitive ''Authorization''" "\<not> sensitive ''Accept''"
  by code_simp+

theorem redact_headers_hides_witness:
  "redact_headers [(''Authorization'', [''Bearer abc'']), (''Accept'', [''x''])]
    = redact_headers [(''Authorization'', [''Bearer xyz'']), (''Accept'', [''x''])]"
proof (rule redact_headers_hides)
  have "to_lower ''Authorization'' = ''authorization''"
    and "trim_space ''Bearer abc'' = ''Bearer'' @ '' '' @ ''abc''"
    and "trim_space ''Bearer xyz'' = ''Bearer'' @ '' '' @ ''xyz''" by code_simp+
  then have "same_but_secrets ''Authorization'' ''Bearer abc'' ''Bearer xyz''"
    by (intro same_but_secrets.scheme [where s = "''Bearer''"]) auto
  then show "same_headers [(''Authorization'', [''Bearer abc'']), (''Accept'', [''x''])]
      [(''Authorization'', [''Bearer xyz'']), (''Accept'', [''x''])]"
    by (simp add: same_headers_def sensitive_examples)
qed

end
