(* ===== verification/HttpHeaders.thy ===== *)
theory HttpHeaders
  imports HttpClient Redact
begin

text \<open>
  What an HTTP sender passes on of a message (pkg/http/sender.go): the headers that are safe
  to forward, the merging of headers and query parameters with its own, and the query
  parameters of the configuration (pkg/http/config.go). The query functions of net/url are
  modelled from the standard library.
\<close>

section \<open>Query strings\<close>

type_synonym url_values = "(string \<times> string list) list"

definition values_add :: "string \<Rightarrow> string \<Rightarrow> url_values \<Rightarrow> url_values" where
  "values_add k v m = AList.update k ((case map_of m k of None \<Rightarrow> [] | Some vs \<Rightarrow> vs) @ [v]) m"

definition values_set :: "string \<Rightarrow> string \<Rightarrow> url_values \<Rightarrow> url_values" where
  "values_set k v m = AList.update k [v] m"

text \<open>url.ParseQuery, whose errors URL.Query ignores: a parameter that is not valid is left out.\<close>

definition query_param :: "string \<Rightarrow> (string \<times> string) option" where
  "query_param p =
     (if p = [] \<or> CHR '';'' \<in> set p then None
      else (case cut (CHR ''='') p of
              (k, v, _) \<Rightarrow>
                (case (query_unescape k, query_unescape v) of
                   (Some k', Some v') \<Rightarrow> Some (k', v')
                 | _ \<Rightarrow> None)))"

definition url_query :: "string \<Rightarrow> url_values" where
  "url_query raw =
     fold (\<lambda>p m. case query_param p of None \<Rightarrow> m | Some (k, v) \<Rightarrow> values_add k v m)
       (split_char (CHR ''&'') raw) []"

definition hex_upper :: "nat \<Rightarrow> char" where
  "hex_upper n = (if n < 10 then char_of (48 + n) else char_of (55 + n))"

definition unreserved :: "char \<Rightarrow> bool" where
  "unreserved c \<longleftrightarrow> is_lower c \<or> is_upper c \<or> is_digit c \<or> c \<in> set ''-_.~''"

definition query_escape :: "string \<Rightarrow> string" where
  "query_escape s =
     concat (map (\<lambda>c. if unreserved c then [c]
                      else if c = CHR '' '' then ''+''
                      else [CHR ''%'', hex_upper (char_code c div 16), hex_upper (char_code c mod 16)]) s)"

fun str_less_eq :: "string \<Rightarrow> string \<Rightarrow> bool" where
  "str_less_eq [] t = True"
| "str_less_eq (c # s) [] = False"
| "str_less_eq (c # s) (d # t) =
     (char_code c < char_code d \<or> (char_code c = char_code d \<and> str_less_eq s t))"

fun insert_key :: "string \<times> 'a \<Rightarrow> (string \<times> 'a) list \<Rightarrow> (string \<times> 'a) list" where
  "insert_key x [] = [x]"
| "insert_key x (y # ys) = (if str_less_eq (fst x) (fst y) then x # y # ys else y # insert_key x ys)"

text \<open>Values.Encode sorts by key.\<close>

definition values_encode :: "url_values \<Rightarrow> string" where
  "values_encode m =
     join ''&'' (concat (map (\<lambda>(k, vs). map (\<lambda>v. query_escape k @ ''='' @ query_escape v) vs)
       (foldr insert_key m [])))"

text \<open>parseQuery: the raw query of the URL with the configured parameters.\<close>

fun set_params :: "table \<Rightarrow> url_values \<Rightarrow> http_error + url_values" where
  "set_params [] m = Inr m"
| "set_params ((key, raw) # cfg) m =
     (case as_string raw of
        Some v \<Rightarrow> set_params cfg (values_set key v m)
      | None \<Rightarrow> Inl (QueryNotAString key))"

definition parse_query :: "string \<Rightarrow> toml option \<Rightarrow> http_error + string" where
  "parse_query raw_query raw_cfg =
     (case raw_cfg of
        None \<Rightarrow> Inr raw_query
      | Some raw \<Rightarrow>
          (case as_table raw of
             None \<Rightarrow> Inl (NotATableOf ''query'')
           | Some cfg \<Rightarrow>
               (if cfg = [] then Inr raw_query
                else (case set_params cfg (url_query raw_query) of
                        Inl e \<Rightarrow> Inl e
                      | Inr m \<Rightarrow> Inr (values_encode m)))))"

text \<open>copyQuery: the destination's parameters win; a nil URL is \<open>None\<close>.\<close>

definition merge_values :: "url_values \<Rightarrow> url_values \<Rightarrow> url_values" where
  "merge_values src dst =
     fold (\<lambda>(k, vs) m. if map_of m k = None then AList.update k vs m else m) src dst"

definition copy_query :: "string option \<Rightarrow> string \<Rightarrow> string" where
  "copy_query src_query dst_query =
     (case src_query of
        None \<Rightarrow> dst_query
      | Some src \<Rightarrow>
          (if src = [] then dst_query
           else if dst_query = [] then src
           else values_encode (merge_values (url_query src) (url_query dst_query))))"

section \<open>Headers\<close>

definition filtered_headers :: "string list" where
  "filtered_headers = [''Connection'', ''Keep-Alive'', ''Proxy-Authenticate'', ''Proxy-Authorization'',
     ''Proxy-Connection'', ''Te'', ''Trailer'', ''Transfer-Encoding'', ''Upgrade'', ''Strict-Transport-Security'']"

definition filtered_request_headers :: "string list" where
  "filtered_request_headers = [''Content-Length'']"

definition filtered_response_headers :: "string list" where
  "filtered_response_headers = [''Content-Encoding'', ''Content-Length'', ''Set-Cookie'']"

text \<open>The headers that the Connection header names.\<close>

definition connection_headers :: "header \<Rightarrow> string list" where
  "connection_headers h =
     concat (map (\<lambda>vs. map (\<lambda>v. canonical_key (trim_space v)) (split_char (CHR '','') vs))
       (header_values ''Connection'' h))"

definition unsafe_header :: "header \<Rightarrow> bool \<Rightarrow> string \<Rightarrow> bool" where
  "unsafe_header h request canon \<longleftrightarrow>
     canon \<in> set filtered_headers
     \<or> canon \<in> set (connection_headers h)
     \<or> (if request then canon \<in> set filtered_request_headers else canon \<in> set filtered_response_headers)"

definition safe_headers :: "header \<Rightarrow> bool \<Rightarrow> string list" where
  "safe_headers h request = filter (\<lambda>k. \<not> unsafe_header h request (canonical_key k)) (map fst h)"

definition copy_headers :: "header \<Rightarrow> header \<Rightarrow> bool \<Rightarrow> header" where
  "copy_headers src dst request =
     fold (\<lambda>k d. let canon = canonical_key k
                 in if map_of d canon = None
                    then AList.update canon (case map_of src k of Some vs \<Rightarrow> vs | None \<Rightarrow> []) d
                    else d)
       (safe_headers src request) dst"

text \<open>The Content-Type of a payload, unless the sender is configured with one.\<close>

definition content_type_header :: string where
  "content_type_header = ''Content-Type''"

definition payload_headers :: "header \<Rightarrow> string \<Rightarrow> header" where
  "payload_headers own content_type =
     (if header_get content_type_header own = [] then header_set content_type_header content_type own else own)"

section \<open>Properties\<close>

text \<open>A header as net/http keeps it: every name once, in canonical form.\<close>

definition header_ok :: "header \<Rightarrow> bool" where
  "header_ok h \<longleftrightarrow> distinct (map fst h) \<and> list_all (\<lambda>(k, _). canonical_key k = k) h"

lemma copy_fold:
  "distinct ks \<Longrightarrow> \<forall>k \<in> set ks. canonical_key k = k \<and> map_of src k \<noteq> None \<Longrightarrow>
     map_of (fold (\<lambda>k d. let canon = canonical_key k
                 in if map_of d canon = None
                    then AList.update canon (case map_of src k of Some vs \<Rightarrow> vs | None \<Rightarrow> []) d
                    else d) ks dst) x
       = (case map_of dst x of Some v \<Rightarrow> Some v | None \<Rightarrow> if x \<in> set ks then map_of src x else None)"
  by (induction ks arbitrary: dst) (auto simp: Let_def split: option.splits)

text \<open>
  What must not be forwarded, by name: the hop-by-hop headers of RFC 2616 (section 13.5.1), with
  Proxy-Connection, and Strict-Transport-Security (RFC 6797), what a Connection header lists
  between commas, and what is true only of the message itself.
\<close>

definition lists_token :: "string \<Rightarrow> string \<Rightarrow> bool" where
  "lists_token v tok \<longleftrightarrow> CHR '','' \<notin> set tok
     \<and> (\<exists>b a. v = b @ tok @ a \<and> (b = [] \<or> last b = CHR '','') \<and> (a = [] \<or> hd a = CHR '',''))"

inductive not_forwarded :: "header \<Rightarrow> bool \<Rightarrow> string \<Rightarrow> bool" for src request where
  hop_by_hop: "k \<in> {''Connection'', ''Keep-Alive'', ''Proxy-Authenticate'', ''Proxy-Authorization'', ''Te'',
      ''Trailer'', ''Transfer-Encoding'', ''Upgrade'', ''Proxy-Connection''} \<Longrightarrow> not_forwarded src request k"
| transport_security: "not_forwarded src request ''Strict-Transport-Security''"
| named: "map_of src ''Connection'' = Some vs \<Longrightarrow> v \<in> set vs \<Longrightarrow> lists_token v tok
    \<Longrightarrow> canonical_key (trim_space tok) = k \<Longrightarrow> not_forwarded src request k"
| content_length: "not_forwarded src request ''Content-Length''"
| encoding: "\<not> request \<Longrightarrow> not_forwarded src request ''Content-Encoding''"
| cookies: "\<not> request \<Longrightarrow> not_forwarded src request ''Set-Cookie''"

lemma split_char_append: "split_char d (x @ d # y) = split_char d x @ split_char d y"
proof (induction x)
  case (Cons c x)
  moreover obtain w ws where "split_char d x = w # ws" by (meson list.exhaust split_char_not_Nil)
  ultimately show ?case by (auto simp: split_char_def)
qed (simp add: split_char_def)

lemma join_append: "ys \<noteq> [] \<Longrightarrow> xs \<noteq> [] \<Longrightarrow> join d (xs @ ys) = join d xs @ d @ join d ys"
proof (induction xs)
  case (Cons x xs)
  then show ?case by (cases "xs = []") (simp_all add: join_Cons)
qed simp

lemma split_listed: "t \<in> set (split_char (CHR '','') v) \<longleftrightarrow> lists_token v t"
proof
  assume t: "t \<in> set (split_char (CHR '','') v)"
  then obtain xs ys where ws: "split_char (CHR '','') v = xs @ t # ys" by (meson split_list)
  have v: "v = join '','' (xs @ t # ys)" using join_split_char [of "CHR '',''" v] ws by simp
  define b where "b = (if xs = [] then [] else join '','' xs @ '','')"
  define a where "a = (if ys = [] then [] else '','' @ join '','' ys)"
  have "v = b @ t @ a" by (simp add: v b_def a_def join_append join_Cons)
  moreover have "b = [] \<or> last b = CHR '',''" "a = [] \<or> hd a = CHR '',''" by (simp_all add: a_def b_def)
  ultimately show "lists_token v t" using split_char_no_sep [OF t] unfolding lists_token_def by blast
next
  assume "lists_token v t"
  then obtain a b where v: "CHR '','' \<notin> set t" "v = b @ t @ a" "b = [] \<or> last b = CHR '',''" "a = [] \<or> hd a = CHR '',''"
    by (auto simp: lists_token_def)
  have t: "split_char (CHR '','') t = [t]" using v(1) unfolding split_char_def by (intro split_by_plain) auto
  have "t \<in> set (split_char (CHR '','') (t @ a))"
    using v(4) t split_char_append [of "CHR '',''" t "tl a"] by (cases a) auto
  then show "t \<in> set (split_char (CHR '','') v)"
    using v(2,3) split_char_append [of "CHR '',''" "butlast b" "t @ a"] append_butlast_last_id [of b]
    by (cases "b = []") (auto, metis UnCI append.assoc append_Cons append_Nil set_append)
qed

lemma unsafe_not_forwarded: "unsafe_header src request k \<longleftrightarrow> not_forwarded src request k"
proof -
  have "k \<in> set (connection_headers src) \<longleftrightarrow>
      (\<exists>vs v t. map_of src ''Connection'' = Some vs \<and> v \<in> set vs \<and> lists_token v t \<and> canonical_key (trim_space t) = k)"
  proof -
    have c: "canonical_key ''Connection'' = ''Connection''" by code_simp
    show ?thesis
    proof (cases "map_of src ''Connection''")
      case (Some vs)
      have "k \<in> set (connection_headers src) \<longleftrightarrow>
          (\<exists>v \<in> set vs. \<exists>t \<in> set (split_char (CHR '','') v). canonical_key (trim_space t) = k)"
        by (auto simp: connection_headers_def header_values_def c Some)
      with Some show ?thesis by (simp add: split_listed Bex_def)
    qed (simp add: connection_headers_def header_values_def c)
  qed
  then show ?thesis
    by (auto simp: unsafe_header_def not_forwarded.simps filtered_headers_def filtered_request_headers_def
        filtered_response_headers_def)
qed

text \<open>C33: Forwarded headers are safe and complete, and the sender's own headers win. A header
  of the result is the sender's own if it is configured with that name; otherwise it is the
  message's header, with all its values, unless it is a hop-by-hop header, a header that the
  message's Connection header names, or one of the headers that are never forwarded for this
  kind of message, which are all left out.\<close>

theorem copy_headers_spec:
  assumes "header_ok src"
  shows "map_of (copy_headers src dst request) k =
    (case map_of dst k of
       Some vs \<Rightarrow> Some vs
     | None \<Rightarrow> if not_forwarded src request k then None else map_of src k)"
proof -
  have ks: "distinct (safe_headers src request)" using assms by (simp add: safe_headers_def header_ok_def)
  have can: "\<forall>k \<in> set (map fst src). canonical_key k = k \<and> map_of src k \<noteq> None"
    using assms by (auto simp: header_ok_def list_all_iff map_of_eq_None_iff image_iff)
  then have "\<forall>k \<in> set (safe_headers src request). canonical_key k = k \<and> map_of src k \<noteq> None"
    by (auto simp: safe_headers_def)
  note f = copy_fold [OF ks this]
  note unsafe_not_forwarded [simp]
  have mem: "k \<in> set (safe_headers src request) \<longleftrightarrow> k \<in> set (map fst src) \<and> \<not> unsafe_header src request k"
    using can by (auto simp: safe_headers_def)
  have "map_of src k = None" if "k \<notin> set (map fst src)" using that by (simp add: map_of_eq_None_iff)
  then show ?thesis unfolding copy_headers_def f mem by (auto split: option.splits)
qed

theorem copy_headers_spec_witness:
  "map_of (copy_headers [(''Connection'', [''close, X-Trace'']), (''X-Trace'', [''1'']), (''Accept'', [''a'', ''b''])]
     [(''X-Own'', [''2''])] True) ''Accept'' = Some [''a'', ''b'']"
proof -
  have ok: "header_ok [(''Connection'', [''close, X-Trace'']), (''X-Trace'', [''1'']), (''Accept'', [''a'', ''b''])]"
    by code_simp
  have "\<not> unsafe_header [(''Connection'', [''close, X-Trace'']), (''X-Trace'', [''1'']), (''Accept'', [''a'', ''b''])]
      True ''Accept''" by code_simp
  then have "\<not> not_forwarded [(''Connection'', [''close, X-Trace'']), (''X-Trace'', [''1'']), (''Accept'', [''a'', ''b''])]
      True ''Accept''" by (simp add: unsafe_not_forwarded)
  with copy_headers_spec [OF ok, of "[(''X-Own'', [''2''])]" True "''Accept''"] show ?thesis by simp
qed

end
