(* ===== verification/Conserving.thy ===== *)
theory Conserving
  imports Prelude "HOL-Library.Multiset"
begin

text \<open>
  Systems that take items in and account for every one of them. A step takes an event and
  may panic (\<open>None\<close>); the contract says that it never does in a good state, that the state
  stays good, and that what the system holds grows by exactly what the event brings.
\<close>

fun run_events :: "('e \<Rightarrow> 's \<Rightarrow> 's option) \<Rightarrow> 'e list \<Rightarrow> 's \<Rightarrow> 's option" where
  "run_events step [] s = Some s"
| "run_events step (e # es) s = (case step e s of None \<Rightarrow> None | Some s' \<Rightarrow> run_events step es s')"

lemma run_events_append:
  "run_events step (es @ fs) s = (case run_events step es s of None \<Rightarrow> None | Some s' \<Rightarrow> run_events step fs s')"
  by (induction es arbitrary: s) (auto split: option.splits)

lemma mset_take_drop:
  "i < length xs \<Longrightarrow> mset xs = add_mset (xs ! i) (mset (take i xs) + mset (drop (Suc i) xs))"
  by (metis id_take_nth_drop mset.simps(2) mset_append union_mset_add_mset_right)

text \<open>Systems with an invariant, in which a step may also be impossible.\<close>

locale preserving =
  fixes step :: "'e \<Rightarrow> 's \<Rightarrow> 's option"
    and good :: "'s \<Rightarrow> bool"
    and allowed :: "'e \<Rightarrow> bool"
  assumes step_preserves: "good s \<Longrightarrow> allowed e \<Longrightarrow> step e s = Some s' \<Longrightarrow> good s'"
begin

lemma run_preserves: "good s \<Longrightarrow> list_all allowed es \<Longrightarrow> run_events step es s = Some s' \<Longrightarrow> good s'"
proof (induction es arbitrary: s)
  case (Cons e es)
  from Cons.prems obtain s1 where "step e s = Some s1" "run_events step es s1 = Some s'"
    by (auto split: option.splits)
  with Cons.IH [of s1] Cons.prems step_preserves [of s e s1] show ?case by simp
qed simp

end

locale conserving =
  fixes step :: "'e \<Rightarrow> 's \<Rightarrow> 's option"
    and good :: "'s \<Rightarrow> bool"
    and held :: "'s \<Rightarrow> 'u multiset"
    and brings :: "'e \<Rightarrow> 'u multiset"
    and allowed :: "'e \<Rightarrow> bool"
  assumes step_conserves:
    "good s \<Longrightarrow> allowed e \<Longrightarrow> \<exists>s'. step e s = Some s' \<and> good s' \<and> held s' = held s + brings e"
begin

lemma run_conserves:
  "good s \<Longrightarrow> list_all allowed es \<Longrightarrow>
     \<exists>s'. run_events step es s = Some s' \<and> good s' \<and> held s' = held s + (\<Sum>e\<leftarrow>es. brings e)"
proof (induction es arbitrary: s)
  case (Cons e es)
  then obtain s1 where s1: "step e s = Some s1" "good s1" "held s1 = held s + brings e"
    using step_conserves [of s e] by auto
  with Cons.IH [of s1] Cons.prems show ?case by (auto simp: add.assoc)
qed simp

end

sublocale conserving \<subseteq> preserving step good allowed
proof unfold_locales
  fix s e s' assume "good s" "allowed e" "step e s = Some s'"
  with step_conserves [of s e] show "good s'" by auto
qed

end
