(* ===== verification/CodecRows.thy ===== *)
theory CodecRows
  imports CodecJson Flow
begin

text \<open>
  EncodeRows of the JSON formatter (pkg/codec/json.go): rows of tabular data as JSON objects.
  The encoder's own part is modelled (quoting names, commas, colons and newlines, as the
  jsontext.Encoder writes them); how the standard library marshals a value other than a
  non-finite float is the argument \<open>marshal\<close>, \<open>None\<close> being an error.
\<close>

section \<open>Quoting\<close>

definition hex_digit :: "nat \<Rightarrow> char" where
  "hex_digit n = (if n < 10 then char_of (48 + n) else char_of (87 + n))"

definition quote_char :: "char \<Rightarrow> string" where
  "quote_char c =
     (if c = dquote \<or> c = backslash then [backslash, c]
      else if c = CHR 0x08 then [backslash, CHR ''b'']
      else if c = CHR 0x0C then [backslash, CHR ''f'']
      else if c = CHR 0x0A then [backslash, CHR ''n'']
      else if c = CHR 0x0D then [backslash, CHR ''r'']
      else if c = CHR 0x09 then [backslash, CHR ''t'']
      else if char_code c < 32
      then backslash # ''u00'' @ [hex_digit (char_code c div 16), hex_digit (char_code c mod 16)]
      else [c])"

text \<open>The pieces of a quoted string, each one character or escape sequence.\<close>

function quote_units :: "string \<Rightarrow> string list option" where
  "quote_units s =
     (case s of
        [] \<Rightarrow> Some []
      | c # r \<Rightarrow>
          (if char_code c < 128 then map_option (\<lambda>us. quote_char c # us) (quote_units r)
           else (case utf8_len s of
                   None \<Rightarrow> None
                 | Some n \<Rightarrow> map_option (\<lambda>us. take n s # us) (quote_units (drop n s)))))"
  by pat_completeness auto
termination
proof (relation "measure length")
  fix s :: string and x21 x22 n
  assume "s = x21 # x22" "utf8_len s = Some n"
  with utf8_len_at [of s n] show "(drop n s, s) \<in> measure length" by (auto simp: unit_at_def)
qed auto

declare quote_units.simps [simp del]

definition quote :: "string \<Rightarrow> bytes option" where
  "quote s = map_option (\<lambda>us. tok_text (TStr us)) (quote_units s)"

section \<open>EncodeRows\<close>

text \<open>Floats, as far as marshalNonFiniteFloat looks at them.\<close>

datatype 'f go_float = NaN | PosInf | NegInf | Finite 'f

datatype ('f, 'v) cell = FloatCell "'f go_float" | OtherCell 'v

text \<open>\<open>None\<close> is errors.ErrUnsupported, on which the default encoding takes over.\<close>

fun marshal_non_finite_float :: "'f go_float \<Rightarrow> bytes option" where
  "marshal_non_finite_float NaN = quote ''NaN''"
| "marshal_non_finite_float PosInf = quote ''Infinity''"
| "marshal_non_finite_float NegInf = quote ''-Infinity''"
| "marshal_non_finite_float (Finite f) = None"

fun marshal_cell :: "(('f, 'v) cell \<Rightarrow> bytes option) \<Rightarrow> ('f, 'v) cell \<Rightarrow> bytes option" where
  "marshal_cell marshal (FloatCell x) =
     (case marshal_non_finite_float x of Some b \<Rightarrow> Some b | None \<Rightarrow> marshal (FloatCell x))"
| "marshal_cell marshal (OtherCell v) = marshal (OtherCell v)"

datatype row_error = CountMismatch nat nat | NameError nat | ValueError string

text \<open>
  The members of a row. The encoder writes a comma before every member but the first, and
  rejects a name that the object already has.
\<close>

fun write_members ::
  "(('f, 'v) cell \<Rightarrow> bytes option) \<Rightarrow> nat \<Rightarrow> string list \<Rightarrow> string list \<Rightarrow> ('f, 'v) cell list \<Rightarrow> bytes
    \<Rightarrow> row_error + bytes" where
  "write_members marshal i seen (name # names) (v # vals) out =
     (case (if name \<in> set seen then None else quote name) of
        None \<Rightarrow> Inl (NameError (i + 1))
      | Some q \<Rightarrow>
          (case marshal_cell marshal v of
             None \<Rightarrow> Inl (ValueError name)
           | Some b \<Rightarrow>
               write_members marshal (Suc i) (name # seen) names vals
                 (out @ (if i > 0 then '','' else []) @ q @ '':'' @ b)))"
| "write_members marshal i seen _ _ out = Inr out"

definition write_row ::
  "(('f, 'v) cell \<Rightarrow> bytes option) \<Rightarrow> string list \<Rightarrow> ('f, 'v) cell list \<Rightarrow> bytes \<Rightarrow> row_error + bytes" where
  "write_row marshal names vals out =
     (if length names \<noteq> length vals then Inl (CountMismatch (length names) (length vals))
      else (case write_members marshal 0 [] names vals (out @ ''{'') of
              Inl e \<Rightarrow> Inl e
            | Inr out' \<Rightarrow> Inr (out' @ ''}'')))"

text \<open>
  The encoder writes a comma between the elements of an array, and a newline after a
  top-level value. The names are computed once per result-set in the code, which is the
  same as for every row, because rows that share the slice of columns have the same columns.
\<close>

fun write_rows ::
  "(('f, 'v) cell \<Rightarrow> bytes option) \<Rightarrow> bool \<Rightarrow> nat \<Rightarrow> ('f, 'v) cell row list \<Rightarrow> bytes
    \<Rightarrow> (nat \<times> row_error) + bytes" where
  "write_rows marshal arr i [] out = Inr out"
| "write_rows marshal arr i (r # rows) out =
     (case write_row marshal (column_names (row_cols r)) (row_vals r)
             (if arr \<and> i > 0 then out @ '','' else out) of
        Inl e \<Rightarrow> Inl (i + 1, e)
      | Inr out' \<Rightarrow>
          write_rows marshal arr (Suc i) rows (if arr then out' else out' @ [newline]))"

definition trim_newline :: "bytes \<Rightarrow> bytes" where
  "trim_newline b = trim_suffix b [newline]"

definition encode_rows ::
  "(('f, 'v) cell \<Rightarrow> bytes option) \<Rightarrow> json_format \<Rightarrow> ('f, 'v) cell row list
    \<Rightarrow> (nat \<times> row_error) + bytes option" where
  "encode_rows marshal f rows =
     (case empty_payload f (length rows) of
        (payload, True) \<Rightarrow> Inr payload
      | (_, False) \<Rightarrow>
          (let (ndjson, arr) = shape f (length rows)
           in case write_rows marshal arr 0 rows (if arr then ''['' else []) of
                Inl e \<Rightarrow> Inl e
              | Inr b \<Rightarrow>
                  (let b1 = (if arr then b @ '']'' @ [newline] else b)
                   in Inr (Some (if ndjson then b1 else trim_newline b1)))))"

section \<open>Quoting is undone by reading\<close>

definition unit_ok :: "string \<Rightarrow> char \<Rightarrow> bool" where
  "unit_ok q c \<longleftrightarrow> str_unit q = Some (length q) \<and> unit_value q = [c] \<and> hd q \<noteq> dquote"

lemma json_hex_digit: "n < 16 \<Longrightarrow> json_hex (hex_digit n) = Some n"
  by (auto simp: json_hex_def hex_digit_def)

lemma hex_escape_ok:
  assumes "n < 256"
  shows "unit_ok (backslash # ''u00'' @ [hex_digit (n div 16), hex_digit (n mod 16)]) (char_of n) \<longleftrightarrow> n < 128"
proof -
  have d: "n div 16 < 16" "n mod 16 < 16" using assms by auto
  have zero: "json_hex (CHR ''0'') = Some 0" by (simp add: json_hex_def char_code_def)
  have cu: "code_unit (''u00'' @ [hex_digit (n div 16), hex_digit (n mod 16)] @ r) = Some n" for r
    using d by (simp add: code_unit_def json_hex_digit zero)
  have u: "map_of simple_escapes (CHR ''u'') = None"
    by (simp add: simple_escapes_def dquote_def backslash_def)
  have "length (utf8_encode n) = 2" if "\<not> n < 128" using that assms by (simp add: utf8_encode_def)
  then have "utf8_encode n = [char_of n] \<longleftrightarrow> n < 128"
    by (cases "n < 128") (auto simp: utf8_encode_def)
  then show ?thesis
    using cu [of "[]"] u assms
    by (simp add: unit_ok_def str_unit_def escape_len_def unit_value_def dquote_def backslash_def code_unit_def [of "[]"])
qed

lemma quote_char_simple:
  assumes "c \<in> {CHR 0x08, CHR 0x0C, CHR 0x0A, CHR 0x0D, CHR 0x09} \<or> c = dquote \<or> c = backslash"
  shows "unit_ok (quote_char c) c"
  using assms
  by (auto simp: unit_ok_def quote_char_def str_unit_def escape_len_def unit_value_def simple_escapes_def
      dquote_def backslash_def)

lemma quote_char_ok:
  assumes "char_code c < 128"
  shows "unit_ok (quote_char c) c"
proof -
  consider (simple) "c \<in> {CHR 0x08, CHR 0x0C, CHR 0x0A, CHR 0x0D, CHR 0x09} \<or> c = dquote \<or> c = backslash"
    | (control) "c \<notin> {CHR 0x08, CHR 0x0C, CHR 0x0A, CHR 0x0D, CHR 0x09}" "char_code c < 32"
        "c \<noteq> dquote" "c \<noteq> backslash"
    | (plain) "\<not> char_code c < 32" "c \<noteq> dquote" "c \<noteq> backslash" by blast
  then show ?thesis
  proof cases
    case simple
    then show ?thesis by (rule quote_char_simple)
  next
    case control
    then have "quote_char c = backslash # ''u00'' @ [hex_digit (char_code c div 16), hex_digit (char_code c mod 16)]"
      by (simp add: quote_char_def)
    moreover have "char_of (char_code c) = c" by (simp add: char_code_def)
    ultimately show ?thesis using hex_escape_ok [of "char_code c"] control(2) by simp
  next
    case plain
    then have "quote_char c = [c]" by (auto simp: quote_char_def char_code_def)
    with plain assms show ?thesis by (simp add: unit_ok_def str_unit_def utf8_len_def unit_value_def)
  qed
qed

lemma quote_char_unit:
  assumes "char_code c < 128"
  shows "str_unit (quote_char c @ r) = Some (length (quote_char c))" and "unit_value (quote_char c) = [c]"
    and "quote_char c \<noteq> []" and "hd (quote_char c) \<noteq> dquote"
proof -
  have "str_unit (quote_char c) = Some (length (quote_char c)) \<and> unit_value (quote_char c) = [c]
      \<and> hd (quote_char c) \<noteq> dquote"
    using quote_char_ok [OF assms] by (simp add: unit_ok_def)
  then show "str_unit (quote_char c @ r) = Some (length (quote_char c))" and "unit_value (quote_char c) = [c]"
    and "hd (quote_char c) \<noteq> dquote"
    using str_unit_split(4) [of "quote_char c" "length (quote_char c)" r] by auto
  show "quote_char c \<noteq> []" by (simp add: quote_char_def)
qed

lemma quote_units_scan:
  "quote_units s = Some us \<Longrightarrow> scan_units (concat us @ dquote # r) = Some (us, r) \<and> str_value us = s"
proof (induction s arbitrary: us rule: quote_units.induct)
  case (1 s)
  show ?case
  proof (cases s)
    case Nil
    with 1(3) show ?thesis
      by (subst (asm) quote_units.simps) (simp add: scan_units.simps [of "dquote # r"] str_value_def)
  next
    case (Cons c t)
    show ?thesis
    proof (cases "char_code c < 128")
      case True
      with 1(3) Cons obtain us' where us: "quote_units t = Some us'" "us = quote_char c # us'"
        by (subst (asm) quote_units.simps) auto
      from 1(1) [OF Cons True us(1)] have ih: "scan_units (concat us' @ dquote # r) = Some (us', r)" "str_value us' = t"
        by auto
      note q = quote_char_unit [OF True]
      obtain c' q' where c': "quote_char c = c' # q'" "c' \<noteq> dquote" using q(3,4) by (cases "quote_char c") auto
      from scan_units_step [OF q(1) c' ih(1)] us(2) Cons q(2) ih(2) show ?thesis by (simp add: str_value_def)
    next
      case False
      with 1(3) Cons obtain n us' where n: "utf8_len s = Some n" "quote_units (drop n s) = Some us'" "us = take n s # us'"
        by (subst (asm) quote_units.simps) (auto split: option.splits)
      from 1(2) [OF Cons False n(1,2)] have ih: "scan_units (concat us' @ dquote # r) = Some (us', r)"
        "str_value us' = drop n s" by auto
      have c: "c \<noteq> dquote" "c \<noteq> backslash" "\<not> char_code c < 32"
        using False by (auto simp: dquote_def backslash_def char_code_def)
      obtain u r2 where u: "s = u @ r2" "length u = n" "0 < n" "\<And>r'. utf8_len (u @ r') = Some n"
        using utf8_len_at [OF n(1)] by (auto simp: unit_at_def)
      then obtain u' where u': "u = c # u'" using Cons by (cases u) auto
      have "str_unit (u @ concat us' @ dquote # r) = Some (length u)" using u c u' by (simp add: str_unit_def)
      from scan_units_step [OF this u' c(1) ih(1)] have "scan_units (concat us @ dquote # r) = Some (us, r)"
        using n(3) u by simp
      moreover have "unit_value u = u" using u' c(2) by (cases u') (simp_all add: unit_value_def)
      ultimately show ?thesis using n(3) u ih(2) by (simp add: str_value_def)
    qed
  qed
qed

section \<open>Rows are valid objects\<close>

text \<open>Several tokens of the state machine.\<close>

fun jsteps :: "nat \<Rightarrow> jstate \<Rightarrow> jtoken list \<Rightarrow> jstate option" where
  "jsteps base s [] = Some s"
| "jsteps base s (t # ts) = (case jstep base s t of None \<Rightarrow> None | Some s' \<Rightarrow> jsteps base s' ts)"

lemma jsteps_append:
  "jsteps base s (ts @ us) = (case jsteps base s ts of None \<Rightarrow> None | Some s' \<Rightarrow> jsteps base s' us)"
  by (induction base s ts rule: jsteps.induct) (auto split: option.splits)

lemma jsteps_trans:
  "jsteps base s ts = Some s' \<Longrightarrow> jsteps base s' us = Some s'' \<Longrightarrow> jsteps base s (ts @ us) = Some s''"
  by (simp add: jsteps_append)

lemma jstep_nested:
  assumes "jstep base (st, ex) t = Some (st', ex')" and "base' + length outer \<le> base"
  shows "jstep base' (st @ outer, ex) t = Some (st' @ outer, ex')"
  using assms by (cases t) (auto split: if_splits list.splits jframe.splits)

lemma read_value_jsteps:
  "read_value base s ls = Some (vs, rest) \<Longrightarrow> s = (st, ex) \<Longrightarrow> base' + length outer \<le> base \<Longrightarrow>
     jsteps base' (st @ outer, ex) (map snd vs) = Some (outer, ExAfter)"
proof (induction base s ls arbitrary: vs st ex rule: read_value.induct)
  case (2 base s w t ls)
  from 2(2) obtain st1 ex1 where s1: "jstep base s t = Some (st1, ex1)" by (auto split: option.splits)
  with 2(3,4) have n: "jstep base' (st @ outer, ex) t = Some (st1 @ outer, ex1)" using jstep_nested by blast
  show ?case
  proof (cases "(st1, ex1) = ([], ExAfter)")
    case True
    with 2(2) s1 n show ?thesis by auto
  next
    case False
    with 2(2) s1 obtain vs' where v: "read_value base (st1, ex1) ls = Some (vs', rest)" "vs = (w, t) # vs'" by auto
    from 2(1) [OF s1 False v(1) refl 2(4)] v(2) n show ?thesis by simp
  qed
qed simp

lemma jstep_finished: "jstep base ([], ExAfter) t = None"
  by (cases t) (auto simp: value_ok_def)

lemma jsteps_read_value:
  "jsteps base s (map snd ls) = Some ([], ExAfter) \<Longrightarrow> ls \<noteq> [] \<Longrightarrow> read_value base s ls = Some (ls, [])"
proof (induction base s ls rule: read_value.induct)
  case (2 base s w t ls)
  from 2(2) obtain s' where s': "jstep base s t = Some s'" "jsteps base s' (map snd ls) = Some ([], ExAfter)"
    by (auto split: option.splits)
  show ?case
  proof (cases "s' = ([], ExAfter)")
    case True
    have "ls = []"
    proof (cases ls)
      case (Cons a list)
      with s'(2) True show ?thesis by (simp add: jstep_finished)
    qed
    with s' True show ?thesis by simp
  next
    case False
    with s'(2) have "ls \<noteq> []" by (cases ls) auto
    with 2(1) [OF s'(1) False s'(2)] s'(1) False show ?thesis by simp
  qed
qed simp

text \<open>A compact JSON value that may stand two levels deep: what a marshaled value must be.\<close>

definition cell_value :: "bytes \<Rightarrow> lexeme list \<Rightarrow> bool" where
  "cell_value b vs \<longleftrightarrow> read_value 2 start_state (lex b) = Some (vs, []) \<and> b = compact_text vs"

definition valid_cell :: "bytes \<Rightarrow> bool" where
  "valid_cell b \<longleftrightarrow>
     (case read_value 2 start_state (lex b) of Some (vs, []) \<Rightarrow> b = compact_text vs | _ \<Rightarrow> False)"

lemma valid_cell_value: "valid_cell b \<longleftrightarrow> (\<exists>vs. cell_value b vs)"
  by (auto simp: valid_cell_def cell_value_def split: option.splits list.splits)

text \<open>The members of a row as text, without the encoder's state.\<close>

fun members_text :: "bool \<Rightarrow> (bytes \<times> bytes) list \<Rightarrow> bytes" where
  "members_text later [] = []"
| "members_text later ((q, b) # ms) = (if later then '','' else []) @ q @ '':'' @ b @ members_text True ms"

fun members_tokens :: "bool \<Rightarrow> (string list \<times> lexeme list) list \<Rightarrow> jtoken list" where
  "members_tokens later [] = []"
| "members_tokens later ((us, vs) # ms) =
     (if later then [TComma] else []) @ [TStr us, TColon] @ map snd vs @ members_tokens True ms"

lemma members_jsteps:
  "(\<forall>(us, vs) \<in> set ms. \<exists>b. cell_value b vs) \<Longrightarrow> distinct (map (\<lambda>(us, _). str_value us) ms) \<Longrightarrow>
   (\<forall>(us, _) \<in> set ms. str_value us \<notin> set ns) \<Longrightarrow> base \<le> 1 \<Longrightarrow>
     (if later then ex = ExAfter else ex = ExFirstName) \<Longrightarrow>
     \<exists>ns' ex'. jsteps base ([FObj ns], ex) (members_tokens later ms) = Some ([FObj ns'], ex')
       \<and> (ex' = ExAfter \<or> (ms = [] \<and> ex' = ex))"
proof (induction later ms arbitrary: ns ex rule: members_tokens.induct)
  case (2 later us vs ms)
  from 2(2) obtain b where b: "read_value 2 start_state (lex b) = Some (vs, [])" by (auto simp: cell_value_def)
  have "base + length [FObj (str_value us # ns)] \<le> 2" using 2(5) by simp
  from read_value_jsteps [OF b _ this] have v: "jsteps base ([FObj (str_value us # ns)], ExValue) (map snd vs)
      = Some ([FObj (str_value us # ns)], ExAfter)" by (simp add: start_state_def)
  have new: "str_value us \<notin> set ns" using 2(4) by auto
  have first: "jsteps base ([FObj ns], ex) ((if later then [TComma] else []) @ [TStr us, TColon])
      = Some ([FObj (str_value us # ns)], ExValue)"
    using 2(6) new by (cases later) (auto simp: value_ok_def)
  have "\<exists>ns' ex'. jsteps base ([FObj (str_value us # ns)], ExAfter) (members_tokens True ms) = Some ([FObj ns'], ex')
      \<and> (ex' = ExAfter \<or> (ms = [] \<and> ex' = ExAfter))"
  proof (rule 2(1))
    show "\<forall>(us', _) \<in> set ms. str_value us' \<notin> set (str_value us # ns)" using 2(3,4) by force
  qed (use 2 in auto)
  then obtain ns' where r: "jsteps base ([FObj (str_value us # ns)], ExAfter) (members_tokens True ms)
      = Some ([FObj ns'], ExAfter)" by auto
  have "jsteps base ([FObj ns], ex) (((if later then [TComma] else []) @ [TStr us, TColon]) @ map snd vs
      @ members_tokens True ms) = Some ([FObj ns'], ExAfter)"
    by (rule jsteps_trans [OF first jsteps_trans [OF v r]])
  moreover have "members_tokens later ((us, vs) # ms)
      = ((if later then [TComma] else []) @ [TStr us, TColon]) @ map snd vs @ members_tokens True ms" by simp
  ultimately show ?case by metis
qed auto

text \<open>The text of a row, given its quoted names and its marshaled values.\<close>

definition object_text :: "(bytes \<times> bytes) list \<Rightarrow> bytes" where
  "object_text ms = ''{'' @ members_text False ms @ ''}''"

lemma tok_ok_string:
  assumes "quote_units s = Some us"
  shows "tok_ok (TStr us)"
  using quote_units_scan [OF assms]
  by (auto simp: tok_ok_def lex_token_def punctuation_def dquote_def json_space_def)

lemma tok_ok_punct: "tok_ok TBegObj" "tok_ok TEndObj" "tok_ok TComma" "tok_ok TColon"
  by (auto simp: tok_ok_def lex_token_def punctuation_def json_space_def)

lemma members_text_tokens:
  assumes "list_all2 (\<lambda>(us, vs) (q, b). q = tok_text (TStr us) \<and> cell_value b vs) ms tx"
  shows "concat (map tok_text (members_tokens later ms)) = members_text later tx"
  using assms
proof (induction ms tx arbitrary: later rule: list_all2_induct)
  case (Cons x xs y ys)
  obtain us vs q b where xy: "x = (us, vs)" "y = (q, b)" by fastforce
  with Cons have "b = concat (map tok_text (map snd vs))" by (simp add: cell_value_def compact_text_def comp_def)
  with Cons xy show ?case by simp
qed simp

lemma members_tokens_ok:
  assumes "list_all2 (\<lambda>(us, vs) (q, b). cell_value b vs) ms tx" and "\<forall>(us, vs) \<in> set ms. tok_ok (TStr us)"
    and "t \<in> set (members_tokens later ms)"
  shows "tok_ok t"
  using assms
proof (induction ms tx arbitrary: later rule: list_all2_induct)
  case (Cons x xs y ys)
  obtain us vs q b where xy: "x = (us, vs)" "y = (q, b)" by fastforce
  with Cons have "cell_value b vs" by simp
  then have b: "read_value 2 start_state (lex b) = Some (vs, [])" unfolding cell_value_def by blast
  have "tok_ok t'" if t': "t' \<in> snd ` set vs" for t'
  proof -
    obtain w where "(w, t') \<in> set (lex b)" using t' read_value_split [OF b] by auto
    moreover have "t' \<noteq> TBad" using t' read_value_sep [OF b] by blast
    ultimately show ?thesis by (rule lex_tokens_ok)
  qed
  moreover have "t \<in> {TComma, TColon, TStr us} \<or> t \<in> snd ` set vs \<or> t \<in> set (members_tokens True xs)"
    using Cons(5) xy by (auto split: if_splits)
  ultimately show ?case using Cons(3,4) xy tok_ok_punct by auto
qed simp

lemma object_text_valid:
  assumes q: "list_all2 (\<lambda>(us, vs) (q, b). q = tok_text (TStr us) \<and> cell_value b vs) ms tx"
    and ok: "\<forall>(us, vs) \<in> set ms. tok_ok (TStr us)"
    and d: "distinct (map (\<lambda>(us, _). str_value us) ms)" and ne: "ms \<noteq> []"
  shows "json_object 1 (object_text tx)" and "compact (object_text tx) = object_text tx"
proof -
  let ?ts = "TBegObj # members_tokens False ms @ [TEndObj]"
  have q2: "list_all2 (\<lambda>(us, vs) (q, b). cell_value b vs) ms tx"
    using q by (rule list_all2_mono) auto
  have "\<forall>(us, vs) \<in> set ms. \<exists>b. cell_value b vs"
    using q2 by (auto simp: list_all2_conv_all_nth in_set_conv_nth) (metis (mono_tags, lifting) case_prod_conv surj_pair)
  from members_jsteps [OF this d, of "[]" 1 False ExFirstName] ne
  obtain ns' where m: "jsteps 1 ([FObj []], ExFirstName) (members_tokens False ms) = Some ([FObj ns'], ExAfter)" by auto
  have "jsteps 1 ([FObj []], ExFirstName) (members_tokens False ms @ [TEndObj]) = Some ([], ExAfter)"
    by (rule jsteps_trans [OF m]) simp
  then have "jsteps 1 start_state ?ts = Some ([], ExAfter)"
    by (simp add: start_state_def value_ok_def max_depth_def)
  then have r: "read_value 1 start_state (map (Pair []) ?ts) = Some (map (Pair []) ?ts, [])"
    using jsteps_read_value [of 1 start_state "map (Pair []) ?ts"] by (simp add: comp_def)
  have tx: "concat (map tok_text ?ts) = object_text tx"
    using members_text_tokens [OF q, of False] by (simp add: object_text_def)
  have "sep ?ts" using read_value_sep [OF r] by (simp add: comp_def)
  moreover have "t \<in> set ?ts \<Longrightarrow> tok_ok t" for t
    using members_tokens_ok [OF q2 ok] tok_ok_punct by auto
  ultimately have "lex (concat (map tok_text ?ts) @ []) = map (Pair []) ?ts @ lex []"
    by (intro lex_texts) (auto simp: number_ends_def)
  then have l: "lex (object_text tx) = map (Pair []) ?ts" using tx by (simp add: comp_def)
  obtain us vs ms' where ms: "ms = (us, vs) # ms'" using ne by (cases ms) auto
  have "object_lexemes 1 (object_text tx) (map (Pair []) ?ts)"
    using r by (simp add: object_lexemes_def l nonempty_object_def ms)
  then show "json_object 1 (object_text tx)" by (auto simp: json_object_lexemes)
  from object_lexemes_compact(2) [OF \<open>object_lexemes 1 _ _\<close>] tx show "compact (object_text tx) = object_text tx"
    by (simp add: compact_text_def comp_def)
qed

text \<open>What EncodeRows needs of a row, and the object it writes for it.\<close>

definition row_ok :: "(('f, 'v) cell \<Rightarrow> bytes option) \<Rightarrow> ('f, 'v) cell row \<Rightarrow> bool" where
  "row_ok marshal r \<longleftrightarrow>
     row_cols r \<noteq> [] \<and> length (row_cols r) = length (row_vals r)
     \<and> list_all (\<lambda>n. quote_units n \<noteq> None) (column_names (row_cols r))
     \<and> list_all (\<lambda>v. case marshal_cell marshal v of Some b \<Rightarrow> valid_cell b | None \<Rightarrow> False) (row_vals r)"

definition row_object :: "(('f, 'v) cell \<Rightarrow> bytes option) \<Rightarrow> ('f, 'v) cell row \<Rightarrow> bytes" where
  "row_object marshal r =
     object_text (zip (map (\<lambda>n. the (quote n)) (column_names (row_cols r)))
                      (map (\<lambda>v. the (marshal_cell marshal v)) (row_vals r)))"

lemma write_members_text:
  "length names = length vals \<Longrightarrow> distinct names \<Longrightarrow> set seen \<inter> set names = {} \<Longrightarrow>
   (\<forall>n \<in> set names. quote n \<noteq> None) \<Longrightarrow> (\<forall>v \<in> set vals. marshal_cell marshal v \<noteq> None) \<Longrightarrow>
     write_members marshal i seen names vals out
       = Inr (out @ members_text (i > 0) (zip (map (\<lambda>n. the (quote n)) names)
                                              (map (\<lambda>v. the (marshal_cell marshal v)) vals)))"
proof (induction marshal i seen names vals out rule: write_members.induct)
  case (1 marshal i seen name names v vals out)
  from 1(5,6) obtain q b where qb: "quote name = Some q" "marshal_cell marshal v = Some b" by auto
  have new: "name \<notin> set seen" using 1(4) by auto
  have "write_members marshal (Suc i) (name # seen) names vals (out @ (if i > 0 then '','' else []) @ q @ '':'' @ b)
      = Inr ((out @ (if i > 0 then '','' else []) @ q @ '':'' @ b)
          @ members_text (Suc i > 0) (zip (map (\<lambda>n. the (quote n)) names)
                                          (map (\<lambda>v. the (marshal_cell marshal v)) vals)))"
    by (rule 1(1)) (use 1 new qb in auto)
  with qb new show ?case by simp
qed auto

lemma row_okD:
  assumes "row_ok marshal r"
  shows "write_row marshal (column_names (row_cols r)) (row_vals r) out = Inr (out @ row_object marshal r)"
    and "json_object 1 (row_object marshal r)" and "compact (row_object marshal r) = row_object marshal r"
proof -
  let ?names = "column_names (row_cols r)" and ?vals = "row_vals r"
  have names: "distinct ?names" "length ?names = length (row_cols r)" using column_names_facts by blast+
  have quotes: "\<forall>n \<in> set ?names. quote_units n \<noteq> None" using assms by (simp add: row_ok_def list_all_iff)
  have vals: "\<forall>v \<in> set ?vals. \<exists>b. marshal_cell marshal v = Some b \<and> valid_cell b"
    using assms by (fastforce simp: row_ok_def list_all_iff split: option.splits)
  have len: "length ?names = length ?vals" using assms names(2) by (simp add: row_ok_def)
  have "write_members marshal 0 [] ?names ?vals (out @ ''{'')
      = Inr ((out @ ''{'') @ members_text (0 < (0::nat)) (zip (map (\<lambda>n. the (quote n)) ?names)
          (map (\<lambda>v. the (marshal_cell marshal v)) ?vals)))"
    by (rule write_members_text) (use len names quotes vals in \<open>auto simp: quote_def\<close>)
  then show "write_row marshal ?names ?vals out = Inr (out @ row_object marshal r)"
    by (simp add: write_row_def len row_object_def object_text_def)
  define us where "us = map (\<lambda>n. the (quote_units n)) ?names"
  define vss where "vss = map (\<lambda>v. SOME vs. cell_value (the (marshal_cell marshal v)) vs) ?vals"
  have v: "cell_value (the (marshal_cell marshal v)) (SOME vs. cell_value (the (marshal_cell marshal v)) vs)"
    if "v \<in> set ?vals" for v
  proof -
    obtain b where "marshal_cell marshal v = Some b" "valid_cell b" using vals \<open>v \<in> set ?vals\<close> by blast
    then show ?thesis by (auto simp: valid_cell_value intro: someI)
  qed
  have ln: "length us = length vss" using len by (simp add: us_def vss_def)
  have ok: "\<forall>(u, vs) \<in> set (zip us vss). tok_ok (TStr u)"
    using quotes tok_ok_string by (fastforce simp: us_def dest: set_zip_leftD)
  have vals_eq: "map str_value us = ?names"
    using quotes quote_units_scan by (fastforce simp: us_def intro: map_idI)
  have "map (\<lambda>(u, _). str_value u) (zip us vss) = map str_value us"
    using ln by (induction us vss rule: list_induct2) auto
  then have d: "distinct (map (\<lambda>(u, _). str_value u) (zip us vss))" using vals_eq names(1) by simp
  have q: "list_all2 (\<lambda>(u, vs) (q, b). q = tok_text (TStr u) \<and> cell_value b vs) (zip us vss)
      (zip (map (\<lambda>n. the (quote n)) ?names) (map (\<lambda>v. the (marshal_cell marshal v)) ?vals))"
  proof -
    have "the (quote n) = tok_text (TStr (the (quote_units n)))" if "n \<in> set ?names" for n
      using that quotes by (auto simp: quote_def)
    then show ?thesis using len v by (simp add: list_all2_conv_all_nth us_def vss_def del: tok_text.simps)
  qed
  have ne: "zip us vss \<noteq> []"
    using assms names(2) ln by (cases us; cases vss) (auto simp: us_def row_ok_def)
  show "json_object 1 (row_object marshal r)" and "compact (row_object marshal r) = row_object marshal r"
    unfolding row_object_def using object_text_valid [OF q ok d ne] by blast+
qed

fun rows_text :: "bool \<Rightarrow> bool \<Rightarrow> bytes list \<Rightarrow> bytes" where
  "rows_text arr later [] = []"
| "rows_text arr later (o1 # objs) =
     (if arr \<and> later then '','' else []) @ o1 @ (if arr then [] else [newline]) @ rows_text arr True objs"

lemma write_rows_text:
  "\<forall>r \<in> set rows. row_ok marshal r \<Longrightarrow>
     write_rows marshal arr i rows out = Inr (out @ rows_text arr (i > 0) (map (row_object marshal) rows))"
  by (induction marshal arr i rows out rule: write_rows.induct) (auto simp: row_okD(1))

lemma rows_text_commas: "\<forall>o1 \<in> set objs. compact o1 = o1 \<Longrightarrow> rows_text True later objs = commas later objs"
  by (induction objs arbitrary: later) auto

lemma rows_text_lines: "rows_text False later objs = concat (map (\<lambda>o1. o1 @ [newline]) objs)"
  by (induction objs arbitrary: later) auto

lemma trim_newline_snoc: "trim_newline (b @ [newline]) = b"
  by (simp add: trim_newline_def trim_suffix_def has_suffix_def has_prefix_def)

text \<open>C20: Rows are encoded as JSON objects, one per row. If the rows have as many values as
  columns, at least one column, names that are valid UTF-8, and values that marshal to valid
  JSON (a non-finite float always does), then EncodeRows succeeds in each of the formats, and
  its payload is exactly what EncodeJSON makes of the objects whose members are the unique
  column names with the values, in column order; so decoding the payload gives these objects
  back, one for each row and in their order.\<close>

theorem rows_are_objects:
  assumes "f \<in> {fmt_json, fmt_json_array, fmt_ndjson}" and "\<forall>r \<in> set rows. row_ok marshal r"
  shows "\<exists>p. encode_rows marshal f rows = Inr p
    \<and> encode_json f (map (row_object marshal) rows) = Inr p
    \<and> decode_json (case p of Some b \<Rightarrow> b | None \<Rightarrow> []) = Inr (map (row_object marshal) rows)"
proof -
  let ?objs = "map (row_object marshal) rows"
  have ok: "\<forall>o1 \<in> set ?objs. json_object 1 o1" and cp: "\<forall>o1 \<in> set ?objs. compact o1 = o1"
    unfolding set_map using assms(2) row_okD(2,3) by blast+
  have cpm: "map compact ?objs = ?objs" using cp by (simp add: map_idI)
  obtain p where p: "encode_json f ?objs = Inr p"
    "decode_json (case p of Some b \<Rightarrow> b | None \<Rightarrow> []) = Inr ?objs"
    using encode_decode [OF assms(1) ok] cpm by auto
  have af: "\<forall>o1 \<in> set ?objs. append_format o1 = Some (compact o1)" using ok json_object_compact(1) by blast
  have "\<exists>q. encode_rows marshal f rows = Inr q \<and> encode_json f ?objs = Inr q"
  proof (cases rows)
    case Nil
    then show ?thesis using assms(1) by (auto simp: encode_rows_def encode_json_def empty_payload_def)
  next
    case (Cons r rs)
    then have ne: "0 < length rows" "1 < length rows \<longleftrightarrow> rs \<noteq> []" by simp_all
    have lines: "concat (map (\<lambda>(j, o1). (if False \<and> j > 0 then '','' else []) @ compact o1 @ [newline]) (enumerate 0 ?objs))
        = rows_text False False ?objs"
      using cp by (simp add: rows_text_lines map_enumerate_snd cong: map_cong)
    note wr = write_rows_text [OF assms(2)] and enc = encode_objects_ok [OF af]
    consider (nd) "f = fmt_ndjson" | (arr) "f = fmt_json_array \<or> f = fmt_json \<and> rs \<noteq> []"
      | (one) "f = fmt_json" "rs = []" using assms(1) by auto
    then show ?thesis
    proof cases
      case nd
      then show ?thesis
        using ne lines by (simp add: encode_rows_def encode_json_def empty_payload_def shape_def format_defs wr enc)
    next
      case arr
      have "trim_newline (CHR ''['' # commas False ?objs @ CHR '']'' # [newline]) = CHR ''['' # commas False ?objs @ '']''"
        using trim_newline_snoc [of "CHR ''['' # commas False ?objs @ '']''"] by simp
      with arr show ?thesis
        using ne rows_text_commas [OF cp, of False]
        by (auto simp: encode_rows_def encode_json_def empty_payload_def shape_def format_defs wr enc)
    next
      case one
      then have "rows = [r]" using Cons by simp
      then have "append_format (row_object marshal r) = Some (row_object marshal r)" using af cp by simp
      then have "encode_json f ?objs = Inr (Some (row_object marshal r))"
        using one ne \<open>rows = [r]\<close> by (simp add: encode_json_def empty_payload_def shape_def format_defs)
      moreover have "encode_rows marshal f rows = Inr (Some (trim_newline (row_object marshal r @ [newline])))"
        using one ne \<open>rows = [r]\<close> row_okD(1) [of marshal r "[]"] assms(2)
        by (simp add: encode_rows_def empty_payload_def shape_def format_defs)
      ultimately show ?thesis by (simp add: trim_newline_snoc)
    qed
  qed
  with p show ?thesis by auto
qed

definition demo_marshal :: "(nat, nat) cell \<Rightarrow> bytes option" where
  "demo_marshal c = (case c of OtherCell n \<Rightarrow> Some (itoa n) | FloatCell _ \<Rightarrow> None)"

definition demo_rows :: "(nat, nat) cell row list" where
  "demo_rows = [\<lparr>row_cols = [''id'', ''id''], row_vals = [OtherCell 7, FloatCell NaN]\<rparr>]"

theorem rows_are_objects_witness:
  "\<exists>p. encode_rows demo_marshal fmt_json demo_rows = Inr p
    \<and> decode_json (case p of Some b \<Rightarrow> b | None \<Rightarrow> []) = Inr [quoted ''{~id~:7,~id_2~:~NaN~}'']"
proof -
  have "list_all (row_ok demo_marshal) demo_rows" by code_simp
  then have ok: "\<forall>r \<in> set demo_rows. row_ok demo_marshal r" by (simp add: list_all_iff)
  have "map (row_object demo_marshal) demo_rows = [quoted ''{~id~:7,~id_2~:~NaN~}'']" by code_simp
  with rows_are_objects [of fmt_json, OF _ ok] show ?thesis by auto
qed

end
