(* ===== verification/BaseComponents.thy ===== *)
theory BaseComponents
  imports Config Cron
begin

text \<open>
  What collectors, receivers and senders have in common in the configuration file: URLs
  (ParseURL in pkg/config/parse.go), the base of a receiver (pkg/config/receiver.go) and the
  base of a collector with its schedule (pkg/config/collector.go).
\<close>

section \<open>Errors\<close>

text \<open>A call that may fail, and the error that its caller makes of that.\<close>

fun bind_sum :: "'e + 'a \<Rightarrow> ('a \<Rightarrow> 'e + 'b) \<Rightarrow> 'e + 'b" where
  "bind_sum (Inl e) k = Inl e"
| "bind_sum (Inr a) k = k a"

fun map_error :: "('e \<Rightarrow> 'f) \<Rightarrow> 'e + 'a \<Rightarrow> 'f + 'a" where
  "map_error f (Inl e) = Inl (f e)"
| "map_error f (Inr a) = Inr a"

lemma bind_sum_Inr: "bind_sum r k = Inr b \<longleftrightarrow> (\<exists>a. r = Inr a \<and> k a = Inr b)"
  by (cases r) auto

lemma map_error_Inr: "map_error f r = Inr a \<longleftrightarrow> r = Inr a"
  by (cases r) auto

section \<open>URLs\<close>

text \<open>
  A url.URL by the parts that this program looks at; \<open>url_rest\<close> stands for all the others,
  which it only passes on. Host and port are those that Hostname and Port return. The
  parser is net/url's, a parameter; the code adds its own checks to it.
\<close>

record url =
  url_scheme :: string
  url_opaque :: string
  url_hostname :: string
  url_port :: string
  url_raw_query :: string
  url_rest :: string

definition url_scheme_http :: string where "url_scheme_http = ''http''"
definition url_scheme_https :: string where "url_scheme_https = ''https''"

definition type_http :: string where "type_http = ''http''"
definition type_http3 :: string where "type_http3 = ''http3''"
definition type_sql :: string where "type_sql = ''sql''"

datatype url_error =
  UrlMissing
| UrlInvalid
| UrlNotAbsolute
| Http3NeedsHttps
| SchemeNotHttp
| UrlOpaque string
| UrlNoHost
| UrlBadPort string

definition bad_port :: "string \<Rightarrow> bool" where
  "bad_port p = (case atoi p of None \<Rightarrow> True | Some n \<Rightarrow> n < 1 \<or> n > 65535)"

definition parse_url ::
  "(string \<Rightarrow> url option) \<Rightarrow> string \<Rightarrow> string \<Rightarrow> bool \<Rightarrow> url_error + url option" where
  "parse_url url_parse raw_url http_version required =
     (let raw = trim_space raw_url
      in if raw = [] \<and> \<not> required then Inr None
         else if raw = [] \<and> required then Inl UrlMissing
         else (case url_parse raw of
                 None \<Rightarrow> Inl UrlInvalid
               | Some u0 \<Rightarrow>
                   (if url_scheme u0 = [] then Inl UrlNotAbsolute
                    else let u = u0\<lparr>url_scheme := to_lower (url_scheme u0)\<rparr>
                         in if url_scheme u \<noteq> url_scheme_https \<and> http_version = type_http3
                            then Inl Http3NeedsHttps
                            else if url_scheme u \<noteq> url_scheme_https \<and> url_scheme u \<noteq> url_scheme_http
                            then Inl SchemeNotHttp
                            else if url_opaque u \<noteq> [] then Inl (UrlOpaque (url_scheme u))
                            else if url_hostname u = [] then Inl UrlNoHost
                            else if url_port u \<noteq> [] \<and> bad_port (url_port u)
                            then Inl (UrlBadPort (url_port u))
                            else Inr (Some u))))"

text \<open>What the rest of the program may rely on.\<close>

definition url_ok :: "string \<Rightarrow> url \<Rightarrow> bool" where
  "url_ok http_version u \<longleftrightarrow>
     url_scheme u \<in> {url_scheme_http, url_scheme_https}
     \<and> (http_version = type_http3 \<longrightarrow> url_scheme u = url_scheme_https)
     \<and> url_opaque u = [] \<and> url_hostname u \<noteq> []
     \<and> (url_port u = [] \<or> (\<exists>n. atoi (url_port u) = Some n \<and> 1 \<le> n \<and> n \<le> 65535))"

lemma parse_url_ok: "parse_url url_parse raw v required = Inr (Some u) \<Longrightarrow> url_ok v u"
  by (auto simp: parse_url_def url_ok_def bad_port_def Let_def not_less
      split: if_splits option.splits)

lemma parse_url_none: "parse_url url_parse raw v required = Inr None \<Longrightarrow> \<not> required \<and> trim_space raw = []"
  by (auto simp: parse_url_def Let_def split: if_splits option.splits)

section \<open>PEM files\<close>

text \<open>Reading a file and recognising a PEM block in it are parameters.\<close>

record file_env =
  read_file :: "string \<Rightarrow> string option"
  pem_block :: "string \<Rightarrow> bool"

datatype pem_error =
  PemRequired string
| PemUnreadable string
| PemEmpty string
| PemInvalid string

definition load_pem_file :: "'a file_env_scheme \<Rightarrow> string \<Rightarrow> string \<Rightarrow> bool \<Rightarrow> pem_error + string option" where
  "load_pem_file env raw_path description required =
     (let path = trim_space raw_path
      in if required \<and> path = [] then Inl (PemRequired description)
         else if path = [] then Inr None
         else (case read_file env path of
                 None \<Rightarrow> Inl (PemUnreadable description)
               | Some data \<Rightarrow>
                   (if data = [] then Inl (PemEmpty description)
                    else if \<not> pem_block env data then Inl (PemInvalid description)
                    else Inr (Some data))))"

lemma load_pem_file_some:
  "load_pem_file env path d required = Inr (Some data) \<Longrightarrow>
     read_file env (trim_space path) = Some data \<and> data \<noteq> [] \<and> pem_block env data"
  by (auto simp: load_pem_file_def Let_def split: if_splits option.splits)

lemma load_pem_file_required:
  "load_pem_file env path d True \<noteq> Inr None"
  by (auto simp: load_pem_file_def Let_def split: option.splits)

section \<open>Receivers\<close>

text \<open>
  The senders are known by their names. \<open>send_to\<close> is the name of the one whose Send method
  the component calls; the fallback is the dead-letter queue, if there is one.
\<close>

definition valid_receiver_types :: "string list" where
  "valid_receiver_types = [type_http, type_http3]"

definition valid_collector_types :: "string list" where
  "valid_collector_types = [type_http, type_http3, type_sql]"

definition sender_type_dlq :: string where
  "sender_type_dlq = ''dead_letter_queue''"

record base_receiver =
  base_type :: string
  base_name :: string
  destination :: string
  send_to :: "string option"
  has_fallback :: bool

datatype base_error =
  TypeMissing
| UnrecognizedBaseType string
| UnrecognizedDestination string
| ScheduleAndTrigger
| NoScheduleNorTrigger
| InvalidTimeZone string
| InvalidSchedule cron_error
| NeverRuns string

definition read_base :: "table \<Rightarrow> string \<Rightarrow> string list \<Rightarrow> base_receiver" where
  "read_base cfg name senders =
     (let dest = trim_space (cfg_value as_string cfg ''destination'' [])
      in \<lparr>base_type = to_lower (trim_space (cfg_value as_string cfg ''type'' [])),
          base_name = name, destination = dest,
          send_to = (if dest \<in> set senders then Some dest else None),
          has_fallback = (sender_type_dlq \<in> set senders)\<rparr>)"

definition check_base :: "string list \<Rightarrow> base_receiver \<Rightarrow> base_error option" where
  "check_base valid_types r =
     (if base_type r = [] then Some TypeMissing
      else if base_type r \<notin> set valid_types then Some (UnrecognizedBaseType (base_type r))
      else if send_to r = None then Some (UnrecognizedDestination (destination r))
      else None)"

definition new_base_receiver :: "table \<Rightarrow> string \<Rightarrow> string list \<Rightarrow> base_error + base_receiver" where
  "new_base_receiver cfg name senders =
     (let r = read_base cfg name senders
      in case check_base valid_receiver_types r of Some e \<Rightarrow> Inl e | None \<Rightarrow> Inr r)"

section \<open>Collectors\<close>

text \<open>
  Time zones are loaded from the system's database, a parameter, and so are the local zone
  and its name. A zone is returned with its label.
\<close>

record zones =
  load_zone :: "string \<Rightarrow> location option"
  local_zone :: location
  local_name :: string

definition load_location :: "zones \<Rightarrow> string \<Rightarrow> location option \<times> string" where
  "load_location z timezone_name =
     (let tz = trim_space timezone_name; t = to_lower tz
      in if t = [] \<or> t = ''utc'' then (Some utc, ''UTC'')
         else if t = ''local'' then (Some (local_zone z), local_name z)
         else (case load_zone z tz of Some loc \<Rightarrow> (Some loc, tz) | None \<Rightarrow> (None, tz)))"

record base_collector = base_receiver +
  cronspec :: string
  sched :: "schedule option"
  trigger :: string
  concurrency :: int

definition extend_base :: "base_receiver \<Rightarrow> string \<Rightarrow> string \<Rightarrow> int \<Rightarrow> base_collector" where
  "extend_base r spec trig n =
     \<lparr>base_type = base_type r, base_name = base_name r, destination = destination r,
      send_to = send_to r, has_fallback = has_fallback r,
      cronspec = spec, sched = None, trigger = trig, concurrency = n\<rparr>"

text \<open>
  The schedule of a collector. The outer option is \<open>None\<close> if the search for the first time
  never returns.
\<close>

definition set_schedule ::
  "zones \<Rightarrow> instant \<Rightarrow> table \<Rightarrow> base_collector \<Rightarrow> (base_error + base_collector) option" where
  "set_schedule z now cfg c =
     (let (tz, label) = load_location z (cfg_value as_string cfg ''timezone'' ''UTC'')
      in case tz of None \<Rightarrow> Some (Inl (InvalidTimeZone label))
         | Some loc \<Rightarrow>
              (case parse_cron (cronspec c) (Some loc) of
                 Inl e \<Rightarrow> Some (Inl (InvalidSchedule e))
               | Inr s \<Rightarrow>
                   (let spec = ''TZ='' @ label @ '' '' @ cronspec c
                    in if runs_only_once s then Some (Inr (c\<lparr>cronspec := spec, sched := Some s\<rparr>))
                       else (case next_time s now now of
                               (s1, None) \<Rightarrow> None
                             | (s1, Some t) \<Rightarrow>
                                 (if t = zero_time then Some (Inl (NeverRuns spec))
                                  else Some (Inr (c\<lparr>cronspec := spec, sched := Some s1\<rparr>)))))))"

definition new_base_collector ::
  "zones \<Rightarrow> instant \<Rightarrow> table \<Rightarrow> string \<Rightarrow> string list \<Rightarrow> (base_error + base_collector) option" where
  "new_base_collector z now cfg name senders =
     (let r = read_base cfg name senders;
          c = extend_base r (cfg_value as_string cfg ''schedule'' [])
                (cfg_value as_string cfg ''trigger'' []) (concurrency_limit cfg)
      in case check_base valid_collector_types r of
           Some e \<Rightarrow> Some (Inl e)
         | None \<Rightarrow>
             (if cronspec c \<noteq> [] \<and> trigger c \<noteq> [] then Some (Inl ScheduleAndTrigger)
              else if trigger c \<noteq> [] then Some (Inr c)
              else if cronspec c = [] then Some (Inl NoScheduleNorTrigger)
              else set_schedule z now cfg c))"

section \<open>Properties\<close>

lemma check_base_None:
  "check_base types r = None \<longleftrightarrow> base_type r \<noteq> [] \<and> base_type r \<in> set types \<and> send_to r \<noteq> None"
  by (auto simp: check_base_def)

lemma read_base_send_to:
  "send_to (read_base cfg name senders) = Some d \<longleftrightarrow>
     d \<in> set senders \<and> d = destination (read_base cfg name senders)"
  by (auto simp: read_base_def Let_def)

lemma new_base_receiver_ok:
  "new_base_receiver cfg name senders = Inr r \<Longrightarrow>
     base_type r \<in> set valid_receiver_types \<and> send_to r = Some (destination r)
     \<and> destination r \<in> set senders"
  using read_base_send_to [of cfg name senders]
  by (auto simp: new_base_receiver_def Let_def check_base_None split: option.splits)

text \<open>A schedule that some moment satisfies.\<close>

definition runs_sometime :: "schedule \<Rightarrow> bool" where
  "runs_sometime s \<longleftrightarrow>
     one_time s \<or> every s \<ge> second \<or> (\<exists>t. matches s (the (timezone s)) t)"

lemma schedule_ok_next:
  assumes "schedule_ok s" and "\<not> one_time s" and "next_time s now now = (s1, Some t)" and "t \<noteq> zero_time"
  shows "s1 = s \<and> runs_sometime s"
proof (cases "calendar_ok s")
  case True
  then obtain loc where loc: "timezone s = Some loc" and s: "\<not> one_time_left s" "every s = 0"
    by (auto simp: calendar_ok_def)
  have "next_loop s loc (add_date loc now 8 0 1) (truncate_to minute (now + minute)) = Some t"
    and s1: "s1 = s\<lparr>one_time_left := False\<rparr>"
    using assms(3) loc s by (simp_all add: next_time_def Let_def)
  from next_loop_sound [OF this(1)] assms(4) have "matches s loc t" by simp
  moreover have "s1 = s" using s1 s(1) by simp
  ultimately show ?thesis using loc by (auto simp: runs_sometime_def)
next
  case False
  with assms(1,2) obtain d where "second \<le> d" "s = zero_schedule\<lparr>every := d\<rparr>"
    by (auto simp: schedule_ok_def)
  moreover from this have "s1 = s" using assms(3) by (auto simp: next_time_def zero_schedule_def)
  ultimately show ?thesis by (simp add: runs_sometime_def)
qed

lemma set_schedule_ok:
  assumes "set_schedule z now cfg c = Some (Inr c')"
  shows "\<exists>spec s. c' = c\<lparr>cronspec := spec, sched := Some s\<rparr> \<and> schedule_ok s \<and> runs_sometime s"
proof -
  obtain tz label where l: "load_location z (cfg_value as_string cfg ''timezone'' ''UTC'') = (tz, label)"
    by fastforce
  with assms obtain loc s where tz: "tz = Some loc" and s: "parse_cron (cronspec c) (Some loc) = Inr s"
    by (auto simp: set_schedule_def split: option.splits sum.splits)
  note l = l [unfolded tz]
  have ok: "schedule_ok s" using s by (rule parse_cron_ok)
  show ?thesis
  proof (cases "one_time s")
    case True
    with assms l s ok show ?thesis
      by (auto simp: set_schedule_def runs_only_once_def runs_sometime_def split: if_splits)
  next
    case False
    obtain s1 q where n: "next_time s now now = (s1, q)" by fastforce
    with assms l s False obtain t where t: "q = Some t" "t \<noteq> zero_time"
      and c: "c' = c\<lparr>cronspec := ''TZ='' @ label @ '' '' @ cronspec c, sched := Some s1\<rparr>"
      by (cases q) (auto simp: set_schedule_def runs_only_once_def Let_def split: if_splits)
    have "s1 = s \<and> runs_sometime s" using schedule_ok_next [OF ok False] n t by simp
    with c ok show ?thesis by blast
  qed
qed

lemma accepted_collector_ok:
  assumes "new_base_collector z now cfg name senders = Some (Inr c)"
  shows "base_type c \<in> set valid_collector_types
    \<and> send_to c = Some (destination c) \<and> destination c \<in> set senders
    \<and> 1 \<le> concurrency c \<and> concurrency c \<le> 100
    \<and> (case sched c of None \<Rightarrow> trigger c \<noteq> []
       | Some s \<Rightarrow> trigger c = [] \<and> schedule_ok s \<and> runs_sometime s)"
proof -
  define c0 where "c0 = extend_base (read_base cfg name senders) (cfg_value as_string cfg ''schedule'' [])
    (cfg_value as_string cfg ''trigger'' []) (concurrency_limit cfg)"
  have base: "check_base valid_collector_types (read_base cfg name senders) = None"
    and c: "(trigger c0 \<noteq> [] \<and> c = c0) \<or> (trigger c0 = [] \<and> set_schedule z now cfg c0 = Some (Inr c))"
    using assms unfolding new_base_collector_def Let_def c0_def [symmetric]
    by (auto split: option.splits if_splits)
  have c0: "base_type c0 \<in> set valid_collector_types \<and> send_to c0 = Some (destination c0)
      \<and> destination c0 \<in> set senders \<and> 1 \<le> concurrency c0 \<and> concurrency c0 \<le> 100 \<and> sched c0 = None"
    using base read_base_send_to [of cfg name senders] bounded_int_range [of 1 100]
    by (auto simp: c0_def extend_base_def check_base_None concurrency_limit_def Let_def
        default_concurrency_limit_def max_concurrency_def)
  from c show ?thesis
  proof
    assume "trigger c0 \<noteq> [] \<and> c = c0"
    with c0 show ?thesis by simp
  next
    assume t: "trigger c0 = [] \<and> set_schedule z now cfg c0 = Some (Inr c)"
    with set_schedule_ok obtain spec s where
      "c = c0\<lparr>cronspec := spec, sched := Some s\<rparr>" "schedule_ok s" "runs_sometime s" by blast
    with c0 t show ?thesis by simp
  qed
qed

text \<open>
  What can be wrong with the section of a collector, each fault for itself, and the order in
  which the faults are reported.
\<close>

inductive base_fault :: "zones \<Rightarrow> instant \<Rightarrow> table \<Rightarrow> string list \<Rightarrow> base_error \<Rightarrow> bool" for z now cfg senders where
  no_type: "trim_space (cfg_value as_string cfg ''type'' []) = [] \<Longrightarrow> base_fault z now cfg senders TypeMissing"
| bad_type: "to_lower (trim_space (cfg_value as_string cfg ''type'' [])) = t \<Longrightarrow> t \<notin> {''http'', ''http3'', ''sql''}
    \<Longrightarrow> base_fault z now cfg senders (UnrecognizedBaseType t)"
| bad_destination: "trim_space (cfg_value as_string cfg ''destination'' []) = d \<Longrightarrow> d \<notin> set senders
    \<Longrightarrow> base_fault z now cfg senders (UnrecognizedDestination d)"
| both: "cfg_value as_string cfg ''schedule'' [] \<noteq> [] \<Longrightarrow> cfg_value as_string cfg ''trigger'' [] \<noteq> []
    \<Longrightarrow> base_fault z now cfg senders ScheduleAndTrigger"
| neither: "cfg_value as_string cfg ''schedule'' [] = [] \<Longrightarrow> cfg_value as_string cfg ''trigger'' [] = []
    \<Longrightarrow> base_fault z now cfg senders NoScheduleNorTrigger"
| bad_zone: "cfg_value as_string cfg ''schedule'' [] \<noteq> []
    \<Longrightarrow> load_location z (cfg_value as_string cfg ''timezone'' ''UTC'') = (None, label)
    \<Longrightarrow> base_fault z now cfg senders (InvalidTimeZone label)"
| bad_schedule: "cfg_value as_string cfg ''schedule'' [] = spec \<Longrightarrow> spec \<noteq> []
    \<Longrightarrow> load_location z (cfg_value as_string cfg ''timezone'' ''UTC'') = (Some loc, label)
    \<Longrightarrow> parse_cron spec (Some loc) = Inl e \<Longrightarrow> base_fault z now cfg senders (InvalidSchedule e)"
| never: "cfg_value as_string cfg ''schedule'' [] = spec \<Longrightarrow> spec \<noteq> []
    \<Longrightarrow> load_location z (cfg_value as_string cfg ''timezone'' ''UTC'') = (Some loc, label)
    \<Longrightarrow> parse_cron spec (Some loc) = Inr s \<Longrightarrow> \<not> one_time s \<Longrightarrow> snd (next_time s now now) = Some zero_time
    \<Longrightarrow> base_fault z now cfg senders (NeverRuns (''TZ='' @ label @ '' '' @ spec))"

fun fault_rank :: "base_error \<Rightarrow> nat" where
  "fault_rank TypeMissing = 0"
| "fault_rank (UnrecognizedBaseType _) = 1"
| "fault_rank (UnrecognizedDestination _) = 2"
| "fault_rank ScheduleAndTrigger = 3"
| "fault_rank NoScheduleNorTrigger = 4"
| "fault_rank (InvalidTimeZone _) = 5"
| "fault_rank (InvalidSchedule _) = 6"
| "fault_rank (NeverRuns _) = 7"

lemma to_lower_Nil [simp]: "to_lower s = [] \<longleftrightarrow> s = []"
  by (simp add: to_lower_def)

lemma check_base_fault:
  assumes r_def: "r = read_base cfg name senders"
  shows "check_base valid_collector_types r = Some e \<Longrightarrow>
      base_fault z now cfg senders e \<and> fault_rank e \<le> 2 \<and> (\<forall>f. base_fault z now cfg senders f \<longrightarrow> fault_rank e \<le> fault_rank f)"
    and "check_base valid_collector_types r = None \<Longrightarrow> base_fault z now cfg senders f \<Longrightarrow> 3 \<le> fault_rank f"
proof -
  have v: "t \<in> set valid_collector_types \<longleftrightarrow> t \<in> {''http'', ''http3'', ''sql''}" for t
    by (auto simp: valid_collector_types_def type_http_def type_http3_def type_sql_def)
  show "base_fault z now cfg senders e \<and> fault_rank e \<le> 2 \<and> (\<forall>f. base_fault z now cfg senders f \<longrightarrow> fault_rank e \<le> fault_rank f)"
    if "check_base valid_collector_types r = Some e"
    using that unfolding check_base_def r_def read_base_def Let_def v
    by (auto simp: base_fault.simps split: if_splits)
  show "3 \<le> fault_rank f" if "check_base valid_collector_types r = None" "base_fault z now cfg senders f"
    using that(2,1) unfolding check_base_def r_def read_base_def Let_def v
    by (cases rule: base_fault.cases) (auto split: if_splits)
qed

lemma set_schedule_fault:
  assumes "cronspec c = cfg_value as_string cfg ''schedule'' []" and "cronspec c \<noteq> []"
  shows "set_schedule z now cfg c = Some (Inl e) \<Longrightarrow>
      base_fault z now cfg senders e \<and> 5 \<le> fault_rank e \<and> (\<forall>f. base_fault z now cfg senders f \<and> 5 \<le> fault_rank f \<longrightarrow> fault_rank e \<le> fault_rank f)"
    and "set_schedule z now cfg c = Some (Inr c') \<Longrightarrow> base_fault z now cfg senders f \<Longrightarrow> fault_rank f < 5"
proof -
  obtain tz label where l: "load_location z (cfg_value as_string cfg ''timezone'' ''UTC'') = (tz, label)" by fastforce
  show "base_fault z now cfg senders e \<and> 5 \<le> fault_rank e \<and> (\<forall>f. base_fault z now cfg senders f \<and> 5 \<le> fault_rank f \<longrightarrow> fault_rank e \<le> fault_rank f)"
    if "set_schedule z now cfg c = Some (Inl e)"
    using that l assms unfolding set_schedule_def Let_def
    by (auto simp: base_fault.simps runs_only_once_def split: option.splits sum.splits if_splits prod.splits)
  show "fault_rank f < 5" if "set_schedule z now cfg c = Some (Inr c')" "base_fault z now cfg senders f"
    using that(2,1) l assms unfolding set_schedule_def Let_def
    by (cases rule: base_fault.cases)
      (auto simp: runs_only_once_def split: option.splits sum.splits if_splits prod.splits)
qed

text \<open>C36: What a collector that passes the checks may rely on, and why one does not pass. A
  collector that is accepted has no fault: its type is known, its destination is the name of a
  sender, its concurrency is within the documented bounds, and it has either a trigger or else
  a well-formed schedule, which some moment satisfies. If the section of a collector is
  refused, then the error names a fault that it has, and of all its faults the first in this
  order: the type, the destination, schedule and trigger, the time zone, the schedule.\<close>

theorem new_base_collector_ok:
  assumes "new_base_collector z now cfg name senders = Some r"
  shows "case r of
      Inr c \<Rightarrow> (\<forall>e. \<not> base_fault z now cfg senders e)
        \<and> base_type c \<in> set valid_collector_types
        \<and> send_to c = Some (destination c) \<and> destination c \<in> set senders
        \<and> 1 \<le> concurrency c \<and> concurrency c \<le> 100
        \<and> (case sched c of None \<Rightarrow> trigger c \<noteq> []
           | Some s \<Rightarrow> trigger c = [] \<and> schedule_ok s \<and> runs_sometime s)
    | Inl e \<Rightarrow> base_fault z now cfg senders e
        \<and> (\<forall>f. base_fault z now cfg senders f \<longrightarrow> fault_rank e \<le> fault_rank f)"
proof -
  define b where "b = read_base cfg name senders"
  define c where "c = extend_base b (cfg_value as_string cfg ''schedule'' [])
    (cfg_value as_string cfg ''trigger'' []) (concurrency_limit cfg)"
  have c: "cronspec c = cfg_value as_string cfg ''schedule'' []" "trigger c = cfg_value as_string cfg ''trigger'' []"
    by (simp_all add: c_def extend_base_def)
  consider (base) e where "check_base valid_collector_types b = Some e" "r = Inl e"
    | (both) "check_base valid_collector_types b = None" "cronspec c \<noteq> []" "trigger c \<noteq> []" "r = Inl ScheduleAndTrigger"
    | (trigger) "check_base valid_collector_types b = None" "cronspec c = []" "trigger c \<noteq> []" "r = Inr c"
    | (neither) "check_base valid_collector_types b = None" "cronspec c = []" "trigger c = []" "r = Inl NoScheduleNorTrigger"
    | (sched) "check_base valid_collector_types b = None" "cronspec c \<noteq> []" "trigger c = []" "set_schedule z now cfg c = Some r"
    using assms unfolding new_base_collector_def Let_def b_def [symmetric] c_def [symmetric]
    by (auto split: option.splits if_splits)
  then have "case r of Inr c \<Rightarrow> \<forall>e. \<not> base_fault z now cfg senders e
    | Inl e \<Rightarrow> base_fault z now cfg senders e \<and> (\<forall>f. base_fault z now cfg senders f \<longrightarrow> fault_rank e \<le> fault_rank f)"
  proof cases
    case base
    then show ?thesis using check_base_fault(1) [OF b_def] by fastforce
  next
    case both
    then show ?thesis using check_base_fault(2) [OF b_def] c by (fastforce intro: base_fault.both)
  next
    case trigger
    have "\<not> base_fault z now cfg senders e" for e
    proof
      assume f: "base_fault z now cfg senders e"
      then have "3 \<le> fault_rank e" using check_base_fault(2) [OF b_def trigger(1)] by simp
      with f show False by (cases rule: base_fault.cases) (use trigger c in auto)
    qed
    with trigger show ?thesis by simp
  next
    case neither
    have "4 \<le> fault_rank f" if f: "base_fault z now cfg senders f" for f
    proof -
      have "3 \<le> fault_rank f" using f check_base_fault(2) [OF b_def neither(1)] by simp
      with f show ?thesis by (cases rule: base_fault.cases) (use neither c in auto)
    qed
    with neither c show ?thesis by (auto intro: base_fault.neither)
  next
    case sched
    have five: "5 \<le> fault_rank f" if f: "base_fault z now cfg senders f" for f
    proof -
      have "3 \<le> fault_rank f" using f check_base_fault(2) [OF b_def sched(1)] by simp
      with f show ?thesis by (cases rule: base_fault.cases) (use sched c in auto)
    qed
    show ?thesis
    proof (cases r)
      case (Inl e)
      with set_schedule_fault(1) [OF c(1) sched(2), of z now e senders] sched(4) five show ?thesis by simp
    next
      case (Inr c')
      have "\<not> base_fault z now cfg senders f" for f
        using set_schedule_fault(2) [OF c(1) sched(2), of z now c' senders f] sched(4) five [of f] Inr by auto
      with Inr show ?thesis by simp
    qed
  qed
  then show ?thesis using assms accepted_collector_ok [of z now cfg name senders] by (cases r) simp_all
qed

lemma next_time_now: "\<not> one_time_left s \<Longrightarrow> next_time s now t = next_time s now' t"
  by (simp add: next_time_def Let_def)

lemma parse_cron_utc: "parse_cron spec (Some utc) = parse_cron spec None"
proof -
  have "parse_fields fs (Some utc) = parse_fields fs None" for fs by (simp add: parse_fields_def)
  then show ?thesis by (simp add: parse_cron_def Let_def)
qed

definition demo_zones :: zones where
  "demo_zones = \<lparr>load_zone = (\<lambda>_. None), local_zone = utc, local_name = ''UTC''\<rparr>"

definition demo_collector_config :: table where
  "demo_collector_config = [(''type'', TString ''sql''), (''destination'', TString ''stdout''),
     (''schedule'', TString ''* * * * *'')]"

lemma demo_collector:
  "new_base_collector demo_zones 1 demo_collector_config ''c'' [''stdout''] = Some (Inr
     \<lparr>base_type = ''sql'', base_name = ''c'', destination = ''stdout'', send_to = Some ''stdout'',
      has_fallback = False, cronspec = ''TZ=UTC * * * * *'', sched = Some minutely, trigger = [],
      concurrency = 1\<rparr>)"
proof -
  have read: "read_base demo_collector_config ''c'' [''stdout''] =
      \<lparr>base_type = ''sql'', base_name = ''c'', destination = ''stdout'', send_to = Some ''stdout'',
       has_fallback = False\<rparr>"
    and conc: "concurrency_limit demo_collector_config = 1"
    and vals: "cfg_value as_string demo_collector_config ''schedule'' [] = ''* * * * *''"
      "cfg_value as_string demo_collector_config ''trigger'' [] = []"
    and tz: "cfg_value as_string demo_collector_config ''timezone'' ''UTC'' = ''UTC''"
      "to_lower (trim_space ''UTC'') = ''utc''"
    by code_simp+
  have zone: "load_location demo_zones (cfg_value as_string demo_collector_config ''timezone'' ''UTC'')
      = (Some utc, ''UTC'')"
    using tz by (simp add: load_location_def Let_def)
  have parsed: "parse_cron ''* * * * *'' (Some utc) = Inr minutely"
    using minutely_parsed by (simp add: parse_cron_utc)
  have "\<not> one_time_left minutely" and one: "\<not> one_time minutely" by code_simp+
  then have "next_time minutely 1 1 = (minutely, Some 60000000000)"
    using minutely_next next_time_now [of minutely 1 1 0] by simp
  with read conc vals zone parsed one show ?thesis
    by (simp add: new_base_collector_def set_schedule_def check_base_def extend_base_def Let_def
        valid_collector_types_def type_sql_def runs_only_once_def)
qed

theorem new_base_collector_ok_witness:
  "schedule_ok minutely \<and> runs_sometime minutely \<and> (\<forall>e. \<not> base_fault demo_zones 1 demo_collector_config [''stdout''] e)"
  using new_base_collector_ok [OF demo_collector] by simp

end
