(* ===== verification/HttpTls.thy ===== *)
theory HttpTls
  imports BaseComponents
begin

text \<open>
  The TLS settings of HTTP clients and servers (pkg/http/tls.go), and the identity of a
  client transport. Files, certificates and SHA-256 are parameters.
\<close>

section \<open>Settings\<close>

datatype client_auth = NoClientCert | RequireAnyClientCert | RequireAndVerifyClientCert

text \<open>
  A tls.Config by the fields that are set here; a certificate is its chain of DER blocks.
  Versions are the protocol's own numbers.
\<close>

record tls_config =
  min_version :: nat
  insecure_skip_verify :: bool
  root_cas :: "string option"
  client_cas :: "string option"
  certificates :: "string list list"
  client_auth_type :: client_auth
  next_protos :: "string list"

definition zero_tls :: tls_config where
  "zero_tls = \<lparr>min_version = 0, insecure_skip_verify = False, root_cas = None, client_cas = None,
     certificates = [], client_auth_type = NoClientCert, next_protos = []\<rparr>"

definition version_tls12 :: nat where "version_tls12 = 771"
definition version_tls13 :: nat where "version_tls13 = 772"

record tls_env = file_env +
  append_certs :: "string \<Rightarrow> bool"
  key_pair :: "string \<Rightarrow> string \<Rightarrow> string list option"
  sha256_hex :: "string \<Rightarrow> string"

datatype tls_error =
  TlsNotATable
| WrongSide string
| Tls12OverQuic
| DeprecatedTls string
| InvalidTls string
| TlsFile pem_error
| BadCertPool string
| MissingKey string
| MissingCert string
| BadKeyPair string
| MtlsOverQuic

definition parse_tls_min_version :: "string \<Rightarrow> string \<Rightarrow> tls_error + nat" where
  "parse_tls_min_version raw_ver http_ver =
     (let tls_ver = trim_space raw_ver
      in if tls_ver = ''1.3'' \<or> tls_ver = [] then Inr version_tls13
         else if tls_ver = ''1.2'' \<and> http_ver \<noteq> ''http3'' then Inr version_tls12
         else if tls_ver = ''1.2'' \<and> http_ver = ''http3'' then Inl Tls12OverQuic
         else if tls_ver = ''1.0'' \<or> tls_ver = ''1.1'' then Inl (DeprecatedTls tls_ver)
         else Inl (InvalidTls tls_ver))"

definition default_tls_min_version :: string where "default_tls_min_version = ''1.3''"

definition parse_dont_verify_clients :: "table \<Rightarrow> bool" where
  "parse_dont_verify_clients cfg = cfg_value as_bool cfg ''dont_verify'' False"

definition parse_dont_verify_servers :: "table \<Rightarrow> tls_config \<Rightarrow> client_auth" where
  "parse_dont_verify_servers cfg t =
     (if client_cas t = None then NoClientCert
      else if cfg_value as_bool cfg ''dont_verify'' False then RequireAnyClientCert
      else RequireAndVerifyClientCert)"

text \<open>The pool and the bytes it was made of; both are nil without a file.\<close>

definition load_cert_pool :: "tls_env \<Rightarrow> string \<Rightarrow> string \<Rightarrow> tls_error + string option" where
  "load_cert_pool env path description =
     (case load_pem_file env path description False of
        Inl e \<Rightarrow> Inl (TlsFile e)
      | Inr None \<Rightarrow> Inr None
      | Inr (Some cert) \<Rightarrow>
          (if \<not> append_certs env cert then Inl (BadCertPool description) else Inr (Some cert)))"

definition load_key_pair ::
  "tls_env \<Rightarrow> table \<Rightarrow> string \<Rightarrow> string \<Rightarrow> string \<Rightarrow> bool \<Rightarrow> tls_error + string list list" where
  "load_key_pair env cfg cert_field key_field description required =
     (case load_pem_file env (cfg_value as_string cfg cert_field []) (description @ '' certificate'') required of
        Inl e \<Rightarrow> Inl (TlsFile e)
      | Inr cert \<Rightarrow>
          (case load_pem_file env (cfg_value as_string cfg key_field []) (description @ '' private key'') required of
             Inl e \<Rightarrow> Inl (TlsFile e)
           | Inr key \<Rightarrow>
               (case (cert, key) of
                  (None, None) \<Rightarrow> Inr []
                | (Some c, None) \<Rightarrow> Inl (MissingKey description)
                | (None, Some k) \<Rightarrow> Inl (MissingCert description)
                | (Some c, Some k) \<Rightarrow>
                    (case key_pair env c k of
                       None \<Rightarrow> Inl (BadKeyPair description)
                     | Some chain \<Rightarrow> Inr [chain]))))"

section \<open>Clients\<close>

text \<open>What is written into the hash, in this order, each part followed by a zero byte.\<close>

definition nul :: char where "nul = CHR 0x00"

definition bool_text :: "bool \<Rightarrow> string" where
  "bool_text b = (if b then ''true'' else ''false'')"

definition tls_fingerprint :: "tls_config \<Rightarrow> string" where
  "tls_fingerprint t =
     itoa (min_version t) @ [nul] @ bool_text (insecure_skip_verify t) @ [nul]
     @ (case root_cas t of None \<Rightarrow> [] | Some raw \<Rightarrow> raw) @ [nul]
     @ (case certificates t of [] \<Rightarrow> [] | chain # _ \<Rightarrow> concat (map (\<lambda>der. der @ [nul]) chain))"

definition server_side_keys :: "string list" where
  "server_side_keys = [''server_cert_file'', ''server_key_file'', ''mtls_client_ca_cert_file'']"

definition client_side_keys :: "string list" where
  "client_side_keys = [''server_ca_cert_file'', ''mtls_client_cert_file'', ''mtls_client_key_file'']"

definition misplaced_key :: "string list \<Rightarrow> table \<Rightarrow> string option" where
  "misplaced_key ks cfg = find (\<lambda>k. map_of cfg k \<noteq> None) ks"

definition load_client_tls_config ::
  "tls_env \<Rightarrow> toml option \<Rightarrow> string \<Rightarrow> tls_error + tls_config \<times> string" where
  "load_client_tls_config env raw_cfg http_ver =
     (case (case raw_cfg of None \<Rightarrow> Some [] | Some raw \<Rightarrow> as_table raw) of
        None \<Rightarrow> Inl TlsNotATable
      | Some cfg \<Rightarrow>
          (case misplaced_key server_side_keys cfg of
             Some k \<Rightarrow> Inl (WrongSide k)
           | None \<Rightarrow>
               (case parse_tls_min_version
                       (cfg_value as_string cfg ''min_version'' default_tls_min_version) http_ver of
                  Inl e \<Rightarrow> Inl e
                | Inr ver \<Rightarrow>
                    (case load_cert_pool env (cfg_value as_string cfg ''server_ca_cert_file'' [])
                            ''TLS server CA certificate'' of
                       Inl e \<Rightarrow> Inl e
                     | Inr pool \<Rightarrow>
                         (case load_key_pair env cfg ''mtls_client_cert_file'' ''mtls_client_key_file''
                                 ''mTLS client'' False of
                            Inl e \<Rightarrow> Inl e
                          | Inr certs \<Rightarrow>
                              (if certs \<noteq> [] \<and> http_ver = type_http3 then Inl MtlsOverQuic
                               else (let t = zero_tls\<lparr>min_version := ver,
                                         insecure_skip_verify := parse_dont_verify_clients cfg,
                                         root_cas := pool, certificates := certs\<rparr>
                                     in Inr (t, sha256_hex env (tls_fingerprint t)))))))))"

text \<open>The key of the cache of transports.\<close>

definition transport_id :: "string \<Rightarrow> int \<Rightarrow> duration \<Rightarrow> string" where
  "transport_id checksum max_header_size timeout =
     checksum @ '','' @ itoa (nat max_header_size) @ '','' @ duration_string timeout"

section \<open>Servers\<close>

definition next_proto_h3 :: string where "next_proto_h3 = ''h3''"

definition load_server_tls_config ::
  "tls_env \<Rightarrow> toml option \<Rightarrow> string \<Rightarrow> tls_error + tls_config option" where
  "load_server_tls_config env raw_cfg http_ver =
     (case raw_cfg of
        None \<Rightarrow> Inr None
      | Some raw \<Rightarrow>
          (case as_table raw of
             None \<Rightarrow> Inl TlsNotATable
           | Some cfg \<Rightarrow>
               (case misplaced_key client_side_keys cfg of
                  Some k \<Rightarrow> Inl (WrongSide k)
                | None \<Rightarrow>
                    (case parse_tls_min_version
                            (cfg_value as_string cfg ''min_version'' default_tls_min_version) http_ver of
                       Inl e \<Rightarrow> Inl e
                     | Inr ver \<Rightarrow>
                         (case load_key_pair env cfg ''server_cert_file'' ''server_key_file''
                                 ''TLS server'' True of
                            Inl e \<Rightarrow> Inl e
                          | Inr certs \<Rightarrow>
                              (case load_cert_pool env (cfg_value as_string cfg ''mtls_client_ca_cert_file'' [])
                                      ''mTLS client CA certificate'' of
                                 Inl e \<Rightarrow> Inl e
                               | Inr pool \<Rightarrow>
                                   (if pool \<noteq> None \<and> http_ver = type_http3 then Inl MtlsOverQuic
                                    else (let t = zero_tls\<lparr>min_version := ver, certificates := certs,
                                              client_cas := pool\<rparr>;
                                              t1 = t\<lparr>client_auth_type := parse_dont_verify_servers cfg t\<rparr>
                                          in Inr (Some (if http_ver = type_http3
                                                        then t1\<lparr>next_protos := [next_proto_h3]\<rparr>
                                                        else t1))))))))))"

section \<open>Properties\<close>

lemma parse_tls_min_version_ok:
  "parse_tls_min_version s v = Inr n \<Longrightarrow> n \<in> {version_tls12, version_tls13} \<and> (v = type_http3 \<longrightarrow> n = version_tls13)"
  by (auto simp: parse_tls_min_version_def Let_def type_http3_def split: if_splits)

lemma load_key_pair_required: "load_key_pair env cfg c k d True \<noteq> Inr []"
  by (auto simp: load_key_pair_def load_pem_file_required split: sum.splits option.splits)

lemma load_key_pair_length: "load_key_pair env cfg c k d r = Inr certs \<Longrightarrow> length certs \<le> 1"
  by (auto simp: load_key_pair_def split: sum.splits option.splits)

lemma load_client_tls_configD:
  assumes "load_client_tls_config env raw v = Inr (t, chk)"
  shows "chk = sha256_hex env (tls_fingerprint t)"
    and "min_version t \<in> {version_tls12, version_tls13} \<and> (v = type_http3 \<longrightarrow> min_version t = version_tls13 \<and> certificates t = [])"
    and "insecure_skip_verify t \<longleftrightarrow> (\<exists>cfg. raw = Some (TTable cfg) \<and> map_of cfg ''dont_verify'' = Some (TBool True))"
    and "length (certificates t) \<le> 1 \<and> client_cas t = None \<and> client_auth_type t = NoClientCert \<and> next_protos t = []"
proof -
  obtain cfg ver pool certs where
    cfg: "(case raw of None \<Rightarrow> Some [] | Some r \<Rightarrow> as_table r) = Some cfg"
    and ver: "parse_tls_min_version (cfg_value as_string cfg ''min_version'' default_tls_min_version) v = Inr ver"
    and certs: "load_key_pair env cfg ''mtls_client_cert_file'' ''mtls_client_key_file'' ''mTLS client'' False = Inr certs"
    and quic: "\<not> (certs \<noteq> [] \<and> v = type_http3)"
    and t: "t = zero_tls\<lparr>min_version := ver, insecure_skip_verify := parse_dont_verify_clients cfg,
        root_cas := pool, certificates := certs\<rparr>"
    and s: "chk = sha256_hex env (tls_fingerprint t)"
    using assms by (auto simp: load_client_tls_config_def Let_def split: option.splits sum.splits if_splits)
  show "chk = sha256_hex env (tls_fingerprint t)" by (rule s)
  show "min_version t \<in> {version_tls12, version_tls13} \<and> (v = type_http3 \<longrightarrow> min_version t = version_tls13 \<and> certificates t = [])"
    using parse_tls_min_version_ok [OF ver] quic by (auto simp: t)
  show "length (certificates t) \<le> 1 \<and> client_cas t = None \<and> client_auth_type t = NoClientCert \<and> next_protos t = []"
    using load_key_pair_length [OF certs] by (simp add: t zero_tls_def)
  have as: "as_table r = Some cfg \<longleftrightarrow> r = TTable cfg" "as_bool r = Some b \<longleftrightarrow> r = TBool b" for r b
    by (cases r; auto)+
  show "insecure_skip_verify t \<longleftrightarrow> (\<exists>cfg. raw = Some (TTable cfg) \<and> map_of cfg ''dont_verify'' = Some (TBool True))"
    using cfg as by (auto simp: t parse_dont_verify_clients_def cfg_value_def split: option.splits)
qed

lemma load_server_tls_configD:
  assumes "load_server_tls_config env raw v = Inr (Some t)"
  shows "min_version t \<in> {version_tls12, version_tls13} \<and> (v = type_http3 \<longrightarrow> min_version t = version_tls13 \<and> client_cas t = None)
    \<and> length (certificates t) = 1 \<and> (client_cas t = None \<longleftrightarrow> client_auth_type t = NoClientCert)
    \<and> (client_auth_type t = RequireAnyClientCert \<longrightarrow>
         (\<exists>cfg. raw = Some (TTable cfg) \<and> map_of cfg ''dont_verify'' = Some (TBool True)))"
proof -
  obtain r cfg ver pool certs where
    cfg: "raw = Some r" "as_table r = Some cfg"
    and ver: "parse_tls_min_version (cfg_value as_string cfg ''min_version'' default_tls_min_version) v = Inr ver"
    and certs: "load_key_pair env cfg ''server_cert_file'' ''server_key_file'' ''TLS server'' True = Inr certs"
    and quic: "\<not> (pool \<noteq> None \<and> v = type_http3)"
    and t: "t = (let t = zero_tls\<lparr>min_version := ver, certificates := certs, client_cas := pool\<rparr>;
        t1 = t\<lparr>client_auth_type := parse_dont_verify_servers cfg t\<rparr>
      in if v = type_http3 then t1\<lparr>next_protos := [next_proto_h3]\<rparr> else t1)"
    using assms by (auto simp: load_server_tls_config_def Let_def split: option.splits sum.splits if_splits)
  have f: "min_version t = ver" "client_cas t = pool" "certificates t = certs"
    "client_auth_type t = parse_dont_verify_servers cfg (zero_tls\<lparr>client_cas := pool\<rparr>)"
    by (simp_all add: t Let_def parse_dont_verify_servers_def)
  have "certs \<noteq> []" using certs load_key_pair_required by metis
  with load_key_pair_length [OF certs] have one: "length certs = 1" by (cases certs) auto
  have tab: "r = TTable cfg" using cfg(2) by (cases r) auto
  have "as_bool b = Some True \<Longrightarrow> b = TBool True" for b by (cases b) auto
  then have "cfg_value as_bool cfg ''dont_verify'' False \<Longrightarrow> map_of cfg ''dont_verify'' = Some (TBool True)"
    by (auto simp: cfg_value_def split: option.splits)
  with parse_tls_min_version_ok [OF ver] quic one tab cfg(1) show ?thesis
    by (auto simp: f parse_dont_verify_servers_def split: if_splits)
qed

text \<open>
  What a section of a configuration says, without its parser: texts without the white space
  around them, a switch that is off unless it is set to true, the contents of a PEM file that
  is named, and a key pair of two of them. A value of another type counts as absent.
\<close>

definition says :: "table \<Rightarrow> string \<Rightarrow> string" where
  "says cfg key = (case map_of cfg key of Some (TString s) \<Rightarrow> trim_space s | _ \<Rightarrow> [])"

definition switched_on :: "table \<Rightarrow> string \<Rightarrow> bool" where
  "switched_on cfg key \<longleftrightarrow> map_of cfg key = Some (TBool True)"

definition section_is :: "toml option \<Rightarrow> table \<Rightarrow> bool" where
  "section_is raw cfg \<longleftrightarrow> raw = None \<and> cfg = [] \<or> raw = Some (TTable cfg)"

definition names_version :: "table \<Rightarrow> nat \<Rightarrow> bool" where
  "names_version cfg n \<longleftrightarrow>
     n = 772 \<and> (says cfg ''min_version'' = [] \<or> says cfg ''min_version'' = ''1.3'') \<or> n = 771 \<and> says cfg ''min_version'' = ''1.2''"

definition names_file :: "tls_env \<Rightarrow> table \<Rightarrow> string \<Rightarrow> string option \<Rightarrow> bool" where
  "names_file env cfg key content \<longleftrightarrow>
     (case content of
        None \<Rightarrow> says cfg key = []
      | Some data \<Rightarrow> says cfg key \<noteq> [] \<and> read_file env (says cfg key) = Some data \<and> data \<noteq> [] \<and> pem_block env data)"

definition names_pair :: "tls_env \<Rightarrow> table \<Rightarrow> string \<Rightarrow> string \<Rightarrow> string list list \<Rightarrow> bool" where
  "names_pair env cfg cert_key key_key certs \<longleftrightarrow>
     names_file env cfg cert_key None \<and> names_file env cfg key_key None \<and> certs = []
     \<or> (\<exists>c k chain. names_file env cfg cert_key (Some c) \<and> names_file env cfg key_key (Some k)
          \<and> key_pair env c k = Some chain \<and> certs = [chain])"

lemma trim_space_Nil [simp]: "trim_space [] = []"
  by code_simp

lemma as_type_iff:
  "as_string r = Some s \<longleftrightarrow> r = TString s" "as_bool r = Some b \<longleftrightarrow> r = TBool b" "as_table r = Some c \<longleftrightarrow> r = TTable c"
  by (cases r; auto)+

lemma says_value: "trim_space (cfg_value as_string cfg key []) = says cfg key"
  by (auto simp: says_def cfg_value_def split: option.splits toml.splits)

lemma says_version: "parse_tls_min_version (cfg_value as_string cfg ''min_version'' default_tls_min_version) v = Inr n
    \<Longrightarrow> names_version cfg n"
proof -
  assume p: "parse_tls_min_version (cfg_value as_string cfg ''min_version'' default_tls_min_version) v = Inr n"
  have d: "trim_space ''1.3'' = ''1.3''" by code_simp
  show ?thesis
  proof (cases "\<exists>s. map_of cfg ''min_version'' = Some (TString s)")
    case True
    with p show ?thesis
      by (auto simp: parse_tls_min_version_def names_version_def says_def cfg_value_def Let_def
          version_tls12_def version_tls13_def split: if_splits)
  next
    case False
    then have "cfg_value as_string cfg ''min_version'' default_tls_min_version = ''1.3''" "says cfg ''min_version'' = []"
      by (auto simp: cfg_value_def says_def default_tls_min_version_def as_type_iff split: option.splits toml.splits)
    with p d show ?thesis by (auto simp: parse_tls_min_version_def names_version_def version_tls13_def)
  qed
qed

lemma says_switch: "cfg_value as_bool cfg key False \<longleftrightarrow> switched_on cfg key"
  by (auto simp: cfg_value_def switched_on_def as_type_iff split: option.splits)

lemma says_pem:
  "load_pem_file env (cfg_value as_string cfg key []) d required = Inr content \<Longrightarrow> names_file env cfg key content"
  proof -
  assume l: "load_pem_file env (cfg_value as_string cfg key []) d required = Inr content"
  show ?thesis
  proof (cases content)
    case None
    with l show ?thesis by (auto simp: load_pem_file_def names_file_def says_value Let_def split: if_splits option.splits)
  next
    case (Some data)
    have "says cfg key \<noteq> []" using l Some by (auto simp: load_pem_file_def says_value split: if_splits)
    with load_pem_file_some [OF l [unfolded Some]] Some show ?thesis by (simp add: names_file_def says_value)
  qed
qed

lemma says_pool:
  "load_cert_pool env (cfg_value as_string cfg key []) d = Inr content \<Longrightarrow>
     names_file env cfg key content \<and> (\<forall>data. content = Some data \<longrightarrow> append_certs env data)"
  by (auto simp: load_cert_pool_def dest!: says_pem split: sum.splits option.splits if_splits)

lemma says_pair:
  "load_key_pair env cfg ck kk d required = Inr certs \<Longrightarrow> names_pair env cfg ck kk certs"
  by (auto simp: load_key_pair_def names_pair_def dest!: says_pem split: sum.splits option.splits)

text \<open>C34: TLS settings are those of the configuration, and fail closed. If the settings of a client
  can be made, then its section is a table, or absent and so empty; its version is the one that the
  section names, 1.3 if it names none; it skips the verification of servers only if the
  section switches it on; its authority is the contents of the file that the section names,
  and there is none only if the section names none; and its certificate is that of the two
  files that the section names. The same holds of a server, which must have a certificate:
  its authority for clients is that of its section, and it requires and verifies certificates of clients
  exactly if it has one, unless the section switches verification off. Over QUIC the version
  is 1.3, and there is no mutual TLS.\<close>

theorem tls_fails_closed:
  "(\<forall>t chk. load_client_tls_config env raw v = Inr (t, chk) \<longrightarrow>
      (\<exists>cfg. section_is raw cfg \<and> names_version cfg (min_version t)
        \<and> (insecure_skip_verify t \<longleftrightarrow> switched_on cfg ''dont_verify'')
        \<and> names_file env cfg ''server_ca_cert_file'' (root_cas t)
        \<and> names_pair env cfg ''mtls_client_cert_file'' ''mtls_client_key_file'' (certificates t)
        \<and> (v = type_http3 \<longrightarrow> min_version t = 772 \<and> certificates t = [])))
   \<and> (\<forall>t. load_server_tls_config env raw v = Inr (Some t) \<longrightarrow>
      (\<exists>cfg. raw = Some (TTable cfg) \<and> names_version cfg (min_version t)
        \<and> certificates t \<noteq> [] \<and> names_pair env cfg ''server_cert_file'' ''server_key_file'' (certificates t)
        \<and> names_file env cfg ''mtls_client_ca_cert_file'' (client_cas t)
        \<and> client_auth_type t = (if client_cas t = None then NoClientCert
             else if switched_on cfg ''dont_verify'' then RequireAnyClientCert else RequireAndVerifyClientCert)
        \<and> (v = type_http3 \<longrightarrow> min_version t = 772 \<and> client_cas t = None)))"
proof (intro conjI allI impI)
  fix t chk assume a: "load_client_tls_config env raw v = Inr (t, chk)"
  obtain cfg ver pool certs where
    cfg: "(case raw of None \<Rightarrow> Some [] | Some r \<Rightarrow> as_table r) = Some cfg"
    and ver: "parse_tls_min_version (cfg_value as_string cfg ''min_version'' default_tls_min_version) v = Inr ver"
    and pool: "load_cert_pool env (cfg_value as_string cfg ''server_ca_cert_file'' []) ''TLS server CA certificate'' = Inr pool"
    and certs: "load_key_pair env cfg ''mtls_client_cert_file'' ''mtls_client_key_file'' ''mTLS client'' False = Inr certs"
    and t: "t = zero_tls\<lparr>min_version := ver, insecure_skip_verify := parse_dont_verify_clients cfg,
        root_cas := pool, certificates := certs\<rparr>"
    using a by (auto simp: load_client_tls_config_def Let_def split: option.splits sum.splits if_splits)
  have "section_is raw cfg" using cfg by (auto simp: section_is_def as_type_iff split: option.splits)
  then show "\<exists>cfg. section_is raw cfg \<and> names_version cfg (min_version t)
        \<and> (insecure_skip_verify t \<longleftrightarrow> switched_on cfg ''dont_verify'')
        \<and> names_file env cfg ''server_ca_cert_file'' (root_cas t)
        \<and> names_pair env cfg ''mtls_client_cert_file'' ''mtls_client_key_file'' (certificates t)
        \<and> (v = type_http3 \<longrightarrow> min_version t = 772 \<and> certificates t = [])"
    using says_version [OF ver] says_pool [OF pool] says_pair [OF certs] load_client_tls_configD(2) [OF a]
    by (intro exI [of _ cfg]) (simp add: t parse_dont_verify_clients_def says_switch version_tls13_def)
next
  fix t assume a: "load_server_tls_config env raw v = Inr (Some t)"
  obtain r cfg ver pool certs where
    cfg: "raw = Some r" "as_table r = Some cfg"
    and ver: "parse_tls_min_version (cfg_value as_string cfg ''min_version'' default_tls_min_version) v = Inr ver"
    and certs: "load_key_pair env cfg ''server_cert_file'' ''server_key_file'' ''TLS server'' True = Inr certs"
    and pool: "load_cert_pool env (cfg_value as_string cfg ''mtls_client_ca_cert_file'' []) ''mTLS client CA certificate'' = Inr pool"
    and t: "t = (let t = zero_tls\<lparr>min_version := ver, certificates := certs, client_cas := pool\<rparr>;
        t1 = t\<lparr>client_auth_type := parse_dont_verify_servers cfg t\<rparr>
      in if v = type_http3 then t1\<lparr>next_protos := [next_proto_h3]\<rparr> else t1)"
    using a by (auto simp: load_server_tls_config_def Let_def split: option.splits sum.splits if_splits)
  have "raw = Some (TTable cfg)" using cfg by (auto simp: as_type_iff)
  moreover have "min_version t = ver" "client_cas t = pool" "certificates t = certs"
    "client_auth_type t = parse_dont_verify_servers cfg (zero_tls\<lparr>client_cas := pool\<rparr>)"
    by (simp_all add: t Let_def parse_dont_verify_servers_def)
  ultimately show "\<exists>cfg. raw = Some (TTable cfg) \<and> names_version cfg (min_version t)
        \<and> certificates t \<noteq> [] \<and> names_pair env cfg ''server_cert_file'' ''server_key_file'' (certificates t)
        \<and> names_file env cfg ''mtls_client_ca_cert_file'' (client_cas t)
        \<and> client_auth_type t = (if client_cas t = None then NoClientCert
             else if switched_on cfg ''dont_verify'' then RequireAnyClientCert else RequireAndVerifyClientCert)
        \<and> (v = type_http3 \<longrightarrow> min_version t = 772 \<and> client_cas t = None)"
    using says_version [OF ver] says_pool [OF pool] says_pair [OF certs] load_server_tls_configD [OF a]
    by (intro exI [of _ cfg]) (auto simp: parse_dont_verify_servers_def says_switch version_tls13_def)
qed

definition demo_tls_env :: tls_env where
  "demo_tls_env = \<lparr>read_file = (\<lambda>p. Some ''pem''), pem_block = (\<lambda>_. True), append_certs = (\<lambda>_. True),
     key_pair = (\<lambda>c k. Some [c]), sha256_hex = (\<lambda>s. itoa (length s))\<rparr>"

definition demo_client_tls :: table where
  "demo_client_tls = [(''min_version'', TString ''1.2''), (''server_ca_cert_file'', TString ''ca'')]"

lemma demo_client_tls_loads:
  "load_client_tls_config demo_tls_env (Some (TTable demo_client_tls)) ''http'' =
     Inr (zero_tls\<lparr>min_version := 771, root_cas := Some ''pem''\<rparr>, ''14'')"
  by code_simp

theorem tls_fails_closed_witness:
  "\<exists>cfg. section_is (Some (TTable demo_client_tls)) cfg \<and> names_version cfg 771
     \<and> names_file demo_tls_env cfg ''server_ca_cert_file'' (Some ''pem'')"
  using conjunct1 [OF tls_fails_closed [of demo_tls_env "Some (TTable demo_client_tls)" "''http''"]]
    demo_client_tls_loads by fastforce

section \<open>Sharing of transports\<close>

lemma append_sep_inj:
  assumes "x @ d # y = x' @ d # y'" and "d \<notin> set x" and "d \<notin> set x'"
  shows "x = x' \<and> y = y'"
  using assms by (induction x arbitrary: x') (auto simp: Cons_eq_append_conv split: list.splits)

text \<open>The settings of two clients that a connection depends on.\<close>

definition same_client_tls :: "tls_config \<Rightarrow> tls_config \<Rightarrow> bool" where
  "same_client_tls t t' \<longleftrightarrow>
     min_version t = min_version t' \<and> insecure_skip_verify t = insecure_skip_verify t'
     \<and> (case root_cas t of None \<Rightarrow> [] | Some raw \<Rightarrow> raw) = (case root_cas t' of None \<Rightarrow> [] | Some raw \<Rightarrow> raw)
     \<and> concat (map (\<lambda>der. der @ [nul]) (concat (certificates t)))
       = concat (map (\<lambda>der. der @ [nul]) (concat (certificates t')))"

lemma nul_not_digit: "nul \<notin> set (itoa n)"
  using itoa_digits [of nul n] by (auto simp: nul_def is_digit_def char_code_def)

lemma comma_not_digit: "CHR '','' \<notin> set (itoa n)"
  using itoa_digits [of "CHR '',''" n] by (auto simp: is_digit_def char_code_def)

lemma nul_not_bool: "nul \<notin> set (bool_text b)"
  by (simp add: bool_text_def nul_def)

lemma bool_text_inj: "bool_text a = bool_text b \<longleftrightarrow> a = b"
  by (simp add: bool_text_def)

lemma chain_text:
  "length (certificates t) \<le> 1 \<Longrightarrow>
     concat (map (\<lambda>der. der @ [nul]) (concat (certificates t)))
     = (case certificates t of [] \<Rightarrow> [] | chain # _ \<Rightarrow> concat (map (\<lambda>der. der @ [nul]) chain))"
  by (auto split: list.splits)

lemma tls_fingerprint_inj:
  assumes "tls_fingerprint t = tls_fingerprint t'"
    and "\<And>raw. root_cas t = Some raw \<or> root_cas t' = Some raw \<Longrightarrow> nul \<notin> set raw"
    and "length (certificates t) \<le> 1" and "length (certificates t') \<le> 1"
  shows "same_client_tls t t'"
proof -
  let ?ca = "\<lambda>t. case root_cas t of None \<Rightarrow> [] | Some raw \<Rightarrow> raw"
  let ?cs = "\<lambda>t. case certificates t of [] \<Rightarrow> [] | chain # _ \<Rightarrow> concat (map (\<lambda>der. der @ [nul]) chain)"
  have "nul \<notin> set (?ca t)" "nul \<notin> set (?ca t')" using assms(2) by (auto split: option.splits)
  moreover have eq: "itoa (min_version t) @ nul # bool_text (insecure_skip_verify t) @ nul # ?ca t @ nul # ?cs t
      = itoa (min_version t') @ nul # bool_text (insecure_skip_verify t') @ nul # ?ca t' @ nul # ?cs t'"
    using assms(1) by (simp add: tls_fingerprint_def)
  ultimately show ?thesis
    using append_sep_inj [OF eq nul_not_digit nul_not_digit]
      append_sep_inj [of "bool_text (insecure_skip_verify t)" nul _ "bool_text (insecure_skip_verify t')",
        OF _ nul_not_bool nul_not_bool]
      append_sep_inj [of "?ca t" nul "?cs t" "?ca t'" "?cs t'"]
    by (simp add: same_client_tls_def itoa_inj bool_text_inj chain_text [OF assms(3)] chain_text [OF assms(4)])
qed

lemma root_cas_file:
  assumes "load_client_tls_config env raw v = Inr (t, chk)" and "root_cas t = Some data"
  shows "\<exists>p. read_file env p = Some data"
proof -
  obtain path where "load_cert_pool env path ''TLS server CA certificate'' = Inr (root_cas t)"
    using assms(1) by (auto simp: load_client_tls_config_def Let_def zero_tls_def
        split: option.splits sum.splits if_splits)
  with assms(2) show ?thesis
    by (auto simp: load_cert_pool_def dest: load_pem_file_some split: sum.splits option.splits if_splits)
qed

text \<open>Clients share a transport only if their connections are configured alike. If two
  clients have the same transport identity, then they have the same limit on headers, the
  same timeout as it is printed, and the same TLS version, verification, authority and
  client certificates - unless two different texts have the same SHA-256 sum. PEM files are
  text, without zero bytes, and a sum in hexadecimal has no commas.\<close>

theorem transport_sharing_safe:
  assumes "load_client_tls_config env raw v = Inr (t, chk)"
    and "load_client_tls_config env raw' v' = Inr (t', chk')"
    and "transport_id chk hdr timeout = transport_id chk' hdr' timeout'"
    and "\<forall>p data. read_file env p = Some data \<longrightarrow> nul \<notin> set data"
    and "\<forall>s. CHR '','' \<notin> set (sha256_hex env s)"
    and "0 \<le> hdr" and "0 \<le> hdr'"
  shows "hdr = hdr' \<and> duration_string timeout = duration_string timeout'
    \<and> (same_client_tls t t' \<or> (\<exists>x y. x \<noteq> y \<and> sha256_hex env x = sha256_hex env y))"
proof -
  note d = load_client_tls_configD [OF assms(1)] and d' = load_client_tls_configD [OF assms(2)]
  have "chk @ CHR '','' # itoa (nat hdr) @ CHR '','' # duration_string timeout
      = chk' @ CHR '','' # itoa (nat hdr') @ CHR '','' # duration_string timeout'"
    using assms(3) by (simp add: transport_id_def)
  from append_sep_inj [OF this] d(1) d'(1) assms(5)
  have chk: "chk = chk'" and rest: "itoa (nat hdr) @ CHR '','' # duration_string timeout
      = itoa (nat hdr') @ CHR '','' # duration_string timeout'" by auto
  from append_sep_inj [OF rest comma_not_digit comma_not_digit] assms(6,7)
  have "hdr = hdr' \<and> duration_string timeout = duration_string timeout'"
    by (simp add: itoa_inj eq_nat_nat_iff)
  moreover have "same_client_tls t t'" if "tls_fingerprint t = tls_fingerprint t'"
    using tls_fingerprint_inj [OF that] root_cas_file [OF assms(1)] root_cas_file [OF assms(2)] assms(4) d(4) d'(4)
    by blast
  ultimately show ?thesis using chk d(1) d'(1) by metis
qed

theorem transport_sharing_safe_witness:
  "same_client_tls (zero_tls\<lparr>min_version := 771, root_cas := Some ''pem''\<rparr>)
     (zero_tls\<lparr>min_version := 771, root_cas := Some ''pem''\<rparr>)
   \<or> (\<exists>x y. x \<noteq> y \<and> sha256_hex demo_tls_env x = sha256_hex demo_tls_env y)"
proof -
  have "\<forall>p data. read_file demo_tls_env p = Some data \<longrightarrow> nul \<notin> set data"
    by (simp add: demo_tls_env_def nul_def)
  moreover have "\<forall>s. CHR '','' \<notin> set (sha256_hex demo_tls_env s)"
    by (simp add: demo_tls_env_def comma_not_digit)
  ultimately show ?thesis
    using transport_sharing_safe [OF demo_client_tls_loads demo_client_tls_loads refl, of 1 1] by simp
qed

end
