(* ===== verification/Auth.thy ===== *)
theory Auth
  imports BaseComponents HttpClient
begin

text \<open>
  The authentication section of HTTP collectors and senders (pkg/auth/config.go): parsing,
  defaults and the checks of every mode and grant type. Files, URLs, the checks of httpguts
  and the parsers of private keys are parameters.
\<close>

section \<open>Types\<close>

definition config_type_none :: string where "config_type_none = ''none''"
definition config_type_basic :: string where "config_type_basic = ''basic''"
definition config_type_static :: string where "config_type_static = ''static''"
definition config_type_oauth :: string where "config_type_oauth = ''oauth''"

definition grant_authz_code :: string where "grant_authz_code = ''authorization_code''"
definition grant_client_creds :: string where "grant_client_creds = ''client_credentials''"
definition grant_refresh_token :: string where "grant_refresh_token = ''refresh_token''"
definition grant_jwt_alias :: string where "grant_jwt_alias = ''jwt_bearer''"
definition grant_jwt_bearer :: string where
  "grant_jwt_bearer = ''urn:ietf:params:oauth:grant-type:jwt-bearer''"

definition valid_config_types :: "string list" where
  "valid_config_types = [config_type_none, config_type_basic, config_type_static, config_type_oauth]"

definition valid_grant_types :: "string list" where
  "valid_grant_types = [grant_authz_code, grant_client_creds, grant_refresh_token, grant_jwt_bearer]"

lemmas auth_types = config_type_none_def config_type_basic_def config_type_static_def
  config_type_oauth_def grant_authz_code_def grant_client_creds_def grant_refresh_token_def
  grant_jwt_alias_def grant_jwt_bearer_def

definition default_jwt_expiration :: duration where "default_jwt_expiration = 5 * minute"
definition min_jwt_expiration :: duration where "min_jwt_expiration = minute"
definition max_jwt_expiration :: duration where "max_jwt_expiration = 60 * minute"

text \<open>The private keys that the JWT library tells apart; an elliptic curve by its size.\<close>

datatype private_key = RsaKey | EcKey nat | EdKey bool | UnknownKey

record auth_env = file_env +
  auth_url_parse :: "string \<Rightarrow> url option"
  auth_valid_name :: "string \<Rightarrow> bool"
  auth_valid_value :: "string \<Rightarrow> bool"
  parse_key :: "string \<Rightarrow> private_key"

record auth_config =
  auth_type :: string
  basic_username :: string
  basic_password :: string
  static_header :: string
  static_prefix :: string
  static_secret :: string
  grant_type :: string
  client_id :: string
  client_secret :: string
  refresh_token :: string
  pkce :: bool
  scopes :: "string list"
  auth_url :: "url option"
  callback_url :: "url option"
  token_url :: "url option"
  jwt_claims :: "(string \<times> string) list"
  jwt_expiration :: duration
  jwt_algorithm :: string
  jwt_signer :: "string option"

datatype auth_error =
  AuthNotATable
| AuthTypeMissing
| UnrecognizedAuthType string
| BasicIncomplete
| BasicColon
| StaticSecretMissing
| StaticHeaderInvalid string
| StaticValueInvalid
| UnrecognizedGrant string
| AuthUrlError string url_error
| JwtExpirationInvalid
| ClaimsNotATable
| ClaimNotAString string
| AuthFile pem_error
| UnsupportedCurve nat
| UnsupportedKey
| ClientIdRequired string
| ClientSecretRequired string
| AuthUrlRequired
| CallbackUrlRequired
| TokenUrlRequired string
| RefreshTokenRequired
| ClaimsRequired

section \<open>Parsing\<close>

definition optional_string :: "table \<Rightarrow> string \<Rightarrow> string \<Rightarrow> string" where
  "optional_string cfg key default_value = trim_space (cfg_value as_string cfg key default_value)"

definition parse_oauth_scopes :: "table \<Rightarrow> string list" where
  "parse_oauth_scopes cfg =
     (case map_of cfg ''oauth_scopes'' of
        None \<Rightarrow> []
      | Some v \<Rightarrow>
          (case v of
             TString s \<Rightarrow> str_fields s
           | TArray vs \<Rightarrow>
               concat (map (\<lambda>x. case as_string x of Some s \<Rightarrow> str_fields s | None \<Rightarrow> []) vs)
           | _ \<Rightarrow> []))"

definition parse_jwt_expiration :: "table \<Rightarrow> auth_error + duration" where
  "parse_jwt_expiration cfg =
     (case parse_duration (optional_string cfg ''jwt_expiration'' (duration_string default_jwt_expiration)) of
        None \<Rightarrow> Inl JwtExpirationInvalid
      | Some d \<Rightarrow>
          Inr (if d < min_jwt_expiration then min_jwt_expiration
               else if d > max_jwt_expiration then max_jwt_expiration
               else d))"

fun copy_claims :: "table \<Rightarrow> auth_error + (string \<times> string) list" where
  "copy_claims [] = Inr []"
| "copy_claims ((k, v) # t) =
     (case as_string v of
        None \<Rightarrow> Inl (ClaimNotAString k)
      | Some s \<Rightarrow> (case copy_claims t of Inl e \<Rightarrow> Inl e | Inr cs \<Rightarrow> Inr ((k, s) # cs)))"

definition parse_jwt_claims :: "table \<Rightarrow> auth_error + (string \<times> string) list" where
  "parse_jwt_claims cfg =
     (case map_of cfg ''jwt_claims'' of
        None \<Rightarrow> Inr []
      | Some v \<Rightarrow>
          (case as_table v of
             None \<Rightarrow> Inl ClaimsNotATable
           | Some t \<Rightarrow> copy_claims t))"

definition parse_jwt_private_key :: "auth_env \<Rightarrow> string \<Rightarrow> auth_error + string \<times> string" where
  "parse_jwt_private_key env data =
     (case parse_key env data of
        RsaKey \<Rightarrow> Inr (data, ''RS256'')
      | EcKey n \<Rightarrow>
          (if n = 256 then Inr (data, ''ES256'')
           else if n = 384 then Inr (data, ''ES384'')
           else if n = 521 then Inr (data, ''ES512'')
           else Inl (UnsupportedCurve n))
      | EdKey signer \<Rightarrow> (if signer then Inr (data, ''EdDSA'') else Inl UnsupportedKey)
      | UnknownKey \<Rightarrow> Inl UnsupportedKey)"

text \<open>The values of the section, normalised.\<close>

definition read_auth :: "table \<Rightarrow> auth_config" where
  "read_auth cfg =
     (let ty = to_lower (optional_string cfg ''type'' config_type_none);
          prefix = optional_string cfg ''static_prefix'' ''Bearer'';
          grant0 = to_lower (optional_string cfg ''oauth_grant_type'' []);
          grant1 = (if grant0 = grant_jwt_alias then grant_jwt_bearer else grant0)
      in \<lparr>auth_type = ty,
          basic_username = optional_string cfg ''basic_username'' [],
          basic_password = cfg_value as_string cfg ''basic_password'' [],
          static_header = canonical_key (optional_string cfg ''static_header'' ''Authorization''),
          static_prefix = (if prefix \<noteq> [] then prefix @ '' '' else prefix),
          static_secret = cfg_value as_string cfg ''static_secret'' [],
          grant_type = (if ty \<noteq> config_type_oauth then [] else grant1),
          client_id = optional_string cfg ''oauth_client_id'' [],
          client_secret = cfg_value as_string cfg ''oauth_client_secret'' [],
          refresh_token = cfg_value as_string cfg ''oauth_refresh_token'' [],
          pkce = cfg_value as_bool cfg ''oauth_pkce'' False,
          scopes = parse_oauth_scopes cfg,
          auth_url = None, callback_url = None, token_url = None,
          jwt_claims = [], jwt_expiration = 0, jwt_algorithm = [], jwt_signer = None\<rparr>)"

definition check_auth :: "auth_env \<Rightarrow> auth_config \<Rightarrow> auth_error option" where
  "check_auth env p =
     (if auth_type p = [] then Some AuthTypeMissing
      else if auth_type p \<notin> set valid_config_types then Some (UnrecognizedAuthType (auth_type p))
      else if auth_type p = config_type_basic \<and> (basic_username p = [] \<or> basic_password p = [])
      then Some BasicIncomplete
      else if auth_type p = config_type_basic \<and> CHR '':'' \<in> set (basic_username p) then Some BasicColon
      else if auth_type p = config_type_static \<and> static_secret p = [] then Some StaticSecretMissing
      else if auth_type p = config_type_static \<and> \<not> auth_valid_name env (static_header p)
      then Some (StaticHeaderInvalid (static_header p))
      else if auth_type p = config_type_static
              \<and> \<not> auth_valid_value env (static_prefix p @ static_secret p)
      then Some StaticValueInvalid
      else if grant_type p \<noteq> [] \<and> grant_type p \<notin> set valid_grant_types
      then Some (UnrecognizedGrant (grant_type p))
      else None)"

text \<open>What only the OAuth mode reads: three optional URLs, and the settings of a JWT.\<close>

definition read_url :: "auth_env \<Rightarrow> table \<Rightarrow> string \<Rightarrow> auth_error + url option" where
  "read_url env cfg key =
     (case parse_url (auth_url_parse env) (cfg_value as_string cfg key []) [] False of
        Inl e \<Rightarrow> Inl (AuthUrlError key e)
      | Inr u \<Rightarrow> Inr u)"

definition read_oauth :: "auth_env \<Rightarrow> table \<Rightarrow> auth_config \<Rightarrow> auth_error + auth_config" where
  "read_oauth env cfg p =
     (case read_url env cfg ''oauth_auth_url'' of
        Inl e \<Rightarrow> Inl e
      | Inr au \<Rightarrow>
          (case read_url env cfg ''oauth_callback_url'' of
             Inl e \<Rightarrow> Inl e
           | Inr cb \<Rightarrow>
               (case read_url env cfg ''oauth_token_url'' of
                  Inl e \<Rightarrow> Inl e
                | Inr tk \<Rightarrow>
                    (case parse_jwt_expiration cfg of
                       Inl e \<Rightarrow> Inl e
                     | Inr d \<Rightarrow>
                         (case parse_jwt_claims cfg of
                            Inl e \<Rightarrow> Inl e
                          | Inr cs \<Rightarrow>
                              Inr (p\<lparr>auth_url := au, callback_url := cb, token_url := tk,
                                     jwt_expiration := d, jwt_claims := cs\<rparr>))))))"

text \<open>A missing grant type is guessed from the other settings.\<close>

definition guess_grant :: "auth_config \<Rightarrow> string" where
  "guess_grant p =
     (if auth_url p \<noteq> None \<or> callback_url p \<noteq> None then grant_authz_code
      else if refresh_token p \<noteq> [] then grant_refresh_token
      else if client_id p \<noteq> [] then grant_client_creds
      else grant_jwt_bearer)"

definition load_jwt_key :: "auth_env \<Rightarrow> table \<Rightarrow> auth_config \<Rightarrow> auth_error + auth_config" where
  "load_jwt_key env cfg p =
     (if grant_type p \<noteq> grant_jwt_bearer then Inr p
      else (case load_pem_file env (cfg_value as_string cfg ''jwt_private_key_file'' []) ''JWT private key'' True of
              Inl e \<Rightarrow> Inl (AuthFile e)
            | Inr data \<Rightarrow>
                (case parse_jwt_private_key env (case data of None \<Rightarrow> [] | Some d \<Rightarrow> d) of
                   Inl e \<Rightarrow> Inl e
                 | Inr (signer, alg) \<Rightarrow> Inr (p\<lparr>jwt_signer := Some signer, jwt_algorithm := alg\<rparr>))))"

definition check_oauth :: "auth_config \<Rightarrow> auth_error option" where
  "check_oauth p =
     (if auth_type p = config_type_oauth \<and> grant_type p \<noteq> grant_jwt_bearer \<and> client_id p = []
      then Some (ClientIdRequired (grant_type p))
      else if grant_type p = grant_authz_code \<and> \<not> pkce p \<and> client_secret p = []
      then Some (ClientSecretRequired grant_authz_code)
      else if grant_type p = grant_client_creds \<and> client_secret p = []
      then Some (ClientSecretRequired grant_client_creds)
      else if grant_type p = grant_authz_code \<and> auth_url p = None then Some AuthUrlRequired
      else if grant_type p = grant_authz_code \<and> callback_url p = None then Some CallbackUrlRequired
      else if auth_type p = config_type_oauth \<and> token_url p = None then Some (TokenUrlRequired (grant_type p))
      else if grant_type p = grant_refresh_token \<and> refresh_token p = [] then Some RefreshTokenRequired
      else if grant_type p = grant_jwt_bearer \<and> jwt_claims p = [] then Some ClaimsRequired
      else None)"

definition parse_auth :: "auth_env \<Rightarrow> toml option \<Rightarrow> auth_error + auth_config" where
  "parse_auth env raw_cfg =
     (case (case raw_cfg of None \<Rightarrow> Some [] | Some raw \<Rightarrow> as_table raw) of
        None \<Rightarrow> Inl AuthNotATable
      | Some cfg \<Rightarrow>
          (let p = read_auth cfg
           in case check_auth env p of
                Some e \<Rightarrow> Inl e
              | None \<Rightarrow>
                  (case (if auth_type p = config_type_oauth then read_oauth env cfg p else Inr p) of
                     Inl e \<Rightarrow> Inl e
                   | Inr p1 \<Rightarrow>
                       (let p2 = (if auth_type p1 = config_type_oauth \<and> grant_type p1 = []
                                  then p1\<lparr>grant_type := guess_grant p1\<rparr> else p1)
                        in case load_jwt_key env cfg p2 of
                             Inl e \<Rightarrow> Inl e
                           | Inr p3 \<Rightarrow>
                               (case check_oauth p3 of Some e \<Rightarrow> Inl e | None \<Rightarrow> Inr p3)))))"

section \<open>What a parsed section guarantees\<close>

definition oauth_ok :: "auth_config \<Rightarrow> bool" where
  "oauth_ok p \<longleftrightarrow>
     grant_type p \<in> set valid_grant_types
     \<and> (\<exists>u. token_url p = Some u \<and> url_ok [] u)
     \<and> min_jwt_expiration \<le> jwt_expiration p \<and> jwt_expiration p \<le> max_jwt_expiration
     \<and> (grant_type p = grant_jwt_bearer \<longrightarrow>
          jwt_signer p \<noteq> None \<and> jwt_claims p \<noteq> []
          \<and> jwt_algorithm p \<in> {''RS256'', ''ES256'', ''ES384'', ''ES512'', ''EdDSA''})
     \<and> (grant_type p \<noteq> grant_jwt_bearer \<longrightarrow> client_id p \<noteq> [])
     \<and> (grant_type p = grant_authz_code \<longrightarrow>
          auth_url p \<noteq> None \<and> callback_url p \<noteq> None \<and> (pkce p \<or> client_secret p \<noteq> []))
     \<and> (grant_type p = grant_client_creds \<longrightarrow> client_secret p \<noteq> [])
     \<and> (grant_type p = grant_refresh_token \<longrightarrow> refresh_token p \<noteq> [])"

definition auth_ok :: "auth_env \<Rightarrow> auth_config \<Rightarrow> bool" where
  "auth_ok env p \<longleftrightarrow>
     auth_type p \<in> set valid_config_types
     \<and> (auth_type p = config_type_basic \<longrightarrow>
          basic_username p \<noteq> [] \<and> basic_password p \<noteq> [] \<and> CHR '':'' \<notin> set (basic_username p))
     \<and> (auth_type p = config_type_static \<longrightarrow>
          static_secret p \<noteq> [] \<and> auth_valid_name env (static_header p)
          \<and> auth_valid_value env (static_prefix p @ static_secret p))
     \<and> (if auth_type p = config_type_oauth then oauth_ok p else grant_type p = [])"

lemma check_auth_None:
  "check_auth env p = None \<Longrightarrow>
     auth_type p \<in> set valid_config_types
     \<and> (auth_type p = config_type_basic \<longrightarrow>
          basic_username p \<noteq> [] \<and> basic_password p \<noteq> [] \<and> CHR '':'' \<notin> set (basic_username p))
     \<and> (auth_type p = config_type_static \<longrightarrow>
          static_secret p \<noteq> [] \<and> auth_valid_name env (static_header p)
          \<and> auth_valid_value env (static_prefix p @ static_secret p))
     \<and> (grant_type p \<noteq> [] \<longrightarrow> grant_type p \<in> set valid_grant_types)"
  by (auto simp: check_auth_def split: if_splits)

lemma read_auth_grant: "auth_type (read_auth cfg) \<noteq> config_type_oauth \<Longrightarrow> grant_type (read_auth cfg) = []"
  by (simp add: read_auth_def Let_def)

lemma parse_jwt_expiration_range:
  "parse_jwt_expiration cfg = Inr d \<Longrightarrow> min_jwt_expiration \<le> d \<and> d \<le> max_jwt_expiration"
  by (auto simp: parse_jwt_expiration_def min_jwt_expiration_def max_jwt_expiration_def
      split: option.splits if_splits)

lemma read_url_ok: "read_url env cfg key = Inr (Some u) \<Longrightarrow> url_ok [] u"
  by (auto simp: read_url_def dest: parse_url_ok split: sum.splits)

text \<open>The settings that reading the OAuth part does not touch.\<close>

definition same_static :: "auth_config \<Rightarrow> auth_config \<Rightarrow> bool" where
  "same_static p q \<longleftrightarrow>
     auth_type q = auth_type p \<and> basic_username q = basic_username p \<and> basic_password q = basic_password p
     \<and> static_header q = static_header p \<and> static_prefix q = static_prefix p
     \<and> static_secret q = static_secret p \<and> client_id q = client_id p
     \<and> client_secret q = client_secret p \<and> refresh_token q = refresh_token p \<and> pkce q = pkce p"

lemma read_oauth_ok:
  assumes "read_oauth env cfg p = Inr q"
  shows "same_static p q \<and> grant_type q = grant_type p
    \<and> (\<forall>u. token_url q = Some u \<longrightarrow> url_ok [] u)
    \<and> min_jwt_expiration \<le> jwt_expiration q \<and> jwt_expiration q \<le> max_jwt_expiration"
  using assms
  by (auto simp: read_oauth_def same_static_def dest!: parse_jwt_expiration_range dest: read_url_ok split: sum.splits)

lemma parse_jwt_private_key_alg:
  "parse_jwt_private_key env data = Inr (s, alg) \<Longrightarrow>
     alg \<in> {''RS256'', ''ES256'', ''ES384'', ''ES512'', ''EdDSA''}"
  by (auto simp: parse_jwt_private_key_def split: private_key.splits if_splits)

lemma load_jwt_key_ok:
  assumes "load_jwt_key env cfg p = Inr q"
  shows "same_static p q \<and> grant_type q = grant_type p \<and> token_url q = token_url p
    \<and> auth_url q = auth_url p \<and> callback_url q = callback_url p
    \<and> jwt_expiration q = jwt_expiration p \<and> jwt_claims q = jwt_claims p
    \<and> (grant_type p = grant_jwt_bearer \<longrightarrow>
         jwt_signer q \<noteq> None \<and> jwt_algorithm q \<in> {''RS256'', ''ES256'', ''ES384'', ''ES512'', ''EdDSA''})"
  using assms parse_jwt_private_key_alg [of env]
  by (auto simp: load_jwt_key_def same_static_def split: if_splits sum.splits option.splits; blast)

lemma check_oauth_None:
  assumes "check_oauth p = None" and "auth_type p = config_type_oauth"
  shows "token_url p \<noteq> None
     \<and> (grant_type p = grant_jwt_bearer \<longrightarrow> jwt_claims p \<noteq> [])
     \<and> (grant_type p \<noteq> grant_jwt_bearer \<longrightarrow> client_id p \<noteq> [])
     \<and> (grant_type p = grant_authz_code \<longrightarrow>
          auth_url p \<noteq> None \<and> callback_url p \<noteq> None \<and> (pkce p \<or> client_secret p \<noteq> []))
     \<and> (grant_type p = grant_client_creds \<longrightarrow> client_secret p \<noteq> [])
     \<and> (grant_type p = grant_refresh_token \<longrightarrow> refresh_token p \<noteq> [])"
  using assms by (auto simp: check_oauth_def split: if_splits)

lemma grants_distinct:
  "distinct [grant_authz_code, grant_client_creds, grant_refresh_token, grant_jwt_bearer]"
  "[] \<notin> set valid_grant_types"
  by (simp_all add: valid_grant_types_def auth_types)

lemma guess_grant_valid: "guess_grant p \<in> set valid_grant_types"
  by (simp add: guess_grant_def valid_grant_types_def)

text \<open>C35: An authentication section that passes the checks is complete. Whatever the mode,
  the settings that it needs are there and usable: a name without colon and a password, or a
  header and a secret that may be sent, or else a known grant type with a token URL over
  HTTP, an expiration within its bounds, and whatever the grant type needs - a signing key of a
  known algorithm and claims, or a client with its secret, or the URLs of the authorization
  code flow. The other modes carry no grant type.\<close>

theorem parse_auth_complete:
  assumes "parse_auth env raw_cfg = Inr p"
  shows "auth_ok env p"
proof -
  obtain cfg p1 p2 where check: "check_auth env (read_auth cfg) = None"
    and p1: "(if auth_type (read_auth cfg) = config_type_oauth then read_oauth env cfg (read_auth cfg)
      else Inr (read_auth cfg)) = Inr p1"
    and p2: "p2 = (if auth_type p1 = config_type_oauth \<and> grant_type p1 = []
      then p1\<lparr>grant_type := guess_grant p1\<rparr> else p1)"
    and key: "load_jwt_key env cfg p2 = Inr p" and last: "check_oauth p = None"
    using assms by (auto simp: parse_auth_def Let_def split: option.splits sum.splits)
  note c = check_auth_None [OF check]
  show ?thesis
  proof (cases "auth_type (read_auth cfg) = config_type_oauth")
    case True
    with p1 have o1: "read_oauth env cfg (read_auth cfg) = Inr p1" by simp
    note r = read_oauth_ok [OF o1] and k = load_jwt_key_ok [OF key]
    have same: "same_static (read_auth cfg) p" using r k p2 by (simp add: same_static_def split: if_splits)
    have ty: "auth_type p = config_type_oauth" using same True by (simp add: same_static_def)
    have "grant_type p2 \<in> set valid_grant_types"
      using r c True guess_grant_valid by (auto simp: p2 same_static_def)
    with r k p2 check_oauth_None [OF last ty] have "oauth_ok p"
      by (auto simp: oauth_ok_def split: if_splits)
    with ty c show ?thesis
      by (simp add: auth_ok_def valid_config_types_def auth_types)
  next
    case False
    then have "p1 = read_auth cfg" "grant_type p1 = []" using p1 read_auth_grant by auto
    with False key p2 have "p = read_auth cfg" by (auto simp: load_jwt_key_def auth_types split: if_splits)
    with False c read_auth_grant show ?thesis by (auto simp: auth_ok_def)
  qed
qed

definition demo_auth_env :: auth_env where
  "demo_auth_env = \<lparr>read_file = (\<lambda>p. Some ''pem''), pem_block = (\<lambda>_. True),
     auth_url_parse = (\<lambda>s. Some \<lparr>url_scheme = ''https'', url_opaque = [], url_hostname = ''h'',
       url_port = ''443'', url_raw_query = [], url_rest = s\<rparr>),
     auth_valid_name = (\<lambda>_. True), auth_valid_value = (\<lambda>_. True), parse_key = (\<lambda>_. EcKey 256)\<rparr>"

definition demo_auth :: table where
  "demo_auth = [(''type'', TString ''Basic''), (''basic_username'', TString ''u''),
     (''basic_password'', TString ''p''), (''static_header'', TString ''H''), (''static_prefix'', TString [])]"

lemma demo_auth_parses: "\<not> isl (parse_auth demo_auth_env (Some (TTable demo_auth)))"
  by code_simp

theorem parse_auth_complete_witness:
  "auth_ok demo_auth_env (projr (parse_auth demo_auth_env (Some (TTable demo_auth))))"
  by (rule parse_auth_complete [of _ "Some (TTable demo_auth)"]) (use demo_auth_parses in simp)

end
