(* ===== verification/HttpSender.thy ===== *)
theory HttpSender
  imports Conserving HttpHeaders CodecRows HttpTls Auth
begin

text \<open>
  The HTTP sender (pkg/http/sender.go): its configuration and its batchers, the requests it
  makes out of blobs, structured data and proxied HTTP messages, the concurrency slots, and
  its shutdown. What the network answers is an input of every request, as in HttpClient.
\<close>

section \<open>Messages\<close>

text \<open>
  The parts of an http.Request and an http.Response that the sender looks at. The URL of a
  request may be nil; its GetBody function may be nil (\<open>None\<close>) and may fail (\<open>Some None\<close>). A body
  that was closed, or read to its end, is \<open>spent\<close>: reading it again fails.
\<close>

record http_request =
  rq_query :: "string option"
  rq_header :: header
  rq_length :: int
  rq_body :: resp_body_kind
  rq_get_body :: "bytes option option"

record http_response =
  rs_status :: int
  rs_header :: header
  rs_length :: int
  rs_body :: resp_body_kind

definition spent :: resp_body_kind where
  "spent = StreamBody [] True"

definition read_all :: "resp_body_kind \<Rightarrow> bytes option" where
  "read_all b =
     (case b of NilBody \<Rightarrow> Some [] | ReusableBody raw \<Rightarrow> Some raw
      | StreamBody data fails \<Rightarrow> if fails then None else Some data)"

text \<open>io.NopCloser(bytes.NewReader(b)), which retryableBody makes.\<close>

definition fresh_body :: "bytes \<Rightarrow> resp_body_kind" where
  "fresh_body b = StreamBody b False"

type_synonym 'c data = "('c, http_request, http_response) chunk"

section \<open>Configuration\<close>

definition default_sender_concurrency :: int where "default_sender_concurrency = 100"
definition max_sender_concurrency :: int where "max_sender_concurrency = 200"
definition default_request_timeout :: duration where "default_request_timeout = 5 * second"

definition default_batch_limits :: limits where
  "default_batch_limits = \<lparr>max_items = 0, max_bytes = 0, batch_window = 0\<rparr>"

text \<open>
  The batchers of one kind of data, by format, with the formatter that the dispatch function
  of each encloses. The client is not kept: it is determined by the settings.
\<close>

type_synonym 'a batchers_map = "(format \<times> json_format \<times> 'a batcher) list"

record 'c http_sender =
  snd_name :: string
  snd_type :: string
  snd_fallback :: bool
  snd_url :: url
  snd_method :: string
  snd_headers :: header
  snd_timeout :: duration
  snd_format :: format
  snd_auth :: auth_config
  snd_tls :: tls_config
  snd_transport :: string
  snd_retries :: retries
  snd_state :: lifecycle
  json_batches :: "bytes batchers_map"
  row_batches :: "'c row batchers_map"
  slots :: nat

datatype sender_error =
  SenderUrl url_error
| SenderMethod http_error
| SenderMethodGet
| SenderQuery http_error
| SenderHeaders http_error
| SenderTimeout
| SenderFormat format_error
| SenderAuth auth_error
| SenderTls tls_error
| UnexpectedSenderType string
| SenderRetries retry_error
| SenderBatchLimits config_error
| SenderBatching format batcher_error

text \<open>
  One batcher for each structured format, or only for the sender's own format, if it has
  one. The guard is IfNotClosing, and there is no size function.
\<close>

fun make_batchers :: "limits \<Rightarrow> (format \<times> json_format) list \<Rightarrow> sender_error + 'a batchers_map" where
  "make_batchers l [] = Inr []"
| "make_batchers l ((fmt, f) # fs) =
     (case new_batcher l True (Some \<lparr>opt_size_of = None, opt_guard = True\<rparr>) of
        Inl e \<Rightarrow> Inl (SenderBatching fmt e)
      | Inr b \<Rightarrow> bind_sum (make_batchers l fs) (\<lambda>bs. Inr ((fmt, f, b) # bs)))"

definition init_batchers :: "format \<Rightarrow> limits \<Rightarrow> sender_error + 'a batchers_map" where
  "init_batchers own l =
     make_batchers l
       (filter (\<lambda>(fmt, f). \<not> (own \<noteq> format_default \<and> fmt \<noteq> own)) structured_formats)"

text \<open>The concurrency limit: below one means the maximum.\<close>

definition sender_slots :: "table \<Rightarrow> int" where
  "sender_slots cfg =
     (let n = cfg_value as_int cfg ''concurrency_limit'' default_sender_concurrency;
          n1 = (if n < 1 then max_sender_concurrency else n)
      in bounded_int n1 1 max_sender_concurrency)"

definition parse_timeout :: "table \<Rightarrow> duration option" where
  "parse_timeout cfg =
     (case parse_duration (cfg_value as_string cfg ''timeout'' (duration_string default_request_timeout)) of
        None \<Rightarrow> None
      | Some d \<Rightarrow> Some (max d 0))"

text \<open>Errors are reported in the order of the checks.\<close>

definition parse_target ::
  "auth_env \<Rightarrow> table \<Rightarrow> string \<Rightarrow> sender_error + url \<times> string \<times> header" where
  "parse_target env cfg base_ty =
     bind_sum (map_error SenderUrl
        (parse_url (auth_url_parse env) (cfg_value as_string cfg ''url'' []) base_ty True)) (\<lambda>u.
     bind_sum (map_error SenderMethod (parse_method (cfg_value as_string cfg ''method'' ''POST''))) (\<lambda>m.
     if m = ''GET'' then Inl SenderMethodGet
     else (case u of
             None \<Rightarrow> Inl (SenderUrl UrlMissing)
           | Some u0 \<Rightarrow>
               bind_sum (map_error SenderQuery (parse_query (url_raw_query u0) (map_of cfg ''query''))) (\<lambda>q.
               bind_sum (map_error SenderHeaders
                  (parse_headers (auth_valid_name env) (auth_valid_value env) (map_of cfg ''headers''))) (\<lambda>h.
               Inr (u0\<lparr>url_raw_query := q\<rparr>, m, h))))))"

definition new_sender ::
  "auth_env \<Rightarrow> tls_env \<Rightarrow> table \<Rightarrow> string \<Rightarrow> string \<Rightarrow> bool \<Rightarrow> sender_error + 'c http_sender" where
  "new_sender aenv tenv cfg name base_ty has_dlq =
     bind_sum (parse_target aenv cfg base_ty) (\<lambda>(u, m, h).
     case parse_timeout cfg of None \<Rightarrow> Inl SenderTimeout | Some timeout \<Rightarrow>
     bind_sum (map_error SenderFormat (parse_structured_format cfg)) (\<lambda>fmt.
     bind_sum (map_error SenderAuth (parse_auth aenv (map_of cfg ''auth''))) (\<lambda>au.
     bind_sum (map_error SenderTls (load_client_tls_config tenv (map_of cfg ''tls'') base_ty)) (\<lambda>(t, checksum).
     if base_ty \<noteq> type_http \<and> base_ty \<noteq> type_http3 then Inl (UnexpectedSenderType base_ty)
     else
     bind_sum (map_error SenderRetries (parse_retries (map_of cfg ''retries'') m)) (\<lambda>r.
     bind_sum (map_error SenderBatchLimits (batch_limits (map_of cfg ''batch'') default_batch_limits)) (\<lambda>l.
     bind_sum (init_batchers fmt l) (\<lambda>js.
     bind_sum (init_batchers fmt l) (\<lambda>rs.
     Inr \<lparr>snd_name = name, snd_type = base_ty, snd_fallback = has_dlq, snd_url = u, snd_method = m,
          snd_headers = h, snd_timeout = timeout, snd_format = fmt, snd_auth = au, snd_tls = t,
          snd_transport = transport_id checksum default_max_header_size timeout,
          snd_retries = r, snd_state = lc_start lifecycle_zero, json_batches = js, row_batches = rs,
          slots = nat (sender_slots cfg)\<rparr>))))))))"

section \<open>Output formats\<close>

text \<open>
  \<open>None\<close> is the panic of Resolve, which never happens with NDJSON as the fallback.
\<close>

definition output_format :: "('c, 'z) http_sender_scheme \<Rightarrow> 'c data \<Rightarrow> format \<Rightarrow> format option" where
  "output_format s d upstream =
     (case d of
        Blobs _ \<Rightarrow> Some (if upstream = format_default then format_raw else upstream)
      | JSON _ \<Rightarrow>
          (if snd_format s \<noteq> format_default then Some (snd_format s)
           else map_option fst (resolve_format upstream format_ndjson))
      | Rows _ \<Rightarrow>
          (if snd_format s \<noteq> format_default then Some (snd_format s)
           else map_option fst (resolve_format upstream format_ndjson))
      | _ \<Rightarrow> Some upstream)"

section \<open>Requests\<close>

text \<open>
  An outgoing request, as Sender.sendOnce gets it: \<open>out_body\<close> is what its GetBody function
  returns, \<open>None\<close> an error.
\<close>

record out_request =
  out_query :: string
  out_header :: header
  out_body :: "bytes option"
  out_length :: int

text \<open>
  What a goroutine of sendWithConcurrencyLimit has to send, with what its reject function
  needs. A message is kept as it is while it is being sent: its body has been taken.
\<close>

datatype 'c job =
  StructuredJob "'c data" format json_format
| BlobJob bytes format out_request
| RequestJob http_request "bytes option option" out_request
| ResponseJob http_response bytes out_request

definition send_blob :: "(bytes \<Rightarrow> string) \<Rightarrow> ('c, 'z) http_sender_scheme \<Rightarrow> format \<Rightarrow> bytes \<Rightarrow> 'c job option" where
  "send_blob detect s fmt body =
     (if body = [] then None
      else Some (BlobJob body fmt
             \<lparr>out_query = url_raw_query (snd_url s), out_header = payload_headers (snd_headers s) (detect body),
              out_body = Some body, out_length = int (length body)\<rparr>))"

text \<open>
  A request without a body, one whose body can be had again (the one it has is closed), and
  one whose body has to be read here; nothing is sent if that fails.
\<close>

definition send_http_request :: "('c, 'z) http_sender_scheme \<Rightarrow> http_request option \<Rightarrow> 'c job option" where
  "send_http_request s req =
     (case req of
        None \<Rightarrow> None
      | Some r \<Rightarrow>
          (let out = \<lparr>out_query = copy_query (rq_query r) (url_raw_query (snd_url s)),
                      out_header = copy_headers (rq_header r) (snd_headers s) True,
                      out_body = Some [], out_length = 0\<rparr>
           in if rq_body r = NilBody \<and> rq_get_body r = None then Some (RequestJob r None out)
              else (case rq_get_body r of
                      Some b \<Rightarrow>
                        Some (RequestJob (if rq_body r \<noteq> NilBody then r\<lparr>rq_body := spent\<rparr> else r) (Some b)
                          (out\<lparr>out_body := b, out_length := rq_length r\<rparr>))
                    | None \<Rightarrow>
                        (case read_all (rq_body r) of
                           None \<Rightarrow> None
                         | Some b \<Rightarrow>
                             Some (RequestJob (r\<lparr>rq_body := spent\<rparr>) (Some (Some b))
                               (out\<lparr>out_body := Some b, out_length := int (length b)\<rparr>))))))"

text \<open>A response without a body is not worth sending; only a reusable body is not consumed.\<close>

definition send_http_response :: "('c, 'z) http_sender_scheme \<Rightarrow> http_response option \<Rightarrow> 'c job option" where
  "send_http_response s resp =
     (case resp of
        None \<Rightarrow> None
      | Some r \<Rightarrow>
          (let out = \<lparr>out_query = url_raw_query (snd_url s),
                      out_header = copy_headers (rs_header r) (snd_headers s) False,
                      out_body = Some [], out_length = 0\<rparr>
           in case rs_body r of
                NilBody \<Rightarrow> None
              | ReusableBody raw \<Rightarrow>
                  Some (ResponseJob r raw (out\<lparr>out_body := Some raw, out_length := rs_length r\<rparr>))
              | StreamBody data fails \<Rightarrow>
                  (case read_all (rs_body r) of
                     None \<Rightarrow> None
                   | Some b \<Rightarrow>
                       Some (ResponseJob (r\<lparr>rs_body := spent\<rparr>) b
                         (out\<lparr>out_body := Some b, out_length := int (length b)\<rparr>)))))"

text \<open>The reject functions: what they pass to the fallback, and in which format.\<close>

definition reject_request :: "http_request \<Rightarrow> bytes option option \<Rightarrow> 'c data" where
  "reject_request r get_body =
     HTTPRequests [Some (case get_body of
                           None \<Rightarrow> r
                         | Some None \<Rightarrow> r
                         | Some (Some b) \<Rightarrow> r\<lparr>rq_body := fresh_body b\<rparr>)]"

definition reject_response :: "http_response \<Rightarrow> bytes \<Rightarrow> 'c data" where
  "reject_response r b = HTTPResponses [Some (r\<lparr>rs_body := fresh_body b\<rparr>)]"

fun reject_job :: "'c job \<Rightarrow> 'c data \<times> format" where
  "reject_job (StructuredJob d fmt f) = (d, fmt)"
| "reject_job (BlobJob b fmt out) = (Blobs [b], fmt)"
| "reject_job (RequestJob r g out) = (reject_request r g, format_default)"
| "reject_job (ResponseJob r b out) = (reject_response r b, format_default)"

text \<open>Encoding of structured data; a nil payload has no bytes.\<close>

definition encode_data ::
  "(('f, 'v) cell \<Rightarrow> bytes option) \<Rightarrow> json_format \<Rightarrow> ('f, 'v) cell data \<Rightarrow> bytes option" where
  "encode_data marshal f d =
     (case d of
        JSON objs \<Rightarrow>
          (case encode_json f objs of Inl e \<Rightarrow> None | Inr p \<Rightarrow> Some (case p of None \<Rightarrow> [] | Some b \<Rightarrow> b))
      | Rows rows \<Rightarrow>
          (case encode_rows marshal f rows of Inl e \<Rightarrow> None | Inr p \<Rightarrow> Some (case p of None \<Rightarrow> [] | Some b \<Rightarrow> b))
      | _ \<Rightarrow> None)"

datatype 'c send_outcome = Delivered out_request | Rejected "'c data" format

text \<open>
  The attempts of a request: GetBody either works in all of them or in none. The environment
  says what the attempts meet otherwise.
\<close>

definition try_request :: "('c, 'z) http_sender_scheme \<Rightarrow> (nat \<Rightarrow> attempt_env) \<Rightarrow> out_request \<Rightarrow> 'c data \<times> format \<Rightarrow> 'c send_outcome" where
  "try_request s env out rej =
     (if fst (send_with_retries (snd_retries s) (\<lambda>i. (env i)\<lparr>body_ok := (out_body out \<noteq> None)\<rparr>))
      then Rejected (fst rej) (snd rej) else Delivered out)"

fun run_job ::
  "(('f, 'v) cell \<Rightarrow> bytes option) \<Rightarrow> (('f, 'v) cell, 'z) http_sender_scheme \<Rightarrow> (nat \<Rightarrow> attempt_env)
    \<Rightarrow> ('f, 'v) cell job \<Rightarrow> ('f, 'v) cell send_outcome" where
  "run_job marshal s env (StructuredJob d fmt f) =
     (case encode_data marshal f d of
        None \<Rightarrow> Rejected d fmt
      | Some body \<Rightarrow>
          try_request s env
            \<lparr>out_query = url_raw_query (snd_url s), out_header = payload_headers (snd_headers s) (mime f),
             out_body = Some body, out_length = int (length body)\<rparr> (Blobs [body], fmt))"
| "run_job marshal s env (BlobJob b fmt out) = try_request s env out (reject_job (BlobJob b fmt out))"
| "run_job marshal s env (RequestJob r g out) = try_request s env out (reject_job (RequestJob r g out))"
| "run_job marshal s env (ResponseJob r b out) = try_request s env out (reject_job (ResponseJob r b out))"

section \<open>Send, slots and Close\<close>

text \<open>
  The running system of a sender: the goroutines that hold a slot, those that wait for one,
  the batchers that Close has still to flush, and a record of what happened: the outcome of
  every job, and the chunks that Send refused, which went to the fallback as a whole.
\<close>

datatype batch_kind = JsonBatch | RowBatch

record 'c sender_sys = "'c http_sender" +
  running :: "'c job list"
  waiting :: "'c job list"
  to_flush :: "(batch_kind \<times> format) list"
  outcomes :: "('c job \<times> 'c send_outcome) list"
  refused :: "('c data \<times> format) list"

definition start_job :: "'c job \<Rightarrow> 'c sender_sys \<Rightarrow> 'c sender_sys" where
  "start_job j s =
     (let s1 = s\<lparr>snd_state := (snd_state s)\<lparr>in_progress := in_progress (snd_state s) + 1\<rparr>\<rparr>
      in if length (running s) < slots s then s1\<lparr>running := running s @ [j]\<rparr>
         else s1\<lparr>waiting := waiting s @ [j]\<rparr>)"

definition start_jobs :: "'c job list \<Rightarrow> 'c sender_sys \<Rightarrow> 'c sender_sys" where
  "start_jobs js s = fold start_job js s"

text \<open>
  An operation on a batcher, whose dispatch function makes a job of every batch; \<open>None\<close> is
  the panic of a nil batcher.
\<close>

definition use_json ::
  "(bytes batcher \<Rightarrow> bytes batcher \<times> bytes list list) \<Rightarrow> format \<Rightarrow> 'c sender_sys \<Rightarrow> 'c sender_sys option" where
  "use_json operation fmt s =
     (case map_of (json_batches s) fmt of
        None \<Rightarrow> None
      | Some (f, b) \<Rightarrow>
          (let (b', out) = operation b
           in Some (start_jobs (map (\<lambda>batch. StructuredJob (JSON batch) fmt f) out)
                (s\<lparr>json_batches := AList.update fmt (f, b') (json_batches s)\<rparr>))))"

definition use_rows ::
  "('c row batcher \<Rightarrow> 'c row batcher \<times> 'c row list list) \<Rightarrow> format \<Rightarrow> 'c sender_sys \<Rightarrow> 'c sender_sys option" where
  "use_rows operation fmt s =
     (case map_of (row_batches s) fmt of
        None \<Rightarrow> None
      | Some (f, b) \<Rightarrow>
          (let (b', out) = operation b
           in Some (start_jobs (map (\<lambda>batch. StructuredJob (Rows batch) fmt f) out)
                (s\<lparr>row_batches := AList.update fmt (f, b') (row_batches s)\<rparr>))))"

text \<open>What Send does with a chunk that is not empty, while the sender is open.\<close>

definition dispatch_chunk ::
  "(bytes \<Rightarrow> string) \<Rightarrow> 'c data \<Rightarrow> format \<Rightarrow> 'c sender_sys \<Rightarrow> 'c sender_sys option" where
  "dispatch_chunk detect d fmt s =
     (case d of
        JSON xs \<Rightarrow> use_json (\<lambda>b. add_chunk b xs) fmt s
      | Rows xs \<Rightarrow> use_rows (\<lambda>b. add_chunk b xs) fmt s
      | Blobs bs \<Rightarrow> Some (start_jobs (List.map_filter (send_blob detect s fmt) bs) s)
      | HTTPRequests rs \<Rightarrow> Some (start_jobs (List.map_filter (send_http_request s) rs) s)
      | HTTPResponses rs \<Rightarrow> Some (start_jobs (List.map_filter (send_http_response s) rs) s)
      | FakeData \<Rightarrow> Some s)"

text \<open>Send; \<open>None\<close> is a panic, of Resolve or of a nil batcher.\<close>

definition sender_send ::
  "(bytes \<Rightarrow> string) \<Rightarrow> 'c data option \<Rightarrow> format \<Rightarrow> 'c sender_sys \<Rightarrow> 'c sender_sys option" where
  "sender_send detect data upstream s =
     (if is_empty_chunk data then Some s
      else (case data of None \<Rightarrow> Some s | Some d \<Rightarrow>
        (case output_format s d upstream of
           None \<Rightarrow> None
         | Some fmt \<Rightarrow>
             (if is_closing (snd_state s) then Some (s\<lparr>refused := refused s @ [(d, fmt)]\<rparr>)
              else dispatch_chunk detect d fmt s))))"

text \<open>The callback of a batcher's timer, under the guard IfNotClosing.\<close>

definition sender_timer :: "batch_kind \<Rightarrow> format \<Rightarrow> 64 word \<Rightarrow> 'c sender_sys \<Rightarrow> 'c sender_sys option" where
  "sender_timer kind fmt g s =
     (let allow = (\<not> is_closing (snd_state s))
      in case kind of JsonBatch \<Rightarrow> use_json (timed_flush g allow) fmt s
                    | RowBatch \<Rightarrow> use_rows (timed_flush g allow) fmt s)"

text \<open>
  Close begins, once, and only on a sender that was started; then its goroutine flushes the
  batchers one after the other, whatever else happens meanwhile, and waits for the work in
  progress; when it has finished, or after a timeout, the sender is marked as closed.
\<close>

definition sender_begin_close :: "'c sender_sys \<Rightarrow> 'c sender_sys option" where
  "sender_begin_close s =
     (if \<not> is_started (snd_state s) then Some s
      else if once_done (snd_state s) then Some s
      else (case begin_close ((snd_state s)\<lparr>once_done := True\<rparr>) of
              Inl p \<Rightarrow> None
            | Inr l \<Rightarrow>
                Some (s\<lparr>snd_state := l,
                        to_flush := map (\<lambda>(fmt, _). (JsonBatch, fmt)) (json_batches s)
                                    @ map (\<lambda>(fmt, _). (RowBatch, fmt)) (row_batches s)\<rparr>)))"

definition flush_next :: "'c sender_sys \<Rightarrow> 'c sender_sys option" where
  "flush_next s =
     (case to_flush s of
        [] \<Rightarrow> Some s
      | (kind, fmt) # rest \<Rightarrow>
          (case (case kind of JsonBatch \<Rightarrow> use_json flush fmt s | RowBatch \<Rightarrow> use_rows flush fmt s) of
             None \<Rightarrow> None
           | Some s' \<Rightarrow> Some (s'\<lparr>to_flush := rest\<rparr>)))"

definition sender_finish_close :: "'c sender_sys \<Rightarrow> 'c sender_sys option" where
  "sender_finish_close s =
     (if \<not> is_closing (snd_state s) \<or> closed (snd_state s) = ClosedChan then Some s
      else (case finish_close (snd_state s) of Inl p \<Rightarrow> None | Inr l \<Rightarrow> Some (s\<lparr>snd_state := l\<rparr>)))"

text \<open>The goroutine with number \<open>i\<close> is done: its outcome, and its count.\<close>

definition job_done :: "'c job \<Rightarrow> 'c send_outcome \<Rightarrow> 'c sender_sys \<Rightarrow> 'c sender_sys" where
  "job_done j oc s =
     s\<lparr>outcomes := outcomes s @ [(j, oc)],
       snd_state := (snd_state s)\<lparr>in_progress := in_progress (snd_state s) - 1\<rparr>\<rparr>"

definition drop_nth :: "nat \<Rightarrow> 'a list \<Rightarrow> 'a list" where
  "drop_nth i xs = take i xs @ drop (Suc i) xs"

definition reject_outcome :: "'c job \<Rightarrow> 'c send_outcome" where
  "reject_outcome j = (let (d, fmt) = reject_job j in Rejected d fmt)"

text \<open>
  A waiting goroutine goes on when it gets a slot, or when the shutdown begins; either way it
  checks for the shutdown again, because the choice between both is random. A slot that it
  got only to reject is free again afterwards.
\<close>

definition waiting_wakes :: "bool \<Rightarrow> nat \<Rightarrow> 'c sender_sys \<Rightarrow> 'c sender_sys" where
  "waiting_wakes got_slot i s =
     (if i \<ge> length (waiting s) \<or> (if got_slot then length (running s) \<ge> slots s else \<not> is_closing (snd_state s))
      then s
      else (let j = waiting s ! i; s1 = s\<lparr>waiting := drop_nth i (waiting s)\<rparr>
            in if is_closing (snd_state s) then job_done j (reject_outcome j) s1
               else s1\<lparr>running := running s @ [j]\<rparr>))"

definition running_ends ::
  "(('f, 'v) cell \<Rightarrow> bytes option) \<Rightarrow> (nat \<Rightarrow> attempt_env) \<Rightarrow> nat \<Rightarrow> ('f, 'v) cell sender_sys
    \<Rightarrow> ('f, 'v) cell sender_sys" where
  "running_ends marshal env i s =
     (if i \<ge> length (running s) then s
      else (let j = running s ! i
            in job_done j (run_job marshal s env j) (s\<lparr>running := drop_nth i (running s)\<rparr>)))"

section \<open>The system\<close>

text \<open>
  What may happen, in any order: the events of the environment with their inputs, and the
  moments at which goroutines go on. An event that is not possible now changes nothing.
\<close>

datatype 'c sender_event =
  EvSend "'c data option" format
| EvTimer batch_kind format "64 word"
| EvBeginClose
| EvFlush
| EvFinishClose
| EvWake bool nat
| EvEnds "nat \<Rightarrow> attempt_env" nat

fun sender_step ::
  "(('f, 'v) cell \<Rightarrow> bytes option) \<Rightarrow> (bytes \<Rightarrow> string) \<Rightarrow> ('f, 'v) cell sender_event
    \<Rightarrow> ('f, 'v) cell sender_sys \<Rightarrow> ('f, 'v) cell sender_sys option" where
  "sender_step marshal detect (EvSend d fmt) s = sender_send detect d fmt s"
| "sender_step marshal detect (EvTimer kind fmt g) s =
     (if fmt \<in> set (map fst (json_batches s)) then sender_timer kind fmt g s else Some s)"
| "sender_step marshal detect EvBeginClose s = sender_begin_close s"
| "sender_step marshal detect EvFlush s = flush_next s"
| "sender_step marshal detect EvFinishClose s = sender_finish_close s"
| "sender_step marshal detect (EvWake got i) s = Some (waiting_wakes got i s)"
| "sender_step marshal detect (EvEnds env i) s = Some (running_ends marshal env i s)"

section \<open>What is sent\<close>

text \<open>
  The items of the chunks by their contents, so that a message is the same item after its
  body has been taken and put back. What the code does not send (it logs an error, or
  ignores it) is no item: empty blobs, nil messages, responses without a body, and bodies
  that cannot be read.
\<close>

datatype 'c unit_item =
  UBlob bytes
| UJson bytes
| URow "'c row"
| URequest "string option" header int "bytes option"
| UResponse int header int bytes

definition request_unit :: "http_request option \<Rightarrow> 'c unit_item option" where
  "request_unit req =
     (case req of
        None \<Rightarrow> None
      | Some r \<Rightarrow>
          (if rq_body r = NilBody then Some (URequest (rq_query r) (rq_header r) (rq_length r) None)
           else map_option (\<lambda>b. URequest (rq_query r) (rq_header r) (rq_length r) (Some b)) (read_all (rq_body r))))"

definition response_unit :: "http_response option \<Rightarrow> 'c unit_item option" where
  "response_unit resp =
     (case resp of
        None \<Rightarrow> None
      | Some r \<Rightarrow>
          (if rs_body r = NilBody then None
           else map_option (UResponse (rs_status r) (rs_header r) (rs_length r)) (read_all (rs_body r))))"

fun data_units :: "'c data \<Rightarrow> 'c unit_item multiset" where
  "data_units (Blobs bs) = mset (map UBlob (filter (\<lambda>b. b \<noteq> []) bs))"
| "data_units (JSON objs) = mset (map UJson objs)"
| "data_units (Rows rows) = mset (map URow rows)"
| "data_units (HTTPRequests rs) = mset (List.map_filter request_unit rs)"
| "data_units (HTTPResponses rs) = mset (List.map_filter response_unit rs)"
| "data_units FakeData = {#}"

text \<open>As net/http documents it, GetBody returns a new copy of Body.\<close>

definition request_ok :: "http_request \<Rightarrow> bool" where
  "request_ok r \<longleftrightarrow>
     (case rq_get_body r of None \<Rightarrow> True | Some g \<Rightarrow> (\<exists>b. g = Some b \<and> rq_body r = fresh_body b))"

definition data_ok :: "'c data \<Rightarrow> bool" where
  "data_ok d = (case d of HTTPRequests rs \<Rightarrow> (\<forall>r. Some r \<in> set rs \<longrightarrow> request_ok r) | _ \<Rightarrow> True)"

fun job_units :: "'c job \<Rightarrow> 'c unit_item multiset" where
  "job_units (StructuredJob d fmt f) = data_units d"
| "job_units (BlobJob b fmt out) = {#UBlob b#}"
| "job_units (RequestJob r g out) =
     {#URequest (rq_query r) (rq_header r) (rq_length r) (case g of None \<Rightarrow> None | Some b \<Rightarrow> b)#}"
| "job_units (ResponseJob r b out) = {#UResponse (rs_status r) (rs_header r) (rs_length r) b#}"

text \<open>The bytes that a job is to deliver, and the jobs that the program makes.\<close>

fun job_payload :: "(('f, 'v) cell \<Rightarrow> bytes option) \<Rightarrow> ('f, 'v) cell job \<Rightarrow> bytes option" where
  "job_payload marshal (StructuredJob d fmt f) = encode_data marshal f d"
| "job_payload marshal (BlobJob b fmt out) = Some b"
| "job_payload marshal (RequestJob r g out) = (case g of None \<Rightarrow> Some [] | Some b \<Rightarrow> b)"
| "job_payload marshal (ResponseJob r b out) = Some b"

fun job_ok :: "'c job \<Rightarrow> bool" where
  "job_ok (StructuredJob d fmt f) \<longleftrightarrow> map_of structured_formats fmt = Some f"
| "job_ok (BlobJob b fmt out) \<longleftrightarrow> b \<noteq> [] \<and> out_body out = Some b"
| "job_ok (RequestJob r g out) \<longleftrightarrow>
     (case g of None \<Rightarrow> rq_body r = NilBody \<and> out_body out = Some [] | Some b \<Rightarrow> b \<noteq> None \<and> out_body out = b)"
| "job_ok (ResponseJob r b out) \<longleftrightarrow> out_body out = Some b"

text \<open>
  The outcome of a job: delivered with exactly its payload; or handed to the fallback, as
  the items it was made of, or as the encoded payload of all of them.
\<close>

definition outcome_ok :: "(('f, 'v) cell \<Rightarrow> bytes option) \<Rightarrow> ('f, 'v) cell job \<Rightarrow> ('f, 'v) cell send_outcome \<Rightarrow> bool" where
  "outcome_ok marshal j oc \<longleftrightarrow>
     (case oc of
        Delivered out \<Rightarrow> out_body out \<noteq> None \<and> job_payload marshal j = out_body out
      | Rejected d fmt \<Rightarrow>
          fmt = snd (reject_job j)
          \<and> (data_units d = job_units j \<or> (\<exists>body. job_payload marshal j = Some body \<and> d = Blobs [body])))"

lemma fresh_body_simps [simp]:
  "fresh_body b \<noteq> NilBody" "NilBody \<noteq> fresh_body b" "read_all (fresh_body b) = Some b"
  "spent \<noteq> NilBody" "read_all spent = None"
  by (simp_all add: fresh_body_def read_all_def spent_def)

lemma map_filter_mset:
  assumes "\<And>x. x \<in> set xs \<Longrightarrow> (case f x of None \<Rightarrow> u x = None | Some y \<Rightarrow> g y = {#the (u x)#} \<and> u x \<noteq> None)"
  shows "sum_list (map g (List.map_filter f xs)) = mset (List.map_filter u xs)"
  using assms
proof (induction xs)
  case (Cons x xs)
  have "(case f x of None \<Rightarrow> u x = None | Some y \<Rightarrow> g y = {#the (u x)#} \<and> u x \<noteq> None)" using Cons.prems by simp
  with Cons.IH Cons.prems show ?case by (cases "f x"; cases "u x") (simp_all add: map_filter_simps)
qed (simp add: map_filter_simps)

lemma map_filter_all: "(\<And>x y. x \<in> set xs \<Longrightarrow> f x = Some y \<Longrightarrow> P y) \<Longrightarrow> list_all P (List.map_filter f xs)"
  by (auto simp: list_all_iff List.map_filter_def)

lemma send_blob_units:
  fixes fmt :: format
  shows "case send_blob detect s fmt b of None \<Rightarrow> b = [] | Some j \<Rightarrow> b \<noteq> [] \<and> job_units j = {#UBlob b#} \<and> job_ok j"
  by (simp add: send_blob_def)

lemma send_http_request_units:
  assumes "\<And>r. req = Some r \<Longrightarrow> request_ok r"
  shows "case send_http_request s req of None \<Rightarrow> request_unit req = None
    | Some j \<Rightarrow> job_units j = {#the (request_unit req)#} \<and> request_unit req \<noteq> None \<and> job_ok j"
proof (cases req)
  case (Some r)
  with assms have ok: "request_ok r" by simp
  show ?thesis
  proof (cases "rq_get_body r")
    case None
    then show ?thesis using Some
      by (cases "rq_body r = NilBody") (auto simp: send_http_request_def request_unit_def Let_def split: option.splits)
  next
    case (Some g)
    with ok obtain b where "g = Some b" "rq_body r = fresh_body b" by (auto simp: request_ok_def)
    with Some \<open>req = Some r\<close> show ?thesis
      by (simp add: send_http_request_def request_unit_def Let_def)
  qed
qed (simp add: send_http_request_def request_unit_def)

lemma send_http_response_units:
  "case send_http_response s resp of None \<Rightarrow> response_unit resp = None
    | Some j \<Rightarrow> job_units j = {#the (response_unit resp)#} \<and> response_unit resp \<noteq> None \<and> job_ok j"
  by (auto simp: send_http_response_def response_unit_def read_all_def Let_def
      split: option.splits resp_body_kind.splits)

lemma reject_job_units: "job_ok j \<Longrightarrow> data_units (fst (reject_job j)) = job_units j"
  by (cases j) (auto simp: reject_request_def reject_response_def request_unit_def response_unit_def
      map_filter_simps split: option.splits)

lemma reject_outcome_ok: "job_ok j \<Longrightarrow> outcome_ok marshal j (reject_outcome j)"
  using reject_job_units [of j] by (auto simp: outcome_ok_def reject_outcome_def split: prod.splits)

lemma send_loop_no_body:
  "(\<And>i. \<not> body_ok (env i)) \<Longrightarrow> max_successful_status_code < code \<Longrightarrow>
     max_successful_status_code < fst (send_loop n i env code)"
  by (induction n arbitrary: i code) (auto simp: send_once_def max_successful_status_code_def)

lemma try_request_cases:
  "try_request s env out rej = Delivered out \<and> out_body out \<noteq> None
   \<or> try_request s env out rej = Rejected (fst rej) (snd rej)"
proof (cases "out_body out")
  case None
  then have "fst (send_with_retries (snd_retries s) (\<lambda>i. (env i)\<lparr>body_ok := (out_body out \<noteq> None)\<rparr>))"
    using send_loop_no_body [of "\<lambda>i. (env i)\<lparr>body_ok := False\<rparr>" 503 "nat (max_attempts (snd_retries s))" 0]
    by (auto simp: send_with_retries_def max_successful_status_code_def split: prod.splits)
  then show ?thesis by (simp add: try_request_def)
qed (auto simp: try_request_def)

lemma try_request_ok:
  assumes "out_body out \<noteq> None \<Longrightarrow> job_payload marshal j = out_body out"
    and "outcome_ok marshal j (Rejected (fst rej) (snd rej))"
  shows "outcome_ok marshal j (try_request s env out rej)"
  using try_request_cases [of s env out rej] assms by (auto simp: outcome_ok_def)

lemma reject_ok: "job_ok j \<Longrightarrow> outcome_ok marshal j (Rejected (fst (reject_job j)) (snd (reject_job j)))"
  using reject_outcome_ok [of j marshal] by (simp add: reject_outcome_def split_def Let_def)

lemma run_job_ok: "job_ok j \<Longrightarrow> outcome_ok marshal j (run_job marshal s env j)"
proof (cases j)
  case (StructuredJob d fmt f)
  show ?thesis
  proof (cases "encode_data marshal f d")
    case None
    with StructuredJob show ?thesis by (simp add: outcome_ok_def)
  next
    case (Some body)
    then have "outcome_ok marshal (StructuredJob d fmt f) (Rejected (Blobs [body]) fmt)"
      by (simp add: outcome_ok_def)
    with StructuredJob Some show ?thesis by (auto intro!: try_request_ok)
  qed
next
  case (RequestJob r g out)
  moreover assume "job_ok j"
  ultimately show ?thesis
    using reject_ok [of j marshal] by (cases g) (auto intro!: try_request_ok)
qed (use reject_ok [of j marshal] in \<open>auto intro!: try_request_ok\<close>)

section \<open>The invariant\<close>

definition sender_formats :: "format \<Rightarrow> format list" where
  "sender_formats own =
     map fst (filter (\<lambda>(fmt, f). \<not> (own \<noteq> format_default \<and> fmt \<noteq> own)) structured_formats)"

definition batchers_ok :: "format \<Rightarrow> 'a batchers_map \<Rightarrow> bool" where
  "batchers_ok own m \<longleftrightarrow>
     map fst m = sender_formats own
     \<and> list_all (\<lambda>(fmt, f, b). batcher_ok b \<and> has_guard b \<and> map_of structured_formats fmt = Some f) m"

text \<open>Between the steps of Close, the flushed batchers stay empty.\<close>

definition drained :: "'c sender_sys \<Rightarrow> bool" where
  "drained s \<longleftrightarrow>
     (is_closing (snd_state s) \<longrightarrow>
        (\<forall>fmt f b. (fmt, f, b) \<in> set (json_batches s) \<longrightarrow> buf b \<noteq> [] \<longrightarrow> (JsonBatch, fmt) \<in> set (to_flush s))
        \<and> (\<forall>fmt f b. (fmt, f, b) \<in> set (row_batches s) \<longrightarrow> buf b \<noteq> [] \<longrightarrow> (RowBatch, fmt) \<in> set (to_flush s)))"

definition sender_life_ok :: "'c sender_sys \<Rightarrow> bool" where
  "sender_life_ok s \<longleftrightarrow>
     (if is_closing (snd_state s)
      then once_done (snd_state s) \<and> closed (snd_state s) \<noteq> NilChan
           \<and> (\<forall>(kind, fmt) \<in> set (to_flush s). fmt \<in> set (sender_formats (snd_format s)))
      else closing (snd_state s) = OpenChan \<and> closed (snd_state s) = OpenChan
           \<and> \<not> once_done (snd_state s) \<and> to_flush s = [])"

definition sender_jobs_ok :: "(('f, 'v) cell \<Rightarrow> bytes option) \<Rightarrow> ('f, 'v) cell sender_sys \<Rightarrow> bool" where
  "sender_jobs_ok marshal s \<longleftrightarrow>
     length (running s) \<le> slots s
     \<and> in_progress (snd_state s) = length (running s) + length (waiting s)
     \<and> list_all job_ok (running s) \<and> list_all job_ok (waiting s)
     \<and> list_all (\<lambda>(j, oc). outcome_ok marshal j oc) (outcomes s)"

definition sender_core :: "(('f, 'v) cell \<Rightarrow> bytes option) \<Rightarrow> ('f, 'v) cell sender_sys \<Rightarrow> bool" where
  "sender_core marshal s \<longleftrightarrow>
     (snd_format s = format_default \<or> snd_format s \<in> fst ` set structured_formats)
     \<and> batchers_ok (snd_format s) (json_batches s) \<and> batchers_ok (snd_format s) (row_batches s)
     \<and> sender_jobs_ok marshal s \<and> sender_life_ok s"

definition sender_good :: "(('f, 'v) cell \<Rightarrow> bytes option) \<Rightarrow> ('f, 'v) cell sender_sys \<Rightarrow> bool" where
  "sender_good marshal s \<longleftrightarrow> sender_core marshal s \<and> drained s"

text \<open>Every item that the sender holds, or has dealt with.\<close>

definition batched :: "('a \<Rightarrow> 'u) \<Rightarrow> 'a batchers_map \<Rightarrow> 'u multiset" where
  "batched u m = (\<Sum>(fmt, f, b)\<leftarrow>m. mset (map u (buf b)))"

definition pending_units :: "'c sender_sys \<Rightarrow> 'c unit_item multiset" where
  "pending_units s = batched UJson (json_batches s) + batched URow (row_batches s)"

definition settled_units :: "'c sender_sys \<Rightarrow> 'c unit_item multiset" where
  "settled_units s = (\<Sum>(j, oc)\<leftarrow>outcomes s. job_units j) + (\<Sum>(d, fmt)\<leftarrow>refused s. data_units d)"

definition sender_held :: "'c sender_sys \<Rightarrow> 'c unit_item multiset" where
  "sender_held s =
     pending_units s + (\<Sum>j\<leftarrow>running s. job_units j) + (\<Sum>j\<leftarrow>waiting s. job_units j) + settled_units s"

lemmas sender_defs = sender_core_def sender_jobs_ok_def sender_life_ok_def batchers_ok_def
lemmas held_defs = sender_held_def pending_units_def settled_units_def batched_def

subsection \<open>Starting jobs\<close>

lemma start_job_frame [simp]:
  "json_batches (start_job j s) = json_batches s" "row_batches (start_job j s) = row_batches s"
  "to_flush (start_job j s) = to_flush s" "outcomes (start_job j s) = outcomes s"
  "refused (start_job j s) = refused s" "snd_format (start_job j s) = snd_format s"
  "slots (start_job j s) = slots s" "closing (snd_state (start_job j s)) = closing (snd_state s)"
  "closed (snd_state (start_job j s)) = closed (snd_state s)"
  "once_done (snd_state (start_job j s)) = once_done (snd_state s)"
  by (simp_all add: start_job_def Let_def)

lemma start_job_closing [simp]: "is_closing (snd_state (start_job j s)) = is_closing (snd_state s)"
  by (simp add: is_closing_def)

lemma start_job_jobs:
  "sender_jobs_ok marshal s \<Longrightarrow> job_ok j \<Longrightarrow> sender_jobs_ok marshal (start_job j s)"
  by (auto simp: sender_jobs_ok_def start_job_def Let_def)

lemma start_job_core:
  assumes "sender_core marshal s" and "job_ok j"
  shows "sender_core marshal (start_job j s)"
  using assms start_job_jobs [of marshal s j] by (simp add: sender_core_def sender_life_ok_def)

lemma start_job_held: "sender_held (start_job j s) = sender_held s + job_units j"
  by (simp add: held_defs start_job_def Let_def)

lemma start_job_drained [simp]: "drained (start_job j s) = drained s"
  by (simp add: drained_def)

lemma start_jobs_ok:
  assumes "sender_core marshal s" and "list_all job_ok js"
  shows "sender_core marshal (start_jobs js s)
    \<and> sender_held (start_jobs js s) = sender_held s + (\<Sum>j\<leftarrow>js. job_units j)
    \<and> (drained (start_jobs js s) \<longleftrightarrow> drained s) \<and> to_flush (start_jobs js s) = to_flush s
    \<and> json_batches (start_jobs js s) = json_batches s \<and> row_batches (start_jobs js s) = row_batches s
    \<and> is_closing (snd_state (start_jobs js s)) = is_closing (snd_state s)
    \<and> snd_format (start_jobs js s) = snd_format s"
  using assms unfolding start_jobs_def
proof (induction js arbitrary: s)
  case (Cons j js)
  with Cons.IH [of "start_job j s"] show ?case
    by (simp add: start_job_core start_job_held ac_simps)
qed simp

subsection \<open>Batchers\<close>

lemma distinct_map_filter_fst: "distinct (map fst xs) \<Longrightarrow> distinct (map fst (filter P xs))"
  by (simp add: distinct_map_filter)

lemma sender_formats_distinct: "distinct (sender_formats own)"
  unfolding sender_formats_def by (rule distinct_map_filter_fst) (simp add: format_defs)

lemma batchers_distinct: "batchers_ok own m \<Longrightarrow> distinct (map fst m)"
  by (simp add: batchers_ok_def sender_formats_distinct)

lemma batchers_lookup:
  assumes "batchers_ok own m"
  shows "fmt \<in> set (sender_formats own) \<longleftrightarrow> (\<exists>f b. map_of m fmt = Some (f, b))"
proof -
  have "fmt \<in> set (sender_formats own) \<longleftrightarrow> fmt \<in> fst ` set m"
    using assms by (metis batchers_ok_def set_map)
  then show ?thesis by (metis map_of_eq_None_iff option.distinct(1) option.exhaust prod.exhaust)
qed

lemma batchers_entry:
  assumes "batchers_ok own m" and "(fmt, f, b) \<in> set m"
  shows "batcher_ok b \<and> has_guard b \<and> map_of structured_formats fmt = Some f"
  using assms by (auto simp: batchers_ok_def list_all_iff)

lemma update_subset: "x \<in> set (AList.update k v m) \<Longrightarrow> x \<in> set m \<or> x = (k, v)"
  by (induction m) (auto split: if_splits)

lemma batchers_update:
  assumes "batchers_ok own m" and "map_of m fmt = Some (f, b)"
    and "batcher_ok b'" and "has_guard b'"
  shows "batchers_ok own (AList.update fmt (f, b') m)"
proof -
  have mem: "(fmt, f, b) \<in> set m" using assms(2) by (rule map_of_SomeD)
  then have "fmt \<in> fst ` set m" by force
  then have "map fst (AList.update fmt (f, b') m) = map fst m" by (simp add: update_keys)
  moreover have "map_of structured_formats fmt = Some f" using batchers_entry [OF assms(1) mem] by simp
  ultimately show ?thesis
    using assms(1,3,4) update_subset [of _ fmt "(f, b')" m] by (fastforce simp: batchers_ok_def list_all_iff)
qed

lemma batched_update:
  assumes "map_of m fmt = Some (f, b)"
  shows "batched u (AList.update fmt (f, b') m) + image_mset u (mset (buf b))
    = batched u m + image_mset u (mset (buf b'))"
  using assms unfolding batched_def by (induction m) (auto simp: ac_simps split: if_splits)

lemma update_mem:
  assumes "distinct (map fst m)" and "map_of m fmt = Some v"
  shows "(k, w) \<in> set (AList.update fmt v' m) \<longleftrightarrow> (k = fmt \<and> w = v') \<or> (k \<noteq> fmt \<and> (k, w) \<in> set m)"
  using assms
proof (induction m)
  case (Cons p m)
  obtain k' v where p: "p = (k', v)" by fastforce
  have "(fmt, w) \<notin> set m" if "k' = fmt" using Cons.prems(1) that by (force simp: p)
  with Cons p show ?case by auto
qed simp

text \<open>
  What every operation of a batcher does that the sender uses: it adds \<open>xs\<close>, keeps the
  invariant, and puts nothing into an empty batch during a shutdown.
\<close>

definition batch_operation :: "('a batcher \<Rightarrow> 'a batcher \<times> 'a list list) \<Rightarrow> 'a list \<Rightarrow> bool \<Rightarrow> bool" where
  "batch_operation operation xs shutdown \<longleftrightarrow>
     (\<forall>b b' out. batcher_ok b \<and> has_guard b \<and> operation b = (b', out) \<longrightarrow>
        concat out @ buf b' = buf b @ xs \<and> batcher_ok b' \<and> same_config b b'
        \<and> (shutdown \<longrightarrow> buf b = [] \<longrightarrow> buf b' = []))"

lemma batch_operation_chunk: "batch_operation (\<lambda>b. add_chunk b xs) xs False"
  using add_chunk_step by (auto simp: batch_operation_def)

lemma batch_operation_flush: "batch_operation flush [] d"
  using flush_step by (fastforce simp: batch_operation_def)

lemma batch_operation_timer: "batch_operation (timed_flush g allow) [] d"
  using timed_flush_step by (fastforce simp: batch_operation_def)

text \<open>One lemma for every operation on a batcher: nothing is lost.\<close>

lemma image_mset_concat: "image_mset u (mset (concat xss)) = (\<Sum>xs\<leftarrow>xss. image_mset u (mset xs))"
  by (induction xss) auto

lemma mset_exchange:
  fixes a :: "'u multiset"
  assumes "a + p = t + b" and "c + b = p + x"
  shows "a + c = t + x"
proof -
  have "(a + c) + p = (a + p) + c" by (simp add: ac_simps)
  also have "\<dots> = t + (c + b)" unfolding assms(1) by (simp add: ac_simps)
  also have "\<dots> = (t + x) + p" unfolding assms(2) by (simp add: ac_simps)
  finally show ?thesis by simp
qed

lemma mset_frame:
  fixes x :: "'u multiset"
  assumes "x + y = z + w"
  shows "(x + r) + y = (z + r) + w"
proof -
  have "(x + r) + y = (x + y) + r" by (simp add: ac_simps)
  also have "\<dots> = (z + r) + w" unfolding assms by (simp add: ac_simps)
  finally show ?thesis .
qed

lemma batchers_operation:
  assumes m: "batchers_ok own m" and fmt: "fmt \<in> set (sender_formats own)"
    and operation: "batch_operation operation xs d"
  obtains f b b' out where "map_of m fmt = Some (f, b)" and "operation b = (b', out)"
    and "batchers_ok own (AList.update fmt (f, b') m)" and "map_of structured_formats fmt = Some f"
    and "batched u (AList.update fmt (f, b') m) + (\<Sum>xs\<leftarrow>out. image_mset u (mset xs))
      = batched u m + image_mset u (mset xs)"
proof -
  obtain f b where f: "map_of m fmt = Some (f, b)" using fmt batchers_lookup [OF m] by blast
  obtain b' out where b': "operation b = (b', out)" by fastforce
  have b: "batcher_ok b" "has_guard b" "map_of structured_formats fmt = Some f"
    using batchers_entry [OF m map_of_SomeD [OF f]] by auto
  with operation b' have o1: "concat out @ buf b' = buf b @ xs" "batcher_ok b'" "same_config b b'"
    by (auto simp: batch_operation_def)
  have "has_guard b'" using o1(3) b(2) by (simp add: same_config_def)
  note ok = batchers_update [OF m f o1(2) this]
  have "mset (concat out) + mset (buf b') = mset (buf b) + mset xs"
    using o1(1) by (metis mset_append)
  then have "image_mset u (mset (concat out)) + image_mset u (mset (buf b'))
      = image_mset u (mset (buf b)) + image_mset u (mset xs)"
    by (metis image_mset_union)
  then have "batched u (AList.update fmt (f, b') m) + image_mset u (mset (concat out))
      = batched u m + image_mset u (mset xs)"
    by (rule mset_exchange [OF batched_update [OF f]])
  then have "batched u (AList.update fmt (f, b') m) + (\<Sum>xs\<leftarrow>out. image_mset u (mset xs))
      = batched u m + image_mset u (mset xs)"
    by (simp add: image_mset_concat)
  with that f b' ok b(3) show ?thesis by blast
qed

lemma use_json_ok:
  assumes core: "sender_core marshal s" and fmt: "fmt \<in> set (sender_formats (snd_format s))"
    and operation: "batch_operation operation xs (is_closing (snd_state s))"
  obtains s' f b where "use_json operation fmt s = Some s'" and "sender_core marshal s'"
    and "sender_held s' = sender_held s + mset (map UJson xs)"
    and "map_of (json_batches s) fmt = Some (f, b)"
    and "json_batches s' = AList.update fmt (f, fst (operation b)) (json_batches s)"
    and "row_batches s' = row_batches s" and "to_flush s' = to_flush s"
    and "is_closing (snd_state s') = is_closing (snd_state s)" and "snd_format s' = snd_format s"
proof -
  have "batchers_ok (snd_format s) (json_batches s)" using core by (simp add: sender_core_def)
  from batchers_operation [OF this fmt operation, of "UJson :: bytes \<Rightarrow> ('a, 'b) cell unit_item"] obtain f b b' out where
    f: "map_of (json_batches s) fmt = Some (f, b)" and b': "operation b = (b', out)"
    and ok: "batchers_ok (snd_format s) (AList.update fmt (f, b') (json_batches s))"
    and fmtr: "map_of structured_formats fmt = Some f"
    and units: "batched (UJson :: bytes \<Rightarrow> ('a, 'b) cell unit_item) (AList.update fmt (f, b') (json_batches s)) + (\<Sum>xs\<leftarrow>out. image_mset UJson (mset xs))
      = batched UJson (json_batches s) + image_mset UJson (mset xs)" .
  define s1 where "s1 = s\<lparr>json_batches := AList.update fmt (f, b') (json_batches s)\<rparr>"
  define js :: "('a, 'b) cell job list" where "js = map (\<lambda>batch. StructuredJob (JSON batch) fmt f) out"
  have s1: "sender_core marshal s1"
    using core ok by (simp add: s1_def sender_core_def sender_jobs_ok_def sender_life_ok_def)
  have js: "list_all job_ok js" using fmtr by (simp add: js_def list_all_iff)
  define r where "r = batched URow (row_batches s) + (\<Sum>j\<leftarrow>running s. job_units j)
    + (\<Sum>j\<leftarrow>waiting s. job_units j) + settled_units s"
  have "sender_held s = batched UJson (json_batches s) + r"
    and "sender_held s1 = batched UJson (AList.update fmt (f, b') (json_batches s)) + r"
    by (simp_all add: sender_held_def pending_units_def settled_units_def s1_def r_def ac_simps)
  with mset_frame [OF units, of r]
  have held: "sender_held s1 + (\<Sum>j\<leftarrow>js. job_units j) = sender_held s + image_mset UJson (mset xs)"
    by (simp add: js_def o_def)
  have "use_json operation fmt s = Some (start_jobs js s1)"
    by (simp add: use_json_def f b' s1_def js_def)
  with start_jobs_ok [OF s1 js] held f b' show ?thesis
    by (intro that [of "start_jobs js s1" f b]) (simp_all add: s1_def)
qed

lemma use_rows_ok:
  assumes core: "sender_core marshal s" and fmt: "fmt \<in> set (sender_formats (snd_format s))"
    and operation: "batch_operation operation xs (is_closing (snd_state s))"
  obtains s' f b where "use_rows operation fmt s = Some s'" and "sender_core marshal s'"
    and "sender_held s' = sender_held s + mset (map URow xs)"
    and "map_of (row_batches s) fmt = Some (f, b)"
    and "row_batches s' = AList.update fmt (f, fst (operation b)) (row_batches s)"
    and "json_batches s' = json_batches s" and "to_flush s' = to_flush s"
    and "is_closing (snd_state s') = is_closing (snd_state s)" and "snd_format s' = snd_format s"
proof -
  have "batchers_ok (snd_format s) (row_batches s)" using core by (simp add: sender_core_def)
  from batchers_operation [OF this fmt operation, of URow] obtain f b b' out where
    f: "map_of (row_batches s) fmt = Some (f, b)" and b': "operation b = (b', out)"
    and ok: "batchers_ok (snd_format s) (AList.update fmt (f, b') (row_batches s))"
    and fmtr: "map_of structured_formats fmt = Some f"
    and units: "batched URow (AList.update fmt (f, b') (row_batches s)) + (\<Sum>xs\<leftarrow>out. image_mset URow (mset xs))
      = batched URow (row_batches s) + image_mset URow (mset xs)" .
  define s1 where "s1 = s\<lparr>row_batches := AList.update fmt (f, b') (row_batches s)\<rparr>"
  define js :: "('a, 'b) cell job list" where "js = map (\<lambda>batch. StructuredJob (Rows batch) fmt f) out"
  have s1: "sender_core marshal s1"
    using core ok by (simp add: s1_def sender_core_def sender_jobs_ok_def sender_life_ok_def)
  have js: "list_all job_ok js" using fmtr by (simp add: js_def list_all_iff)
  define r where "r = batched UJson (json_batches s) + (\<Sum>j\<leftarrow>running s. job_units j)
    + (\<Sum>j\<leftarrow>waiting s. job_units j) + settled_units s"
  have "sender_held s = batched URow (row_batches s) + r"
    and "sender_held s1 = batched URow (AList.update fmt (f, b') (row_batches s)) + r"
    by (simp_all add: sender_held_def pending_units_def settled_units_def s1_def r_def ac_simps)
  with mset_frame [OF units, of r]
  have held: "sender_held s1 + (\<Sum>j\<leftarrow>js. job_units j) = sender_held s + image_mset URow (mset xs)"
    by (simp add: js_def o_def)
  have "use_rows operation fmt s = Some (start_jobs js s1)"
    by (simp add: use_rows_def f b' s1_def js_def)
  with start_jobs_ok [OF s1 js] held f b' show ?thesis
    by (intro that [of "start_jobs js s1" f b]) (simp_all add: s1_def)
qed

lemma drained_json:
  assumes "drained s" and "distinct (map fst (json_batches s))"
    and "map_of (json_batches s) fmt = Some (f, b)" and "json_batches s' = AList.update fmt (f, b') (json_batches s)"
    and "row_batches s' = row_batches s" and "is_closing (snd_state s') = is_closing (snd_state s)"
    and "is_closing (snd_state s) \<Longrightarrow> buf b' \<noteq> [] \<Longrightarrow> (JsonBatch, fmt) \<in> set (to_flush s')"
    and "set (to_flush s) \<subseteq> insert (JsonBatch, fmt) (set (to_flush s'))"
  shows "drained s'"
  using assms(1,5-8) update_mem [OF assms(2,3), of _ _ "(f, b')"] unfolding drained_def assms(4) by fastforce

lemma drained_rows:
  assumes "drained s" and "distinct (map fst (row_batches s))"
    and "map_of (row_batches s) fmt = Some (f, b)" and "row_batches s' = AList.update fmt (f, b') (row_batches s)"
    and "json_batches s' = json_batches s" and "is_closing (snd_state s') = is_closing (snd_state s)"
    and "is_closing (snd_state s) \<Longrightarrow> buf b' \<noteq> [] \<Longrightarrow> (RowBatch, fmt) \<in> set (to_flush s')"
    and "set (to_flush s) \<subseteq> insert (RowBatch, fmt) (set (to_flush s'))"
  shows "drained s'"
  using assms(1,5-8) update_mem [OF assms(2,3), of _ _ "(f, b')"] unfolding drained_def assms(4) by fastforce

lemma use_json_good:
  assumes good: "sender_good marshal s" and fmt: "fmt \<in> set (sender_formats (snd_format s))"
    and operation: "batch_operation operation xs (is_closing (snd_state s))"
  shows "\<exists>s'. use_json operation fmt s = Some s' \<and> sender_good marshal s'
    \<and> sender_held s' = sender_held s + mset (map UJson xs)"
proof -
  have core: "sender_core marshal s" and d: "drained s" using good by (simp_all add: sender_good_def)
  from use_json_ok [OF core fmt operation] obtain s' f b where s': "use_json operation fmt s = Some s'"
    "sender_core marshal s'" "sender_held s' = sender_held s + mset (map UJson xs)"
    and f: "map_of (json_batches s) fmt = Some (f, b)"
    and frame: "json_batches s' = AList.update fmt (f, fst (operation b)) (json_batches s)"
      "row_batches s' = row_batches s" "to_flush s' = to_flush s"
      "is_closing (snd_state s') = is_closing (snd_state s)" by blast
  have m: "batchers_ok (snd_format s) (json_batches s)" using core by (simp add: sender_core_def)
  have mem: "(fmt, f, b) \<in> set (json_batches s)" using f by (rule map_of_SomeD)
  have "drained s'"
  proof (rule drained_json [OF d batchers_distinct [OF m] f frame(1,2,4)])
    assume cl: "is_closing (snd_state s)" and ne: "buf (fst (operation b)) \<noteq> []"
    have "buf b \<noteq> []"
      using operation batchers_entry [OF m mem] cl ne by (cases "operation b") (auto simp: batch_operation_def)
    with d mem cl show "(JsonBatch, fmt) \<in> set (to_flush s')" by (auto simp: drained_def frame(3))
  qed (auto simp: frame(3))
  with s' show ?thesis by (auto simp: sender_good_def)
qed

lemma use_rows_good:
  assumes good: "sender_good marshal s" and fmt: "fmt \<in> set (sender_formats (snd_format s))"
    and operation: "batch_operation operation xs (is_closing (snd_state s))"
  shows "\<exists>s'. use_rows operation fmt s = Some s' \<and> sender_good marshal s'
    \<and> sender_held s' = sender_held s + mset (map URow xs)"
proof -
  have core: "sender_core marshal s" and d: "drained s" using good by (simp_all add: sender_good_def)
  from use_rows_ok [OF core fmt operation] obtain s' f b where s': "use_rows operation fmt s = Some s'"
    "sender_core marshal s'" "sender_held s' = sender_held s + mset (map URow xs)"
    and f: "map_of (row_batches s) fmt = Some (f, b)"
    and frame: "row_batches s' = AList.update fmt (f, fst (operation b)) (row_batches s)"
      "json_batches s' = json_batches s" "to_flush s' = to_flush s"
      "is_closing (snd_state s') = is_closing (snd_state s)" by blast
  have m: "batchers_ok (snd_format s) (row_batches s)" using core by (simp add: sender_core_def)
  have mem: "(fmt, f, b) \<in> set (row_batches s)" using f by (rule map_of_SomeD)
  have "drained s'"
  proof (rule drained_rows [OF d batchers_distinct [OF m] f frame(1,2,4)])
    assume cl: "is_closing (snd_state s)" and ne: "buf (fst (operation b)) \<noteq> []"
    have "buf b \<noteq> []"
      using operation batchers_entry [OF m mem] cl ne by (cases "operation b") (auto simp: batch_operation_def)
    with d mem cl show "(RowBatch, fmt) \<in> set (to_flush s')" by (auto simp: drained_def frame(3))
  qed (auto simp: frame(3))
  with s' show ?thesis by (auto simp: sender_good_def)
qed

lemma start_jobs_good:
  assumes "sender_good marshal s" and "list_all job_ok js"
  shows "sender_good marshal (start_jobs js s)
    \<and> sender_held (start_jobs js s) = sender_held s + (\<Sum>j\<leftarrow>js. job_units j)"
  using assms start_jobs_ok [of marshal s js] by (simp add: sender_good_def)

subsection \<open>The steps\<close>

lemma resolve_ndjson:
  "\<exists>fmt f. resolve_format upstream format_ndjson = Some (fmt, f) \<and> fmt \<in> fst ` set structured_formats"
proof (cases "map_of structured_formats upstream")
  case None
  moreover have "map_of structured_formats format_ndjson = Some fmt_ndjson" by (simp add: format_defs)
  moreover have "format_ndjson \<in> fst ` set structured_formats" by (simp add: structured_formats_def)
  ultimately show ?thesis by (simp add: resolve_format_def)
next
  case (Some f)
  then have "upstream \<in> fst ` set structured_formats" by (force dest: map_of_SomeD)
  with Some show ?thesis by (simp add: resolve_format_def)
qed

lemma output_format_structured:
  assumes "snd_format s = format_default \<or> snd_format s \<in> fst ` set structured_formats"
    and "d = JSON xs \<or> d = Rows rs"
  shows "\<exists>fmt. output_format s d upstream = Some fmt \<and> fmt \<in> set (sender_formats (snd_format s))"
proof (cases "snd_format s = format_default")
  case True
  obtain fmt f where r: "resolve_format upstream format_ndjson = Some (fmt, f)"
    and "fmt \<in> fst ` set structured_formats" using resolve_ndjson by blast
  then have "fmt \<in> set (sender_formats (snd_format s))" by (simp add: True sender_formats_def)
  with True assms(2) r show ?thesis by (auto simp: output_format_def)
next
  case False
  with assms(1) have "snd_format s \<in> set (sender_formats (snd_format s))"
    by (force simp: sender_formats_def image_iff)
  with False assms(2) show ?thesis by (auto simp: output_format_def)
qed

lemma output_format_total:
  assumes "snd_format s = format_default \<or> snd_format s \<in> fst ` set structured_formats"
  shows "\<exists>fmt. output_format s d upstream = Some fmt"
proof (cases d)
  case (JSON xs)
  with output_format_structured [OF assms, of d xs] show ?thesis by blast
next
  case (Rows rs)
  with output_format_structured [OF assms, of d _ rs] show ?thesis by blast
qed (simp_all add: output_format_def)

lemma empty_chunk_units: "is_empty_chunk (Some d) \<Longrightarrow> data_units d = {#}"
  by (cases d) (auto simp: is_empty_chunk_def map_filter_simps)

text \<open>The jobs that a chunk of unstructured data makes, for every kind.\<close>

lemma blob_jobs:
  "list_all job_ok (List.map_filter (send_blob detect s fmt) bs)"
  "(\<Sum>j\<leftarrow>List.map_filter (send_blob detect s fmt) bs. job_units j) = data_units (Blobs bs)"
proof -
  show "list_all job_ok (List.map_filter (send_blob detect s fmt) bs)"
  proof (rule map_filter_all)
    fix b j assume "send_blob detect s fmt b = Some j"
    with send_blob_units [where detect = detect and s = s and fmt = fmt and b = b] show "job_ok j" by simp
  qed
  show "(\<Sum>j\<leftarrow>List.map_filter (send_blob detect s fmt) bs. job_units j) = data_units (Blobs bs)"
  proof (induction bs)
    case (Cons b bs)
    then show ?case by (cases "b = []") (simp_all add: map_filter_simps send_blob_def)
  qed (simp add: map_filter_simps)
qed

lemma unit_jobs:
  assumes "\<And>r. r \<in> set rs \<Longrightarrow> (case f r of None \<Rightarrow> u r = None
      | Some j \<Rightarrow> job_units j = {#the (u r)#} \<and> u r \<noteq> None \<and> job_ok j)"
  shows "list_all job_ok (List.map_filter f rs)"
    and "(\<Sum>j\<leftarrow>List.map_filter f rs. job_units j) = mset (List.map_filter u rs)"
proof -
  show "list_all job_ok (List.map_filter f rs)"
  proof (rule map_filter_all)
    fix r j assume "r \<in> set rs" "f r = Some j"
    with assms [of r] show "job_ok j" by simp
  qed
  show "(\<Sum>j\<leftarrow>List.map_filter f rs. job_units j) = mset (List.map_filter u rs)"
  proof (rule map_filter_mset)
    fix r assume "r \<in> set rs"
    with assms [of r] show "case f r of None \<Rightarrow> u r = None
      | Some y \<Rightarrow> job_units y = {#the (u r)#} \<and> u r \<noteq> None" by (simp split: option.splits)
  qed
qed

lemma dispatch_chunk_ok:
  assumes good: "sender_good marshal s" and d: "data_ok d"
    and fmt: "output_format s d upstream = Some fmt" and open_: "\<not> is_closing (snd_state s)"
  shows "\<exists>s'. dispatch_chunk detect d fmt s = Some s' \<and> sender_good marshal s'
    \<and> sender_held s' = sender_held s + data_units d"
proof -
  have own: "snd_format s = format_default \<or> snd_format s \<in> fst ` set structured_formats"
    using good by (simp add: sender_good_def sender_core_def)
  have jobs: "\<exists>s'. Some (start_jobs js s) = Some s' \<and> sender_good marshal s' \<and> sender_held s' = sender_held s + u"
    if "list_all job_ok js" "(\<Sum>j\<leftarrow>js. job_units j) = u" for js u
    using start_jobs_good [OF good that(1)] that(2) by simp
  have str: "fmt \<in> set (sender_formats (snd_format s))" if "d = JSON xs \<or> d = Rows rs" for xs rs
    using output_format_structured [OF own that, of upstream] fmt by simp
  show ?thesis
  proof (cases d)
    case (JSON xs)
    then show ?thesis
      using use_json_good [OF good str [of xs], where operation = "\<lambda>b. add_chunk b xs" and xs = xs] batch_operation_chunk [of xs] open_
      by (simp add: dispatch_chunk_def)
  next
    case (Rows xs)
    then show ?thesis
      using use_rows_good [OF good str [of _ xs], where operation = "\<lambda>b. add_chunk b xs" and xs = xs] batch_operation_chunk [of xs] open_
      by (simp add: dispatch_chunk_def)
  next
    case (Blobs bs)
    then show ?thesis using jobs [OF blob_jobs] by (simp add: dispatch_chunk_def)
  next
    case (HTTPRequests rs)
    have each: "case send_http_request s r of None \<Rightarrow> request_unit r = None
        | Some j \<Rightarrow> job_units j = {#the (request_unit r)#} \<and> request_unit r \<noteq> None \<and> job_ok j"
      if "r \<in> set rs" for r
      using send_http_request_units [of r s] d that HTTPRequests by (cases r) (auto simp: data_ok_def)
    then show ?thesis using jobs [OF unit_jobs [OF each]] HTTPRequests by (simp add: dispatch_chunk_def)
  next
    case (HTTPResponses rs)
    then show ?thesis using jobs [OF unit_jobs [OF send_http_response_units]] by (simp add: dispatch_chunk_def)
  next
    case FakeData
    with good show ?thesis by (simp add: dispatch_chunk_def)
  qed
qed

lemma refuse_good:
  assumes "sender_good marshal s"
  shows "sender_good marshal (s\<lparr>refused := refused s @ [(d, fmt)]\<rparr>)
    \<and> sender_held (s\<lparr>refused := refused s @ [(d, fmt)]\<rparr>) = sender_held s + data_units d"
proof
  show "sender_good marshal (s\<lparr>refused := refused s @ [(d, fmt)]\<rparr>)"
    using assms unfolding sender_good_def sender_core_def sender_jobs_ok_def sender_life_ok_def drained_def
    by simp
  show "sender_held (s\<lparr>refused := refused s @ [(d, fmt)]\<rparr>) = sender_held s + data_units d"
    by (simp add: held_defs)
qed

lemma sender_send_ok:
  assumes good: "sender_good marshal s" and ok: "\<And>d. data = Some d \<Longrightarrow> data_ok d"
  shows "\<exists>s'. sender_send detect data upstream s = Some s' \<and> sender_good marshal s'
    \<and> sender_held s' = sender_held s + (case data of None \<Rightarrow> {#} | Some d \<Rightarrow> data_units d)"
proof (cases "is_empty_chunk data")
  case True
  with good show ?thesis by (cases data) (auto simp: sender_send_def empty_chunk_units)
next
  case False
  then obtain d where d: "data = Some d" by (auto simp: is_empty_chunk_def split: option.splits)
  have "snd_format s = format_default \<or> snd_format s \<in> fst ` set structured_formats"
    using good by (simp add: sender_good_def sender_core_def)
  then obtain fmt where fmt: "output_format s d upstream = Some fmt" using output_format_total by blast
  show ?thesis
  proof (cases "is_closing (snd_state s)")
    case True
    with False d fmt have "sender_send detect data upstream s = Some (s\<lparr>refused := refused s @ [(d, fmt)]\<rparr>)"
      by (simp add: sender_send_def)
    with refuse_good [OF good] d show ?thesis by simp
  next
    case open_: False
    with dispatch_chunk_ok [OF good ok [OF d] fmt open_, where detect = detect] False d fmt show ?thesis
      by (simp add: sender_send_def)
  qed
qed

lemma is_closing_update [simp]:
  "is_closing (l\<lparr>in_progress := n\<rparr>) = is_closing l" "is_closing (l\<lparr>once_done := c\<rparr>) = is_closing l"
  by (simp_all add: is_closing_def)

lemma sender_timer_ok:
  assumes good: "sender_good marshal s" and fmt: "fmt \<in> set (map fst (json_batches s))"
  shows "\<exists>s'. sender_timer kind fmt g s = Some s' \<and> sender_good marshal s' \<and> sender_held s' = sender_held s"
proof -
  have f: "fmt \<in> set (sender_formats (snd_format s))"
    using good fmt by (simp add: sender_good_def sender_core_def batchers_ok_def)
  show ?thesis
  proof (cases kind)
    case JsonBatch
    with use_json_good [OF good f batch_operation_timer] show ?thesis by (simp add: sender_timer_def)
  next
    case RowBatch
    with use_rows_good [OF good f batch_operation_timer] show ?thesis by (simp add: sender_timer_def)
  qed
qed

lemma sender_begin_close_ok:
  assumes good: "sender_good marshal s"
  shows "\<exists>s'. sender_begin_close s = Some s' \<and> sender_good marshal s' \<and> sender_held s' = sender_held s"
proof (cases "is_closing (snd_state s)")
  case True
  then have "once_done (snd_state s)"
    using good by (simp add: sender_good_def sender_core_def sender_life_ok_def)
  with good show ?thesis by (simp add: sender_begin_close_def)
next
  case False
  have core: "sender_core marshal s" using good by (simp add: sender_good_def)
  then have life: "closing (snd_state s) = OpenChan" "closed (snd_state s) = OpenChan" "\<not> once_done (snd_state s)"
    using False by (simp_all add: sender_core_def sender_life_ok_def)
  then obtain l where l: "begin_close ((snd_state s)\<lparr>once_done := True\<rparr>) = Inr l"
    and lf: "closing l = ClosedChan" "closed l = OpenChan" "once_done l" "in_progress l = in_progress (snd_state s)"
    by (auto simp: begin_close_def Let_def)
  define tf where "tf = map (\<lambda>(fmt, _). (JsonBatch, fmt)) (json_batches s)
    @ map (\<lambda>(fmt, _). (RowBatch, fmt)) (row_batches s)"
  have s': "sender_begin_close s = Some (s\<lparr>snd_state := l, to_flush := tf\<rparr>)"
    using life l by (simp add: sender_begin_close_def is_started_def tf_def)
  have "map fst (json_batches s) = sender_formats (snd_format s)"
    "map fst (row_batches s) = sender_formats (snd_format s)"
    using core by (simp_all add: sender_core_def batchers_ok_def)
  then have keys: "fst ` set (json_batches s) = set (sender_formats (snd_format s))"
    "fst ` set (row_batches s) = set (sender_formats (snd_format s))"
    by (metis set_map)+
  have "\<forall>(kind, fmt) \<in> set tf. fmt \<in> set (sender_formats (snd_format s))"
    unfolding tf_def keys [symmetric] using keys by force
  with core lf have "sender_core marshal (s\<lparr>snd_state := l, to_flush := tf\<rparr>)"
    by (simp add: sender_core_def sender_jobs_ok_def sender_life_ok_def is_closing_def)
  moreover have "drained (s\<lparr>snd_state := l, to_flush := tf\<rparr>)"
    by (force simp: drained_def tf_def)
  ultimately show ?thesis using s' by (simp add: sender_good_def held_defs)
qed

lemma flush_next_ok:
  assumes good: "sender_good marshal s"
  shows "\<exists>s'. flush_next s = Some s' \<and> sender_good marshal s' \<and> sender_held s' = sender_held s"
proof (cases "to_flush s")
  case Nil
  with good show ?thesis by (simp add: flush_next_def)
next
  case (Cons k rest)
  obtain kind fmt where k: "k = (kind, fmt)" by fastforce
  have core: "sender_core marshal s" and d: "drained s" using good by (simp_all add: sender_good_def)
  have cl: "is_closing (snd_state s)" and fmts: "\<forall>(kind, fmt) \<in> set (to_flush s). fmt \<in> set (sender_formats (snd_format s))"
    using core Cons by (simp_all add: sender_core_def sender_life_ok_def split: if_splits)
  then have fmt: "fmt \<in> set (sender_formats (snd_format s))" using Cons k by auto
  have empties: "buf (fst (flush b)) = []" for b :: "'x batcher"
    by (simp add: flush_def next_batch_def)
  have weaken: "sender_core marshal (s'\<lparr>to_flush := rest\<rparr>) \<and> sender_held (s'\<lparr>to_flush := rest\<rparr>) = sender_held s'"
    if "sender_core marshal s'" "to_flush s' = to_flush s" "is_closing (snd_state s') = is_closing (snd_state s)" for s'
    using that Cons cl by (simp add: sender_core_def sender_jobs_ok_def sender_life_ok_def held_defs)
  show ?thesis
  proof (cases kind)
    case JsonBatch
    have m: "batchers_ok (snd_format s) (json_batches s)" using core by (simp add: sender_core_def)
    from use_json_ok [OF core fmt batch_operation_flush] obtain s' f b where
      s': "use_json flush fmt s = Some s'" "sender_core marshal s'"
      "sender_held s' = sender_held s + mset (map UJson [])" "map_of (json_batches s) fmt = Some (f, b)"
      "json_batches s' = AList.update fmt (f, fst (flush b)) (json_batches s)"
      "row_batches s' = row_batches s" "to_flush s' = to_flush s"
      "is_closing (snd_state s') = is_closing (snd_state s)" by blast
    have "drained (s'\<lparr>to_flush := rest\<rparr>)"
      by (rule drained_json [OF d batchers_distinct [OF m] s'(4)])
        (use s' Cons k JsonBatch empties in \<open>auto\<close>)
    with weaken [OF s'(2,7,8)] s'(1,3) Cons k JsonBatch show ?thesis
      by (simp add: flush_next_def sender_good_def)
  next
    case RowBatch
    have m: "batchers_ok (snd_format s) (row_batches s)" using core by (simp add: sender_core_def)
    from use_rows_ok [OF core fmt batch_operation_flush] obtain s' f b where
      s': "use_rows flush fmt s = Some s'" "sender_core marshal s'"
      "sender_held s' = sender_held s + mset (map URow [])" "map_of (row_batches s) fmt = Some (f, b)"
      "row_batches s' = AList.update fmt (f, fst (flush b)) (row_batches s)"
      "json_batches s' = json_batches s" "to_flush s' = to_flush s"
      "is_closing (snd_state s') = is_closing (snd_state s)" by blast
    have "drained (s'\<lparr>to_flush := rest\<rparr>)"
      by (rule drained_rows [OF d batchers_distinct [OF m] s'(4)])
        (use s' Cons k RowBatch empties in \<open>auto\<close>)
    with weaken [OF s'(2,7,8)] s'(1,3) Cons k RowBatch show ?thesis
      by (simp add: flush_next_def sender_good_def)
  qed
qed

lemma sender_finish_close_ok:
  assumes good: "sender_good marshal s"
  shows "\<exists>s'. sender_finish_close s = Some s' \<and> sender_good marshal s' \<and> sender_held s' = sender_held s"
proof (cases "\<not> is_closing (snd_state s) \<or> closed (snd_state s) = ClosedChan")
  case True
  with good show ?thesis by (auto simp: sender_finish_close_def)
next
  case False
  have core: "sender_core marshal s" and d: "drained s" using good by (simp_all add: sender_good_def)
  from False core have "closed (snd_state s) = OpenChan" "once_done (snd_state s)"
    by (cases "closed (snd_state s)"; simp add: sender_core_def sender_life_ok_def)+
  then obtain l where l: "finish_close (snd_state s) = Inr l" "closing l = closing (snd_state s)"
    "closed l = ClosedChan" "once_done l" "in_progress l = in_progress (snd_state s)"
    by (cases "cancel_exec (snd_state s)") (auto simp: finish_close_def stop_stragglers_def Let_def)
  have cl: "is_closing l = is_closing (snd_state s)" by (simp add: is_closing_def l(2))
  have "sender_core marshal (s\<lparr>snd_state := l\<rparr>)"
    using core l cl False by (simp add: sender_core_def sender_jobs_ok_def sender_life_ok_def)
  moreover have "drained (s\<lparr>snd_state := l\<rparr>)" using d cl by (simp add: drained_def)
  ultimately show ?thesis using l(1) False by (simp add: sender_finish_close_def sender_good_def held_defs)
qed

lemma drop_nth_length: "i < length xs \<Longrightarrow> Suc (length (drop_nth i xs)) = length xs"
  by (simp add: drop_nth_def)

lemma drop_nth_mset: "i < length xs \<Longrightarrow> mset xs = add_mset (xs ! i) (mset (drop_nth i xs))"
  by (simp add: drop_nth_def mset_take_drop)

lemma drop_nth_all: "list_all P xs \<Longrightarrow> list_all P (drop_nth i xs)"
  by (auto simp: drop_nth_def list_all_iff dest: in_set_takeD in_set_dropD)

lemma drop_nth_sum:
  fixes f :: "'a \<Rightarrow> 'u multiset"
  assumes "i < length xs"
  shows "(\<Sum>x\<leftarrow>xs. f x) = f (xs ! i) + (\<Sum>x\<leftarrow>drop_nth i xs. f x)"
proof -
  have "xs = take i xs @ xs ! i # drop (Suc i) xs" using assms by (rule id_take_nth_drop)
  then have "(\<Sum>x\<leftarrow>xs. f x) = (\<Sum>x\<leftarrow>take i xs @ xs ! i # drop (Suc i) xs. f x)" by (rule arg_cong)
  then show ?thesis by (simp add: drop_nth_def ac_simps)
qed

text \<open>A goroutine that ends, wherever it was.\<close>

lemma job_done_ok:
  assumes "sender_good marshal s" and "outcome_ok marshal j oc"
    and "running s' = r" and "waiting s' = w"
    and "length r \<le> slots s" and "Suc (length r + length w) = length (running s) + length (waiting s)"
    and "list_all job_ok r" and "list_all job_ok w"
    and "(\<Sum>j\<leftarrow>r. job_units j) + (\<Sum>j\<leftarrow>w. job_units j) + job_units j
      = (\<Sum>j\<leftarrow>running s. job_units j) + (\<Sum>j\<leftarrow>waiting s. job_units j)"
    and "s' = s\<lparr>running := r, waiting := w\<rparr>"
  shows "sender_good marshal (job_done j oc s') \<and> sender_held (job_done j oc s') = sender_held s"
proof -
  have core: "sender_core marshal s" and d: "drained s" using assms(1) by (simp_all add: sender_good_def)
  have "sender_core marshal (job_done j oc s')"
    using core assms(2,5-8,10)
    by (simp add: sender_core_def sender_jobs_ok_def sender_life_ok_def job_done_def)
  moreover have "drained (job_done j oc s')" using d assms(10) by (simp add: drained_def job_done_def)
  moreover have "sender_held (job_done j oc s') = pending_units s
      + ((\<Sum>j\<leftarrow>r. job_units j) + (\<Sum>j\<leftarrow>w. job_units j) + job_units j) + settled_units s"
    by (simp add: assms(10) job_done_def sender_held_def pending_units_def settled_units_def ac_simps)
  ultimately show ?thesis unfolding assms(9) by (simp add: sender_good_def sender_held_def ac_simps)
qed

lemma waiting_wakes_ok:
  assumes good: "sender_good marshal s"
  shows "sender_good marshal (waiting_wakes got i s) \<and> sender_held (waiting_wakes got i s) = sender_held s"
proof (cases "i \<ge> length (waiting s) \<or> (if got then length (running s) \<ge> slots s else \<not> is_closing (snd_state s))")
  case True
  with good show ?thesis by (simp add: waiting_wakes_def)
next
  case False
  then have i: "i < length (waiting s)" by simp
  have core: "sender_core marshal s" and d: "drained s" using good by (simp_all add: sender_good_def)
  have jobs: "list_all job_ok (running s)" "list_all job_ok (waiting s)" "length (running s) \<le> slots s"
    using core by (simp_all add: sender_core_def sender_jobs_ok_def)
  define j w where "j = waiting s ! i" and "w = drop_nth i (waiting s)"
  have j: "job_ok j" using i jobs(2) by (simp add: j_def list_all_length)
  have w: "list_all job_ok w" "Suc (length w) = length (waiting s)"
    "(\<Sum>j\<leftarrow>waiting s. job_units j) = job_units j + (\<Sum>j\<leftarrow>w. job_units j)"
    using i jobs(2) by (simp_all add: j_def w_def drop_nth_all drop_nth_length drop_nth_sum)
  show ?thesis
  proof (cases "is_closing (snd_state s)")
    case True
    then have step: "waiting_wakes got i s = job_done j (reject_outcome j) (s\<lparr>waiting := w\<rparr>)"
      using False by (simp add: waiting_wakes_def j_def w_def Let_def)
    show ?thesis unfolding step
      by (rule job_done_ok [OF good reject_outcome_ok [OF j], of _ "running s" w]) (use w jobs in \<open>simp_all add: ac_simps\<close>)
  next
    case open_: False
    then have got: "got" "length (running s) < slots s" using False by (simp_all split: if_splits)
    have step: "waiting_wakes got i s = s\<lparr>waiting := w, running := running s @ [j]\<rparr>"
      using False open_ by (simp add: waiting_wakes_def j_def w_def Let_def)
    have "sender_core marshal (s\<lparr>waiting := w, running := running s @ [j]\<rparr>)"
      using core got j w by (simp add: sender_core_def sender_jobs_ok_def sender_life_ok_def)
    moreover have "drained (s\<lparr>waiting := w, running := running s @ [j]\<rparr>)" using d by (simp add: drained_def)
    moreover have "sender_held (s\<lparr>waiting := w, running := running s @ [j]\<rparr>) = sender_held s"
      by (simp add: sender_held_def pending_units_def settled_units_def w(3) ac_simps)
    ultimately show ?thesis unfolding step by (simp add: sender_good_def)
  qed
qed

lemma running_ends_ok:
  assumes good: "sender_good marshal s"
  shows "sender_good marshal (running_ends marshal env i s)
    \<and> sender_held (running_ends marshal env i s) = sender_held s"
proof (cases "i < length (running s)")
  case True
  have jobs: "list_all job_ok (running s)" "list_all job_ok (waiting s)" "length (running s) \<le> slots s"
    using good by (simp_all add: sender_good_def sender_core_def sender_jobs_ok_def)
  define j r where "j = running s ! i" and "r = drop_nth i (running s)"
  have j: "job_ok j" using True jobs(1) by (simp add: j_def list_all_length)
  have r: "list_all job_ok r" "Suc (length r) = length (running s)"
    "(\<Sum>j\<leftarrow>running s. job_units j) = job_units j + (\<Sum>j\<leftarrow>r. job_units j)"
    using True jobs(1) by (simp_all add: j_def r_def drop_nth_all drop_nth_length drop_nth_sum)
  have step: "running_ends marshal env i s = job_done j (run_job marshal s env j) (s\<lparr>running := r\<rparr>)"
    using True by (simp add: running_ends_def j_def r_def Let_def)
  show ?thesis unfolding step
    by (rule job_done_ok [OF good run_job_ok [OF j], of _ r "waiting s"])
      (use r jobs in \<open>simp_all add: ac_simps\<close>)
next
  case False
  with good show ?thesis by (simp add: running_ends_def)
qed

fun event_units :: "'c sender_event \<Rightarrow> 'c unit_item multiset" where
  "event_units (EvSend (Some d) fmt) = data_units d"
| "event_units _ = {#}"

fun event_ok :: "'c sender_event \<Rightarrow> bool" where
  "event_ok (EvSend (Some d) fmt) \<longleftrightarrow> data_ok d"
| "event_ok _ \<longleftrightarrow> True"

lemma sender_step_ok:
  assumes "sender_good marshal s" and "event_ok e"
  shows "\<exists>s'. sender_step marshal detect e s = Some s' \<and> sender_good marshal s'
    \<and> sender_held s' = sender_held s + event_units e"
proof (cases e)
  case (EvSend d fmt)
  then show ?thesis using sender_send_ok [OF assms(1), of d detect fmt] assms(2) by (cases d) simp_all
next
  case (EvTimer kind fmt g)
  then show ?thesis using sender_timer_ok [OF assms(1), of fmt kind g] assms(1) by simp
qed (use assms(1) sender_begin_close_ok flush_next_ok sender_finish_close_ok waiting_wakes_ok running_ends_ok
      in simp_all)

interpretation http_sending: conserving "sender_step marshal detect" "sender_good marshal" sender_held
    event_units event_ok for marshal detect
  by unfold_locales (rule sender_step_ok)

subsection \<open>New senders\<close>

definition start_sender :: "'c http_sender \<Rightarrow> 'c sender_sys" where
  "start_sender s = http_sender.extend s (sender_sys.fields [] [] [] [] [])"

lemma start_sender_simps [simp]:
  "snd_format (start_sender s) = snd_format s" "snd_state (start_sender s) = snd_state s"
  "json_batches (start_sender s) = json_batches s" "row_batches (start_sender s) = row_batches s"
  "slots (start_sender s) = slots s" "running (start_sender s) = []" "waiting (start_sender s) = []"
  "to_flush (start_sender s) = []" "outcomes (start_sender s) = []" "refused (start_sender s) = []"
  by (simp_all add: start_sender_def http_sender.extend_def sender_sys.fields_def)

lemma make_batchers_ok:
  assumes "make_batchers l fs = Inr m" and "\<And>fmt f. (fmt, f) \<in> set fs \<Longrightarrow> map_of structured_formats fmt = Some f"
  shows "map fst m = map fst fs
    \<and> list_all (\<lambda>(fmt, f, b). batcher_ok b \<and> has_guard b \<and> map_of structured_formats fmt = Some f) m
    \<and> batched u m = {#}"
  using assms
proof (induction fs arbitrary: m)
  case Nil
  then show ?case by (simp add: batched_def)
next
  case (Cons p fs)
  obtain fmt f where p: "p = (fmt, f)" by fastforce
  with Cons.prems(1) obtain b bs where b: "new_batcher l True (Some \<lparr>opt_size_of = None, opt_guard = True\<rparr>) = Inr b"
    and bs: "make_batchers l fs = Inr bs" and m: "m = (fmt, f, b) # bs"
    by (auto simp: bind_sum_Inr split: sum.splits)
  have "has_guard b" using b by (auto simp: new_batcher_def Let_def split: if_splits)
  with Cons.IH [OF bs] Cons.prems(2) new_batcher_ok [OF b] p m show ?case
    by (simp add: batched_def)
qed

lemma init_batchers_ok:
  assumes "init_batchers own l = Inr m"
  shows "batchers_ok own m \<and> batched u m = {#}"
proof -
  have d: "distinct (map fst structured_formats)" by (simp add: format_defs)
  have "map_of structured_formats fmt = Some f"
    if "(fmt, f) \<in> set (filter (\<lambda>(fmt, f). \<not> (own \<noteq> format_default \<and> fmt \<noteq> own)) structured_formats)" for fmt f
    using that d by (auto intro: map_of_is_SomeI)
  from make_batchers_ok [OF assms [unfolded init_batchers_def] this]
  show ?thesis by (simp add: batchers_ok_def sender_formats_def)
qed

lemma parse_structured_format_ok:
  "parse_structured_format cfg = Inr fmt \<Longrightarrow> fmt = format_default \<or> fmt \<in> fst ` set structured_formats"
  by (force simp: parse_structured_format_def split: sum.splits if_splits dest: map_of_SomeD)

lemma sender_slots_range: "1 \<le> sender_slots cfg \<and> sender_slots cfg \<le> 200"
  using bounded_int_range [of 1 max_sender_concurrency]
  by (simp add: sender_slots_def max_sender_concurrency_def Let_def)

lemma new_sender_ok:
  assumes "new_sender aenv tenv cfg name base_ty has_dlq = Inr s"
  shows "sender_good marshal (start_sender s) \<and> sender_held (start_sender s) = {#}
    \<and> 1 \<le> slots s \<and> slots s \<le> 200"
proof -
  obtain l where fmt: "parse_structured_format cfg = Inr (snd_format s)"
    and js: "init_batchers (snd_format s) l = Inr (json_batches s)"
    and rs: "init_batchers (snd_format s) l = Inr (row_batches s)"
    and st: "snd_state s = lc_start lifecycle_zero" and sl: "slots s = nat (sender_slots cfg)"
    using assms by (auto simp: new_sender_def bind_sum_Inr map_error_Inr split: option.splits if_splits prod.splits)
  have st': "closing (snd_state s) = OpenChan" "closed (snd_state s) = OpenChan" "\<not> once_done (snd_state s)"
    "in_progress (snd_state s) = 0" by (simp_all add: st lc_start_def is_started_def lifecycle_zero_def)
  from init_batchers_ok [OF js, where u = UJson] init_batchers_ok [OF rs, where u = URow]
    parse_structured_format_ok [OF fmt] st'
  have "sender_core marshal (start_sender s) \<and> drained (start_sender s) \<and> sender_held (start_sender s) = {#}"
    by (simp add: sender_core_def sender_jobs_ok_def sender_life_ok_def is_closing_def drained_def
        sender_held_def pending_units_def settled_units_def)
  with sl sender_slots_range [of cfg] show ?thesis by (simp add: sender_good_def nat_le_iff le_nat_iff)
qed

section \<open>Properties\<close>

text \<open>The items of a run of events, and where a sender keeps them.\<close>

definition sent_units :: "'c sender_event list \<Rightarrow> 'c unit_item multiset" where
  "sent_units es = (\<Sum>e\<leftarrow>es. event_units e)"

lemma sender_run_ok:
  assumes "new_sender aenv tenv cfg name base_ty has_dlq = Inr s" and "list_all event_ok es"
  shows "\<exists>s'. run_events (sender_step marshal detect) es (start_sender s) = Some s'
    \<and> sender_good marshal s' \<and> sender_held s' = sent_units es"
  using http_sending.run_conserves [of marshal "start_sender s" es detect] new_sender_ok [OF assms(1)] assms(2)
  by (simp add: sent_units_def)

lemma start_jobs_slots [simp]: "slots (start_jobs js s) = slots s"
  unfolding start_jobs_def by (induction js arbitrary: s) simp_all

lemma sender_step_slots: "sender_step marshal detect e s = Some s' \<Longrightarrow> slots s' = slots s"
  by (cases e)
    (auto simp: sender_send_def dispatch_chunk_def use_json_def use_rows_def sender_timer_def sender_begin_close_def
      flush_next_def sender_finish_close_def waiting_wakes_def running_ends_def job_done_def Let_def
      split: if_splits option.splits chunk.splits sum.splits batch_kind.splits prod.splits list.splits)

lemma sender_run_slots: "run_events (sender_step marshal detect) es s = Some s' \<Longrightarrow> slots s' = slots s"
  by (induction es arbitrary: s) (auto split: option.splits dest: sender_step_slots)

text \<open>C3: A sender loses nothing and makes nothing up, and it never panics. Whatever is sent to it,
  in whatever formats, and however timers, shutdown, waiting and running requests interleave,
  no step looks up a nil batcher, closes a closed channel or resolves no format; every item
  is in a batcher, in a request that runs or waits, or its fate is settled; no more requests
  run at once than there are slots; and the outcome of every request is either that exactly
  its payload was delivered, or that its own items, or their encoded payload, went to the
  fallback.\<close>

theorem sender_conserves:
  assumes "new_sender aenv tenv cfg name base_ty has_dlq = Inr s" and "list_all event_ok es"
  shows "\<exists>s'. run_events (sender_step marshal detect) es (start_sender s) = Some s'
    \<and> pending_units s' + (\<Sum>j\<leftarrow>running s'. job_units j) + (\<Sum>j\<leftarrow>waiting s'. job_units j) + settled_units s'
      = sent_units es
    \<and> length (running s') \<le> slots s' \<and> slots s' \<le> 200
    \<and> list_all (\<lambda>(j, oc). outcome_ok marshal j oc) (outcomes s')"
proof -
  obtain s' where s': "run_events (sender_step marshal detect) es (start_sender s) = Some s'"
    "sender_good marshal s'" "sender_held s' = sent_units es"
    using sender_run_ok [OF assms] by blast
  moreover have "slots s' \<le> 200"
    using sender_run_slots [OF s'(1)] new_sender_ok [OF assms(1)] by simp
  ultimately show ?thesis
    by (auto simp: sender_held_def sender_good_def sender_core_def sender_jobs_ok_def)
qed

lemma batched_empty: "\<forall>(fmt, f, b) \<in> set m. buf b = [] \<Longrightarrow> batched u m = {#}"
  by (induction m) (auto simp: batched_def)


text \<open>
  During a shutdown, only the goroutines of the sender itself go on. Each of their steps
  that does anything makes this measure smaller.
\<close>

definition shutdown_measure :: "'c sender_sys \<Rightarrow> nat" where
  "shutdown_measure s = 2 * length (to_flush s) + length (running s) + length (waiting s)"

fun shutdown_event :: "'c sender_event \<Rightarrow> bool" where
  "shutdown_event EvFlush = True"
| "shutdown_event (EvWake got i) = True"
| "shutdown_event (EvEnds env i) = True"
| "shutdown_event _ = False"

lemma start_jobs_count:
  "length (running (start_jobs js s)) + length (waiting (start_jobs js s))
   = length (running s) + length (waiting s) + length js"
  unfolding start_jobs_def by (induction js arbitrary: s) (simp_all add: start_job_def Let_def)

lemma start_jobs_to_flush [simp]: "to_flush (start_jobs js s) = to_flush s"
  unfolding start_jobs_def by (induction js arbitrary: s) simp_all

lemma flush_at_most_one: "length (snd (flush b)) \<le> 1"
  by (simp add: flush_def next_batch_def)

lemma flush_next_measure:
  assumes "flush_next s = Some s'" and "to_flush s \<noteq> []"
  shows "shutdown_measure s' < shutdown_measure s"
proof -
  obtain kind fmt rest where k: "to_flush s = (kind, fmt) # rest" using assms(2) by (cases "to_flush s") auto
  obtain s1 js where s1: "s' = (start_jobs js s1)\<lparr>to_flush := rest\<rparr>" "length js \<le> 1"
    "running s1 = running s" "waiting s1 = waiting s"
  proof (cases kind)
    case JsonBatch
    with assms k obtain f b where "map_of (json_batches s) fmt = Some (f, b)"
      and eq: "s' = (start_jobs (map (\<lambda>batch. StructuredJob (JSON batch) fmt f) (snd (flush b)))
        (s\<lparr>json_batches := AList.update fmt (f, fst (flush b)) (json_batches s)\<rparr>))\<lparr>to_flush := rest\<rparr>"
      by (auto simp: flush_next_def use_json_def split: option.splits prod.splits)
    show ?thesis by (rule that [OF eq]) (use flush_at_most_one [of b] in simp_all)
  next
    case RowBatch
    with assms k obtain f b where "map_of (row_batches s) fmt = Some (f, b)"
      and eq: "s' = (start_jobs (map (\<lambda>batch. StructuredJob (Rows batch) fmt f) (snd (flush b)))
        (s\<lparr>row_batches := AList.update fmt (f, fst (flush b)) (row_batches s)\<rparr>))\<lparr>to_flush := rest\<rparr>"
      by (auto simp: flush_next_def use_rows_def split: option.splits prod.splits)
    show ?thesis by (rule that [OF eq]) (use flush_at_most_one [of b] in simp_all)
  qed
  with start_jobs_count [of js s1] k show ?thesis by (simp add: shutdown_measure_def)
qed

lemma shutdown_step_measure:
  assumes "is_closing (snd_state s)" and "shutdown_event e" and "sender_step marshal detect e s = Some s'"
    and "s' \<noteq> s"
  shows "shutdown_measure s' < shutdown_measure s"
proof (cases e)
  case EvFlush
  with assms(3,4) have "to_flush s \<noteq> []" by (auto simp: flush_next_def)
  with assms(3) EvFlush show ?thesis by (auto intro: flush_next_measure)
next
  case (EvWake got i)
  with assms show ?thesis
    by (auto simp: waiting_wakes_def shutdown_measure_def job_done_def drop_nth_def Let_def split: if_splits)
next
  case (EvEnds env i)
  with assms(3,4) show ?thesis
    by (auto simp: running_ends_def shutdown_measure_def job_done_def drop_nth_def Let_def split: if_splits)
qed (use assms(2) in simp_all)

lemma shutdown_progress:
  assumes good: "sender_good marshal s" and "is_closing (snd_state s)" and "0 < shutdown_measure s"
  shows "\<exists>e s'. shutdown_event e \<and> sender_step marshal detect e s = Some s'
    \<and> shutdown_measure s' < shutdown_measure s"
proof (cases "to_flush s")
  case (Cons k rest)
  then show ?thesis
    using flush_next_ok [OF good] flush_next_measure [of s] by (intro exI [of _ EvFlush]) auto
next
  case Nil
  then consider "0 < length (waiting s)" | "0 < length (running s)"
    using assms(3) by (auto simp: shutdown_measure_def)
  then show ?thesis
  proof cases
    case 1
    with assms(2) show ?thesis
      by (intro exI [of _ "EvWake False 0"])
        (auto simp: waiting_wakes_def shutdown_measure_def job_done_def drop_nth_def Let_def)
  next
    case 2
    then show ?thesis
      by (intro exI [of _ "EvEnds undefined 0"])
        (auto simp: running_ends_def shutdown_measure_def job_done_def drop_nth_def Let_def)
  qed
qed

text \<open>C11: A shutdown comes to its end. Once Close has begun, every step of the sender's own
  goroutines that does anything makes a number smaller - the batchers still to be flushed,
  and the requests that run or wait - and while this number is not zero, there is such a
  step; it is zero exactly when the wait of Close is over. Senders of new data cannot delay
  this, because what they send is refused.\<close>

theorem sender_shutdown_terminates:
  assumes "new_sender aenv tenv cfg name base_ty has_dlq = Inr s" and "list_all event_ok es"
    and "run_events (sender_step marshal detect) es (start_sender s) = Some s'"
    and "is_closing (snd_state s')"
  shows "(shutdown_measure s' = 0 \<longleftrightarrow> to_flush s' = [] \<and> in_progress (snd_state s') = 0)
    \<and> (\<forall>e t. shutdown_event e \<and> sender_step marshal detect e s' = Some t \<and> t \<noteq> s'
         \<longrightarrow> shutdown_measure t < shutdown_measure s')
    \<and> (0 < shutdown_measure s' \<longrightarrow>
         (\<exists>e t. shutdown_event e \<and> sender_step marshal detect e s' = Some t
            \<and> shutdown_measure t < shutdown_measure s'))
    \<and> (\<forall>d fmt t. sender_step marshal detect (EvSend d fmt) s' = Some t
         \<longrightarrow> shutdown_measure t = shutdown_measure s')"
proof -
  from sender_run_ok [OF assms(1,2), of marshal detect] assms(3)
  have good: "sender_good marshal s'" by auto
  have zero: "shutdown_measure s' = 0 \<longleftrightarrow> to_flush s' = [] \<and> in_progress (snd_state s') = 0"
    using good by (auto simp: shutdown_measure_def sender_good_def sender_core_def sender_jobs_ok_def)
  have "shutdown_measure t = shutdown_measure s'" if "sender_step marshal detect (EvSend d fmt) s' = Some t" for d fmt t
    using that assms(4)
    by (auto simp: sender_send_def shutdown_measure_def split: if_splits option.splits)
  with zero shutdown_step_measure [OF assms(4)] shutdown_progress [OF good assms(4)] show ?thesis by blast
qed

subsection \<open>Witnesses\<close>

definition demo_batch :: table where
  "demo_batch = [(''max_items'', TInt 2), (''max_bytes'', TInt 0), (''time_window'', TString ''0'')]"

definition demo_sender_config :: table where
  "demo_sender_config = [(''url'', TString ''u''), (''timeout'', TString ''0''), (''format'', TString ''json''),
     (''concurrency_limit'', TInt 1), (''batch'', TTable demo_batch), (''auth'', TTable demo_auth),
     (''tls'', TTable demo_client_tls)]"

definition demo_url :: url where
  "demo_url = \<lparr>url_scheme = ''https'', url_opaque = [], url_hostname = ''h'', url_port = ''443'',
     url_raw_query = [], url_rest = ''u''\<rparr>"

definition demo_limits :: limits where
  "demo_limits = \<lparr>max_items = 2, max_bytes = 0, batch_window = 0\<rparr>"


lemma demo_method: "parse_method ''POST'' = Inr ''POST''"
  by (simp add: parse_method_def Let_def to_upper_def to_upper_char_def char_defs)

lemma demo_parse_url: "parse_url (auth_url_parse demo_auth_env) ''u'' ''http'' True = Inr (Some demo_url)"
proof -
  have "trim_space ''u'' = ''u''" and "to_lower ''https'' = ''https''" and "\<not> bad_port ''443''"
    by code_simp+
  then show ?thesis
    by (simp add: parse_url_def Let_def demo_auth_env_def demo_url_def url_scheme_https_def type_http3_def)
qed

lemma demo_target: "parse_target demo_auth_env demo_sender_config ''http'' = Inr (demo_url, ''POST'', [])"
  by (simp add: parse_target_def demo_sender_config_def cfg_value_def demo_parse_url demo_method
      parse_query_def parse_headers_def)

lemma demo_timeout: "parse_timeout demo_sender_config = Some 0"
  by (simp add: parse_timeout_def demo_sender_config_def cfg_value_def parse_duration_def)

lemma demo_format: "parse_structured_format demo_sender_config = Inr format_json"
proof -
  have "to_lower (trim_space ''json'') = ''json''" by code_simp
  then show ?thesis
    by (simp add: parse_structured_format_def parse_format_def cfg_value_def format_defs demo_sender_config_def)
qed

lemma demo_batch_limits: "batch_limits (Some (TTable demo_batch)) l = Inr demo_limits"
  by (simp add: batch_limits_def demo_batch_def demo_limits_def cfg_value_def parse_duration_def
      bounded_int_def max_batch_items_def max_batch_bytes_def)

lemma demo_slots: "sender_slots demo_sender_config = 1"
  by (simp add: sender_slots_def demo_sender_config_def cfg_value_def bounded_int_def max_sender_concurrency_def)

definition demo_batcher :: "'a batcher" where
  "demo_batcher = \<lparr>lim = demo_limits, size_of = None, has_guard = True, buf = [], nbytes = 0, timer = None, gen = 0\<rparr>"

definition demo_sender :: "auth_config \<Rightarrow> 'c http_sender" where
  "demo_sender au = \<lparr>snd_name = ''s'', snd_type = ''http'', snd_fallback = True, snd_url = demo_url,
     snd_method = ''POST'', snd_headers = [], snd_timeout = 0, snd_format = format_json, snd_auth = au,
     snd_tls = zero_tls\<lparr>min_version := 771, root_cas := Some ''pem''\<rparr>,
     snd_transport = transport_id ''14'' default_max_header_size 0, snd_retries = no_retries,
     snd_state = lc_start lifecycle_zero, json_batches = [(format_json, fmt_json, demo_batcher)],
     row_batches = [(format_json, fmt_json, demo_batcher)], slots = 1\<rparr>"

lemma demo_batchers: "init_batchers format_json demo_limits = Inr [(format_json, fmt_json, demo_batcher)]"
  by (simp add: init_batchers_def new_batcher_def demo_batcher_def demo_limits_def structured_formats_def format_defs)

lemma demo_sender:
  assumes "parse_auth demo_auth_env (Some (TTable demo_auth)) = Inr au"
  shows "new_sender demo_auth_env demo_tls_env demo_sender_config ''s'' ''http'' True = Inr (demo_sender au)"
proof -
  have "map_of demo_sender_config ''auth'' = Some (TTable demo_auth)"
    "map_of demo_sender_config ''tls'' = Some (TTable demo_client_tls)"
    "map_of demo_sender_config ''retries'' = None"
    "map_of demo_sender_config ''batch'' = Some (TTable demo_batch)"
    by (simp_all add: demo_sender_config_def)
  with assms show ?thesis
    by (simp add: new_sender_def demo_target demo_timeout demo_format demo_client_tls_loads demo_batch_limits
        demo_slots demo_batchers demo_sender_def type_http_def parse_retries_def)
qed

lemma demo_au:
  obtains au where "parse_auth demo_auth_env (Some (TTable demo_auth)) = Inr au"
  using demo_auth_parses by (cases "parse_auth demo_auth_env (Some (TTable demo_auth))") auto

definition demo_events :: "'c sender_event list" where
  "demo_events = [EvSend (Some (JSON [''{}''])) [], EvBeginClose, EvFlush, EvSend (Some (JSON [''{}''])) [], EvFlush]"

lemmas demo_run_simps = demo_events_def sender_send_def is_empty_chunk_def output_format_def demo_sender_def
  start_sender_def http_sender.extend_def sender_sys.fields_def format_defs
  lc_start_def is_started_def lifecycle_zero_def is_closing_def sender_begin_close_def begin_close_def
  dispatch_chunk_def use_json_def use_rows_def add_chunk_def flush_def start_jobs_def start_job_def
  flush_next_def running_ends_def job_done_def drop_nth_def demo_batcher_def demo_limits_def
  append_to_batch_def next_batch_def passthrough_def Let_def

lemma demo_run:
  "\<exists>s. run_events (sender_step marshal detect) demo_events (start_sender (demo_sender au)) = Some s
     \<and> is_closing (snd_state s)"
  "\<exists>s. run_events (sender_step marshal detect) (demo_events @ [EvEnds env 0]) (start_sender (demo_sender au)) = Some s
     \<and> is_closing (snd_state s) \<and> to_flush s = [] \<and> in_progress (snd_state s) = 0"
  by (simp_all add: demo_run_simps)

lemma demo_events_ok [simp]: "list_all event_ok demo_events"
  by (simp add: demo_events_def data_ok_def)

theorem sender_conserves_witness:
  "\<exists>au s'. new_sender demo_auth_env demo_tls_env demo_sender_config ''s'' ''http'' True = Inr (demo_sender au)
    \<and> run_events (sender_step (\<lambda>_. None) (\<lambda>_. [])) demo_events (start_sender (demo_sender au)) = Some s'
    \<and> pending_units s' + (\<Sum>j\<leftarrow>running s'. job_units j) + (\<Sum>j\<leftarrow>waiting s'. job_units j) + settled_units s'
      = {#UJson ''{}'', UJson ''{}''#}"
proof -
  obtain au where "parse_auth demo_auth_env (Some (TTable demo_auth)) = Inr au" by (rule demo_au)
  note new = demo_sender [OF this]
  have "sent_units demo_events = {#UJson ''{}'', UJson ''{}''#}"
    by (simp add: sent_units_def demo_events_def)
  with sender_conserves [OF new demo_events_ok, of "\<lambda>_. None" "\<lambda>_. []"] new show ?thesis by metis
qed


theorem sender_shutdown_terminates_witness:
  "\<exists>au s'. run_events (sender_step (\<lambda>_ :: (nat, nat) cell. None) (\<lambda>_. [])) demo_events (start_sender (demo_sender au)) = Some s'
    \<and> (shutdown_measure s' = 0 \<longleftrightarrow> to_flush s' = [] \<and> in_progress (snd_state s') = 0)"
proof -
  obtain au where au: "parse_auth demo_auth_env (Some (TTable demo_auth)) = Inr au" by (rule demo_au)
  obtain s' where s': "run_events (sender_step (\<lambda>_ :: (nat, nat) cell. None) (\<lambda>_. [])) demo_events (start_sender (demo_sender au)) = Some s'"
    "is_closing (snd_state s')" using demo_run(1) by blast
  show ?thesis
    by (intro exI conjI)
      (rule s'(1), rule sender_shutdown_terminates [OF demo_sender [OF au] demo_events_ok s', THEN conjunct1])
qed

end
