(* ===== verification/Scheduling.thy ===== *)
theory Scheduling
  imports Conserving Lifecycle BaseComponents
begin

text \<open>
  The scheduler that every collector runs in a goroutine of its own (scheduleNext in
  pkg/http/collector.go and in pkg/sql/collector.go, which are alike, with
  requestWithConcurrencyLimit and executeWithConcurrencyLimit), and the stages of a
  collector's Close, which the goroutine calls at its end.

  The loop is a step relation over what may happen: the moments at which the goroutine goes
  on, with the clock readings it gets, the cancellation of the program's context, and the
  ends of the goroutines it started. An event that is not possible now changes nothing; \<open>None\<close>
  is a panic, or a search for the next time that never returns.
\<close>

section \<open>State\<close>

text \<open>What became of a scheduled moment; it is kept with the clock reading at that time.\<close>

datatype fate = Started | Missed | AtLimit | Cancelled

datatype sched_phase = Planning | Sleeping instant | Draining | Returned

text \<open>How far Close has come: it waits for the work in progress twice, with two timeouts.\<close>

datatype close_stage = NotClosing | Graceful | Aborting | Finished

record scheduler =
  plan :: schedule
  previous :: instant
  phase :: sched_phase
  ctx_cancelled :: bool
  sched_state :: lifecycle
  sem_size :: nat
  active :: "instant list"
  ended :: "instant list"
  handled :: "(instant \<times> fate \<times> instant) list"
  stage :: close_stage

text \<open>schedCtx is derived from the program's context; Start creates it with StartWith.\<close>

definition sched_done :: "'z scheduler_scheme \<Rightarrow> bool" where
  "sched_done s \<longleftrightarrow> ctx_cancelled s \<or> sched_cancelled (sched_state s)"

definition start_scheduler :: "schedule \<Rightarrow> int \<Rightarrow> instant \<Rightarrow> scheduler" where
  "start_scheduler p conc now =
     \<lparr>plan = p, previous = now, phase = Planning, ctx_cancelled = False,
      sched_state = start_with lifecycle_zero, sem_size = nat (max conc 1),
      active = [], ended = [], handled = [], stage = NotClosing\<rparr>"

section \<open>Steps\<close>

definition handle :: "instant \<Rightarrow> fate \<Rightarrow> instant \<Rightarrow> 'z scheduler_scheme \<Rightarrow> 'z scheduler_scheme" where
  "handle t f now s = s\<lparr>handled := handled s @ [(t, f, now)], previous := t, phase := Planning\<rparr>"

text \<open>The head of the loop; \<open>now1\<close> is the clock of Next, \<open>now\<close> the one read after it.\<close>

definition plan_next :: "instant \<Rightarrow> instant \<Rightarrow> 'z scheduler_scheme \<Rightarrow> 'z scheduler_scheme option" where
  "plan_next now1 now s =
     (if phase s \<noteq> Planning then Some s
      else (case next_time (plan s) now1 (previous s) of
              (p, None) \<Rightarrow> None
            | (p, Some t) \<Rightarrow>
                (let s1 = s\<lparr>plan := p\<rparr>
                 in if t = zero_time
                    then Some (s1\<lparr>phase := (if runs_only_once p then Draining else Returned)\<rparr>)
                    else if \<not> runs_only_once p \<and> now > t then Some (handle t Missed now s1)
                    else Some (s1\<lparr>phase := Sleeping t\<rparr>))))"

text \<open>
  The goroutine wakes up, not before its time, and starts a worker if it is not cancelled and
  the semaphore is not full.
\<close>

definition start_worker :: "instant \<Rightarrow> 'z scheduler_scheme \<Rightarrow> 'z scheduler_scheme" where
  "start_worker t s =
     s\<lparr>active := active s @ [t],
       sched_state := (sched_state s)\<lparr>in_progress := in_progress (sched_state s) + 1\<rparr>\<rparr>"

definition wake :: "instant \<Rightarrow> 'z scheduler_scheme \<Rightarrow> 'z scheduler_scheme" where
  "wake now s =
     (case phase s of
        Sleeping t \<Rightarrow>
          (if now < t then s
           else if sched_done s then handle t Cancelled now s
           else if length (active s) < sem_size s then handle t Started now (start_worker t s)
           else handle t AtLimit now s)
      | _ \<Rightarrow> s)"

text \<open>The selects that wait for a cancellation, or for the work of a one-time run.\<close>

definition stop_waiting :: "'z scheduler_scheme \<Rightarrow> 'z scheduler_scheme" where
  "stop_waiting s =
     (case phase s of
        Sleeping t \<Rightarrow> if sched_done s then s\<lparr>phase := Returned\<rparr> else s
      | Draining \<Rightarrow> if sched_done s then s\<lparr>phase := Returned\<rparr> else s
      | _ \<Rightarrow> s)"

definition drain :: "'z scheduler_scheme \<Rightarrow> 'z scheduler_scheme" where
  "drain s = (if phase s = Draining \<and> in_progress (sched_state s) = 0 then s\<lparr>phase := Returned\<rparr> else s)"

text \<open>The worker with number \<open>i\<close> ends, and releases its slot.\<close>

definition end_worker :: "nat \<Rightarrow> 'z scheduler_scheme \<Rightarrow> 'z scheduler_scheme" where
  "end_worker i s =
     (if i < length (active s)
      then s\<lparr>ended := ended s @ [active s ! i], active := take i (active s) @ drop (Suc i) (active s),
             sched_state := (sched_state s)\<lparr>in_progress := in_progress (sched_state s) - 1\<rparr>\<rparr>
      else s)"

text \<open>
  The deferred call of Close: BeginClose, the first wait, which ends when no work is in
  progress or with StopStragglers after the grace period, and the second wait, which ends
  when no work is in progress or after the abort timeout. FinishClose is the last step.
\<close>

definition collector_close_begins :: "'z scheduler_scheme \<Rightarrow> 'z scheduler_scheme option" where
  "collector_close_begins s =
     (if phase s \<noteq> Returned \<or> stage s \<noteq> NotClosing \<or> \<not> is_started (sched_state s) \<or> once_done (sched_state s)
      then Some s
      else (case begin_close ((sched_state s)\<lparr>once_done := True\<rparr>) of
              Inl p \<Rightarrow> None
            | Inr l \<Rightarrow> Some (s\<lparr>sched_state := l, stage := Graceful\<rparr>)))"

definition grace_ends :: "bool \<Rightarrow> 'z scheduler_scheme \<Rightarrow> 'z scheduler_scheme" where
  "grace_ends timed_out s =
     (if stage s \<noteq> Graceful \<or> (\<not> timed_out \<and> in_progress (sched_state s) \<noteq> 0) then s
      else s\<lparr>stage := Aborting,
             sched_state := (if timed_out then stop_stragglers (sched_state s) else sched_state s)\<rparr>)"

definition close_finishes :: "bool \<Rightarrow> 'z scheduler_scheme \<Rightarrow> 'z scheduler_scheme option" where
  "close_finishes timed_out s =
     (if stage s \<noteq> Aborting \<or> (\<not> timed_out \<and> in_progress (sched_state s) \<noteq> 0) then Some s
      else (case finish_close (sched_state s) of
              Inl p \<Rightarrow> None
            | Inr l \<Rightarrow> Some (s\<lparr>sched_state := l, stage := Finished\<rparr>)))"

datatype sched_event =
  EvPlan instant instant
| EvWakeUp instant
| EvStop
| EvDrain
| EvEnd nat
| EvCancel
| EvCloseBegins
| EvGraceEnds bool
| EvCloseFinishes bool

fun sched_step :: "sched_event \<Rightarrow> 'z scheduler_scheme \<Rightarrow> 'z scheduler_scheme option" where
  "sched_step (EvPlan now1 now) s = plan_next now1 now s"
| "sched_step (EvWakeUp now) s = Some (wake now s)"
| "sched_step EvStop s = Some (stop_waiting s)"
| "sched_step EvDrain s = Some (drain s)"
| "sched_step (EvEnd i) s = Some (end_worker i s)"
| "sched_step EvCancel s = Some (s\<lparr>ctx_cancelled := True\<rparr>)"
| "sched_step EvCloseBegins s = collector_close_begins s"
| "sched_step (EvGraceEnds b) s = Some (grace_ends b s)"
| "sched_step (EvCloseFinishes b) s = close_finishes b s"

lemmas sched_defs = handle_def plan_next_def start_worker_def wake_def stop_waiting_def drain_def
  end_worker_def collector_close_begins_def grace_ends_def close_finishes_def sched_done_def


text \<open>Steps of the scheduler leave the rest of a collector alone, and start one worker at most.\<close>

lemma sched_step_frame:
  assumes "sched_step e s = Some s'"
  shows "scheduler.more s' = scheduler.more s"
    and "\<forall>i. e \<noteq> EvEnd i \<Longrightarrow> ended s' = ended s \<and> (active s' = active s \<or> (\<exists>t. active s' = active s @ [t]))"
proof -
  have "scheduler.more s' = scheduler.more s
    \<and> ((\<forall>i. e \<noteq> EvEnd i) \<longrightarrow> ended s' = ended s \<and> (active s' = active s \<or> (\<exists>t. active s' = active s @ [t])))"
  proof (cases e)
    case (EvPlan now1 now)
    with assms show ?thesis
      by (auto simp: plan_next_def handle_def Let_def split: if_splits option.splits prod.splits)
  next
    case (EvWakeUp now)
    with assms show ?thesis
      by (auto simp: wake_def handle_def start_worker_def split: if_splits sched_phase.splits)
  next
    case EvCloseBegins
    with assms show ?thesis by (auto simp: collector_close_begins_def split: if_splits sum.splits)
  next
    case (EvCloseFinishes b)
    with assms show ?thesis by (auto simp: close_finishes_def split: if_splits sum.splits)
  qed (use assms in \<open>auto simp: stop_waiting_def drain_def end_worker_def grace_ends_def
      split: sched_phase.splits if_splits\<close>)
  then show "scheduler.more s' = scheduler.more s"
    and "\<forall>i. e \<noteq> EvEnd i \<Longrightarrow> ended s' = ended s \<and> (active s' = active s \<or> (\<exists>t. active s' = active s @ [t]))"
    by blast+
qed

section \<open>The invariant\<close>

definition started :: "'z scheduler_scheme \<Rightarrow> instant list" where
  "started s = map fst (filter (\<lambda>(t, f, now). f = Started) (handled s))"

definition sleeping :: "'z scheduler_scheme \<Rightarrow> instant list" where
  "sleeping s = (case phase s of Sleeping t \<Rightarrow> [t] | _ \<Rightarrow> [])"

text \<open>A schedule that runs more than once gives the same answer whenever it is asked.\<close>

definition next_moment :: "schedule \<Rightarrow> instant \<Rightarrow> instant option" where
  "next_moment p t = snd (next_time p 0 t)"

fun follows :: "schedule \<Rightarrow> instant \<Rightarrow> instant list \<Rightarrow> bool" where
  "follows p t [] \<longleftrightarrow> True"
| "follows p t (r # rs) \<longleftrightarrow> next_moment p t = Some r \<and> r \<noteq> zero_time \<and> follows p r rs"

lemma follows_snoc:
  "follows p t (rs @ [r]) \<longleftrightarrow> follows p t rs \<and> next_moment p (last (t # rs)) = Some r \<and> r \<noteq> zero_time"
  by (induction rs arbitrary: t) auto

fun timely :: "instant \<times> fate \<times> instant \<Rightarrow> bool" where
  "timely (t, Missed, now) \<longleftrightarrow> t < now"
| "timely (t, f, now) \<longleftrightarrow> t \<le> now"

text \<open>The part of the invariant that all schedules share: the workers and the lifecycle.\<close>

definition workers_ok :: "'z scheduler_scheme \<Rightarrow> bool" where
  "workers_ok s \<longleftrightarrow>
     in_progress (sched_state s) = length (active s) \<and> length (active s) \<le> sem_size s \<and> 1 \<le> sem_size s
     \<and> mset (started s) = mset (active s) + mset (ended s) \<and> list_all timely (handled s)"

definition stage_ok :: "'z scheduler_scheme \<Rightarrow> bool" where
  "stage_ok s \<longleftrightarrow>
     (if stage s = NotClosing
      then closing (sched_state s) = OpenChan \<and> closed (sched_state s) = OpenChan
           \<and> \<not> once_done (sched_state s) \<and> cancel_sched (sched_state s) \<and> \<not> sched_cancelled (sched_state s)
           \<and> (cancel_exec (sched_state s) \<or> exec_cancelled (sched_state s))
      else phase s = Returned \<and> closing (sched_state s) = ClosedChan \<and> once_done (sched_state s)
           \<and> (cancel_exec (sched_state s) \<or> exec_cancelled (sched_state s))
           \<and> sched_cancelled (sched_state s)
           \<and> closed (sched_state s) = (if stage s = Finished then ClosedChan else OpenChan)
           \<and> (stage s = Finished \<longrightarrow> exec_cancelled (sched_state s)))"

definition recurring_ok :: "schedule \<Rightarrow> instant \<Rightarrow> 'z scheduler_scheme \<Rightarrow> bool" where
  "recurring_ok p t s \<longleftrightarrow>
     plan s = p \<and> previous s = last (t # map fst (handled s)) \<and> follows p t (map fst (handled s) @ sleeping s)"

text \<open>A one-time schedule: before its moment is known, while it sleeps, and afterwards.\<close>

definition once_plan :: "bool \<Rightarrow> schedule" where
  "once_plan left = zero_schedule\<lparr>one_time := True, one_time_left := left\<rparr>"

definition ran_once :: "'z scheduler_scheme \<Rightarrow> bool" where
  "ran_once s \<longleftrightarrow> (\<exists>t now. handled s = [(t, Started, now)])"

definition once_ok :: "'z scheduler_scheme \<Rightarrow> bool" where
  "once_ok s \<longleftrightarrow>
     (if one_time_left (plan s) then plan s = once_plan True \<and> phase s = Planning \<and> handled s = []
      else plan s = once_plan False \<and> length (handled s) \<le> 1
         \<and> (case phase s of
              Sleeping t \<Rightarrow> handled s = []
            | Returned \<Rightarrow> ctx_cancelled s \<or> ran_once s \<and> active s = []
            | _ \<Rightarrow> ctx_cancelled s \<or> ran_once s))"

lemma next_time_recurring:
  assumes "schedule_ok p" and "\<not> one_time p"
  shows "next_time p now t = (p, next_moment p t)"
  using assms
  by (auto simp: schedule_ok_def next_time_def next_moment_def calendar_ok_def zero_schedule_def Let_def
      split: option.splits)

lemma schedule_ok_once: "schedule_ok p \<Longrightarrow> one_time p \<longleftrightarrow> p = once_plan True"
  by (auto simp: schedule_ok_def calendar_ok_def once_plan_def zero_schedule_def)


subsection \<open>Steps keep it\<close>

text \<open>The clock is past the first second of its era.\<close>

fun event_possible :: "sched_event \<Rightarrow> bool" where
  "event_possible (EvPlan now1 now) \<longleftrightarrow> second \<le> now1"
| "event_possible _ \<longleftrightarrow> True"

lemma handle_simps [simp]:
  "plan (handle t f now s) = plan s" "previous (handle t f now s) = t" "phase (handle t f now s) = Planning"
  "ctx_cancelled (handle t f now s) = ctx_cancelled s" "sched_state (handle t f now s) = sched_state s"
  "sem_size (handle t f now s) = sem_size s" "active (handle t f now s) = active s"
  "ended (handle t f now s) = ended s" "handled (handle t f now s) = handled s @ [(t, f, now)]"
  "stage (handle t f now s) = stage s"
  by (simp_all add: handle_def)

lemma start_worker_simps [simp]:
  "plan (start_worker t s) = plan s" "previous (start_worker t s) = previous s"
  "phase (start_worker t s) = phase s" "ctx_cancelled (start_worker t s) = ctx_cancelled s"
  "sched_state (start_worker t s) = (sched_state s)\<lparr>in_progress := in_progress (sched_state s) + 1\<rparr>"
  "sem_size (start_worker t s) = sem_size s" "active (start_worker t s) = active s @ [t]"
  "ended (start_worker t s) = ended s" "handled (start_worker t s) = handled s"
  "stage (start_worker t s) = stage s"
  by (simp_all add: start_worker_def)

lemma started_simps [simp]:
  "started (handle t f now s) = started s @ (if f = Started then [t] else [])"
  "started (start_worker t s) = started s" "started (s\<lparr>plan := p\<rparr>) = started s"
  "started (s\<lparr>phase := ph\<rparr>) = started s" "started (s\<lparr>sched_state := l\<rparr>) = started s"
  "started (s\<lparr>active := ts\<rparr>) = started s" "started (s\<lparr>ended := ts\<rparr>) = started s"
  "started (s\<lparr>stage := g\<rparr>) = started s" "started (s\<lparr>ctx_cancelled := b\<rparr>) = started s"
  by (simp_all add: started_def handle_def start_worker_def)

text \<open>The operations of the lifecycle leave the counter alone.\<close>

lemma begin_close_in_progress: "begin_close l = Inr l' \<Longrightarrow> in_progress l' = in_progress l"
  by (auto simp: begin_close_def Let_def split: if_splits sum.splits)

lemma stop_stragglers_in_progress [simp]: "in_progress (stop_stragglers l) = in_progress l"
  by (simp add: stop_stragglers_def)

lemma finish_close_in_progress: "finish_close l = Inr l' \<Longrightarrow> in_progress l' = in_progress l"
  by (auto simp: finish_close_def Let_def split: if_splits sum.splits)

lemma workers_step:
  assumes "workers_ok s" and "sched_step e s = Some s'"
  shows "workers_ok s'"
proof (cases e)
  case (EvPlan now1 now)
  with assms show ?thesis
    by (auto simp: plan_next_def workers_ok_def Let_def split: if_splits option.splits prod.splits)
next
  case (EvWakeUp now)
  with assms show ?thesis
    by (auto simp: wake_def workers_ok_def split: if_splits sched_phase.splits)
next
  case (EvEnd i)
  with assms mset_take_drop [of i "active s"] show ?thesis
    by (auto simp: end_worker_def workers_ok_def split: if_splits)
next
  case EvCloseBegins
  with assms show ?thesis
    by (auto simp: collector_close_begins_def workers_ok_def dest!: begin_close_in_progress
        split: if_splits sum.splits)
next
  case (EvCloseFinishes b)
  with assms show ?thesis
    by (auto simp: close_finishes_def workers_ok_def dest!: finish_close_in_progress
        split: if_splits sum.splits)
qed (use assms in \<open>auto simp: stop_waiting_def drain_def grace_ends_def workers_ok_def
    split: if_splits sched_phase.splits\<close>)


lemma stage_step:
  assumes "stage_ok s" and "sched_step e s = Some s'"
  shows "stage_ok s'"
proof (cases e)
  case (EvPlan now1 now)
  with assms show ?thesis
    by (auto simp: plan_next_def stage_ok_def Let_def split: if_splits option.splits prod.splits)
next
  case (EvWakeUp now)
  with assms show ?thesis
    by (auto simp: wake_def stage_ok_def split: if_splits sched_phase.splits)
next
  case EvCloseBegins
  with assms show ?thesis
    by (auto simp: collector_close_begins_def stage_ok_def begin_close_def Let_def split: if_splits sum.splits)
next
  case (EvGraceEnds b)
  with assms show ?thesis
    by (auto simp: grace_ends_def stage_ok_def stop_stragglers_def split: if_splits)
next
  case (EvCloseFinishes b)
  with assms show ?thesis
    by (auto simp: close_finishes_def stage_ok_def finish_close_def stop_stragglers_def Let_def
        split: if_splits sum.splits)
qed (use assms in \<open>auto simp: stop_waiting_def drain_def end_worker_def stage_ok_def
    split: if_splits sched_phase.splits\<close>)

text \<open>Nothing but the search for the next time can get stuck, and no channel is closed twice.\<close>

lemma stage_no_panic:
  assumes "stage_ok s" and "sched_step e s = None"
  shows "\<exists>now1 now. e = EvPlan now1 now \<and> snd (next_time (plan s) now1 (previous s)) = None"
  using assms
  by (cases e) (auto simp: plan_next_def collector_close_begins_def close_finishes_def stage_ok_def
      begin_close_def finish_close_def stop_stragglers_def Let_def split: if_splits option.splits prod.splits)

lemma follows_prefix: "follows p t (rs @ rs') \<Longrightarrow> follows p t rs"
  by (induction rs arbitrary: t) auto

lemma recurring_frame:
  assumes "recurring_ok p t s" and "plan s' = plan s" and "previous s' = previous s" and "handled s' = handled s"
    and "phase s' = phase s \<or> phase s' = Returned"
  shows "recurring_ok p t s'"
  using assms follows_prefix [of p t "map fst (handled s)" "sleeping s"]
  by (auto simp: recurring_ok_def sleeping_def)

text \<open>The other steps do not change the plan, nor what has been handled.\<close>

lemma quiet_step:
  assumes "sched_step e s = Some s'" and "\<forall>now1 now. e \<noteq> EvPlan now1 now" and "\<forall>now. e \<noteq> EvWakeUp now"
  shows "plan s' = plan s \<and> previous s' = previous s \<and> handled s' = handled s
    \<and> (phase s' = phase s \<or> phase s' = Returned)"
proof (cases e)
  case EvCloseBegins
  with assms(1) show ?thesis by (auto simp: collector_close_begins_def split: if_splits sum.splits)
next
  case (EvCloseFinishes b)
  with assms(1) show ?thesis by (auto simp: close_finishes_def split: if_splits sum.splits)
next
  case EvDrain
  with assms(1) show ?thesis by (auto simp: drain_def split: if_splits)
qed (use assms in \<open>auto simp: stop_waiting_def end_worker_def grace_ends_def
      split: sched_phase.splits\<close>)

lemma recurring_step:
  assumes "schedule_ok p" and "\<not> one_time p" and "recurring_ok p t s" and "sched_step e s = Some s'"
  shows "recurring_ok p t s'"
proof (cases e)
  case (EvPlan now1 now)
  with assms(2-) next_time_recurring [OF assms(1,2)] show ?thesis
    by (auto simp: plan_next_def recurring_ok_def runs_only_once_def follows_snoc sleeping_def Let_def
        split: if_splits option.splits)
next
  case (EvWakeUp now)
  with assms(3,4) show ?thesis
    by (auto simp: wake_def recurring_ok_def sleeping_def follows_snoc split: if_splits sched_phase.splits)
qed (use quiet_step [OF assms(4)] recurring_frame [OF assms(3), of s'] in simp_all)


lemma next_time_once:
  assumes "second \<le> now"
  shows "next_time (once_plan True) now t = (once_plan False, Some (truncate_to second now))"
    and "truncate_to second now \<noteq> zero_time"
    and "next_time (once_plan False) now t = (once_plan False, Some zero_time)"
  using truncate_to_greatest [of second second now] assms
  by (auto simp: next_time_def once_plan_def zero_schedule_def)

lemma once_frame:
  assumes "once_ok s" and "plan s' = plan s" and "handled s' = handled s" and "phase s' = phase s"
    and "ctx_cancelled s \<Longrightarrow> ctx_cancelled s'" and "active s = [] \<Longrightarrow> active s' = []"
  shows "once_ok s'"
  using assms by (auto simp: once_ok_def ran_once_def split: if_splits sched_phase.splits)

lemma once_step:
  assumes "once_ok s" and "workers_ok s" and "stage_ok s" and "event_possible e" and "sched_step e s = Some s'"
  shows "once_ok s'"
proof (cases e)
  case (EvPlan now1 now)
  then have now: "second \<le> now1" using assms(4) by simp
  show ?thesis
  proof (cases "phase s = Planning")
    case True
    then show ?thesis
      using assms(1,5) EvPlan next_time_once [OF now]
      by (cases "one_time_left (plan s)")
        (auto simp: once_ok_def plan_next_def once_plan_def runs_only_once_def ran_once_def Let_def)
  qed (use assms(1,5) EvPlan in \<open>simp add: plan_next_def\<close>)
next
  case (EvWakeUp now)
  show ?thesis
  proof (cases "\<exists>t. phase s = Sleeping t")
    case True
    then obtain t where t: "phase s = Sleeping t" by blast
    then have h: "plan s = once_plan False" "handled s = []" "\<not> one_time_left (plan s)"
      using assms(1) by (auto simp: once_ok_def split: if_splits)
    then have "active s = []" using assms(2) by (simp add: workers_ok_def started_def)
    moreover have "sched_done s \<longleftrightarrow> ctx_cancelled s"
      using assms(3) t by (auto simp: stage_ok_def sched_done_def split: if_splits)
    ultimately show ?thesis
      using assms(1,2,5) EvWakeUp t h
      by (auto simp: wake_def once_ok_def once_plan_def ran_once_def workers_ok_def split: if_splits)
  qed (use assms(1,5) EvWakeUp in \<open>auto simp: wake_def split: sched_phase.splits\<close>)
next
  case EvStop
  show ?thesis
  proof (cases "phase s' = phase s")
    case False
    then have "s' = s\<lparr>phase := Returned\<rparr>" "sched_done s" "phase s \<noteq> Planning" "phase s \<noteq> Returned"
      using assms(5) EvStop by (auto simp: stop_waiting_def split: sched_phase.splits if_splits)
    moreover from this assms(3) have "ctx_cancelled s" by (auto simp: stage_ok_def sched_done_def split: if_splits)
    ultimately show ?thesis using assms(1) by (auto simp: once_ok_def split: if_splits)
  qed (use assms(1,5) EvStop in \<open>auto simp: stop_waiting_def split: sched_phase.splits if_splits\<close>)
next
  case EvDrain
  with assms(1,2,5) show ?thesis
    by (auto simp: drain_def once_ok_def ran_once_def workers_ok_def split: if_splits)
next
  case EvCloseBegins
  show ?thesis
    by (rule once_frame [OF assms(1)])
      (use EvCloseBegins assms(5) in \<open>auto simp: collector_close_begins_def split: if_splits sum.splits\<close>)
next
  case (EvCloseFinishes b)
  show ?thesis
    by (rule once_frame [OF assms(1)])
      (use EvCloseFinishes assms(5) in \<open>auto simp: close_finishes_def split: if_splits sum.splits\<close>)
next
  case (EvEnd i)
  show ?thesis
    by (rule once_frame [OF assms(1)])
      (use EvEnd assms(5) in \<open>auto simp: end_worker_def split: if_splits\<close>)
next
  case EvCancel
  show ?thesis by (rule once_frame [OF assms(1)]) (use EvCancel assms(5) in auto)
next
  case (EvGraceEnds b)
  show ?thesis
    by (rule once_frame [OF assms(1)])
      (use EvGraceEnds assms(5) in \<open>auto simp: grace_ends_def split: if_splits\<close>)
qed


subsection \<open>Runs keep it\<close>

definition sched_good :: "schedule \<Rightarrow> instant \<Rightarrow> 'z scheduler_scheme \<Rightarrow> bool" where
  "sched_good p t s \<longleftrightarrow>
     workers_ok s \<and> stage_ok s \<and> (if one_time p then once_ok s else recurring_ok p t s)"

lemma sched_good_step:
  assumes "schedule_ok p" and "sched_good p t s" and "event_possible e" and "sched_step e s = Some s'"
  shows "sched_good p t s'"
  using assms workers_step [of s e s'] stage_step [of s e s'] recurring_step [of p t s e s'] once_step [of s e s']
  by (auto simp: sched_good_def split: if_splits)

lemma sched_good_start:
  assumes "schedule_ok p"
  shows "sched_good p t (start_scheduler p conc t)"
proof -
  have "workers_ok (start_scheduler p conc t)"
    by (simp add: workers_ok_def start_scheduler_def started_def start_with_def lc_start_def is_started_def
        lifecycle_zero_def)
  moreover have "stage_ok (start_scheduler p conc t)"
    by (simp add: stage_ok_def start_scheduler_def start_with_def lc_start_def is_started_def lifecycle_zero_def)
  moreover have "recurring_ok p t (start_scheduler p conc t)"
    by (simp add: recurring_ok_def start_scheduler_def sleeping_def)
  moreover have "once_ok (start_scheduler p conc t)" if "one_time p"
    using that assms by (auto simp: once_ok_def start_scheduler_def schedule_ok_once once_plan_def)
  ultimately show ?thesis by (simp add: sched_good_def)
qed

text \<open>The invariant of a scheduler only looks at the scheduler.\<close>

lemma sched_good_truncate: "sched_good p t s = sched_good p t (scheduler.truncate s)"
proof -
  have "once_ok s = once_ok (scheduler.truncate s)"
    by (cases "phase s") (simp_all add: once_ok_def ran_once_def scheduler.truncate_def)
  moreover have "recurring_ok p t s = recurring_ok p t (scheduler.truncate s)"
    by (simp add: recurring_ok_def sleeping_def scheduler.truncate_def)
  moreover have "workers_ok s = workers_ok (scheduler.truncate s)" "stage_ok s = stage_ok (scheduler.truncate s)"
    by (simp_all add: workers_ok_def stage_ok_def started_def scheduler.truncate_def)
  ultimately show ?thesis by (simp add: sched_good_def)
qed

text \<open>The well-formed schedule and the start are fixed for a run of a collector's scheduler.\<close>

interpretation scheduling: preserving sched_step
    "\<lambda>s. schedule_ok p \<and> sched_good p t (s :: scheduler)" event_possible for p t
  using sched_good_step by unfold_locales blast

definition sched_run :: "schedule \<Rightarrow> int \<Rightarrow> instant \<Rightarrow> sched_event list \<Rightarrow> scheduler option" where
  "sched_run p conc t es = run_events sched_step es (start_scheduler p conc t)"

lemma sched_run_good:
  assumes "schedule_ok p" and "list_all event_possible es" and "sched_run p conc t es = Some s"
  shows "sched_good p t s"
  using scheduling.run_preserves [of p t "start_scheduler p conc t" es s] sched_good_start [OF assms(1)] assms
  by (simp add: sched_run_def)

section \<open>Properties\<close>

lemma step_sem_size: "sched_step e s = Some s' \<Longrightarrow> sem_size s' = sem_size s"
  by (cases e) (auto simp: plan_next_def wake_def stop_waiting_def drain_def end_worker_def
      collector_close_begins_def grace_ends_def close_finishes_def Let_def
      split: if_splits option.splits prod.splits sched_phase.splits sum.splits)

lemma run_sem_size: "run_events sched_step es s = Some s' \<Longrightarrow> sem_size s' = sem_size s"
  by (induction es arbitrary: s) (auto split: option.splits dest: step_sem_size)


text \<open>A one-time collector runs exactly once. At most one moment is ever dealt with; when its
  goroutine is about to return, then, unless the program was cancelled, the one run has
  started and has ended: a shutdown of the program cannot come before the end of the run.\<close>

theorem scheduler_runs_once:
  assumes "schedule_ok p" and "one_time p" and "list_all event_possible es"
    and "sched_run p conc t es = Some s"
  shows "length (handled s) \<le> 1
    \<and> (phase s = Returned \<and> \<not> ctx_cancelled s \<longrightarrow>
         (\<exists>r now. handled s = [(r, Started, now)] \<and> ended s = [r]) \<and> active s = [])"
proof -
  have good: "workers_ok s" "once_ok s"
    using sched_run_good [OF assms(1,3,4)] assms(2) by (auto simp: sched_good_def)
  then have "ended s = [r]" if "active s = []" "handled s = [(r, Started, now)]" for r now
    using that by (simp add: workers_ok_def started_def)
  with good(2) show ?thesis by (auto simp: once_ok_def ran_once_def split: if_splits)
qed


text \<open>Once cancelled or at its end, the loop never starts anything again.\<close>

definition halted :: "'z scheduler_scheme \<Rightarrow> bool" where
  "halted s \<longleftrightarrow> sched_done s \<or> phase s = Returned"

lemma started_handled: "handled s' = handled s \<Longrightarrow> started s' = started s"
  by (simp add: started_def)

lemma sched_cancelled_simps [simp]:
  "begin_close l = Inr l' \<Longrightarrow> sched_cancelled l \<Longrightarrow> sched_cancelled l'"
  "finish_close l = Inr l' \<Longrightarrow> sched_cancelled l' = sched_cancelled l"
  "sched_cancelled (stop_stragglers l) = sched_cancelled l"
  by (auto simp: begin_close_def finish_close_def stop_stragglers_def Let_def split: if_splits sum.splits)

lemma halted_step:
  assumes "halted s" and "sched_step e s = Some s'"
  shows "halted s' \<and> started s' = started s"
proof (cases e)
  case (EvPlan now1 now)
  with assms show ?thesis
    by (auto simp: plan_next_def halted_def sched_done_def Let_def split: if_splits option.splits prod.splits)
next
  case (EvWakeUp now)
  with assms show ?thesis
    by (auto simp: wake_def halted_def sched_done_def split: if_splits sched_phase.splits)
next
  case EvCloseBegins
  with assms show ?thesis
    by (auto simp: collector_close_begins_def halted_def sched_done_def split: if_splits sum.splits)
next
  case (EvCloseFinishes b)
  with assms show ?thesis
    by (auto simp: close_finishes_def halted_def sched_done_def split: if_splits sum.splits)
qed (use assms in \<open>auto simp: stop_waiting_def drain_def end_worker_def grace_ends_def halted_def sched_done_def
      split: if_splits sched_phase.splits\<close>)

lemma halted_run:
  "halted s \<Longrightarrow> run_events sched_step es s = Some s' \<Longrightarrow> started s' = started s"
proof (induction es arbitrary: s)
  case (Cons e es)
  then obtain s1 where "sched_step e s = Some s1" "run_events sched_step es s1 = Some s'"
    by (auto split: option.splits)
  with Cons.IH [of s1] Cons.prems(1) halted_step [of s e s1] show ?case by simp
qed simp

text \<open>Without the abort timeout, work can only be left when nothing has finished yet.\<close>

definition idle_when_finished :: "'z scheduler_scheme \<Rightarrow> bool" where
  "idle_when_finished s \<longleftrightarrow> (stage s = Finished \<longrightarrow> in_progress (sched_state s) = 0)"

lemma idle_step:
  assumes "idle_when_finished s" and "stage_ok s" and "e \<noteq> EvCloseFinishes True" and "sched_step e s = Some s'"
  shows "idle_when_finished s'"
proof (cases e)
  case (EvPlan now1 now)
  with assms show ?thesis
    by (auto simp: plan_next_def idle_when_finished_def Let_def split: if_splits option.splits prod.splits)
next
  case (EvWakeUp now)
  with assms show ?thesis
    by (auto simp: wake_def idle_when_finished_def stage_ok_def split: if_splits sched_phase.splits)
next
  case EvCloseBegins
  with assms show ?thesis
    by (auto simp: collector_close_begins_def idle_when_finished_def split: if_splits sum.splits)
next
  case (EvCloseFinishes b)
  with assms show ?thesis
    by (auto simp: close_finishes_def idle_when_finished_def dest: finish_close_in_progress
        split: if_splits sum.splits)
qed (use assms in \<open>auto simp: stop_waiting_def drain_def end_worker_def grace_ends_def idle_when_finished_def
      split: if_splits sched_phase.splits\<close>)

interpretation idle_close: preserving sched_step
    "\<lambda>s. schedule_ok p \<and> sched_good p t (s :: scheduler) \<and> idle_when_finished s"
    "\<lambda>e. event_possible e \<and> e \<noteq> EvCloseFinishes True" for p t
proof unfold_locales
  fix s s' e
  assume s: "schedule_ok p \<and> sched_good p t (s :: scheduler) \<and> idle_when_finished s"
    and e: "event_possible e \<and> e \<noteq> EvCloseFinishes True" and step: "sched_step e s = Some s'"
  then have "sched_good p t s'" by (metis sched_good_step)
  moreover have "idle_when_finished s'"
    using idle_step [OF _ _ _ step] s e by (simp add: sched_good_def)
  ultimately show "schedule_ok p \<and> sched_good p t s' \<and> idle_when_finished s'" using s by simp
qed

text \<open>C9: A collector stops when it is told to, and says so once. From the moment its context is
  cancelled, no worker starts any more, whatever happens. Nothing in its lifecycle panics:
  the goroutine can only be stuck in the search for the next time. When its Done channel is
  closed, its loop has returned and the contexts of its workers are cancelled; and unless
  the abort timeout expired, every worker it ever started has ended.\<close>

theorem scheduler_stops:
  assumes "schedule_ok p" and "list_all event_possible es" and "sched_run p conc t es = Some s"
  shows "(sched_done s \<longrightarrow> (\<forall>fs s'. run_events sched_step fs s = Some s' \<longrightarrow> started s' = started s))
    \<and> (\<forall>e. sched_step e s = None \<longrightarrow>
         (\<exists>now1 now. e = EvPlan now1 now \<and> snd (next_time (plan s) now1 (previous s)) = None))
    \<and> (closed (sched_state s) = ClosedChan \<longrightarrow> phase s = Returned \<and> exec_cancelled (sched_state s)
         \<and> (EvCloseFinishes True \<notin> set es \<longrightarrow> mset (started s) = mset (ended s) \<and> active s = []))"
proof -
  have good: "workers_ok s" "stage_ok s"
    using sched_run_good [OF assms] by (auto simp: sched_good_def)
  have "idle_when_finished s" if "EvCloseFinishes True \<notin> set es"
    using idle_close.run_preserves [of p t "start_scheduler p conc t" es s] sched_good_start [OF assms(1)] assms that
    by (auto simp: sched_run_def list_all_iff idle_when_finished_def start_scheduler_def)
  with good have "mset (started s) = mset (ended s) \<and> active s = []"
    if "closed (sched_state s) = ClosedChan" "EvCloseFinishes True \<notin> set es"
    using that by (auto simp: workers_ok_def stage_ok_def idle_when_finished_def split: if_splits)
  with good halted_run [of s] stage_no_panic [OF good(2)] show ?thesis
    by (auto simp: halted_def stage_ok_def split: if_splits)
qed


section \<open>Witnesses\<close>

definition demo_every :: schedule where
  "demo_every = zero_schedule\<lparr>every := second\<rparr>"

lemma demo_every_ok: "schedule_ok demo_every" "\<not> one_time demo_every"
  by (auto simp: demo_every_def schedule_ok_def zero_schedule_def)

definition demo_schedule_events :: "sched_event list" where
  "demo_schedule_events = [EvPlan 5000000000 5000000000, EvWakeUp 6000000000,
     EvPlan 6000000000 7500000000, EvPlan 7500000000 7500000000, EvEnd 0, EvCancel]"

lemma demo_schedule_run:
  "\<exists>s. sched_run demo_every 1 5000000000 demo_schedule_events = Some s
     \<and> map fst (handled s) @ sleeping s = [6000000000, 7000000000, 8000000000] \<and> sched_done s
     \<and> started s = [6000000000]"
  by (simp add: sched_run_def demo_schedule_events_def sched_defs start_scheduler_def demo_every_def
      next_time_def zero_schedule_def truncate_to_def runs_only_once_def sleeping_def started_def start_with_def lc_start_def is_started_def lifecycle_zero_def Let_def)

lemma demo_schedule_possible: "list_all event_possible demo_schedule_events"
  by (simp add: demo_schedule_events_def)


theorem scheduler_stops_witness:
  "\<exists>s. sched_run demo_every 1 5000000000 demo_schedule_events = Some s \<and> started s = [6000000000]
     \<and> (\<forall>fs s'. run_events sched_step fs s = Some s' \<longrightarrow> started s' = [6000000000])"
proof -
  obtain s where s: "sched_run demo_every 1 5000000000 demo_schedule_events = Some s"
    "sched_done s" "started s = [6000000000]"
    using demo_schedule_run by blast
  from scheduler_stops [OF demo_every_ok(1) demo_schedule_possible s(1)] s show ?thesis by auto
qed

definition demo_once_events :: "sched_event list" where
  "demo_once_events = [EvPlan 5000000001 5000000001, EvWakeUp 5000000001, EvPlan 5000000001 5000000001,
     EvEnd 0, EvDrain]"

lemma demo_truncated: "truncate_to second 5000000001 = 5000000000"
  by (simp add: truncate_to_def)

lemma demo_once_run:
  "\<exists>s. sched_run (once_plan True) 1 5000000000 demo_once_events = Some s \<and> phase s = Returned
    \<and> \<not> ctx_cancelled s \<and> map fst (handled s) = [5000000000]"
proof -
  have once: "one_time (once_plan left)" for left by (simp add: once_plan_def)
  note n = next_time_once(1) [of 5000000001] next_time_once(3) [of 5000000001]
  show ?thesis
    unfolding sched_run_def demo_once_events_def
    by (simp add: n demo_truncated sched_defs start_scheduler_def runs_only_once_def once
        start_with_def lc_start_def is_started_def lifecycle_zero_def)
qed

theorem scheduler_runs_once_witness:
  "\<exists>s. sched_run (once_plan True) 1 5000000000 demo_once_events = Some s
     \<and> active s = [] \<and> ended s = [5000000000]"
proof -
  obtain s where s: "sched_run (once_plan True) 1 5000000000 demo_once_events = Some s" "phase s = Returned"
    "\<not> ctx_cancelled s" "map fst (handled s) = [5000000000]" using demo_once_run by (elim exE conjE)
  have "schedule_ok (once_plan True)" unfolding schedule_ok_def once_plan_def by (rule disjI1) (rule refl)
  moreover have "one_time (once_plan True)" by (simp add: once_plan_def)
  moreover have "list_all event_possible demo_once_events" by (simp add: demo_once_events_def)
  ultimately have "length (handled s) \<le> 1 \<and> (phase s = Returned \<and> \<not> ctx_cancelled s \<longrightarrow>
      (\<exists>r now. handled s = [(r, Started, now)] \<and> ended s = [r]) \<and> active s = [])"
    by (rule scheduler_runs_once) (rule s(1))
  then show ?thesis using s by auto
qed

end
