(* ===== verification/HttpCollector.thy ===== *)
theory HttpCollector
  imports HttpSender Scheduling
begin

text \<open>
  The HTTP collector (pkg/http/collector.go): its settings, what becomes of a response, and
  the whole collector, which is the scheduler of theory Scheduling with requests as its
  workers.
\<close>

section \<open>Settings\<close>

datatype body_file_error = GetWithBody | TwoBodies | BodyUnreadable string | BodyFileEmpty string

text \<open>The outcome \<open>Inr None\<close> is a nil body. Neither the text nor the file is trimmed.\<close>

definition load_body :: "(string \<Rightarrow> bytes option) \<Rightarrow> table \<Rightarrow> string \<Rightarrow> body_file_error + bytes option" where
  "load_body file cfg m =
     (let inline = cfg_value as_string cfg ''body'' [];
          path = trim_space (cfg_value as_string cfg ''body_file'' [])
      in if inline = [] \<and> path = [] then Inr None
         else if m = ''GET'' then Inl GetWithBody
         else if inline \<noteq> [] \<and> path \<noteq> [] then Inl TwoBodies
         else if inline \<noteq> [] \<and> path = [] then Inr (Some inline)
         else (case file path of
                 None \<Rightarrow> Inl (BodyUnreadable path)
               | Some body \<Rightarrow> if body = [] then Inl (BodyFileEmpty path) else Inr (Some body)))"

record http_collector = base_collector +
  col_url :: url
  col_method :: string
  col_headers :: header
  col_body :: "bytes option"
  max_body_size :: int
  max_header_size :: int
  col_timeout :: duration
  col_format :: format
  col_auth :: auth_config
  col_tls :: tls_config
  col_retries :: retries
  col_transport :: string

datatype collector_error =
  CollectorUrl url_error
| CollectorMethod http_error
| CollectorQuery http_error
| CollectorHeaders http_error
| CollectorBody body_file_error
| CollectorTimeout
| CollectorFormat format_error
| CollectorAuth auth_error
| CollectorTls tls_error
| CollectorRetries retry_error

definition new_http_collector ::
  "auth_env \<Rightarrow> tls_env \<Rightarrow> base_collector \<Rightarrow> table \<Rightarrow> collector_error + http_collector" where
  "new_http_collector aenv tenv base cfg =
     bind_sum (map_error CollectorUrl
        (parse_url (auth_url_parse aenv) (cfg_value as_string cfg ''url'' []) (base_type base) True)) (\<lambda>u.
     bind_sum (map_error CollectorMethod (parse_method (cfg_value as_string cfg ''method'' ''GET''))) (\<lambda>m.
     case u of None \<Rightarrow> Inl (CollectorUrl UrlMissing) | Some u0 \<Rightarrow>
     bind_sum (map_error CollectorQuery (parse_query (url_raw_query u0) (map_of cfg ''query''))) (\<lambda>q.
     bind_sum (map_error CollectorHeaders
        (parse_headers (auth_valid_name aenv) (auth_valid_value aenv) (map_of cfg ''headers''))) (\<lambda>h.
     bind_sum (map_error CollectorBody (load_body (read_file aenv) cfg m)) (\<lambda>b.
     case parse_timeout cfg of None \<Rightarrow> Inl CollectorTimeout | Some timeout \<Rightarrow>
     bind_sum (map_error CollectorFormat (parse_format cfg)) (\<lambda>fmt.
     bind_sum (map_error CollectorAuth (parse_auth aenv (map_of cfg ''auth''))) (\<lambda>au.
     bind_sum (map_error CollectorTls (load_client_tls_config tenv (map_of cfg ''tls'') (base_type base))) (\<lambda>(t, checksum).
     bind_sum (map_error CollectorRetries (parse_retries (map_of cfg ''retries'') m)) (\<lambda>r.
     let hdr = parse_byte_size cfg ''max_headers_size'' default_max_header_size in
     Inr (base_collector.extend base (http_collector.fields (u0\<lparr>url_raw_query := q\<rparr>) m h b
            (parse_byte_size cfg ''max_body_size'' default_max_body_size) hdr timeout fmt au t r
            (transport_id checksum hdr timeout))))))))))))"

section \<open>Responses\<close>

text \<open>What a collector does with a response: it sends a chunk, or uses its fallback, or neither.\<close>

datatype 'c delivery =
  Sends "'c data" format
| DeadLetters "'c data" format dest_type
| SendsNothing

definition to_message :: "response \<Rightarrow> http_response" where
  "to_message r =
     \<lparr>rs_status = status_code r, rs_header = resp_header r, rs_length = content_length r,
      rs_body = ReusableBody (resp_body r)\<rparr>"

definition send_response :: "format \<Rightarrow> bool \<Rightarrow> http_response \<Rightarrow> 'c delivery" where
  "send_response fmt fallback r =
     (if fmt = format_default then Sends (HTTPResponses [Some r]) fmt
      else (case response_body (rs_body r) of
              None \<Rightarrow>
                DeadLetters (HTTPResponses [Some (r\<lparr>rs_body := spent\<rparr>)]) format_default (dead_letter fallback)
            | Some (body, kept) \<Rightarrow>
                (case body_chunk body fmt of
                   Inl e \<Rightarrow>
                     DeadLetters (HTTPResponses [Some (r\<lparr>rs_body := kept\<rparr>)]) format_default (dead_letter fallback)
                 | Inr None \<Rightarrow> SendsNothing
                 | Inr (Some d) \<Rightarrow> Sends d fmt)))"

text \<open>The goroutine of one request: all its attempts, and then the delivery of the response.\<close>

datatype 'c collected = Failed int | Collected response "'c delivery"

definition collect :: "'z http_collector_scheme \<Rightarrow> (nat \<Rightarrow> attempt_env) \<Rightarrow> 'c collected" where
  "collect c env =
     (let resp = fst (request_with_retries (col_retries c) (max_body_size c) env)
      in if status_code resp \<le> max_successful_status_code
         then Collected resp (send_response (col_format c) (has_fallback c) (to_message resp))
         else Failed (status_code resp))"

section \<open>The running collector\<close>

text \<open>
  The scheduler with a record of what its requests came to. A request ends with what its
  attempts met; the other events are those of the scheduler.
\<close>

record 'c collector_run = scheduler +
  results :: "(instant \<times> 'c collected) list"

datatype collector_event = ColSched sched_event | ColRequest "nat \<Rightarrow> attempt_env" nat

definition request_ends :: "'z http_collector_scheme \<Rightarrow> (nat \<Rightarrow> attempt_env) \<Rightarrow> nat \<Rightarrow> 'c collector_run \<Rightarrow> 'c collector_run" where
  "request_ends c env i s =
     (if i < length (active s)
      then end_worker i (s\<lparr>results := results s @ [(active s ! i, collect c env)]\<rparr>) else s)"

fun http_collector_step :: "'z http_collector_scheme \<Rightarrow> collector_event \<Rightarrow> 'c collector_run \<Rightarrow> 'c collector_run option" where
  "http_collector_step c (ColSched e) s = (case e of EvEnd i \<Rightarrow> Some s | _ \<Rightarrow> sched_step e s)"
| "http_collector_step c (ColRequest env i) s = Some (request_ends c env i s)"

definition start_http_collector :: "'z http_collector_scheme \<Rightarrow> instant \<Rightarrow> 'c collector_run option" where
  "start_http_collector c now =
     (case sched c of
        None \<Rightarrow> None
      | Some p \<Rightarrow> Some (scheduler.extend (start_scheduler p (concurrency c) now) (collector_run.fields [])))"


section \<open>The invariant\<close>

text \<open>
  What a message, with the body it has, must come to: it is passed on as a whole or as its
  body, or goes to the fallback as a whole, or it has nothing to pass on.
\<close>

fun delivery_ok :: "format \<Rightarrow> bool \<Rightarrow> 'c data \<Rightarrow> bytes \<Rightarrow> 'c delivery \<Rightarrow> bool" where
  "delivery_ok fmt fallback whole body (Sends d f) \<longleftrightarrow>
     f = fmt
     \<and> (if fmt = format_default then d = whole
        else if fmt = format_raw then body \<noteq> [] \<and> d = Blobs [body]
        else \<exists>objs. decode_json body = Inr objs \<and> objs \<noteq> [] \<and> d = JSON objs)"
| "delivery_ok fmt fallback whole body (DeadLetters d f to) \<longleftrightarrow>
     fmt \<in> {format_json, format_json_array, format_ndjson} \<and> isl (decode_json body)
     \<and> d = whole \<and> f = format_default \<and> to = (if fallback then ToDLQ else ToDiscard)"
| "delivery_ok fmt fallback whole body SendsNothing \<longleftrightarrow>
     (if fmt = format_raw then body = [] else fmt \<noteq> format_default \<and> decode_json body = Inr [])"

lemma valid_format_cases:
  "fmt \<in> set valid_formats \<Longrightarrow>
     fmt = format_default \<or> fmt = format_raw \<or> fmt \<in> {format_json, format_json_array, format_ndjson}"
  by (auto simp: format_defs)

lemma parse_format_valid: "parse_format cfg = Inr fmt \<Longrightarrow> fmt \<in> set valid_formats"
  by (auto simp: parse_format_def Let_def split: if_splits)

text \<open>A response is what the last attempt received, completely and within the maximum size.\<close>

definition received :: "'z http_collector_scheme \<Rightarrow> response \<Rightarrow> bool" where
  "received c r \<longleftrightarrow>
     (\<exists>w :: wire_response. wire_status w = status_code r \<and> \<not> wire_fails w \<and> resp_body r = wire_data w
        \<and> int (length (wire_data w)) \<le> max_body_size c \<and> content_length r = int (length (wire_data w)))"

fun collected_ok :: "'z http_collector_scheme \<Rightarrow> 'c collected \<Rightarrow> bool" where
  "collected_ok c (Failed code) \<longleftrightarrow> max_successful_status_code < code"
| "collected_ok c (Collected r d) \<longleftrightarrow>
     status_code r \<le> max_successful_status_code \<and> received c r
     \<and> delivery_ok (col_format c) (has_fallback c) (HTTPResponses [Some (to_message r)]) (resp_body r) d"

lemma send_response_ok:
  assumes "fmt \<in> set valid_formats"
  shows "delivery_ok fmt fallback (HTTPResponses [Some (to_message r)]) (resp_body r)
    (send_response fmt fallback (to_message r))"
  using valid_format_cases [OF assms]
  by (auto simp: send_response_def to_message_def response_body_def body_chunk_def dead_letter_def format_defs
      split: sum.splits)

lemma collect_ok:
  assumes "col_format c \<in> set valid_formats" and "0 \<le> max_body_size c"
  shows "collected_ok c (collect c env)"
proof -
  obtain r n where q: "request_with_retries (col_retries c) (max_body_size c) env = (r, n)" by fastforce
  have "faithful_response env (max_body_size c) (new_error_response 503) 0"
    by (simp add: faithful_response_def new_error_response_def max_successful_status_code_def)
  moreover have "attempts_allowed env 0" by (simp add: attempts_allowed_def)
  ultimately have "faithful_response env (max_body_size c) r n"
    using request_loop_faithful [of env "max_body_size c" "new_error_response 503" 0
        "nat (max_attempts (col_retries c))" r n] assms(2) q
    by (simp add: request_with_retries_def)
  then have "status_code r \<le> max_successful_status_code \<Longrightarrow> received c r"
    by (auto simp: faithful_response_def received_def)
  with q send_response_ok [OF assms(1)] show ?thesis by (auto simp: collect_def)
qed

definition collector_good :: "'z http_collector_scheme \<Rightarrow> schedule \<Rightarrow> instant \<Rightarrow> 'c collector_run \<Rightarrow> bool" where
  "collector_good c p t s \<longleftrightarrow>
     schedule_ok p \<and> sched_good p t s \<and> sem_size s = nat (max (concurrency c) 1)
     \<and> map fst (results s) = ended s \<and> list_all (\<lambda>(t, r). collected_ok c r) (results s)"

fun collector_possible :: "collector_event \<Rightarrow> bool" where
  "collector_possible (ColSched e) \<longleftrightarrow> event_possible e"
| "collector_possible (ColRequest env i) \<longleftrightarrow> True"

lemma sched_step_results:
  assumes "sched_step e (s :: 'c collector_run) = Some s'" and "\<forall>i. e \<noteq> EvEnd i"
  shows "results s' = results s \<and> ended s' = ended s"
  using sched_step_frame [OF assms(1)] assms(2) by (cases s; cases s') auto

lemma sched_good_results [simp]: "sched_good p t (s\<lparr>results := rs\<rparr>) = sched_good p t (s :: 'c collector_run)"
  by (subst (1 2) sched_good_truncate) (simp add: scheduler.truncate_def)

lemma http_collector_step_ok:
  assumes "collector_good c p t s" and "collector_possible e" and "http_collector_step c e s = Some s'"
    and "col_format c \<in> set valid_formats" and "0 \<le> max_body_size c"
  shows "collector_good c p t s'"
proof (cases e)
  case (ColSched e')
  show ?thesis
  proof (cases "\<exists>i. e' = EvEnd i")
    case False
    then have step: "sched_step e' s = Some s'" and "event_possible e'"
      using assms(2,3) ColSched by (auto split: sched_event.splits)
    with assms(1) sched_good_step [of p t s e' s'] step_sem_size [OF step] sched_step_results [OF step] False
    show ?thesis by (auto simp: collector_good_def)
  qed (use assms(1,3) ColSched in auto)
next
  case (ColRequest env i)
  show ?thesis
  proof (cases "i < length (active s)")
    case True
    define s1 where "s1 = s\<lparr>results := results s @ [(active s ! i, collect c env)]\<rparr>"
    have s': "s' = end_worker i s1" using assms(3) ColRequest True by (simp add: request_ends_def s1_def)
    have "sched_good p t s'"
      using sched_good_step [of p t s1 "EvEnd i" s'] assms(1) by (simp add: s' collector_good_def s1_def)
    moreover have "map fst (results s') = ended s'" "sem_size s' = sem_size s"
      "results s' = results s @ [(active s ! i, collect c env)]"
      using assms(1) True by (simp_all add: s' s1_def end_worker_def collector_good_def)
    ultimately show ?thesis using assms(1) collect_ok [OF assms(4,5)] by (simp add: collector_good_def)
  qed (use assms(1,3) ColRequest in \<open>simp add: request_ends_def\<close>)
qed


interpretation http_collecting: preserving "http_collector_step c"
    "\<lambda>s. collector_good c p t s \<and> col_format c \<in> set valid_formats \<and> 0 \<le> max_body_size c"
    collector_possible for c p t
  using http_collector_step_ok by unfold_locales blast

lemma extend_base_fields [simp]:
  "sched (base_collector.extend b x) = sched b" "concurrency (base_collector.extend b x) = concurrency b"
  "has_fallback (base_collector.extend b x) = has_fallback b"
  by (simp_all add: base_collector.extend_def)

lemma new_http_collector_ok:
  assumes "new_http_collector aenv tenv base cfg = Inr c"
  shows "col_format c \<in> set valid_formats \<and> 0 < max_body_size c \<and> max_body_size c \<le> max_byte_size
    \<and> sched c = sched base \<and> concurrency c = concurrency base \<and> has_fallback c = has_fallback base
    \<and> (col_method c = ''GET'' \<longrightarrow> col_body c = None)"
proof -
  obtain fmt body m where c: "parse_format cfg = Inr fmt" "load_body (read_file aenv) cfg m = Inr body"
    "col_format c = fmt" "max_body_size c = parse_byte_size cfg ''max_body_size'' default_max_body_size"
    "col_method c = m" "col_body c = body"
    "sched c = sched base" "concurrency c = concurrency base" "has_fallback c = has_fallback base"
    using assms
    by (auto simp: new_http_collector_def bind_sum_Inr map_error_Inr Let_def base_collector.extend_def
        http_collector.fields_def split: option.splits prod.splits)
  have "fmt \<in> set valid_formats" by (rule parse_format_valid [OF c(1)])
  moreover have "m = ''GET'' \<Longrightarrow> body = None" using c(2) by (auto simp: load_body_def Let_def split: if_splits)
  ultimately show ?thesis
    using c parse_byte_size_range [of default_max_body_size cfg "''max_body_size''"]
    by (auto simp: default_max_body_size_def max_byte_size_def)
qed

lemma start_http_collector_good:
  assumes "start_http_collector c now = Some s" and "sched c = Some p" and "schedule_ok p"
  shows "collector_good c p now s"
proof -
  have s: "s = scheduler.extend (start_scheduler p (concurrency c) now) (collector_run.fields [])"
    using assms(1,2) by (simp add: start_http_collector_def)
  then have "scheduler.truncate s = start_scheduler p (concurrency c) now"
    by (simp add: scheduler.truncate_def scheduler.extend_def)
  with sched_good_start [OF assms(3)] have "sched_good p now s" by (subst sched_good_truncate) simp
  then show ?thesis
    using assms(3)
    by (simp add: collector_good_def s start_scheduler_def scheduler.extend_def collector_run.fields_def)
qed

section \<open>Properties\<close>



section \<open>Witness\<close>

definition demo_base :: base_collector where
  "demo_base = \<lparr>base_type = ''http'', base_name = ''c'', destination = ''stdout'', send_to = Some ''stdout'',
     has_fallback = True, cronspec = [], sched = Some demo_every, trigger = [], concurrency = 1\<rparr>"

definition demo_collector_settings :: table where
  "demo_collector_settings = (''method'', TString ''POST'') # (''body'', TString ''B'') # demo_sender_config"

lemma demo_http_collector:
  assumes "parse_auth demo_auth_env (Some (TTable demo_auth)) = Inr au"
  shows "\<exists>c. new_http_collector demo_auth_env demo_tls_env demo_base demo_collector_settings = Inr c"
proof -
  have maps: "map_of demo_collector_settings ''auth'' = Some (TTable demo_auth)"
    "map_of demo_collector_settings ''tls'' = Some (TTable demo_client_tls)"
    "map_of demo_collector_settings ''retries'' = None" "map_of demo_collector_settings ''query'' = None"
    "map_of demo_collector_settings ''headers'' = None"
    and vals: "cfg_value as_string demo_collector_settings ''url'' [] = ''u''"
    "cfg_value as_string demo_collector_settings ''method'' ''GET'' = ''POST''"
    "cfg_value as_string demo_collector_settings ''body'' [] = ''B''"
    "cfg_value as_string demo_collector_settings ''body_file'' [] = []"
    "cfg_value as_string demo_collector_settings ''format'' d = cfg_value as_string demo_sender_config ''format'' d"
    "cfg_value as_string demo_collector_settings ''timeout'' d = cfg_value as_string demo_sender_config ''timeout'' d"
    for d
    by (simp_all add: demo_collector_settings_def demo_sender_config_def cfg_value_def)
  have "parse_format demo_sender_config = Inr format_json"
    using demo_format by (simp add: parse_structured_format_def split: sum.splits if_splits)
  then have "parse_format demo_collector_settings = Inr format_json" by (simp add: parse_format_def vals)
  moreover have "parse_timeout demo_collector_settings = Some 0"
    using demo_timeout by (simp add: parse_timeout_def vals)
  moreover have "load_body f demo_collector_settings ''POST'' = Inr (Some ''B'')" for f
  proof -
    have "trim_space [] = []" by (simp add: trim_space_def trim_left_def trim_right_def)
    then show ?thesis by (simp add: load_body_def vals)
  qed
  ultimately show ?thesis
    using assms
    by (simp add: new_http_collector_def demo_base_def maps vals demo_parse_url demo_method parse_query_def
        parse_headers_def demo_client_tls_loads parse_retries_def Let_def)
qed

text \<open>A request starts, and ends while another one sleeps.\<close>

definition demo_collector_events :: "collector_event list" where
  "demo_collector_events = [ColSched (EvPlan 5000000000 5000000000), ColSched (EvWakeUp 6000000000),
     ColSched (EvPlan 6000000000 6000000000), ColRequest demo_attempts 0]"


end
