(* ===== verification/HttpReceiver.thy ===== *)
theory HttpReceiver
  imports HttpCollector
begin

text \<open>
  The HTTP receiver (pkg/http/receiver.go): its settings, the handler of a request, and the
  running receiver with its shutdown. The servers of net/http and quic-go that call the
  handler are the environment: requests arrive, and their handlers go on, in any order.
\<close>

section \<open>Settings\<close>

text \<open>Resolving an address, and printing the result, is the work of package net.\<close>

record net_env =
  resolve_tcp :: "string \<Rightarrow> string option"
  resolve_udp :: "string \<Rightarrow> string option"

datatype address_error =
  AddressMissing
| InvalidTcpAddress string
| InvalidUdpAddress string
| UnexpectedReceiverType string

definition parse_address :: "net_env \<Rightarrow> string \<Rightarrow> string \<Rightarrow> address_error + string" where
  "parse_address env addr proto_ver =
     (if addr = [] then Inl AddressMissing
      else if proto_ver = type_http then
        (case resolve_tcp env addr of None \<Rightarrow> Inl (InvalidTcpAddress addr) | Some a \<Rightarrow> Inr a)
      else if proto_ver = type_http3 then
        (case resolve_udp env addr of None \<Rightarrow> Inl (InvalidUdpAddress addr) | Some a \<Rightarrow> Inr a)
      else Inl (UnexpectedReceiverType proto_ver))"

record http_receiver = base_receiver +
  address :: string
  rcv_max_body_size :: int
  rcv_max_header_size :: int
  rcv_timeout :: duration
  rcv_format :: format
  rcv_tls :: "tls_config option"

datatype receiver_error =
  ReceiverAddress address_error
| ReceiverTimeout
| ReceiverFormat format_error
| ReceiverTls tls_error
| Http3NeedsTls

definition new_http_receiver :: "net_env \<Rightarrow> tls_env \<Rightarrow> base_receiver \<Rightarrow> table \<Rightarrow> receiver_error + http_receiver" where
  "new_http_receiver nenv tenv base cfg =
     bind_sum (map_error ReceiverAddress
        (parse_address nenv (cfg_value as_string cfg ''address'' []) (base_type base))) (\<lambda>a.
     case parse_timeout cfg of None \<Rightarrow> Inl ReceiverTimeout | Some timeout \<Rightarrow>
     bind_sum (map_error ReceiverFormat (parse_format cfg)) (\<lambda>fmt.
     bind_sum (map_error ReceiverTls (load_server_tls_config tenv (map_of cfg ''tls'') (base_type base))) (\<lambda>t.
     if t = None \<and> base_type base = type_http3 then Inl Http3NeedsTls
     else Inr (base_receiver.extend base (http_receiver.fields a
            (parse_byte_size cfg ''max_body_size'' default_max_body_size)
            (parse_byte_size cfg ''max_headers_size'' default_max_header_size) timeout fmt t)))))"

section \<open>Requests\<close>

text \<open>
  A request as the server passes it to the handler; its length is -1 if it is not known, and
  its body delivers \<open>in_data\<close> and then ends, or fails.
\<close>

record in_request =
  in_query :: string
  in_header :: header
  in_length :: int
  in_data :: bytes
  in_fails :: bool

definition status_accepted :: int where "status_accepted = 202"
definition status_bad_request :: int where "status_bad_request = 400"
definition status_too_large :: int where "status_too_large = 413"
definition status_unprocessable :: int where "status_unprocessable = 422"
definition status_unavailable :: int where "status_unavailable = 503"

text \<open>io.ReadAll of an http.MaxBytesReader: more bytes than the limit are a failure of their own.\<close>

definition read_request :: "int \<Rightarrow> in_request \<Rightarrow> int + bytes" where
  "read_request limit q =
     (if in_length q > limit then Inl status_too_large
      else if int (length (in_data q)) > limit then Inl status_too_large
      else if in_fails q then Inl status_bad_request
      else Inr (in_data q))"

text \<open>The method and the path of the request are dropped: senders have their own.\<close>

definition outgoing_request :: "in_request \<Rightarrow> bytes \<Rightarrow> http_request" where
  "outgoing_request q body =
     \<lparr>rq_query = Some (in_query q), rq_header = in_header q, rq_length = int (length body),
      rq_body = fresh_body body, rq_get_body = Some (Some body)\<rparr>"

text \<open>The result of sendRequest, and what it sends.\<close>

definition send_request :: "format \<Rightarrow> bool \<Rightarrow> in_request \<Rightarrow> bytes \<Rightarrow> bool \<times> 'c delivery" where
  "send_request fmt fallback q body =
     (let whole = HTTPRequests [Some (outgoing_request q body)]
      in if fmt = format_default then (True, Sends whole fmt)
         else (case body_chunk body fmt of
                 Inl e \<Rightarrow> (False, DeadLetters whole format_default (dead_letter fallback))
               | Inr None \<Rightarrow> (True, SendsNothing)
               | Inr (Some d) \<Rightarrow> (True, Sends d fmt)))"

text \<open>The handler after it has been let in: the status it writes, and what it sends.\<close>

definition handle_request :: "'z http_receiver_scheme \<Rightarrow> in_request \<Rightarrow> int \<times> 'c delivery" where
  "handle_request r q =
     (case read_request (rcv_max_body_size r) q of
        Inl status \<Rightarrow> (status, SendsNothing)
      | Inr body \<Rightarrow>
          (if send_to r = None then (status_accepted, SendsNothing)
           else (let (ok, d) = send_request (rcv_format r) (has_fallback r) q body
                 in (if ok then status_accepted else status_unprocessable, d))))"

section \<open>The running receiver\<close>

text \<open>
  The handlers at work, the requests that were turned away, and for every request that was
  served, the status its handler wrote, the one the client saw, and what was sent. They
  differ if http.TimeoutHandler answered in the meantime, which does not stop the handler.
\<close>

record 'c receiver_run =
  rcv_state :: lifecycle
  serving :: "in_request list"
  turned_away :: "in_request list"
  served :: "(in_request \<times> int \<times> int \<times> 'c delivery) list"

datatype receiver_event =
  RcvArrives in_request
| RcvServes bool nat
| RcvBeginClose
| RcvFinishClose bool

definition request_arrives :: "in_request \<Rightarrow> 'c receiver_run \<Rightarrow> 'c receiver_run" where
  "request_arrives q s =
     (if is_closing (rcv_state s) then s\<lparr>turned_away := turned_away s @ [q]\<rparr>
      else s\<lparr>rcv_state := (rcv_state s)\<lparr>in_progress := in_progress (rcv_state s) + 1\<rparr>,
             serving := serving s @ [q]\<rparr>)"

definition request_served :: "'z http_receiver_scheme \<Rightarrow> bool \<Rightarrow> nat \<Rightarrow> 'c receiver_run \<Rightarrow> 'c receiver_run" where
  "request_served r late i s =
     (if i < length (serving s)
      then (let q = serving s ! i; (status, d) = handle_request r q;
                seen = (if late \<and> rcv_timeout r > 0 then status_unavailable else status)
            in s\<lparr>serving := drop_nth i (serving s), served := served s @ [(q, status, seen, d)],
                 rcv_state := (rcv_state s)\<lparr>in_progress := in_progress (rcv_state s) - 1\<rparr>\<rparr>)
      else s)"

text \<open>
  Close: it begins once; the servers shut down and the handlers are waited for, both within
  one timeout, and then the receiver is marked as closed.
\<close>

definition receiver_begin_close :: "'c receiver_run \<Rightarrow> 'c receiver_run option" where
  "receiver_begin_close s =
     (if \<not> is_started (rcv_state s) \<or> once_done (rcv_state s) then Some s
      else (case begin_close ((rcv_state s)\<lparr>once_done := True\<rparr>) of
              Inl p \<Rightarrow> None | Inr l \<Rightarrow> Some (s\<lparr>rcv_state := l\<rparr>)))"

definition receiver_finish_close :: "bool \<Rightarrow> 'c receiver_run \<Rightarrow> 'c receiver_run option" where
  "receiver_finish_close timed_out s =
     (if \<not> is_closing (rcv_state s) \<or> closed (rcv_state s) = ClosedChan
         \<or> (\<not> timed_out \<and> in_progress (rcv_state s) \<noteq> 0) then Some s
      else (case finish_close (rcv_state s) of Inl p \<Rightarrow> None | Inr l \<Rightarrow> Some (s\<lparr>rcv_state := l\<rparr>)))"

fun receiver_step :: "'z http_receiver_scheme \<Rightarrow> receiver_event \<Rightarrow> 'c receiver_run \<Rightarrow> 'c receiver_run option" where
  "receiver_step r (RcvArrives q) s = Some (request_arrives q s)"
| "receiver_step r (RcvServes late i) s = Some (request_served r late i s)"
| "receiver_step r RcvBeginClose s = receiver_begin_close s"
| "receiver_step r (RcvFinishClose b) s = receiver_finish_close b s"

definition start_receiver :: "'c receiver_run" where
  "start_receiver = \<lparr>rcv_state = lc_start lifecycle_zero, serving = [], turned_away = [], served = []\<rparr>"


section \<open>The invariant\<close>

text \<open>What the handler must do with a request, and what the client may see.\<close>

definition fits :: "'z http_receiver_scheme \<Rightarrow> in_request \<Rightarrow> bool" where
  "fits r q \<longleftrightarrow> in_length q \<le> rcv_max_body_size r \<and> int (length (in_data q)) \<le> rcv_max_body_size r"

definition body_readable :: "'z http_receiver_scheme \<Rightarrow> in_request \<Rightarrow> bool" where
  "body_readable r q \<longleftrightarrow> fits r q \<and> \<not> in_fails q"

definition body_converts :: "'z http_receiver_scheme \<Rightarrow> in_request \<Rightarrow> bool" where
  "body_converts r q \<longleftrightarrow> rcv_format r \<in> {format_default, format_raw} \<or> \<not> isl (decode_json (in_data q))"

fun served_ok :: "'z http_receiver_scheme \<Rightarrow> in_request \<times> int \<times> int \<times> 'c delivery \<Rightarrow> bool" where
  "served_ok r (q, status, seen, d) \<longleftrightarrow>
     status = (if \<not> fits r q then status_too_large
               else if in_fails q then status_bad_request
               else if body_converts r q then status_accepted else status_unprocessable)
     \<and> (seen = status \<or> seen = status_unavailable \<and> rcv_timeout r > 0)
     \<and> (if body_readable r q
        then delivery_ok (rcv_format r) (has_fallback r)
               (HTTPRequests [Some (outgoing_request q (in_data q))]) (in_data q) d
        else d = SendsNothing)"

lemma read_request_cases:
  "read_request (rcv_max_body_size r) q =
     (if \<not> fits r q then Inl status_too_large
      else if in_fails q then Inl status_bad_request else Inr (in_data q))"
  by (auto simp: read_request_def fits_def)

lemma send_request_cases:
  "send_request format_default fallback q body = (True, Sends (HTTPRequests [Some (outgoing_request q body)]) format_default)"
  "send_request format_raw fallback q body = (True, if body = [] then SendsNothing else Sends (Blobs [body]) format_raw)"
  "fmt \<in> {format_json, format_json_array, format_ndjson} \<Longrightarrow>
     send_request fmt fallback q body = (case decode_json body of
       Inl e \<Rightarrow> (False, DeadLetters (HTTPRequests [Some (outgoing_request q body)]) format_default (dead_letter fallback))
     | Inr objs \<Rightarrow> (True, if objs = [] then SendsNothing else Sends (JSON objs) fmt))"
  by (auto simp: send_request_def body_chunk_def format_defs split: sum.splits)

lemma structured_distinct:
  "fmt \<in> {format_json, format_json_array, format_ndjson} \<Longrightarrow> fmt \<noteq> format_default \<and> fmt \<noteq> format_raw"
  by (auto simp: format_defs)

lemma send_request_ok:
  assumes "fmt \<in> set valid_formats" and "send_request fmt fallback q body = (ok, d)"
  shows "delivery_ok fmt fallback (HTTPRequests [Some (outgoing_request q body)]) body d"
    and "ok \<longleftrightarrow> fmt \<in> {format_default, format_raw} \<or> \<not> isl (decode_json body)"
proof -
  have distinct: "format_raw \<noteq> format_default" by (simp add: format_defs)
  consider "fmt = format_default" | "fmt = format_raw" | "fmt \<in> {format_json, format_json_array, format_ndjson}"
    using valid_format_cases [OF assms(1)] by blast
  then have "delivery_ok fmt fallback (HTTPRequests [Some (outgoing_request q body)]) body d
    \<and> (ok \<longleftrightarrow> fmt \<in> {format_default, format_raw} \<or> \<not> isl (decode_json body))"
  proof cases
    case 3
    with structured_distinct [OF 3] assms(2) show ?thesis
      by (cases "decode_json body") (auto simp: send_request_cases(3) [OF 3] dead_letter_def split: if_splits)
  qed (use assms(2) distinct in \<open>auto simp: send_request_cases split: if_splits\<close>)
  then show "delivery_ok fmt fallback (HTTPRequests [Some (outgoing_request q body)]) body d"
    and "ok \<longleftrightarrow> fmt \<in> {format_default, format_raw} \<or> \<not> isl (decode_json body)" by simp_all
qed

lemma handle_request_ok:
  assumes "rcv_format r \<in> set valid_formats" and "send_to r \<noteq> None" and "handle_request r q = (status, d :: 'c delivery)"
    and "seen = status \<or> seen = status_unavailable \<and> rcv_timeout r > 0"
  shows "served_ok r (q, status, seen, d)"
proof -
  obtain ok d' where sent: "send_request (rcv_format r) (has_fallback r) q (in_data q) = (ok, d' :: 'c delivery)"
    by fastforce
  with send_request_ok [OF assms(1) this]
  have "delivery_ok (rcv_format r) (has_fallback r)
      (HTTPRequests [Some (outgoing_request q (in_data q))]) (in_data q) d'" and "ok \<longleftrightarrow> body_converts r q"
    by (auto simp: body_converts_def)
  with assms(2-) sent show ?thesis
    by (auto simp: handle_request_def read_request_cases body_readable_def split: if_splits)
qed

definition receiver_life_ok :: "lifecycle \<Rightarrow> bool" where
  "receiver_life_ok l \<longleftrightarrow>
     (if is_closing l then once_done l \<and> closed l \<noteq> NilChan
      else closing l = OpenChan \<and> closed l = OpenChan \<and> \<not> once_done l)"

definition receiver_good :: "'z http_receiver_scheme \<Rightarrow> 'c receiver_run \<Rightarrow> bool" where
  "receiver_good r s \<longleftrightarrow>
     rcv_format r \<in> set valid_formats \<and> send_to r \<noteq> None
     \<and> in_progress (rcv_state s) = length (serving s) \<and> receiver_life_ok (rcv_state s)
     \<and> list_all (served_ok r) (served s)
     \<and> (is_closing (rcv_state s) \<or> turned_away s = [])"

definition receiver_held :: "'c receiver_run \<Rightarrow> in_request multiset" where
  "receiver_held s = mset (serving s) + mset (turned_away s) + mset (map fst (served s))"

fun arrivals :: "receiver_event \<Rightarrow> in_request multiset" where
  "arrivals (RcvArrives q) = {#q#}"
| "arrivals _ = {#}"

lemma life_count [simp]: "receiver_life_ok (l\<lparr>in_progress := n\<rparr>) = receiver_life_ok l"
  by (simp add: receiver_life_ok_def is_closing_def)

lemma receiver_step_ok:
  fixes s :: "'c receiver_run"
  assumes "receiver_good r s" and "True"
  shows "\<exists>s'. receiver_step r e s = Some s' \<and> receiver_good r s'
    \<and> receiver_held s' = receiver_held s + arrivals e"
proof (cases e)
  case (RcvArrives q)
  with assms show ?thesis
    by (auto simp: request_arrives_def receiver_good_def receiver_held_def)
next
  case (RcvServes late i)
  show ?thesis
  proof (cases "i < length (serving s)")
    case True
    obtain status d where h: "handle_request r (serving s ! i) = (status, d :: 'c delivery)" by fastforce
    define seen where "seen = (if late \<and> rcv_timeout r > 0 then status_unavailable else status)"
    have "served_ok r (serving s ! i, status, seen, d)"
      by (rule handle_request_ok [OF _ _ h]) (use assms in \<open>simp_all add: receiver_good_def seen_def\<close>)
    moreover have "length (drop_nth i (serving s)) = length (serving s) - 1"
      using drop_nth_length [OF True] by simp
    moreover have "request_served r late i s = s\<lparr>serving := drop_nth i (serving s),
        served := served s @ [(serving s ! i, status, seen, d)],
        rcv_state := (rcv_state s)\<lparr>in_progress := in_progress (rcv_state s) - 1\<rparr>\<rparr>"
      using True h by (simp add: request_served_def seen_def Let_def)
    ultimately show ?thesis
      using assms(1) RcvServes drop_nth_mset [OF True]
      by (simp add: receiver_good_def receiver_held_def del: served_ok.simps)
  qed (use assms RcvServes in \<open>simp add: request_served_def\<close>)
next
  case RcvBeginClose
  with assms show ?thesis
    by (auto simp: receiver_begin_close_def begin_close_def receiver_good_def receiver_held_def receiver_life_ok_def
        is_closing_def is_started_def Let_def split: if_splits go_chan.splits)
next
  case (RcvFinishClose b)
  show ?thesis
  proof (cases "is_closing (rcv_state s)")
    case True
    with assms RcvFinishClose show ?thesis
      by (cases "closed (rcv_state s)")
        (auto simp: receiver_finish_close_def finish_close_def stop_stragglers_def receiver_good_def
          receiver_held_def receiver_life_ok_def is_closing_def Let_def)
  qed (use assms(1) RcvFinishClose in \<open>simp add: receiver_finish_close_def\<close>)
qed

interpretation http_receiving: conserving "receiver_step r" "receiver_good r" receiver_held arrivals "\<lambda>e. True" for r
  using receiver_step_ok by unfold_locales blast


text \<open>The shutdown waits for the handlers, unless its timeout expires.\<close>

definition quiet_close :: "'c receiver_run \<Rightarrow> bool" where
  "quiet_close s \<longleftrightarrow> (closed (rcv_state s) = ClosedChan \<longrightarrow> is_closing (rcv_state s) \<and> serving s = [])"

lemma quiet_close_step:
  assumes "receiver_good r s" and "quiet_close s" and "e \<noteq> RcvFinishClose True" and "receiver_step r e s = Some s'"
  shows "quiet_close s'"
proof (cases e)
  case (RcvArrives q)
  with assms show ?thesis by (auto simp: request_arrives_def quiet_close_def is_closing_def split: if_splits)
next
  case (RcvServes late i)
  with assms(2,4) show ?thesis
    by (auto simp: request_served_def quiet_close_def is_closing_def drop_nth_def Let_def
        split: if_splits prod.splits)
next
  case RcvBeginClose
  with assms show ?thesis
    by (auto simp: receiver_begin_close_def begin_close_def quiet_close_def is_closing_def Let_def
        split: if_splits sum.splits)
next
  case (RcvFinishClose b)
  with assms show ?thesis
    by (cases "closed (rcv_state s)")
      (auto simp: receiver_finish_close_def finish_close_def stop_stragglers_def quiet_close_def receiver_good_def
        is_closing_def Let_def split: if_splits)
qed

interpretation quiet_receiving: preserving "receiver_step r" "\<lambda>s. receiver_good r s \<and> quiet_close s"
    "\<lambda>e. e \<noteq> RcvFinishClose True" for r
proof unfold_locales
  fix s e s' assume s: "receiver_good r s \<and> quiet_close s" and e: "e \<noteq> RcvFinishClose True"
    and step: "receiver_step r e s = Some s'"
  from http_receiving.step_preserves [OF _ _ step] quiet_close_step [OF _ _ e step] s
  show "receiver_good r s' \<and> quiet_close s'" by blast
qed

lemma extend_receiver_fields [simp]:
  "send_to (base_receiver.extend b x) = send_to b" "has_fallback (base_receiver.extend b x) = has_fallback b"
  "base_type (base_receiver.extend b x) = base_type b"
  by (simp_all add: base_receiver.extend_def)

lemma new_http_receiver_ok:
  assumes "new_http_receiver nenv tenv base cfg = Inr r"
  shows "rcv_format r \<in> set valid_formats \<and> send_to r = send_to base \<and> has_fallback r = has_fallback base
    \<and> 0 < rcv_max_body_size r \<and> rcv_max_body_size r \<le> max_byte_size \<and> 0 \<le> rcv_timeout r
    \<and> (base_type r = type_http3 \<longrightarrow> rcv_tls r \<noteq> None)"
proof -
  obtain timeout fmt where c: "parse_timeout cfg = Some timeout" "parse_format cfg = Inr fmt"
    "rcv_format r = fmt" "rcv_timeout r = timeout" "send_to r = send_to base" "has_fallback r = has_fallback base"
    "rcv_max_body_size r = parse_byte_size cfg ''max_body_size'' default_max_body_size"
    "base_type r = type_http3 \<longrightarrow> rcv_tls r \<noteq> None"
    using assms
    by (auto simp: new_http_receiver_def bind_sum_Inr map_error_Inr base_receiver.extend_def
        http_receiver.fields_def split: option.splits if_splits)
  have "0 \<le> timeout" using c(1) by (auto simp: parse_timeout_def split: option.splits)
  with c parse_format_valid [OF c(2)] parse_byte_size_range [of default_max_body_size cfg "''max_body_size''"]
  show ?thesis by (auto simp: default_max_body_size_def max_byte_size_def)
qed

lemma start_receiver_good:
  "rcv_format r \<in> set valid_formats \<Longrightarrow> send_to r \<noteq> None \<Longrightarrow>
     receiver_good r start_receiver \<and> quiet_close start_receiver \<and> receiver_held start_receiver = {#}"
  by (simp add: receiver_good_def quiet_close_def receiver_held_def start_receiver_def receiver_life_ok_def
      lc_start_def is_started_def lifecycle_zero_def is_closing_def)

section \<open>Properties\<close>

text \<open>C7: A receiver answers truthfully. In every run, every request is being served, was turned away
  - which only happens once a shutdown has begun - or was served exactly once. The status of
  a request that was served says what became of it: 413 if it exceeds the maximum size, 400
  if it could not be read, and then nothing is sent; 202 if it was passed on, as it is or as
  its body in the configured format; and 422 if its body is not in that format, and then the
  whole request went to the dead-letter queue (or was discarded). The client sees this
  status, or 503 if the handler took too long. If the shutdown was not forced, no handler
  is at work any more when it is over.\<close>

theorem receiver_exact:
  assumes "new_http_receiver nenv tenv base cfg = Inr r" and "send_to base \<noteq> None"
  shows "\<exists>s. run_events (receiver_step r) es (start_receiver :: 'c receiver_run) = Some s
    \<and> mset (serving s) + mset (turned_away s) + mset (map fst (served s)) = (\<Sum>e\<leftarrow>es. arrivals e)
    \<and> (is_closing (rcv_state s) \<or> turned_away s = [])
    \<and> (\<forall>x \<in> set (served s). served_ok r x)
    \<and> (closed (rcv_state s) = ClosedChan \<and> RcvFinishClose True \<notin> set es \<longrightarrow> serving s = [])"
proof -
  let ?s0 = "start_receiver :: 'c receiver_run"
  note new = new_http_receiver_ok [OF assms(1)]
  have start: "receiver_good r ?s0 \<and> quiet_close ?s0 \<and> receiver_held ?s0 = {#}"
    using start_receiver_good [of r] new assms(2) by auto
  then obtain s where s: "run_events (receiver_step r) es ?s0 = Some s" "receiver_good r s"
    "receiver_held s = (\<Sum>e\<leftarrow>es. arrivals e)"
    using http_receiving.run_conserves [of r ?s0 es] by (auto simp: list_all_iff)
  moreover have "serving s = []" if "closed (rcv_state s) = ClosedChan" "RcvFinishClose True \<notin> set es"
    using quiet_receiving.run_preserves [of r ?s0 es s] start that s(1)
    by (auto simp: list_all_iff quiet_close_def)
  ultimately show ?thesis
    by (intro exI [of _ s]) (auto simp: receiver_good_def receiver_held_def list_all_iff simp del: served_ok.simps)
qed


section \<open>Witness\<close>

definition demo_net :: net_env where
  "demo_net = \<lparr>resolve_tcp = (\<lambda>a. Some a), resolve_udp = (\<lambda>a. None)\<rparr>"

definition demo_receiver_base :: base_receiver where
  "demo_receiver_base = \<lparr>base_type = ''http'', base_name = ''receiver'', destination = ''stdout'',
     send_to = Some ''stdout'', has_fallback = True\<rparr>"

definition demo_receiver_config :: table where
  "demo_receiver_config = [(''address'', TString ''a''), (''timeout'', TString ''0''), (''format'', TString ''json''),
     (''max_body_size'', TInt 3)]"

lemma demo_receiver: "\<exists>r. new_http_receiver demo_net demo_tls_env demo_receiver_base demo_receiver_config = Inr r"
proof -
  have "to_lower (trim_space ''json'') = ''json''" by code_simp
  then have "parse_format demo_receiver_config = Inr format_json"
    by (simp add: parse_format_def cfg_value_def format_defs demo_receiver_config_def)
  moreover have "parse_timeout demo_receiver_config = Some 0"
    by (simp add: parse_timeout_def demo_receiver_config_def cfg_value_def parse_duration_def)
  moreover have "map_of demo_receiver_config ''tls'' = None" "cfg_value as_string demo_receiver_config ''address'' [] = ''a''"
    by (simp_all add: demo_receiver_config_def cfg_value_def)
  ultimately show ?thesis
    by (simp add: new_http_receiver_def parse_address_def demo_net_def demo_receiver_base_def type_http_def
        type_http3_def load_server_tls_config_def)
qed

definition demo_in_request :: "bytes \<Rightarrow> in_request" where
  "demo_in_request body = \<lparr>in_query = [], in_header = [], in_length = -1, in_data = body, in_fails = False\<rparr>"

definition demo_receiver_events :: "receiver_event list" where
  "demo_receiver_events = [RcvArrives (demo_in_request ''{}''), RcvArrives (demo_in_request ''1234''), RcvServes False 1,
     RcvBeginClose, RcvArrives (demo_in_request []), RcvServes False 0, RcvFinishClose False]"

theorem receiver_exact_witness:
  "\<exists>r s. new_http_receiver demo_net demo_tls_env demo_receiver_base demo_receiver_config = Inr r
     \<and> run_events (receiver_step r) demo_receiver_events start_receiver = Some (s :: nat receiver_run)
     \<and> mset (serving s) + mset (turned_away s) + mset (map fst (served s))
       = {#demo_in_request ''{}'', demo_in_request ''1234'', demo_in_request []#}"
proof -
  obtain r where r: "new_http_receiver demo_net demo_tls_env demo_receiver_base demo_receiver_config = Inr r"
    using demo_receiver by blast
  have "send_to demo_receiver_base \<noteq> None" by (simp add: demo_receiver_base_def)
  from receiver_exact [OF r this, of demo_receiver_events, where 'c = nat]
  obtain s where "run_events (receiver_step r) demo_receiver_events start_receiver = Some (s :: nat receiver_run)"
    and "mset (serving s) + mset (turned_away s) + mset (map fst (served s))
      = (\<Sum>e\<leftarrow>demo_receiver_events. arrivals e)" by (elim exE conjE)
  with r show ?thesis by (intro exI conjI) (assumption, assumption, simp add: demo_receiver_events_def)
qed

end
