(* ===== verification/SqlCollector.thy ===== *)
theory SqlCollector
  imports Scheduling HttpSender
begin

text \<open>
  The SQL collector (pkg/sql/collector.go and pkg/sql/postgres.go): its settings, the
  processing of the results of a query, and the whole collector, which is the scheduler of
  theory Scheduling with queries as its workers, and one batcher that they share.

  Databases, their drivers and the contexts of queries are the environment: what a query
  meets is an input of the event in which it starts.
\<close>

section \<open>Settings\<close>

definition driver_cockroach :: string where "driver_cockroach = ''cockroachdb''"
definition driver_mariadb :: string where "driver_mariadb = ''mariadb''"
definition driver_mssql :: string where "driver_mssql = ''mssql''"
definition driver_mysql :: string where "driver_mysql = ''mysql''"
definition driver_odbc :: string where "driver_odbc = ''odbc''"
definition driver_oracle :: string where "driver_oracle = ''oracle''"
definition driver_postgres :: string where "driver_postgres = ''postgres''"
definition driver_postgresql :: string where "driver_postgresql = ''postgresql''"
definition driver_hana :: string where "driver_hana = ''sap_hana''"
definition driver_snowflake :: string where "driver_snowflake = ''snowflake''"
definition driver_sqlite :: string where "driver_sqlite = ''sqlite''"
definition driver_sqlserver :: string where "driver_sqlserver = ''sqlserver''"

definition valid_driver_types :: "string list" where
  "valid_driver_types = [driver_cockroach, driver_mariadb, driver_mssql, driver_mysql, driver_odbc, driver_oracle,
     driver_postgres, driver_postgresql, driver_hana, driver_snowflake, driver_sqlite, driver_sqlserver]"

text \<open>What Start opens: a pool of pgx, a special connection, or a driver of database/sql.\<close>

datatype connection = PostgresPool | OdbcDb | OracleDb | SqlDb string

definition open_connection :: "string \<Rightarrow> connection" where
  "open_connection d =
     (if d = driver_cockroach \<or> d = driver_postgres \<or> d = driver_postgresql then PostgresPool
      else if d = driver_mariadb then SqlDb driver_mysql
      else if d = driver_mssql then SqlDb driver_sqlserver
      else if d = driver_odbc then OdbcDb
      else if d = driver_oracle then OracleDb
      else if d = driver_hana then SqlDb ''hdb''
      else SqlDb d)"

definition default_query_timeout :: duration where "default_query_timeout = minute"

definition sql_batch_limits :: limits where
  "sql_batch_limits = \<lparr>max_items = 500, max_bytes = 0, batch_window = second\<rparr>"

definition sender_type_discard :: string where "sender_type_discard = ''discard''"
definition sender_type_none :: string where "sender_type_none = ''none''"

datatype sql_error =
  UnrecognizedDriver string
| NoConnection
| NoQuery
| TwoQueries
| QueryUnreadable string
| QueryFileEmpty string
| SqlTimeout
| SqlFormat format_error
| SqlBatchLimits config_error
| SqlBatching batcher_error

definition load_query :: "(string \<Rightarrow> string option) \<Rightarrow> table \<Rightarrow> sql_error + string" where
  "load_query file cfg =
     (let query = trim_space (cfg_value as_string cfg ''query'' []);
          path = trim_space (cfg_value as_string cfg ''query_file'' [])
      in if query = [] \<and> path = [] then Inl NoQuery
         else if query \<noteq> [] \<and> path \<noteq> [] then Inl TwoQueries
         else if query \<noteq> [] \<and> path = [] then Inr query
         else (case file path of
                 None \<Rightarrow> Inl (QueryUnreadable path)
               | Some text \<Rightarrow>
                   (let q = trim_space text in if q = [] then Inl (QueryFileEmpty path) else Inr q)))"

record 'v sql_collector = base_collector +
  driver :: string
  conn :: string
  query :: string
  sql_timeout :: duration
  sql_format :: format
  sql_batch :: "'v row batcher"

definition parse_query_timeout :: "table \<Rightarrow> duration option" where
  "parse_query_timeout cfg =
     parse_duration (cfg_value as_string cfg ''timeout'' (duration_string default_query_timeout))"

definition no_limits :: limits where
  "no_limits = \<lparr>max_items = 0, max_bytes = 0, batch_window = 0\<rparr>"

definition new_sql_collector ::
  "(string \<Rightarrow> string option) \<Rightarrow> base_collector \<Rightarrow> table \<Rightarrow> sql_error + 'v sql_collector" where
  "new_sql_collector file base cfg =
     (let drv = to_lower (trim_space (cfg_value as_string cfg ''type'' []));
          cn = cfg_value as_string cfg ''connection'' []
      in if drv \<notin> set valid_driver_types then Inl (UnrecognizedDriver drv)
         else if cn = [] then Inl NoConnection
         else
           bind_sum (load_query file cfg) (\<lambda>q.
           case parse_query_timeout cfg of None \<Rightarrow> Inl SqlTimeout | Some timeout \<Rightarrow>
           bind_sum (map_error SqlFormat (parse_structured_format cfg)) (\<lambda>fmt.
           bind_sum (map_error SqlBatchLimits (batch_limits (map_of cfg ''batch'') sql_batch_limits)) (\<lambda>l.
           bind_sum (map_error SqlBatching
             (new_batcher (if destination base = sender_type_discard \<or> destination base = sender_type_none
                           then no_limits else l) True (Some \<lparr>opt_size_of = None, opt_guard = True\<rparr>))) (\<lambda>b.
           Inr (base_collector.extend base (sql_collector.fields drv cn q timeout
                  (if fmt = format_default then format_ndjson else fmt) b)))))))"

section \<open>Results of a query\<close>

text \<open>
  A row as its scan delivers it, and whether the query's context is cancelled by then. A
  result set has its columns, or an error instead, and rows until it ends, maybe with an
  error; \<open>set_cancelled\<close> is the context when the loop comes to it. The cursor has one result
  set or more, the context and the last error at the end.
\<close>

record 'v scanned =
  scan_vals :: "'v list option"
  scan_cancelled :: bool

record 'v result_set =
  set_cancelled :: bool
  set_columns :: "string list option"
  set_rows :: "'v scanned list"
  set_fails :: bool

record 'v cursor =
  first_set :: "'v result_set"
  more_sets :: "'v result_set list"
  end_cancelled :: bool
  end_fails :: bool

datatype process_error = ColumnsError | ScanError | ProcessCancelled | IterationError

text \<open>The rows that are added to the batcher, in their order, and the error that ended the loop.\<close>

fun scan_rows :: "string list \<Rightarrow> 'v scanned list \<Rightarrow> 'v row list \<times> process_error option" where
  "scan_rows cols [] = ([], None)"
| "scan_rows cols (r # rs) =
     (case scan_vals r of
        None \<Rightarrow> ([], Some ScanError)
      | Some vals \<Rightarrow>
          (if scan_cancelled r then ([], Some ProcessCancelled)
           else let (rows, e) = scan_rows cols rs in (\<lparr>row_cols = cols, row_vals = vals\<rparr> # rows, e)))"

fun process_sets :: "'v result_set list \<Rightarrow> 'v row list \<times> process_error option" where
  "process_sets [] = ([], None)"
| "process_sets (rs # rest) =
     (if set_cancelled rs then ([], None)
      else (case set_columns rs of
              None \<Rightarrow> ([], Some ColumnsError)
            | Some cols \<Rightarrow>
                (case scan_rows cols (set_rows rs) of
                   (rows, Some e) \<Rightarrow> (rows, Some e)
                 | (rows, None) \<Rightarrow>
                     (if set_fails rs then (rows, Some IterationError)
                      else let (more, e) = process_sets rest in (rows @ more, e)))))"

definition process_results :: "'v cursor \<Rightarrow> 'v row list \<times> process_error option" where
  "process_results c =
     (case process_sets (first_set c # more_sets c) of
        (rows, Some e) \<Rightarrow> (rows, Some e)
      | (rows, None) \<Rightarrow>
          (rows, if end_cancelled c then Some ProcessCancelled
                 else if end_fails c then Some IterationError else None))"

text \<open>The variant for PostgreSQL has one result set, whose columns cannot fail, and pgx.ForEachRow.\<close>

record 'v pg_rows =
  pg_columns :: "string list"
  pg_scans :: "'v scanned list"
  pg_fails :: bool

definition process_postgres_results :: "'v pg_rows \<Rightarrow> 'v row list \<times> process_error option" where
  "process_postgres_results r =
     (case scan_rows (pg_columns r) (pg_scans r) of
        (rows, Some e) \<Rightarrow> (rows, Some e)
      | (rows, None) \<Rightarrow> (rows, if pg_fails r then Some IterationError else None))"


section \<open>Queries\<close>

text \<open>
  What a query meets: its transaction, the time at which it starts, its results - from
  database/sql or from pgx - and then the time, and whether the rows close and the
  transaction commits.
\<close>

record 'v query_env =
  begins :: bool
  query_start :: instant
  query_runs :: bool
  query_results :: "'v cursor + 'v pg_rows"
  query_end :: instant
  rows_close :: bool
  commits :: bool

definition query_rows :: "'v query_env \<Rightarrow> 'v row list \<times> process_error option" where
  "query_rows e = (case query_results e of Inl c \<Rightarrow> process_results c | Inr r \<Rightarrow> process_postgres_results r)"

text \<open>What became of the transaction; a failed commit may or may not have taken effect.\<close>

datatype transaction = NoTransaction | RolledBack | Committed | CommitFails

definition end_transaction :: "'v query_env \<Rightarrow> transaction" where
  "end_transaction e =
     (if snd (query_rows e) \<noteq> None then RolledBack
      else if commits e then Committed else CommitFails)"

text \<open>
  The result of executeQuery and of executePostgresQuery. With database/sql, an error when
  the rows are closed is a failure too, although the commit is still tried.
\<close>

definition query_ok :: "'v query_env \<Rightarrow> bool" where
  "query_ok e \<longleftrightarrow>
     snd (query_rows e) = None \<and> commits e
     \<and> (case query_results e of Inl c \<Rightarrow> rows_close e | Inr r \<Rightarrow> True)"

section \<open>The running collector\<close>

text \<open>
  A query that is at work is new, or it has rows left to add, or it has flushed the batcher. A
  goroutine that takes batches from the batcher, under its lock, dispatches them afterwards,
  without it, so that others may go on in between: such batches are in the hands of a query -
  the last component of its state - or of a timer, \<open>timed\<close>. The rows that were ever added
  to the batcher, and the batches that were dispatched to the destination, are records of what
  happened, and so are the queries that have ended: their scheduled moments, what they met,
  and their transactions. The checkpoint is state of the collector.
\<close>

datatype 'v query_state =
  Fresh
| Adding "'v query_env" "'v row list" "'v row list list"
| Flushed "'v query_env" "'v row list list"

record 'v sql_run = scheduler +
  querying :: "'v query_state list"
  batch :: "'v row batcher"
  timed :: "'v row list list"
  added :: "'v row list"
  dispatched :: "'v row list list"
  finished :: "(instant \<times> 'v query_env \<times> transaction) list"
  prev_start :: instant
  prev_end :: instant

datatype 'v sql_event =
  SqlSched sched_event
| SqlBegin "'v query_env" nat
| SqlAdd nat
| SqlFlush nat
| SqlDispatch nat
| SqlFinish nat
| SqlTimer "64 word"
| SqlTimerDispatch nat

text \<open>The flush of Close, which dispatches under the lock that timers need.\<close>

definition batch_result :: "'v row batcher \<times> 'v row list list \<Rightarrow> 'v sql_run \<Rightarrow> 'v sql_run" where
  "batch_result r s = s\<lparr>batch := fst r, dispatched := dispatched s @ snd r\<rparr>"

definition query_done :: "nat \<Rightarrow> 'v query_env \<Rightarrow> transaction \<Rightarrow> 'v sql_run \<Rightarrow> 'v sql_run" where
  "query_done i e t s =
     end_worker i (s\<lparr>querying := drop_nth i (querying s), finished := finished s @ [(active s ! i, e, t)]\<rparr>)"

text \<open>A query begins; it ends at once if its transaction or the query itself cannot.\<close>

definition query_begins :: "'v query_env \<Rightarrow> nat \<Rightarrow> 'v sql_run \<Rightarrow> 'v sql_run" where
  "query_begins e i s =
     (if i < length (querying s) \<and> querying s ! i = Fresh
      then (if \<not> begins e then query_done i e NoTransaction s
            else if \<not> query_runs e then query_done i e RolledBack s
            else s\<lparr>querying := (querying s)[i := Adding e (fst (query_rows e)) []]\<rparr>)
      else s)"

text \<open>A query adds its next row when it has dispatched what the row before made ready.\<close>

definition query_adds :: "nat \<Rightarrow> 'v sql_run \<Rightarrow> 'v sql_run" where
  "query_adds i s =
     (if i < length (querying s)
      then (case querying s ! i of
              Adding e (r # rs) [] \<Rightarrow>
                (let (b, out) = add_item (batch s) r
                 in s\<lparr>batch := b, querying := (querying s)[i := Adding e rs out], added := added s @ [r]\<rparr>)
            | _ \<Rightarrow> s)
      else s)"

definition query_flushes :: "nat \<Rightarrow> 'v sql_run \<Rightarrow> 'v sql_run" where
  "query_flushes i s =
     (if i < length (querying s)
      then (case querying s ! i of
              Adding e [] [] \<Rightarrow>
                (let (b, out) = flush (batch s) in s\<lparr>batch := b, querying := (querying s)[i := Flushed e out]\<rparr>)
            | _ \<Rightarrow> s)
      else s)"

definition query_dispatches :: "nat \<Rightarrow> 'v sql_run \<Rightarrow> 'v sql_run" where
  "query_dispatches i s =
     (if i < length (querying s)
      then (case querying s ! i of
              Adding e rs (x # out) \<Rightarrow>
                s\<lparr>querying := (querying s)[i := Adding e rs out], dispatched := dispatched s @ [x]\<rparr>
            | Flushed e (x # out) \<Rightarrow>
                s\<lparr>querying := (querying s)[i := Flushed e out], dispatched := dispatched s @ [x]\<rparr>
            | _ \<Rightarrow> s)
      else s)"

text \<open>The checkpoint moves to a query that succeeded at least in part, if it started later.\<close>

definition checkpoint :: "'v query_env \<Rightarrow> 'v sql_run \<Rightarrow> 'v sql_run" where
  "checkpoint e s =
     (if (query_ok e \<or> fst (query_rows e) \<noteq> []) \<and> query_start e > prev_start s
      then s\<lparr>prev_start := query_start e, prev_end := query_end e\<rparr> else s)"

definition query_finishes :: "nat \<Rightarrow> 'v sql_run \<Rightarrow> 'v sql_run" where
  "query_finishes i s =
     (if i < length (querying s)
      then (case querying s ! i of
              Flushed e [] \<Rightarrow> query_done i e (end_transaction e) (checkpoint e s)
            | _ \<Rightarrow> s)
      else s)"

text \<open>
  A timed dispatch: the guard of the collector always runs its argument, within a read lock
  that lasts until the batch is dispatched, and so keeps Close from its flush.
\<close>

definition sql_timer :: "64 word \<Rightarrow> 'v sql_run \<Rightarrow> 'v sql_run" where
  "sql_timer g s =
     (let (b, out) = timed_flush g True (batch s) in s\<lparr>batch := b, timed := timed s @ out\<rparr>)"

definition timer_dispatches :: "nat \<Rightarrow> 'v sql_run \<Rightarrow> 'v sql_run" where
  "timer_dispatches k s =
     (if k < length (timed s)
      then s\<lparr>timed := drop_nth k (timed s), dispatched := dispatched s @ [timed s ! k]\<rparr> else s)"

text \<open>
  The scheduler's events: a worker that starts is a new query, and the last stage of Close
  gets the lock that timed dispatches hold, flushes the batcher, and closes the Done channel.
\<close>

definition add_queries :: "'v sql_run \<Rightarrow> 'v sql_run" where
  "add_queries s = s\<lparr>querying := querying s @ replicate (length (active s) - length (querying s)) Fresh\<rparr>"

definition sql_close_finishes :: "bool \<Rightarrow> 'v sql_run \<Rightarrow> 'v sql_run option" where
  "sql_close_finishes timed_out s =
     (if stage s \<noteq> Aborting \<or> (\<not> timed_out \<and> in_progress (sched_state s) \<noteq> 0) \<or> timed s \<noteq> [] then Some s
      else close_finishes timed_out (batch_result (flush (batch s)) s))"

fun sql_step :: "'v sql_event \<Rightarrow> 'v sql_run \<Rightarrow> 'v sql_run option" where
  "sql_step (SqlSched e) s =
     (case e of
        EvEnd i \<Rightarrow> Some s
      | EvCloseFinishes timed_out \<Rightarrow> sql_close_finishes timed_out s
      | _ \<Rightarrow> map_option add_queries (sched_step e s))"
| "sql_step (SqlBegin e i) s = Some (query_begins e i s)"
| "sql_step (SqlAdd i) s = Some (query_adds i s)"
| "sql_step (SqlFlush i) s = Some (query_flushes i s)"
| "sql_step (SqlDispatch i) s = Some (query_dispatches i s)"
| "sql_step (SqlFinish i) s = Some (query_finishes i s)"
| "sql_step (SqlTimer g) s = Some (sql_timer g s)"
| "sql_step (SqlTimerDispatch k) s = Some (timer_dispatches k s)"

definition start_sql_collector :: "'v sql_collector \<Rightarrow> instant \<Rightarrow> 'v sql_run option" where
  "start_sql_collector c now =
     (case sched c of
        None \<Rightarrow> None
      | Some p \<Rightarrow>
          Some (scheduler.extend (start_scheduler p (concurrency c) now)
            (sql_run.fields [] (sql_batch c) [] [] [] [] zero_time zero_time)))"


section \<open>The invariant\<close>

lemma sql_more:
  assumes "scheduler.more s' = scheduler.more (s :: 'v sql_run)"
  shows "querying s' = querying s \<and> batch s' = batch s \<and> timed s' = timed s \<and> added s' = added s \<and> dispatched s' = dispatched s
    \<and> finished s' = finished s \<and> prev_start s' = prev_start s \<and> prev_end s' = prev_end s"
  using assms by (cases s; cases s') simp

text \<open>The rows that a query has added, while it is at work and when it has ended.\<close>

fun rows_so_far :: "'v query_state \<Rightarrow> 'v row multiset" where
  "rows_so_far Fresh = {#}"
| "rows_so_far (Adding e rest out) = mset (fst (query_rows e)) - mset rest"
| "rows_so_far (Flushed e out) = mset (fst (query_rows e))"

text \<open>The batches that a goroutine has taken and not dispatched yet, and all rows that have left the batcher.\<close>

fun hands :: "'v query_state \<Rightarrow> 'v row list list" where
  "hands Fresh = []"
| "hands (Adding e rest out) = out"
| "hands (Flushed e out) = out"

definition in_hands :: "'v sql_run \<Rightarrow> 'v row multiset" where
  "in_hands s = (\<Sum>q\<leftarrow>querying s. mset (concat (hands q))) + mset (concat (timed s))"

definition passed :: "'v sql_run \<Rightarrow> 'v row multiset" where
  "passed s = mset (concat (dispatched s)) + in_hands s"

definition rows_of :: "instant \<times> 'v query_env \<times> transaction \<Rightarrow> 'v row list" where
  "rows_of = (\<lambda>(t, e, x). if begins e \<and> query_runs e then fst (query_rows e) else [])"

definition query_state_ok :: "'v query_state \<Rightarrow> bool" where
  "query_state_ok q \<longleftrightarrow>
     (case q of Fresh \<Rightarrow> True
      | Adding e rest out \<Rightarrow> begins e \<and> query_runs e \<and> mset rest \<subseteq># mset (fst (query_rows e))
      | Flushed e out \<Rightarrow> begins e \<and> query_runs e)"

definition rows_batched :: "'v sql_run \<Rightarrow> bool" where
  "rows_batched s \<longleftrightarrow>
     batcher_ok (batch s) \<and> mset (added s) = passed s + mset (buf (batch s))"

definition rows_origin :: "'v sql_run \<Rightarrow> bool" where
  "rows_origin s \<longleftrightarrow>
     mset (added s) = (\<Sum>q\<leftarrow>finished s. mset (rows_of q)) + (\<Sum>q\<leftarrow>querying s. rows_so_far q)"

definition rows_ok :: "'v sql_run \<Rightarrow> bool" where
  "rows_ok s \<longleftrightarrow>
     length (querying s) = length (active s) \<and> map fst (finished s) = ended s
     \<and> list_all query_state_ok (querying s) \<and> rows_batched s \<and> rows_origin s"

text \<open>
  When a query has flushed the batcher, all its rows have left it - some of them maybe in the
  hands of others - and a transaction is only committed after that.
\<close>

definition flushed_ok :: "'v sql_run \<Rightarrow> 'v query_state \<Rightarrow> bool" where
  "flushed_ok s q \<longleftrightarrow> (case q of Flushed e out \<Rightarrow> mset (fst (query_rows e)) \<subseteq># passed s | _ \<Rightarrow> True)"

definition transaction_ok :: "'v sql_run \<Rightarrow> instant \<times> 'v query_env \<times> transaction \<Rightarrow> bool" where
  "transaction_ok s = (\<lambda>(t, e, x).
     x = (if \<not> begins e then NoTransaction else if \<not> query_runs e then RolledBack else end_transaction e)
     \<and> (x \<noteq> NoTransaction \<and> x \<noteq> RolledBack \<longrightarrow> mset (fst (query_rows e)) \<subseteq># passed s))"

definition successful :: "instant \<times> 'v query_env \<times> transaction \<Rightarrow> bool" where
  "successful = (\<lambda>(t, e, x). begins e \<and> query_runs e \<and> (query_ok e \<or> fst (query_rows e) \<noteq> []))"

definition met :: "instant \<times> 'v query_env \<times> transaction \<Rightarrow> 'v query_env" where
  "met q = fst (snd q)"

definition checkpoint_ok :: "'v sql_run \<Rightarrow> bool" where
  "checkpoint_ok s \<longleftrightarrow>
     (\<forall>q \<in> set (filter successful (finished s)). query_start (met q) \<le> prev_start s)
     \<and> (prev_start s = zero_time \<and> prev_end s = zero_time
        \<or> (\<exists>q \<in> set (filter successful (finished s)).
             prev_start s = query_start (met q) \<and> prev_end s = query_end (met q)))"

definition sql_good :: "schedule \<Rightarrow> instant \<Rightarrow> 'v sql_run \<Rightarrow> bool" where
  "sql_good p t s \<longleftrightarrow>
     schedule_ok p \<and> sched_good p t s \<and> rows_ok s \<and> list_all (flushed_ok s) (querying s)
     \<and> list_all (transaction_ok s) (finished s) \<and> checkpoint_ok s"

fun sql_possible :: "'v sql_event \<Rightarrow> bool" where
  "sql_possible (SqlSched e) \<longleftrightarrow> event_possible e"
| "sql_possible _ \<longleftrightarrow> True"

subsection \<open>Steps keep it\<close>

lemma transaction_ok_mono:
  assumes "transaction_ok s x" and "passed s \<subseteq># passed s'"
  shows "transaction_ok s' x"
  using assms by (auto simp: transaction_ok_def intro: subset_mset.trans split: prod.splits)

lemma flushed_ok_mono: "flushed_ok s q \<Longrightarrow> passed s \<subseteq># passed s' \<Longrightarrow> flushed_ok s' q"
  by (auto simp: flushed_ok_def intro: subset_mset.trans split: query_state.splits)

lemma good_flushed: "sql_good p t s \<Longrightarrow> q \<in> set (querying s) \<Longrightarrow> passed s \<subseteq># passed s' \<Longrightarrow> flushed_ok s' q"
  unfolding sql_good_def list_all_iff by (blast intro: flushed_ok_mono)

lemma good_transaction:
  "sql_good p t s \<Longrightarrow> x \<in> set (finished s) \<Longrightarrow> passed s \<subseteq># passed s' \<Longrightarrow> transaction_ok s' x"
  unfolding sql_good_def list_all_iff by (blast intro: transaction_ok_mono)

text \<open>A step that only moves rows.\<close>

lemma sql_good_rows:
  assumes "sql_good p t s" and "sched_good p t s'" and "active s' = active s" and "ended s' = ended s"
    and "finished s' = finished s" and "prev_start s' = prev_start s" and "prev_end s' = prev_end s"
    and "length (querying s') = length (querying s)" and "list_all query_state_ok (querying s')"
    and "rows_batched s'" and "rows_origin s'" and "passed s \<subseteq># passed s'" and "list_all (flushed_ok s') (querying s')"
  shows "sql_good p t s'"
  using assms
  by (auto simp: sql_good_def rows_ok_def checkpoint_ok_def list_all_iff elim!: transaction_ok_mono)

lemma sum_list_update_mset:
  "i < length qs \<Longrightarrow> (\<Sum>q\<leftarrow>qs[i := x]. f q) + f (qs ! i) = (\<Sum>q\<leftarrow>qs. f q) + (f x :: 'a multiset)"
proof (induction qs arbitrary: i)
  case (Cons q qs)
  then show ?case by (cases i) (auto simp: ac_simps)
qed simp

lemma list_all_update: "list_all P xs \<Longrightarrow> P x \<Longrightarrow> list_all P (xs[i := x])"
  using set_update_subset_insert [of xs i x] by (auto simp: list_all_iff)

lemma sum_list_drop_nth:
  "i < length qs \<Longrightarrow> (\<Sum>q\<leftarrow>qs. f q) = f (qs ! i) + (\<Sum>q\<leftarrow>drop_nth i qs. (f q :: 'a multiset))"
proof (induction qs arbitrary: i)
  case (Cons q qs)
  then show ?case by (cases i) (auto simp: drop_nth_def ac_simps)
qed simp


lemma sched_good_sql [simp]:
  "sched_good p t (s\<lparr>querying := a\<rparr>) = sched_good p t (s :: 'v sql_run)"
  "sched_good p t (s\<lparr>finished := b\<rparr>) = sched_good p t (s :: 'v sql_run)"
  "sched_good p t (s\<lparr>added := c\<rparr>) = sched_good p t (s :: 'v sql_run)"
  "sched_good p t (s\<lparr>batch := d\<rparr>) = sched_good p t (s :: 'v sql_run)"
  "sched_good p t (s\<lparr>dispatched := f\<rparr>) = sched_good p t (s :: 'v sql_run)"
  "sched_good p t (s\<lparr>timed := k\<rparr>) = sched_good p t (s :: 'v sql_run)"
  "sched_good p t (s\<lparr>prev_start := g, prev_end := h\<rparr>) = sched_good p t (s :: 'v sql_run)"
  by (subst (1 2) sched_good_truncate, simp add: scheduler.truncate_def)+

lemma sched_good_batch_result [simp]: "sched_good p t (batch_result r s) = sched_good p t s"
  by (simp add: batch_result_def)

lemma sched_good_checkpoint [simp]: "sched_good p t (checkpoint e s) = sched_good p t s"
  by (simp add: checkpoint_def)

lemma batch_result_simps [simp]:
  "querying (batch_result r s) = querying s" "active (batch_result r s) = active s"
  "ended (batch_result r s) = ended s" "finished (batch_result r s) = finished s"
  "added (batch_result r s) = added s" "batch (batch_result r s) = fst r"
  "dispatched (batch_result r s) = dispatched s @ snd r" "prev_start (batch_result r s) = prev_start s"
  "prev_end (batch_result r s) = prev_end s" "stage (batch_result r s) = stage s"
  "timed (batch_result r s) = timed s"
  "sched_state (batch_result r s) = sched_state s"
  by (simp_all add: batch_result_def)

lemma checkpoint_simps [simp]:
  "querying (checkpoint e s) = querying s" "active (checkpoint e s) = active s"
  "ended (checkpoint e s) = ended s" "finished (checkpoint e s) = finished s"
  "added (checkpoint e s) = added s" "batch (checkpoint e s) = batch s"
  "dispatched (checkpoint e s) = dispatched s" "timed (checkpoint e s) = timed s" "stage (checkpoint e s) = stage s"
  "sched_state (checkpoint e s) = sched_state s"
  by (simp_all add: checkpoint_def)

lemma query_done_simps [simp]:
  assumes "i < length (active s)"
  shows "querying (query_done i e x s) = drop_nth i (querying s)" "active (query_done i e x s) = drop_nth i (active s)"
    "ended (query_done i e x s) = ended s @ [active s ! i]" "added (query_done i e x s) = added s"
    "finished (query_done i e x s) = finished s @ [(active s ! i, e, x)]" "batch (query_done i e x s) = batch s"
    "dispatched (query_done i e x s) = dispatched s" "prev_start (query_done i e x s) = prev_start s"
    "prev_end (query_done i e x s) = prev_end s" "stage (query_done i e x s) = stage s"
    "timed (query_done i e x s) = timed s"
  using assms by (simp_all add: query_done_def end_worker_def drop_nth_def)

lemma query_done_sched:
  assumes "schedule_ok p" and "sched_good p t s"
  shows "sched_good p t (query_done i e x s)"
proof -
  let ?s = "s\<lparr>querying := drop_nth i (querying s), finished := finished s @ [(active s ! i, e, x)]\<rparr>"
  from sched_good_step [OF assms(1), of t ?s "EvEnd i"] assms(2) show ?thesis by (simp add: query_done_def)
qed

lemma set_drop_nth: "x \<in> set (drop_nth i xs) \<Longrightarrow> x \<in> set xs"
  by (auto simp: drop_nth_def dest: in_set_takeD in_set_dropD)

text \<open>A query that ends leaves nothing in its hands.\<close>

lemma query_done_passed:
  assumes "i < length (querying s)" and "i < length (active s)" and "hands (querying s ! i) = []"
  shows "passed (query_done i e x s) = passed s"
  using assms(2,3) sum_list_drop_nth [OF assms(1), of "\<lambda>q. mset (concat (hands q))"]
  by (simp add: passed_def in_hands_def)

lemma query_done_rows:
  assumes "rows_ok s" and "i < length (querying s)" and "hands (querying s ! i) = []"
    and "rows_so_far (querying s ! i) = mset (rows_of (active s ! i, e, x))"
  shows "rows_ok (query_done i e x s)"
proof -
  have i: "i < length (active s)" using assms(1,2) by (simp add: rows_ok_def)
  have "length (drop_nth i (querying s)) = length (drop_nth i (active s))"
    using assms(1,2) i by (simp add: rows_ok_def drop_nth_def)
  moreover have "rows_origin (query_done i e x s)"
    using assms(1,4) i sum_list_drop_nth [OF assms(2), of rows_so_far]
    by (simp add: rows_ok_def rows_origin_def ac_simps)
  moreover have "rows_batched (query_done i e x s)"
    using assms(1) i query_done_passed [OF assms(2) i assms(3)] by (simp add: rows_ok_def rows_batched_def)
  ultimately show ?thesis
    using assms(1) drop_nth_all [of query_state_ok "querying s" i] i by (simp add: rows_ok_def)
qed

lemma query_done_ok:
  assumes "sql_good p t s" and "i < length (querying s)" and "hands (querying s ! i) = []"
    and "rows_so_far (querying s ! i) = mset (rows_of (active s ! i, e, x))"
    and "transaction_ok s (active s ! i, e, x)" and "checkpoint_ok (query_done i e x s)"
  shows "sql_good p t (query_done i e x s)"
proof -
  have rows: "rows_ok s" and i: "i < length (active s)" using assms(1,2) by (auto simp: sql_good_def rows_ok_def)
  note same = query_done_passed [OF assms(2) i assms(3), of e x]
  have "list_all (flushed_ok (query_done i e x s)) (querying (query_done i e x s))"
    using i same by (auto simp: list_all_iff intro: good_flushed [OF assms(1)] dest: set_drop_nth)
  moreover have "list_all (transaction_ok (query_done i e x s)) (finished (query_done i e x s))"
    using i same transaction_ok_mono [OF assms(5), of "query_done i e x s"]
    by (auto simp: list_all_iff intro: good_transaction [OF assms(1)])
  ultimately show ?thesis
    using assms(1,6) query_done_rows [OF rows assms(2-4)] query_done_sched [of p t s] by (simp add: sql_good_def)
qed

lemma query_begins_ok:
  assumes "sql_good p t s"
  shows "sql_good p t (query_begins e i s)"
proof (cases "i < length (querying s) \<and> querying s ! i = Fresh")
  case True
  then have i: "i < length (active s)" using assms by (simp add: sql_good_def rows_ok_def)
  show ?thesis
  proof (cases "begins e \<and> query_runs e")
    case False
    define x where "x = (if \<not> begins e then NoTransaction else RolledBack)"
    have q: "query_begins e i s = query_done i e x s" using True False by (simp add: query_begins_def x_def)
    have "\<not> successful (active s ! i, e, x)" using False by (auto simp: successful_def)
    then have "checkpoint_ok (query_done i e x s)"
      using assms i by (simp add: sql_good_def checkpoint_ok_def del: split_paired_All split_paired_Ex)
    then show ?thesis unfolding q using assms True False
      by (intro query_done_ok) (auto simp: rows_of_def transaction_ok_def x_def)
  next
    case new: True
    define s' where "s' = s\<lparr>querying := (querying s)[i := Adding e (fst (query_rows e)) []]\<rparr>"
    have "rows_origin s'"
      using assms True sum_list_update_mset [of i "querying s" rows_so_far "Adding e (fst (query_rows e)) []"]
      by (simp add: s'_def sql_good_def rows_ok_def rows_origin_def)
    moreover have "list_all query_state_ok (querying s')"
      using assms new by (auto simp: s'_def sql_good_def rows_ok_def query_state_ok_def intro: list_all_update)
    moreover have same: "passed s' = passed s"
      using True sum_list_update_mset [of i "querying s" "\<lambda>q. mset (concat (hands q))" "Adding e (fst (query_rows e)) []"]
      by (simp add: s'_def passed_def in_hands_def)
    moreover have "rows_batched s'"
      using assms same by (simp add: s'_def sql_good_def rows_ok_def rows_batched_def)
    moreover have "list_all (flushed_ok s') (querying s')"
    proof -
      have "list_all (flushed_ok s') (querying s)"
        using assms same by (auto simp: sql_good_def list_all_iff elim!: flushed_ok_mono)
      then show ?thesis by (simp add: s'_def flushed_ok_def list_all_update)
    qed
    ultimately have "sql_good p t s'"
      using assms by (intro sql_good_rows [OF assms]) (simp_all add: s'_def sql_good_def)
    then show ?thesis using True new by (simp add: query_begins_def s'_def)
  qed
qed (use assms in \<open>auto simp: query_begins_def\<close>)


lemma rows_so_far_add:
  assumes "query_state_ok (Adding e (r # rs) out)"
  shows "query_state_ok (Adding e rs out')"
    and "rows_so_far (Adding e rs out') = rows_so_far (Adding e (r # rs) out) + {#r#}"
proof -
  obtain k where k: "mset (fst (query_rows e)) = add_mset r (mset rs) + k"
    using assms by (auto simp: query_state_ok_def mset_subset_eq_exists_conv)
  then show "query_state_ok (Adding e rs out')"
    using assms by (simp add: query_state_ok_def mset_subset_eq_exists_conv)
  show "rows_so_far (Adding e rs out') = rows_so_far (Adding e (r # rs) out) + {#r#}" by (simp add: k)
qed

text \<open>One query goes on: it takes what the batcher makes ready into its hands, or dispatches it.\<close>

definition goes_on :: "nat \<Rightarrow> 'v query_state \<Rightarrow> 'v row batcher \<Rightarrow> 'v row list \<Rightarrow> 'v row list list \<Rightarrow> 'v sql_run \<Rightarrow> 'v sql_run" where
  "goes_on i q b new out s =
     s\<lparr>querying := (querying s)[i := q], batch := b, added := added s @ new, dispatched := dispatched s @ out\<rparr>"

lemma goes_on_passed:
  assumes "i < length (querying s)"
  shows "passed (goes_on i q b new out s) + mset (concat (hands (querying s ! i)))
    = passed s + mset (concat out) + mset (concat (hands q))"
  using sum_list_update_mset [OF assms, of "\<lambda>q. mset (concat (hands q))" q]
  by (simp add: goes_on_def passed_def in_hands_def ac_simps)

lemma goes_on_ok:
  assumes "sql_good p t s" and "i < length (querying s)" and "batcher_ok b"
    and "mset (concat out) + mset (concat (hands q)) + mset (buf b)
      = mset (concat (hands (querying s ! i))) + mset (buf (batch s)) + mset new"
    and "query_state_ok q" and "rows_so_far q = rows_so_far (querying s ! i) + mset new"
    and "passed s \<subseteq># passed (goes_on i q b new out s)" and "flushed_ok (goes_on i q b new out s) q"
  shows "sql_good p t (goes_on i q b new out s)"
proof (rule sql_good_rows [OF assms(1) _ _ _ _ _ _ _ _ _ _ assms(7)])
  let ?s = "goes_on i q b new out s"
  have rows: "rows_ok s" "sched_good p t s" "list_all (flushed_ok s) (querying s)"
    using assms(1) by (simp_all add: sql_good_def)
  then show "sched_good p t ?s" by (simp add: goes_on_def)
  show "list_all query_state_ok (querying ?s)"
    using rows(1) assms(5) by (simp add: goes_on_def rows_ok_def list_all_update)
  have "mset (added ?s) = passed s + mset (buf (batch s)) + mset new"
    using rows(1) by (simp add: goes_on_def rows_ok_def rows_batched_def)
  also have "\<dots> = passed ?s + mset (buf b)"
  proof -
    have "passed ?s + mset (buf b) + mset (concat (hands (querying s ! i)))
        = passed s + (mset (concat out) + mset (concat (hands q)) + mset (buf b))"
      using goes_on_passed [OF assms(2), of q b new out] by (simp add: ac_simps)
    then have "passed ?s + mset (buf b) + mset (concat (hands (querying s ! i)))
        = (passed s + mset (buf (batch s)) + mset new) + mset (concat (hands (querying s ! i)))"
      unfolding assms(4) by (simp add: ac_simps)
    then show ?thesis by simp
  qed
  finally show "rows_batched ?s" using assms(3) by (simp add: rows_batched_def goes_on_def)
  show "rows_origin ?s"
    using rows(1) sum_list_update_mset [OF assms(2), of rows_so_far q] assms(6)
    by (simp add: goes_on_def rows_ok_def rows_origin_def ac_simps)
  show "list_all (flushed_ok ?s) (querying ?s)"
  proof -
    have "list_all (flushed_ok ?s) (querying s)"
      using rows(3) assms(7) by (auto simp: list_all_iff elim!: flushed_ok_mono)
    then show ?thesis using assms(8) by (simp add: goes_on_def list_all_update)
  qed
qed (simp_all add: goes_on_def)

lemma query_adds_ok:
  assumes "sql_good p t s"
  shows "sql_good p t (query_adds i s)"
proof (cases "i < length (querying s) \<and> (\<exists>e r rs. querying s ! i = Adding e (r # rs) [])")
  case True
  then obtain e r rs where i: "i < length (querying s)" and q: "querying s ! i = Adding e (r # rs) []" by blast
  obtain b out where add: "add_item (batch s) r = (b, out)" by fastforce
  have s': "query_adds i s = goes_on i (Adding e rs out) b [r] [] s"
    using i q add by (simp add: query_adds_def goes_on_def)
  have ok: "query_state_ok (Adding e (r # rs) [])"
    using assms i q by (auto simp: sql_good_def rows_ok_def list_all_length)
  have "concat out @ buf b = buf (batch s) @ [r] \<and> batcher_ok b"
    using add_chunk_step [of "batch s" "[r]" b out] add assms
    by (simp add: add_item_as_chunk sql_good_def rows_ok_def rows_batched_def)
  then have m: "mset (concat out) + mset (buf b) = mset (buf (batch s)) + {#r#}" "batcher_ok b"
    by (metis mset_append mset.simps, simp)
  have "passed (query_adds i s) = passed s + mset (concat out)"
    using goes_on_passed [OF i, of "Adding e rs out" b "[r]" "[]"] q by (simp add: s')
  then show ?thesis unfolding s'
    using m rows_so_far_add [OF ok] q by (intro goes_on_ok [OF assms i]) (simp_all add: flushed_ok_def del: rows_so_far.simps)
qed (use assms in \<open>auto simp: query_adds_def split: query_state.splits list.splits\<close>)

lemma query_dispatches_ok:
  assumes "sql_good p t s"
  shows "sql_good p t (query_dispatches i s)"
proof (cases "i < length (querying s) \<and> hands (querying s ! i) \<noteq> []")
  case True
  then have i: "i < length (querying s)" by simp
  have ok: "query_state_ok (querying s ! i)" "flushed_ok s (querying s ! i)" "batcher_ok (batch s)"
    using assms i by (auto simp: sql_good_def rows_ok_def rows_batched_def list_all_length)
  have pass: "passed (goes_on i q (batch s) [] [x] s) = passed s" if "hands (querying s ! i) = x # hands q" for q x
    using goes_on_passed [OF i, of q "batch s" "[]" "[x]"] that by (simp add: ac_simps)
  have step: "sql_good p t (goes_on i q (batch s) [] [x] s)" if "hands (querying s ! i) = x # hands q"
    "query_state_ok q" "rows_so_far q = rows_so_far (querying s ! i)" "flushed_ok (goes_on i q (batch s) [] [x] s) q" for q x
    using that ok pass [OF that(1)] by (intro goes_on_ok [OF assms i]) simp_all
  from True consider e rs x out where "querying s ! i = Adding e rs (x # out)" | e x out where "querying s ! i = Flushed e (x # out)"
    by (cases "querying s ! i" rule: hands.cases; cases "hands (querying s ! i)") auto
  then show ?thesis
  proof cases
    case (1 e rs x out)
    then have "query_dispatches i s = goes_on i (Adding e rs out) (batch s) [] [x] s"
      using i by (simp add: query_dispatches_def goes_on_def)
    with 1 ok step [of x "Adding e rs out"] show ?thesis by (simp add: query_state_ok_def flushed_ok_def)
  next
    case (2 e x out)
    then have "query_dispatches i s = goes_on i (Flushed e out) (batch s) [] [x] s"
      using i by (simp add: query_dispatches_def goes_on_def)
    with 2 ok step [of x "Flushed e out"] pass [of x "Flushed e out"] show ?thesis
      by (simp add: query_state_ok_def flushed_ok_def)
  qed
qed (use assms in \<open>auto simp: query_dispatches_def split: query_state.splits list.splits\<close>)

lemma sum_list_member: "x \<in> set xs \<Longrightarrow> f x \<subseteq># (\<Sum>q\<leftarrow>xs. (f q :: 'a multiset))"
  by (induction xs) (auto intro: subset_mset.add_increasing subset_mset.add_increasing2)

lemma query_flushes_ok:
  assumes "sql_good p t s"
  shows "sql_good p t (query_flushes i s)"
proof (cases "i < length (querying s) \<and> (\<exists>e. querying s ! i = Adding e [] [])")
  case True
  then obtain e where i: "i < length (querying s)" and q: "querying s ! i = Adding e [] []" by blast
  obtain b out where f: "flush (batch s) = (b, out)" by fastforce
  have s': "query_flushes i s = goes_on i (Flushed e out) b [] [] s"
    using i q f by (simp add: query_flushes_def goes_on_def)
  have rows: "rows_batched s" "rows_origin s" using assms by (simp_all add: sql_good_def rows_ok_def)
  have ok: "query_state_ok (Adding e [] [])" using assms i q by (auto simp: sql_good_def rows_ok_def list_all_length)
  from flush_step [OF f] rows have c: "concat out @ buf b = buf (batch s)" "buf b = []" "batcher_ok b"
    by (simp_all add: rows_batched_def)
  then have out: "mset (concat out) = mset (buf (batch s))" by simp
  have p: "passed (goes_on i (Flushed e out) b [] [] s) = passed s + mset (concat out)"
    using goes_on_passed [OF i, of "Flushed e out" b "[]" "[]"] q by simp
  have "rows_so_far (Adding e [] []) \<subseteq># (\<Sum>q\<leftarrow>querying s. rows_so_far q)"
    using q i sum_list_member [of "Adding e [] []" "querying s" rows_so_far] by (metis nth_mem)
  then have "mset (fst (query_rows e)) \<subseteq># mset (added s)"
    using rows(2) by (auto simp: rows_origin_def intro: subset_mset.add_increasing)
  then have "flushed_ok (goes_on i (Flushed e out) b [] [] s) (Flushed e out)"
    using rows(1) out by (simp add: flushed_ok_def p rows_batched_def)
  then show ?thesis unfolding s'
    using c out p q ok by (intro goes_on_ok [OF assms i]) (simp_all add: query_state_ok_def)
qed (use assms in \<open>auto simp: query_flushes_def split: query_state.splits list.splits\<close>)

lemma sql_timer_ok:
  assumes "sql_good p t s"
  shows "sql_good p t (sql_timer g s)"
proof -
  obtain b out where f: "timed_flush g True (batch s) = (b, out)" by fastforce
  have s': "sql_timer g s = s\<lparr>batch := b, timed := timed s @ out\<rparr>" by (simp add: sql_timer_def f)
  have rows: "rows_ok s" "rows_batched s" using assms by (simp_all add: sql_good_def rows_ok_def)
  from timed_flush_step [OF f] rows have c: "concat out @ buf b = buf (batch s)" "batcher_ok b"
    by (simp_all add: rows_batched_def)
  then have out: "mset (concat out) + mset (buf b) = mset (buf (batch s))" by (metis mset_append)
  have p: "passed (sql_timer g s) = passed s + mset (concat out)" by (simp add: s' passed_def in_hands_def ac_simps)
  show ?thesis
  proof (rule sql_good_rows [OF assms])
    show "rows_batched (sql_timer g s)" using rows(2) c(2) out by (simp add: rows_batched_def p) (simp add: s' ac_simps)
    show "list_all (flushed_ok (sql_timer g s)) (querying (sql_timer g s))"
      using assms p by (auto simp: sql_good_def s' list_all_iff elim!: flushed_ok_mono)
  qed (use assms rows(1) in \<open>simp_all add: p, simp_all add: s' sql_good_def rows_ok_def rows_origin_def\<close>)
qed

lemma timer_dispatches_ok:
  assumes "sql_good p t s"
  shows "sql_good p t (timer_dispatches k s)"
proof (cases "k < length (timed s)")
  case True
  have s': "timer_dispatches k s = s\<lparr>timed := drop_nth k (timed s), dispatched := dispatched s @ [timed s ! k]\<rparr>"
    using True by (simp add: timer_dispatches_def)
  have "mset (concat (timed s)) = mset (timed s ! k) + mset (concat (drop_nth k (timed s)))"
    using sum_list_drop_nth [OF True, of mset] by (simp add: mset_concat)
  then have p: "passed (timer_dispatches k s) = passed s" by (simp add: s' passed_def in_hands_def ac_simps)
  have rows: "rows_ok s" "rows_batched s" using assms by (simp_all add: sql_good_def rows_ok_def)
  show ?thesis
  proof (rule sql_good_rows [OF assms])
    show "rows_batched (timer_dispatches k s)" using rows(2) by (simp add: rows_batched_def p) (simp add: s')
    show "list_all (flushed_ok (timer_dispatches k s)) (querying (timer_dispatches k s))"
      using assms p by (auto simp: sql_good_def s' list_all_iff elim!: flushed_ok_mono)
  qed (use assms rows(1) in \<open>simp_all add: p, simp_all add: s' sql_good_def rows_ok_def rows_origin_def\<close>)
qed (use assms in \<open>simp add: timer_dispatches_def\<close>)

text \<open>The flush of Close.\<close>

lemma flush_rows:
  assumes "rows_batched s"
  shows "rows_batched (batch_result (flush (batch s)) s)" and "buf (fst (flush (batch s))) = []"
    and "passed s \<subseteq># passed (batch_result (flush (batch s)) s)"
proof -
  obtain b out where f: "flush (batch s) = (b, out)" by fastforce
  from flush_step [OF f] assms have "concat out @ buf b = buf (batch s)" "buf b = []" "batcher_ok b"
    by (simp_all add: rows_batched_def)
  moreover from this have "mset (concat out) + mset (buf b) = mset (buf (batch s))" by (metis mset_append)
  moreover have p: "passed (batch_result (b, out) s) = passed s + mset (concat out)"
    by (simp add: passed_def in_hands_def ac_simps)
  ultimately show "rows_batched (batch_result (flush (batch s)) s)" and "buf (fst (flush (batch s))) = []"
    and "passed s \<subseteq># passed (batch_result (flush (batch s)) s)"
    using assms f by (simp_all add: rows_batched_def ac_simps)
qed

lemma sql_good_close_flush:
  assumes "sql_good p t s"
  shows "sql_good p t (batch_result (flush (batch s)) s)"
proof -
  have rows: "rows_ok s" "rows_batched s" using assms by (simp_all add: sql_good_def rows_ok_def)
  note f = flush_rows [OF rows(2)]
  show ?thesis
  proof (rule sql_good_rows [OF assms])
    show "list_all (flushed_ok (batch_result (flush (batch s)) s)) (querying (batch_result (flush (batch s)) s))"
      using assms f(3) by (auto simp: sql_good_def list_all_iff elim!: flushed_ok_mono)
  qed (use assms rows(1) f in \<open>simp_all add: sql_good_def rows_ok_def rows_origin_def\<close>)
qed

lemma passed_checkpoint [simp]: "passed (checkpoint e s) = passed s"
  by (simp add: passed_def in_hands_def)

lemma rows_checkpoint: "rows_batched (checkpoint e s) = rows_batched s" "rows_origin (checkpoint e s) = rows_origin s"
  by (simp_all add: rows_batched_def rows_origin_def)

lemma checkpoint_done:
  assumes "checkpoint_ok s" and "i < length (active s)" and "begins e" and "query_runs e"
  shows "checkpoint_ok (query_done i e x (checkpoint e s))"
proof -
  let ?new = "(active s ! i, e, x)"
  have f: "finished (query_done i e x (checkpoint e s)) = finished s @ [?new]"
    and p: "prev_start (query_done i e x (checkpoint e s)) = prev_start (checkpoint e s)"
      "prev_end (query_done i e x (checkpoint e s)) = prev_end (checkpoint e s)"
    using assms(2) by simp_all
  have new: "met ?new = e" by (simp add: met_def)
  have old: "\<forall>q \<in> set (filter successful (finished s)). query_start (met q) \<le> prev_start s"
    using assms(1) by (simp add: checkpoint_ok_def)
  show ?thesis
  proof (cases "successful ?new \<and> query_start e > prev_start s")
    case True
    then have "prev_start (checkpoint e s) = query_start e" "prev_end (checkpoint e s) = query_end e"
      by (auto simp: checkpoint_def successful_def)
    then show ?thesis using True old new unfolding checkpoint_ok_def f p by fastforce
  next
    case False
    then have "checkpoint e s = s" using assms(3,4) by (auto simp: checkpoint_def successful_def)
    moreover have "query_start (met q) \<le> prev_start s" if "q \<in> set (filter successful (finished s @ [?new]))" for q
      using old False that new by (auto simp del: split_paired_All split_paired_Ex split: if_splits)
    ultimately show ?thesis
      using assms(1) unfolding checkpoint_ok_def f p by (auto simp del: split_paired_All split_paired_Ex)
  qed
qed

lemma sql_good_checkpoint:
  "rows_ok (checkpoint e s) = rows_ok s" "passed (checkpoint e s) = passed s"
  using rows_checkpoint [of e s] by (simp_all add: rows_ok_def)

lemma query_finishes_ok:
  assumes "sql_good p t s"
  shows "sql_good p t (query_finishes i s)"
proof (cases "i < length (querying s) \<and> (\<exists>e. querying s ! i = Flushed e [])")
  case True
  then obtain e where i: "i < length (querying s)" and q: "querying s ! i = Flushed e []" by blast
  let ?x = "end_transaction e" and ?s = "checkpoint e s"
  have s': "query_finishes i s = query_done i e ?x ?s" using i q by (simp add: query_finishes_def)
  have ia: "i < length (active s)" and started: "begins e" "query_runs e" and fl: "mset (fst (query_rows e)) \<subseteq># passed s"
    using assms i q by (auto simp: sql_good_def rows_ok_def list_all_length query_state_ok_def flushed_ok_def)
  have x: "transaction_ok s (active s ! i, e, ?x)" using started fl by (simp add: transaction_ok_def)
  have same: "flushed_ok ?s = flushed_ok s" "transaction_ok ?s = transaction_ok s"
    by (simp_all add: fun_eq_iff flushed_ok_def transaction_ok_def sql_good_checkpoint split: query_state.splits)
  have cp: "checkpoint_ok (query_done i e ?x ?s)"
    using assms ia started by (intro checkpoint_done) (simp_all add: sql_good_def)
  have "passed (query_done i e ?x ?s) = passed s"
    using query_done_passed [of i ?s e ?x] i ia q by (simp add: sql_good_checkpoint)
  moreover have "rows_ok (query_done i e ?x ?s)"
    using assms i q started by (intro query_done_rows) (simp_all add: sql_good_def sql_good_checkpoint rows_of_def)
  moreover have "sched_good p t (query_done i e ?x ?s)"
    using assms by (intro query_done_sched) (simp_all add: sql_good_def)
  moreover have "list_all (flushed_ok (query_done i e ?x ?s)) (querying (query_done i e ?x ?s))"
    using ia calculation(1) by (auto simp: list_all_iff intro: good_flushed [OF assms] dest: set_drop_nth)
  moreover have "list_all (transaction_ok (query_done i e ?x ?s)) (finished (query_done i e ?x ?s))"
    using ia calculation(1) transaction_ok_mono [OF x, of "query_done i e ?x ?s"]
    by (auto simp: list_all_iff intro: good_transaction [OF assms])
  ultimately show ?thesis unfolding s' using assms cp by (simp add: sql_good_def)
qed (use assms in \<open>auto simp: query_finishes_def split: query_state.splits list.splits\<close>)


lemma sql_frame:
  assumes "sql_good p t s" and "scheduler.more s' = scheduler.more s" and "ended s' = ended s"
    and "sched_good p t s'" and "active s' = active s \<or> (\<exists>r. active s' = active s @ [r])"
  shows "sql_good p t (add_queries s')"
proof -
  note same = sql_more [OF assms(2)]
  have len: "length (querying s) = length (active s)" using assms(1) by (simp add: sql_good_def rows_ok_def)
  then have "length (querying (add_queries s')) = length (active s')"
    using assms(5) same by (auto simp: add_queries_def)
  moreover have "list_all query_state_ok (querying (add_queries s'))"
    using assms(1) same by (simp add: add_queries_def sql_good_def rows_ok_def query_state_ok_def list_all_length nth_append)
  moreover have "(\<Sum>q\<leftarrow>replicate n Fresh. rows_so_far q) = {#}" for n by (induction n) simp_all
  then have sum: "(\<Sum>q\<leftarrow>querying (add_queries s'). rows_so_far q) = (\<Sum>q\<leftarrow>querying s. rows_so_far q)"
    by (simp add: add_queries_def same)
  moreover have p: "passed (add_queries s') = passed s"
  proof -
    have "(\<Sum>q\<leftarrow>replicate n Fresh. mset (concat (hands q))) = {#}" for n by (induction n) simp_all
    then show ?thesis by (simp add: passed_def in_hands_def add_queries_def same)
  qed
  moreover have "rows_batched (add_queries s')"
    using assms(1) p same by (simp add: sql_good_def rows_ok_def rows_batched_def add_queries_def)
  moreover have "rows_origin (add_queries s')"
    using assms(1) sum by (simp add: sql_good_def rows_ok_def rows_origin_def) (simp add: add_queries_def same)
  moreover have "list_all (flushed_ok (add_queries s')) (querying (add_queries s'))"
    using p good_flushed [OF assms(1), of _ "add_queries s'"]
    by (auto simp: add_queries_def same list_all_iff flushed_ok_def)
  moreover have "list_all (transaction_ok (add_queries s')) (finished (add_queries s'))"
    using p good_transaction [OF assms(1), of _ "add_queries s'"] by (auto simp: add_queries_def same list_all_iff)
  ultimately show ?thesis
    using assms same
    by (simp add: sql_good_def rows_ok_def) (simp add: checkpoint_ok_def add_queries_def)
qed

lemma sql_step_ok:
  assumes "sql_good p t s" and "sql_possible e" and "sql_step e s = Some s'"
  shows "sql_good p t s'"
proof (cases e)
  case (SqlSched e')
  have sched: "schedule_ok p" "sched_good p t s" using assms(1) by (simp_all add: sql_good_def)
  have len: "length (querying s) = length (active s)" using assms(1) by (simp add: sql_good_def rows_ok_def)
  consider (end_worker) i where "e' = EvEnd i" | (close) b where "e' = EvCloseFinishes b"
    | (other) "\<forall>i. e' \<noteq> EvEnd i" "\<forall>b. e' \<noteq> EvCloseFinishes b" by blast
  then show ?thesis
  proof cases
    case close
    show ?thesis
    proof (cases "stage s \<noteq> Aborting \<or> (\<not> b \<and> in_progress (sched_state s) \<noteq> 0) \<or> timed s \<noteq> []")
      case False
      let ?s = "batch_result (flush (batch s)) s"
      have step: "sched_step (EvCloseFinishes b) ?s = Some s'"
        using assms(3) SqlSched close False by (simp add: sql_close_finishes_def split: if_splits)
      have good: "sql_good p t ?s"
        by (rule sql_good_close_flush [OF assms(1)])
      have "sched_good p t s'" by (rule sched_good_step [OF sched(1) _ _ step]) (use sched(2) in simp_all)
      have act: "active s' = active s" "ended s' = ended ?s"
        using step by (auto simp: close_finishes_def split: if_splits sum.splits)
      have "add_queries s' = s'"
        using sql_more [OF sched_step_frame(1) [OF step]] len by (simp add: add_queries_def act)
      with sql_frame [OF good sched_step_frame(1) [OF step] act(2) \<open>sched_good p t s'\<close>] act
      show ?thesis by simp
    qed (use assms SqlSched close in \<open>simp add: sql_close_finishes_def\<close>)
  next
    case other
    then obtain s1 where step: "sched_step e' s = Some s1" and s': "s' = add_queries s1"
      using assms(3) SqlSched by (cases e') auto
    have "event_possible e'" using assms(2) SqlSched by simp
    from sched_good_step [OF sched this step] sched_step_frame [OF step] other(1)
    show ?thesis unfolding s' by (intro sql_frame [OF assms(1)]) auto
  qed (use assms SqlSched in simp)
qed (use assms query_begins_ok query_adds_ok query_flushes_ok query_dispatches_ok query_finishes_ok sql_timer_ok
    timer_dispatches_ok in auto)


subsection \<open>Runs keep it\<close>

interpretation sql_collecting: preserving sql_step "sql_good p t" sql_possible for p t
  by unfold_locales (rule sql_step_ok)

text \<open>Without the abort timeout, nothing is left in the batcher or in anyone's hands when the shutdown is over.\<close>

definition sql_idle :: "'v sql_run \<Rightarrow> bool" where
  "sql_idle s \<longleftrightarrow> (stage s = Finished \<longrightarrow> active s = [] \<and> querying s = [] \<and> buf (batch s) = [] \<and> timed s = [])"

lemma sql_stage_step:
  assumes "sql_step e s = Some s'" and "stage s' = Finished" and "stage s \<noteq> Finished"
  shows "\<exists>b. e = SqlSched (EvCloseFinishes b)"
proof (cases e)
  case (SqlSched e')
  show ?thesis
  proof (cases e')
    case (EvPlan now1 now)
    with assms SqlSched show ?thesis
      by (auto simp: plan_next_def add_queries_def Let_def split: if_splits option.splits prod.splits)
  next
    case (EvWakeUp now)
    with assms SqlSched show ?thesis
      by (auto simp: wake_def add_queries_def split: if_splits sched_phase.splits)
  next
    case EvCloseBegins
    with assms SqlSched show ?thesis
      by (auto simp: collector_close_begins_def add_queries_def split: if_splits sum.splits)
  qed (use assms SqlSched in \<open>auto simp: stop_waiting_def drain_def grace_ends_def add_queries_def
        split: if_splits sched_phase.splits\<close>)
next
  case (SqlBegin q i)
  with assms show ?thesis by (auto simp: query_begins_def query_done_def end_worker_def split: if_splits)
next
  case (SqlAdd i)
  with assms show ?thesis by (auto simp: query_adds_def split: if_splits query_state.splits list.splits prod.splits)
next
  case (SqlFlush i)
  with assms show ?thesis by (auto simp: query_flushes_def split: if_splits query_state.splits list.splits prod.splits)
next
  case (SqlDispatch i)
  with assms show ?thesis by (auto simp: query_dispatches_def split: if_splits query_state.splits list.splits)
next
  case (SqlFinish i)
  with assms show ?thesis
    by (auto simp: query_finishes_def query_done_def end_worker_def split: if_splits query_state.splits list.splits)
next
  case (SqlTimer g)
  with assms show ?thesis by (auto simp: sql_timer_def split: prod.splits)
next
  case (SqlTimerDispatch k)
  with assms show ?thesis by (auto simp: timer_dispatches_def split: if_splits)
qed


lemma timed_flush_empty: "buf b = [] \<Longrightarrow> timed_flush g allow b = (b', out) \<Longrightarrow> buf b' = [] \<and> out = []"
  by (auto simp: timed_flush_def guarded_timed_flush_def next_batch_def split: if_splits)

lemma returned_quiet:
  assumes "phase s = Returned" and "sched_step e s = Some s'" and "\<forall>i. e \<noteq> EvEnd i"
  shows "active s' = active s"
  using assms
  by (cases e) (auto simp: plan_next_def wake_def stop_waiting_def drain_def collector_close_begins_def grace_ends_def
      close_finishes_def split: if_splits sum.splits)

lemma sql_idle_step:
  assumes "sql_good p t s" and "sql_idle s" and "e \<noteq> SqlSched (EvCloseFinishes True)" and "sql_step e s = Some s'"
  shows "sql_idle s'"
proof (cases "stage s = Finished")
  case True
  then have idle: "active s = []" "querying s = []" "buf (batch s) = []" "timed s = []"
    using assms(2) by (simp_all add: sql_idle_def)
  have ph: "phase s = Returned" using True assms(1) by (simp add: sql_good_def sched_good_def stage_ok_def)
  show ?thesis
  proof (cases e)
    case (SqlSched e')
    show ?thesis
    proof (cases "(\<exists>i. e' = EvEnd i) \<or> (\<exists>b. e' = EvCloseFinishes b)")
      case True
      with assms(2,4) SqlSched \<open>stage s = Finished\<close> show ?thesis by (auto simp: sql_close_finishes_def)
    next
      case False
      then obtain s1 where step: "sched_step e' s = Some s1" and s': "s' = add_queries s1"
        using assms(4) SqlSched by (cases e') auto
      from returned_quiet [OF ph step] False sql_more [OF sched_step_frame(1) [OF step]] idle
      show ?thesis by (simp add: sql_idle_def s' add_queries_def)
    qed
  next
    case (SqlTimer g)
    obtain b out where f: "timed_flush g True (batch s) = (b, out)" by fastforce
    with assms(4) SqlTimer idle timed_flush_empty [OF idle(3) f] show ?thesis
      by (simp add: sql_idle_def sql_timer_def) auto
  qed (use assms(2,4) idle in \<open>auto simp: query_begins_def query_adds_def query_flushes_def query_dispatches_def
      query_finishes_def timer_dispatches_def\<close>)
next
  case False
  show ?thesis
  proof (cases "stage s' = Finished")
    case True
    then obtain b where e: "e = SqlSched (EvCloseFinishes b)" using sql_stage_step [OF assms(4)] False by blast
    then have fin: "sql_close_finishes False s = Some s'" "\<not> b" using assms(3,4) by auto
    then have step: "in_progress (sched_state s) = 0" "close_finishes False (batch_result (flush (batch s)) s) = Some s'"
      "timed s = []"
      using False True by (auto simp: sql_close_finishes_def split: if_splits)
    have "active s = []" "querying s = []"
      using step(1) assms(1) by (auto simp: sql_good_def sched_good_def workers_ok_def rows_ok_def)
    moreover have "active s' = active s" "querying s' = querying s" "batch s' = fst (flush (batch s))"
      "timed s' = timed s"
      using step(2) by (auto simp: close_finishes_def split: if_splits sum.splits)
    ultimately show ?thesis
      using flush_rows(2) [of s] assms(1) step(3) by (simp add: sql_idle_def sql_good_def rows_ok_def)
  qed (simp add: sql_idle_def)
qed

interpretation sql_idling: preserving sql_step "\<lambda>s. sql_good p t s \<and> sql_idle s"
    "\<lambda>e. sql_possible e \<and> e \<noteq> SqlSched (EvCloseFinishes True)" for p t
  using sql_step_ok sql_idle_step by unfold_locales blast

subsection \<open>New collectors\<close>

lemma new_sql_collector_ok:
  assumes "new_sql_collector file base cfg = Inr c"
  shows "sched c = sched base \<and> concurrency c = concurrency base \<and> batcher_ok (sql_batch c) \<and> buf (sql_batch c) = []
    \<and> sql_format c \<in> {format_json, format_json_array, format_ndjson} \<and> query c \<noteq> [] \<and> driver c \<in> set valid_driver_types"
proof -
  obtain fmt b l q where c: "parse_structured_format cfg = Inr fmt" "load_query file cfg = Inr q"
    "new_batcher l True (Some \<lparr>opt_size_of = None, opt_guard = True\<rparr>) = Inr b"
    "sql_format c = (if fmt = format_default then format_ndjson else fmt)" "sql_batch c = b" "query c = q"
    "sched c = sched base" "concurrency c = concurrency base" "driver c \<in> set valid_driver_types"
    using assms
    by (auto simp: new_sql_collector_def bind_sum_Inr map_error_Inr Let_def base_collector.extend_def
        sql_collector.fields_def split: option.splits if_splits)
  have "sql_format c \<in> {format_json, format_json_array, format_ndjson}"
    using parse_structured_format_ok [OF c(1)] c(4) by (auto simp: structured_formats_def)
  moreover have "q \<noteq> []" using c(2) by (auto simp: load_query_def Let_def split: if_splits option.splits)
  ultimately show ?thesis using c new_batcher_ok [OF c(3)] by simp
qed

lemma start_sql_collector_good:
  assumes "start_sql_collector c now = Some s" and "sched c = Some p" and "schedule_ok p"
    and "batcher_ok (sql_batch c)" and "buf (sql_batch c) = []"
  shows "sql_good p now s \<and> sql_idle s"
proof -
  have s: "s = scheduler.extend (start_scheduler p (concurrency c) now)
      (sql_run.fields [] (sql_batch c) [] [] [] [] zero_time zero_time)"
    using assms(1,2) by (simp add: start_sql_collector_def)
  then have "scheduler.truncate s = start_scheduler p (concurrency c) now"
    by (simp add: scheduler.truncate_def scheduler.extend_def)
  with sched_good_start [OF assms(3)] have "sched_good p now s" by (subst sched_good_truncate) simp
  then show ?thesis
    using assms(3-5)
    by (simp add: sql_good_def sql_idle_def rows_ok_def rows_batched_def rows_origin_def checkpoint_ok_def passed_def in_hands_def s
        start_scheduler_def scheduler.extend_def sql_run.fields_def)
qed


section \<open>Properties\<close>

text \<open>
  The results as the database has them: result sets of columns and rows. A cursor is honest
  about them, as database/sql documents it, if it lists the rows of a result set from the
  first on, as the scans deliver them, and all of them unless Err reports an error, and if
  it lists all result sets unless Err reports an error at the end. Contexts are as Go has
  them: once cancelled, they stay so.
\<close>

type_synonym 'v table_rows = "string list \<times> 'v list list"

definition scans_of :: "'v list list \<Rightarrow> 'v scanned list \<Rightarrow> bool" where
  "scans_of vals scans \<longleftrightarrow>
     length scans \<le> length vals \<and> (\<forall>k < length scans. scan_vals (scans ! k) = None \<or> scan_vals (scans ! k) = Some (vals ! k))"

definition honest_set :: "'v result_set \<Rightarrow> 'v table_rows \<Rightarrow> bool" where
  "honest_set rs truth \<longleftrightarrow>
     (set_columns rs = None \<or> set_columns rs = Some (fst truth)) \<and> scans_of (snd truth) (set_rows rs)
     \<and> (set_fails rs \<or> length (set_rows rs) = length (snd truth))"

definition honest_cursor :: "'v cursor \<Rightarrow> 'v table_rows list \<Rightarrow> bool" where
  "honest_cursor c truth \<longleftrightarrow>
     (\<exists>listed rest. truth = listed @ rest \<and> list_all2 honest_set (first_set c # more_sets c) listed
        \<and> (rest = [] \<or> end_fails c))
     \<and> (\<forall>rs \<in> set (first_set c # more_sets c). set_cancelled rs \<longrightarrow> end_cancelled c)"

definition honest_pg_rows :: "'v pg_rows \<Rightarrow> 'v table_rows \<Rightarrow> bool" where
  "honest_pg_rows r truth \<longleftrightarrow>
     pg_columns r = fst truth \<and> scans_of (snd truth) (pg_scans r)
     \<and> (pg_fails r \<or> length (pg_scans r) = length (snd truth))"

definition rows_in :: "'v table_rows \<Rightarrow> 'v row list" where
  "rows_in truth = map (\<lambda>v. \<lparr>row_cols = fst truth, row_vals = v\<rparr>) (snd truth)"

lemma scans_of_Cons:
  "scans_of vals (r # rs) \<longleftrightarrow>
     (\<exists>v vs. vals = v # vs \<and> (scan_vals r = None \<or> scan_vals r = Some v) \<and> scans_of vs rs)"
proof (cases vals)
  case (Cons v vs)
  have "(\<forall>k < Suc (length rs). P k) \<longleftrightarrow> P 0 \<and> (\<forall>k < length rs. P (Suc k))" for P
    by (auto simp: less_Suc_eq_0_disj)
  then show ?thesis by (simp add: Cons scans_of_def) blast
qed (simp add: scans_of_def)

lemma scan_rows_honest:
  "scan_rows cols rs = (rows, err) \<Longrightarrow> scans_of vals rs \<Longrightarrow>
     \<exists>rest. rows_in (cols, vals) = rows @ rest \<and> (err = None \<and> length rs = length vals \<longrightarrow> rest = [])"
proof (induction rs arbitrary: rows err vals)
  case Nil
  then show ?case by (simp add: rows_in_def)
next
  case (Cons r rs)
  obtain v vs where v: "vals = v # vs" "scan_vals r = None \<or> scan_vals r = Some v" "scans_of vs rs"
    using Cons.prems(2) by (auto simp: scans_of_Cons)
  obtain rows1 err1 where one: "scan_rows cols rs = (rows1, err1)" by fastforce
  obtain rest where "rows_in (cols, vs) = rows1 @ rest" "err1 = None \<and> length rs = length vs \<longrightarrow> rest = []"
    using Cons.IH [OF one v(3)] by blast
  with Cons.prems(1) v(1,2) one show ?case by (auto simp: rows_in_def split: if_splits)
qed

lemma process_sets_honest:
  "process_sets sets = (rows, err) \<Longrightarrow> list_all2 honest_set sets listed \<Longrightarrow>
     \<exists>rest. concat (map rows_in listed) = rows @ rest
       \<and> (err = None \<and> (\<forall>rs \<in> set sets. \<not> set_cancelled rs) \<longrightarrow> rest = [])"
proof (induction sets arbitrary: rows err listed)
  case (Cons rs sets)
  obtain truth more where l: "listed = truth # more" "honest_set rs truth" "list_all2 honest_set sets more"
    using Cons.prems(2) by (auto simp: list_all2_Cons1)
  show ?case
  proof (cases "set_cancelled rs \<or> set_columns rs = None")
    case False
    then have cols: "set_columns rs = Some (fst truth)" "\<not> set_cancelled rs" using l(2) by (auto simp: honest_set_def)
    obtain rows1 err1 where one: "scan_rows (fst truth) (set_rows rs) = (rows1, err1)" by fastforce
    obtain rest1 where rest1: "rows_in truth = rows1 @ rest1"
      "err1 = None \<and> length (set_rows rs) = length (snd truth) \<longrightarrow> rest1 = []"
      using scan_rows_honest [OF one, of "snd truth"] l(2) by (auto simp: honest_set_def)
    show ?thesis
    proof (cases "err1 = None \<and> \<not> set_fails rs")
      case True
      then have "rest1 = []" using rest1(2) l(2) by (simp add: honest_set_def)
      moreover obtain rows2 err2 where two: "process_sets sets = (rows2, err2)" by fastforce
      ultimately show ?thesis using Cons.IH [OF two l(3)] Cons.prems(1) True cols one two rest1(1) l(1) by auto
    next
      case False
      with Cons.prems(1) cols one rest1(1) l(1) show ?thesis by (auto split: option.splits if_splits)
    qed
  qed (use Cons.prems(1) l(1) in \<open>auto split: if_splits\<close>)
qed simp

text \<open>C37: Processing results either takes all of them or says so. Let a cursor be honest about the
  results of a query. The rows that processResults adds to the batcher are always the first
  ones of all the result sets together, in their order; and if it reports no error, they are
  all the rows of all result sets - a cursor that stopped early, in the middle of a result
  set or between two of them, is not taken for a complete one. The same holds of the
  variant for PostgreSQL.\<close>

theorem process_results_complete:
  assumes "honest_cursor c truth" and "honest_pg_rows r pg_truth"
  shows "(\<exists>rest. concat (map rows_in truth) = fst (process_results c) @ rest
      \<and> (snd (process_results c) = None \<longrightarrow> rest = []))
    \<and> (\<exists>rest. rows_in pg_truth = fst (process_postgres_results r) @ rest
      \<and> (snd (process_postgres_results r) = None \<longrightarrow> rest = []))"
proof
  obtain listed unlisted where t: "truth = listed @ unlisted" "list_all2 honest_set (first_set c # more_sets c) listed"
    "unlisted = [] \<or> end_fails c" and sticky: "\<forall>rs \<in> set (first_set c # more_sets c). set_cancelled rs \<longrightarrow> end_cancelled c"
    using assms(1) unfolding honest_cursor_def by blast
  obtain rows err where p: "process_sets (first_set c # more_sets c) = (rows, err)" by fastforce
  from process_sets_honest [OF p t(2)] obtain rest where rest: "concat (map rows_in listed) = rows @ rest"
    "err = None \<and> (\<forall>rs \<in> set (first_set c # more_sets c). \<not> set_cancelled rs) \<longrightarrow> rest = []" by blast
  have "fst (process_results c) = rows" using p by (simp add: process_results_def split: option.splits)
  moreover have "err = None \<and> \<not> end_cancelled c \<and> \<not> end_fails c" if "snd (process_results c) = None"
    using that p by (auto simp: process_results_def split: option.splits if_splits)
  ultimately show "\<exists>rest. concat (map rows_in truth) = fst (process_results c) @ rest
      \<and> (snd (process_results c) = None \<longrightarrow> rest = [])"
    using rest t(1,3) sticky by (intro exI [of _ "rest @ concat (map rows_in unlisted)"]) auto
next
  obtain rows err where p: "scan_rows (pg_columns r) (pg_scans r) = (rows, err)" by fastforce
  obtain rest where rest: "rows_in pg_truth = rows @ rest" "err = None \<and> length (pg_scans r) = length (snd pg_truth) \<longrightarrow> rest = []"
    using scan_rows_honest [OF p, of "snd pg_truth"] assms(2) by (auto simp: honest_pg_rows_def)
  then show "\<exists>rest. rows_in pg_truth = fst (process_postgres_results r) @ rest
      \<and> (snd (process_postgres_results r) = None \<longrightarrow> rest = [])"
    using p assms(2) by (intro exI [of _ rest]) (auto simp: process_postgres_results_def honest_pg_rows_def split: option.splits if_splits)
qed

definition sql_reaches :: "'v sql_collector \<Rightarrow> instant \<Rightarrow> 'v sql_event list \<Rightarrow> 'v sql_run \<Rightarrow> bool" where
  "sql_reaches c now es s \<longleftrightarrow>
     (\<exists>s0. start_sql_collector c now = Some s0 \<and> run_events sql_step es s0 = Some s)"

lemma sql_reaches_good:
  assumes "new_sql_collector file base cfg = Inr c" and "sched base = Some p" and "schedule_ok p"
    and "list_all sql_possible es" and "sql_reaches c now es s"
  shows "sql_good p now s" and "SqlSched (EvCloseFinishes True) \<notin> set es \<Longrightarrow> sql_idle s"
proof -
  obtain s0 where s0: "start_sql_collector c now = Some s0" "run_events sql_step es s0 = Some s"
    using assms(5) by (auto simp: sql_reaches_def)
  have start: "sql_good p now s0 \<and> sql_idle s0"
    using start_sql_collector_good [OF s0(1) _ assms(3)] new_sql_collector_ok [OF assms(1)] assms(2) by simp
  with sql_collecting.run_preserves [of p now s0 es s] assms(4) s0(2) show "sql_good p now s" by simp
  show "sql_idle s" if "SqlSched (EvCloseFinishes True) \<notin> set es"
    using sql_idling.run_preserves [of p now s0 es s] start assms(4) s0(2) that by (auto simp: list_all_iff)
qed


text \<open>The checkpoint is the latest query that achieved something. It is the start and the end of one
  query that succeeded, or at least delivered some rows, and no such query started later; or
  it is still the zero time, and then no such query started after it.\<close>

theorem sql_checkpoint_latest:
  assumes "new_sql_collector file base cfg = Inr c" and "sched base = Some p" and "schedule_ok p"
    and "list_all sql_possible es" and "sql_reaches c now es s"
  shows "(\<forall>q \<in> set (filter successful (finished s)). query_start (met q) \<le> prev_start s)
    \<and> (prev_start s = zero_time \<and> prev_end s = zero_time
       \<or> (\<exists>q \<in> set (filter successful (finished s)).
            prev_start s = query_start (met q) \<and> prev_end s = query_end (met q)))"
proof -
  have "checkpoint_ok s" using sql_reaches_good(1) [OF assms] by (simp add: sql_good_def)
  then show ?thesis unfolding checkpoint_ok_def .
qed

text \<open>C5: Nothing that was collected stays behind. When the Done channel of an SQL collector is closed,
  then, unless the abort timeout expired, no query is at work any more, and every row that
  any query ever took has been dispatched.\<close>

theorem sql_close_flushes:
  assumes "new_sql_collector file base cfg = Inr c" and "sched base = Some p" and "schedule_ok p"
    and "list_all sql_possible es" and "sql_reaches c now es s"
    and "SqlSched (EvCloseFinishes True) \<notin> set es" and "closed (sched_state s) = ClosedChan"
  shows "active s = [] \<and> mset (concat (dispatched s)) = (\<Sum>q\<leftarrow>finished s. mset (rows_of q))"
proof -
  have good: "sql_good p now s" and idle: "sql_idle s"
    using sql_reaches_good [OF assms(1-5)] assms(6) by blast+
  have "stage s = Finished" using good assms(7)
    by (auto simp: sql_good_def sched_good_def stage_ok_def split: if_splits)
  with idle have empty: "active s = []" "querying s = []" "buf (batch s) = []" "timed s = []" by (simp_all add: sql_idle_def)
  have "rows_batched s" "rows_origin s" using good by (simp_all add: sql_good_def rows_ok_def)
  then have "mset (concat (dispatched s)) = mset (added s)"
    and "mset (added s) = (\<Sum>q\<leftarrow>finished s. mset (rows_of q))"
    using empty by (simp add: rows_batched_def passed_def in_hands_def, simp add: rows_origin_def)
  with empty(1) show ?thesis by simp
qed


section \<open>Witnesses\<close>

definition demo_sql_base :: base_collector where
  "demo_sql_base = \<lparr>base_type = ''sql'', base_name = ''c'', destination = ''discard'', send_to = Some ''discard'',
     has_fallback = True, cronspec = [], sched = Some demo_every, trigger = [], concurrency = 1\<rparr>"

definition demo_sql_config :: table where
  "demo_sql_config = [(''type'', TString ''sqlite''), (''connection'', TString ''x''), (''query'', TString ''q''),
     (''timeout'', TString ''0''), (''format'', TString ''json''), (''batch'', TTable demo_batch)]"

definition demo_sql_batcher :: "'a batcher" where
  "demo_sql_batcher =
     \<lparr>lim = no_limits, size_of = None, has_guard = True, buf = [], nbytes = 0, timer = None, gen = 0\<rparr>"

definition demo_sql_collector :: "'v sql_collector" where
  "demo_sql_collector = base_collector.extend demo_sql_base
     (sql_collector.fields ''sqlite'' ''x'' ''q'' 0 format_json demo_sql_batcher)"

lemma demo_sql_new: "new_sql_collector file demo_sql_base demo_sql_config = Inr demo_sql_collector"
proof -
  have "to_lower (trim_space ''json'') = ''json''" and drv: "to_lower (trim_space ''sqlite'') = ''sqlite''"
    and q: "trim_space ''q'' = ''q''" "trim_space [] = []" by code_simp+
  then have "parse_structured_format demo_sql_config = Inr format_json"
    by (simp add: parse_structured_format_def parse_format_def cfg_value_def format_defs demo_sql_config_def)
  moreover have "parse_query_timeout demo_sql_config = Some 0"
    by (simp add: parse_query_timeout_def demo_sql_config_def cfg_value_def parse_duration_def)
  moreover have "load_query file demo_sql_config = Inr ''q''"
    by (simp add: load_query_def demo_sql_config_def cfg_value_def q)
  moreover have "map_of demo_sql_config ''batch'' = Some (TTable demo_batch)"
    "cfg_value as_string demo_sql_config ''type'' [] = ''sqlite''"
    "cfg_value as_string demo_sql_config ''connection'' [] = ''x''"
    by (simp_all add: demo_sql_config_def cfg_value_def)
  moreover have "''sqlite'' \<in> set valid_driver_types" by (simp add: valid_driver_types_def driver_sqlite_def)
  moreover have "destination demo_sql_base = sender_type_discard" by (simp add: demo_sql_base_def sender_type_discard_def)
  moreover have "format_json \<noteq> format_default" by (simp add: format_defs)
  ultimately show ?thesis
    by (simp add: new_sql_collector_def drv demo_batch_limits new_batcher_def no_limits_def demo_sql_collector_def
        demo_sql_batcher_def)
qed

text \<open>One query with two rows, while the program shuts down.\<close>

definition demo_cursor :: "nat cursor" where
  "demo_cursor = \<lparr>first_set = \<lparr>set_cancelled = False, set_columns = Some [''a''],
       set_rows = [\<lparr>scan_vals = Some [1], scan_cancelled = False\<rparr>, \<lparr>scan_vals = Some [2], scan_cancelled = False\<rparr>],
       set_fails = False\<rparr>,
     more_sets = [], end_cancelled = False, end_fails = False\<rparr>"

definition demo_query :: "nat query_env" where
  "demo_query = \<lparr>begins = True, query_start = 7, query_runs = True, query_results = Inl demo_cursor,
     query_end = 8, rows_close = True, commits = True\<rparr>"

definition demo_row :: "nat \<Rightarrow> nat row" where
  "demo_row n = \<lparr>row_cols = [''a''], row_vals = [n]\<rparr>"

lemma demo_query_rows: "query_rows demo_query = ([demo_row 1, demo_row 2], None)"
  by (simp add: query_rows_def demo_query_def demo_cursor_def process_results_def demo_row_def)

definition demo_sql_events :: "nat sql_event list" where
  "demo_sql_events = [SqlSched (EvPlan 5000000000 5000000000), SqlSched (EvWakeUp 6000000000), SqlBegin demo_query 0,
     SqlAdd 0, SqlDispatch 0, SqlSched EvCancel, SqlAdd 0, SqlSched (EvPlan 6000000000 6000000000), SqlSched EvStop,
     SqlSched EvCloseBegins, SqlDispatch 0, SqlFlush 0, SqlFinish 0, SqlSched (EvGraceEnds False), SqlSched (EvCloseFinishes False)]"

lemma demo_sql_run:
  "\<exists>s. sql_reaches demo_sql_collector 5000000000 demo_sql_events s \<and> closed (sched_state s) = ClosedChan
     \<and> finished s = [(6000000000, demo_query, Committed)] \<and> prev_start s = 7"
proof -
  have q: "begins demo_query" "query_runs demo_query" "commits demo_query" "query_start demo_query = 7"
    "query_ok demo_query"
    using demo_query_rows by (simp_all add: demo_query_def query_ok_def)
  have "end_transaction demo_query = Committed" using demo_query_rows q by (simp add: end_transaction_def)
  note facts = q this demo_query_rows
  show ?thesis
    unfolding sql_reaches_def start_sql_collector_def demo_sql_collector_def
    by (simp add: facts demo_sql_base_def base_collector.extend_def sql_collector.fields_def demo_sql_batcher_def
        scheduler.extend_def sql_run.fields_def demo_sql_events_def start_scheduler_def sched_defs add_queries_def
        query_begins_def query_adds_def query_flushes_def query_dispatches_def query_finishes_def query_done_def checkpoint_def batch_result_def
        sql_close_finishes_def add_item_def flush_def next_batch_def passthrough_def no_limits_def drop_nth_def
        demo_every_def next_time_def zero_schedule_def truncate_to_def runs_only_once_def start_with_def lc_start_def
        is_started_def lifecycle_zero_def begin_close_def finish_close_def stop_stragglers_def Let_def)
qed


lemma demo_sql_facts: "sched demo_sql_base = Some demo_every" "list_all sql_possible demo_sql_events"
  "SqlSched (EvCloseFinishes True) \<notin> set demo_sql_events"
  by (simp_all add: demo_sql_base_def demo_sql_events_def)


theorem sql_checkpoint_latest_witness:
  "\<exists>s. sql_reaches demo_sql_collector 5000000000 demo_sql_events s
     \<and> (\<forall>q \<in> set (filter successful (finished s)). query_start (met q) \<le> prev_start s)"
proof -
  obtain s where s: "sql_reaches demo_sql_collector 5000000000 demo_sql_events s"
    using demo_sql_run by (elim exE conjE)
  show ?thesis
    by (intro exI conjI) (rule s, rule sql_checkpoint_latest [OF demo_sql_new demo_sql_facts(1) demo_every_ok(1)
          demo_sql_facts(2) s, THEN conjunct1])
qed

theorem sql_close_flushes_witness:
  "\<exists>s. sql_reaches demo_sql_collector 5000000000 demo_sql_events s
     \<and> mset (concat (dispatched s)) = {#demo_row 1, demo_row 2#}"
proof -
  obtain s where s: "sql_reaches demo_sql_collector 5000000000 demo_sql_events s" "closed (sched_state s) = ClosedChan"
    "finished s = [(6000000000, demo_query, Committed)]" using demo_sql_run by (elim exE conjE)
  have "mset (concat (dispatched s)) = (\<Sum>q\<leftarrow>finished s. mset (rows_of q))"
    by (rule sql_close_flushes [OF demo_sql_new demo_sql_facts(1) demo_every_ok(1) demo_sql_facts(2) s(1)
          demo_sql_facts(3) s(2), THEN conjunct2])
  moreover have "rows_of (6000000000, demo_query, Committed) = [demo_row 1, demo_row 2]"
    by (simp add: rows_of_def demo_query_rows) (simp add: demo_query_def)
  ultimately show ?thesis using s by (intro exI [of _ s]) simp
qed

text \<open>A cursor that breaks down in its second result set, and one that is complete.\<close>

definition demo_cut_cursor :: "nat cursor" where
  "demo_cut_cursor = demo_cursor\<lparr>more_sets := [(first_set demo_cursor)\<lparr>set_rows := [], set_fails := True\<rparr>], end_fails := True\<rparr>"

definition demo_pg_rows :: "nat pg_rows" where
  "demo_pg_rows = \<lparr>pg_columns = [''a''], pg_scans = [\<lparr>scan_vals = Some [1], scan_cancelled = False\<rparr>], pg_fails = False\<rparr>"

theorem process_results_complete_witness:
  "snd (process_results demo_cut_cursor) = Some IterationError
   \<and> (\<exists>rest. [demo_row 1, demo_row 2, demo_row 3] = fst (process_results demo_cut_cursor) @ rest)
   \<and> [demo_row 1] = fst (process_postgres_results demo_pg_rows)"
proof -
  have "honest_cursor demo_cut_cursor [([''a''], [[1], [2]]), ([''a''], [[3]])]"
    unfolding honest_cursor_def
    by (intro conjI exI [of _ "[([''a''], [[1], [2]]), ([''a''], [[3 :: nat]])]"] exI [of _ "[]"])
      (simp_all add: demo_cut_cursor_def demo_cursor_def honest_set_def scans_of_def less_Suc_eq)
  moreover have "honest_pg_rows demo_pg_rows ([''a''], [[1]])"
    by (simp add: honest_pg_rows_def demo_pg_rows_def scans_of_def)
  moreover have "snd (process_results demo_cut_cursor) = Some IterationError"
    "snd (process_postgres_results demo_pg_rows) = None"
    by (simp_all add: process_results_def demo_cut_cursor_def demo_cursor_def process_postgres_results_def demo_pg_rows_def)
  ultimately show ?thesis
    using process_results_complete [of demo_cut_cursor "[([''a''], [[1], [2]]), ([''a''], [[3]])]" demo_pg_rows "([''a''], [[1]])"]
    by (auto simp: rows_in_def demo_row_def)
qed

end
