(* ===== verification/DLQSize.thy ===== *)
theory DLQSize
  imports Config Lifecycle
begin

text \<open>
  The size accounting of the Dead-Letter Queue (pkg/dest/dlq_size.go, and the parts of
  dlq.go and config.go that it needs): writes reserve their size before they create a file
  and release it when they end, while a background measurement walks the directory.

  Paths are slash-separated, so filepath.ToSlash is the identity. Log records that matter
  are outputs; every function under the mutex sizeMu is one step.
\<close>

section \<open>State\<close>

record new_file =
  nf_size :: int
  nf_done :: bool

record dlq =
  dlq_max :: int
  dlq_warn :: int
  total_size :: int
  new_files :: "(string \<times> new_file) list"
  measuring :: bool
  warned :: bool
  measured :: go_chan

datatype dlq_log = QueueFull int int | ReachedWarnSize int

definition incomplete_ext :: string where
  "incomplete_ext = ''.incomplete''"

definition default_dlq_warn_size :: int where
  "default_dlq_warn_size = 100 * 2 ^ 20"

definition max_dlq_size :: int where
  "max_dlq_size = 2 ^ 50"

text \<open>parseDLQ: the maximal size and the warning size.\<close>

definition parse_dlq :: "toml option \<Rightarrow> config_error + int \<times> int" where
  "parse_dlq raw_cfg =
     (case (case raw_cfg of None \<Rightarrow> Some [] | Some raw \<Rightarrow> as_table raw) of
        None \<Rightarrow> Inl (NotATable ''dead_letter_queue'')
      | Some cfg \<Rightarrow>
          Inr (bounded_int (cfg_value as_int cfg ''max_size'' 0) 0 max_dlq_size,
               bounded_int (cfg_value as_int cfg ''warning_size'' default_dlq_warn_size) 0 max_dlq_size))"

definition init_dlq :: "toml option \<Rightarrow> config_error + dlq" where
  "init_dlq raw_cfg =
     (case parse_dlq raw_cfg of
        Inl e \<Rightarrow> Inl e
      | Inr (mx, wn) \<Rightarrow>
          Inr \<lparr>dlq_max = mx, dlq_warn = wn, total_size = 0, new_files = [], measuring = False,
               warned = False, measured = (if mx > 0 then OpenChan else NilChan)\<rparr>)"

section \<open>Reservations\<close>

definition warn_if_needed :: "dlq \<Rightarrow> dlq \<times> dlq_log list" where
  "warn_if_needed d =
     (if warned d \<or> dlq_warn d = 0 \<or> total_size d < dlq_warn d then (d, [])
      else (d\<lparr>warned := True\<rparr>, [ReachedWarnSize (total_size d)]))"

definition accounting :: "dlq \<Rightarrow> bool" where
  "accounting d \<longleftrightarrow> dlq_max d + dlq_warn d \<noteq> 0"

definition reserve :: "string \<Rightarrow> int \<Rightarrow> dlq \<Rightarrow> dlq \<times> bool \<times> dlq_log list" where
  "reserve path n d =
     (if \<not> accounting d then (d, True, [])
      else if dlq_max d > 0 \<and> total_size d + n > dlq_max d
           then (d, False, [QueueFull (total_size d) n])
      else
        (let d1 = d\<lparr>total_size := total_size d + n,
                    new_files := AList.update path \<lparr>nf_size = n, nf_done = False\<rparr> (new_files d)\<rparr>;
             (d2, logs) = warn_if_needed d1
         in (d2, True, logs)))"

definition release :: "string \<Rightarrow> bool \<Rightarrow> dlq \<Rightarrow> dlq" where
  "release path written d =
     (case map_of (new_files d) path of
        None \<Rightarrow> d
      | Some file \<Rightarrow>
          (if \<not> written
           then d\<lparr>total_size := total_size d - nf_size file, new_files := AList.delete path (new_files d)\<rparr>
           else if measuring d
           then d\<lparr>new_files := AList.update path \<lparr>nf_size = nf_size file, nf_done = True\<rparr> (new_files d)\<rparr>
           else d\<lparr>new_files := AList.delete path (new_files d)\<rparr>))"

definition is_tracked :: "dlq \<Rightarrow> string \<Rightarrow> bool" where
  "is_tracked d path \<longleftrightarrow> map_of (new_files d) (trim_suffix path incomplete_ext) \<noteq> None"

section \<open>Measurement\<close>

datatype fs_error = NotExist | OtherError string

record size_walk =
  walk_size :: int
  skipped :: nat
  first_err :: "fs_error option"

definition new_walk :: size_walk where
  "new_walk = \<lparr>walk_size = 0, skipped = 0, first_err = None\<rparr>"

definition walk_skip :: "fs_error \<Rightarrow> size_walk \<Rightarrow> size_walk" where
  "walk_skip e w =
     (if e = NotExist then w
      else w\<lparr>skipped := skipped w + 1,
             first_err := (if first_err w = None then Some e else first_err w)\<rparr>)"

datatype visit_result = VisitOk | SkipAll | VisitFails fs_error

datatype visit_decision = Decided visit_result | SkipEntry fs_error | Stat

text \<open>
  visit looks at the closing channel and at the tracked files first, and only then asks for
  the size of the file: other goroutines may run between the two.
\<close>

definition visit_decide :: "bool \<Rightarrow> dlq \<Rightarrow> string \<Rightarrow> bool \<Rightarrow> fs_error option \<Rightarrow> visit_decision" where
  "visit_decide is_clos d path is_dir err =
     (if is_clos then Decided SkipAll
      else case err of
             Some e \<Rightarrow> if path = ''.'' then Decided (VisitFails e) else SkipEntry e
           | None \<Rightarrow> if is_dir \<or> is_tracked d path then Decided VisitOk else Stat)"

definition visit_stat :: "fs_error + int \<Rightarrow> size_walk \<Rightarrow> size_walk" where
  "visit_stat info w =
     (case info of Inl e \<Rightarrow> walk_skip e w | Inr n \<Rightarrow> w\<lparr>walk_size := walk_size w + n\<rparr>)"

definition visit ::
  "bool \<Rightarrow> dlq \<Rightarrow> string \<Rightarrow> bool \<Rightarrow> fs_error option \<Rightarrow> fs_error + int \<Rightarrow> size_walk
    \<Rightarrow> size_walk \<times> visit_result" where
  "visit is_clos d path is_dir err info w =
     (case visit_decide is_clos d path is_dir err of
        Decided r \<Rightarrow> (w, r)
      | SkipEntry e \<Rightarrow> (walk_skip e w, VisitOk)
      | Stat \<Rightarrow> (visit_stat info w, VisitOk))"

definition begin_measure :: "dlq \<Rightarrow> dlq" where
  "begin_measure d = d\<lparr>measuring := True\<rparr>"

text \<open>The end of measureSize: \<open>ok\<close> is \<open>err == nil && !closing\<close>.\<close>

definition finish_measure :: "size_walk \<Rightarrow> bool \<Rightarrow> dlq \<Rightarrow> dlq \<times> int \<times> bool \<times> dlq_log list" where
  "finish_measure w ok d =
     (let sz = walk_size w + sum_list (map (\<lambda>(p, f). nf_size f) (new_files d));
          d1 = d\<lparr>measuring := False, new_files := filter (\<lambda>(p, f). \<not> nf_done f) (new_files d)\<rparr>
      in if \<not> ok then (d1, sz, False, [])
         else
           (let d2 = d1\<lparr>total_size := sz\<rparr>;
                d3 = (if total_size d2 < dlq_warn d2 then d2\<lparr>warned := False\<rparr> else d2);
                (d4, logs) = warn_if_needed d3
            in (d4, sz, True, logs)))"

text \<open>
  A measurement that nothing disturbs: \<open>entries\<close> is what the walk visits, with the error
  that it hands to visit and the answer of Info.
\<close>

fun walk_dir ::
  "(string \<times> bool \<times> fs_error option \<times> (fs_error + int)) list \<Rightarrow> dlq \<Rightarrow> size_walk
    \<Rightarrow> size_walk \<times> fs_error option" where
  "walk_dir [] d w = (w, None)"
| "walk_dir ((path, is_dir, err, info) # es) d w =
     (case visit False d path is_dir err info w of
        (w1, VisitOk) \<Rightarrow> walk_dir es d w1
      | (w1, SkipAll) \<Rightarrow> (w1, None)
      | (w1, VisitFails e) \<Rightarrow> (w1, Some e))"

definition measure_size ::
  "(string \<times> bool \<times> fs_error option \<times> (fs_error + int)) list \<Rightarrow> dlq
    \<Rightarrow> dlq \<times> int \<times> bool \<times> dlq_log list" where
  "measure_size entries d =
     (let d1 = begin_measure d; (w, err) = walk_dir entries d1 new_walk
      in finish_measure w (err = None) d1)"

section \<open>When to measure\<close>

definition remeasure_min_delay :: duration where
  "remeasure_min_delay = 421 * second"

definition remeasure_max_delay :: duration where
  "remeasure_max_delay = hour"

definition next_remeasure_delay :: "duration \<Rightarrow> bool \<Rightarrow> duration" where
  "next_remeasure_delay delay changed =
     (if changed then remeasure_min_delay
      else if delay * 2 \<le> remeasure_max_delay then delay * 2 else delay)"

text \<open>
  measureSizeLoop after its first measurement: what its select received, at which time.
  A timer event carries the result of the measurement that follows it, and the time when
  that ended. \<open>next_check\<close> is also the time for which the timer is set.
\<close>

record remeasure =
  next_delay :: duration
  next_check :: instant
  prev_size :: int

datatype loop_event = TimerFired int bool instant | WaitLess instant | LoopClosing

definition measure_loop_start :: "int \<Rightarrow> instant \<Rightarrow> remeasure" where
  "measure_loop_start sz now =
     \<lparr>next_delay = remeasure_min_delay, next_check = now + remeasure_min_delay, prev_size = sz\<rparr>"

fun measure_loop_step :: "loop_event \<Rightarrow> remeasure \<Rightarrow> remeasure option" where
  "measure_loop_step LoopClosing r = None"
| "measure_loop_step (WaitLess now) r =
     Some (let r1 = r\<lparr>next_delay := remeasure_min_delay\<rparr>
           in if next_check r1 - now > next_delay r1
              then r1\<lparr>next_check := now + next_delay r1\<rparr> else r1)"
| "measure_loop_step (TimerFired current_size ok now) r =
     Some (let r1 = (if ok then r\<lparr>next_delay := next_remeasure_delay (next_delay r) (current_size \<noteq> prev_size r),
                                  prev_size := current_size\<rparr>
                     else r)
           in r1\<lparr>next_check := now + next_delay r1\<rparr>)"

text \<open>Whether the loop runs at all, and whether it releases the pending writes.\<close>

definition measure_loop_first :: "bool \<Rightarrow> bool \<Rightarrow> dlq \<Rightarrow> (dlq, panic + dlq) sum option" where
  "measure_loop_first ok is_clos d =
     (if \<not> accounting d then None
      else if \<not> ok \<and> is_clos then Some (Inl d)
      else if measured d = NilChan then Some (Inr (Inr d))
      else Some (Inr (case close_chan (measured d) of
                        Inl p \<Rightarrow> Inl p | Inr ch \<Rightarrow> Inr (d\<lparr>measured := ch\<rparr>))))"

text \<open>
  waitForSize looks at the measured channel (in \<open>d1\<close>) without waiting, and then waits for
  either channel; \<open>d2\<close> and \<open>is_clos\<close> are the state when that select looks. It picks at
  random when both are closed, and \<open>None\<close> means that it is still waiting.
\<close>

definition wait_for_size :: "dlq \<Rightarrow> dlq \<Rightarrow> bool \<Rightarrow> bool \<Rightarrow> bool option" where
  "wait_for_size d1 d2 is_clos pick =
     (if measured d1 = NilChan then Some True
      else if measured d1 = ClosedChan then Some True
      else if measured d2 = ClosedChan then Some (if is_clos then pick else True)
      else if is_clos then Some False else None)"

lemmas dlq_defs [go_defs] = warn_if_needed_def reserve_def release_def is_tracked_def
  begin_measure_def finish_measure_def visit_decide_def visit_stat_def walk_skip_def

section \<open>Sums over finite maps\<close>

definition msum :: "('a \<Rightarrow> int option) \<Rightarrow> int" where
  "msum m = (\<Sum>k \<in> dom m. the (m k))"

lemma msum_empty [simp]: "msum Map.empty = 0"
  by (simp add: msum_def)

lemma msum_insert: "finite (dom m) \<Longrightarrow> k \<notin> dom m \<Longrightarrow> msum (m(k \<mapsto> v)) = v + msum m"
proof -
  assume *: "finite (dom m)" "k \<notin> dom m"
  then have "(\<Sum>j \<in> dom m. the ((m(k \<mapsto> v)) j)) = (\<Sum>j \<in> dom m. the (m j))"
    by (intro sum.cong) auto
  with * show ?thesis by (simp add: msum_def)
qed

lemma msum_remove: "finite (dom m) \<Longrightarrow> m k = Some v \<Longrightarrow> msum (m(k := None)) = msum m - v"
proof -
  assume *: "finite (dom m)" "m k = Some v"
  have "msum m = msum ((m(k := None))(k \<mapsto> v))" using *(2) by (metis fun_upd_triv fun_upd_upd)
  also have "\<dots> = v + msum (m(k := None))" using *(1) by (intro msum_insert) auto
  finally show ?thesis by simp
qed

lemma msum_add:
  "finite (dom m) \<Longrightarrow> finite (dom n) \<Longrightarrow> dom m \<inter> dom n = {} \<Longrightarrow> msum (m ++ n) = msum m + msum n"
proof -
  assume *: "finite (dom m)" "finite (dom n)" "dom m \<inter> dom n = {}"
  have "(\<Sum>k \<in> dom m. the ((m ++ n) k)) = msum m"
    unfolding msum_def using *(3)
    by (intro sum.cong) (auto simp: map_add_def disjoint_iff dom_def split: option.splits)
  moreover have "(\<Sum>k \<in> dom n. the ((m ++ n) k)) = msum n"
    unfolding msum_def by (intro sum.cong) (auto simp: map_add_def)
  moreover have "dom (m ++ n) = dom m \<union> dom n" by auto
  ultimately show ?thesis
    using * by (simp add: msum_def sum.union_disjoint)
qed

text \<open>The sizes of the tracked files, of one kind or of all of them.\<close>

definition tracked :: "(new_file \<Rightarrow> bool) \<Rightarrow> dlq \<Rightarrow> string \<Rightarrow> int option" where
  "tracked P d = (\<lambda>p. case map_of (new_files d) p of
     None \<Rightarrow> None | Some f \<Rightarrow> if P f then Some (nf_size f) else None)"

lemma tracked_finite: "finite (dom (tracked P d))"
  by (rule finite_subset [of _ "dom (map_of (new_files d))"])
     (auto simp: tracked_def finite_dom_map_of split: option.splits)

lemma sum_new_files:
  "distinct (map fst xs) \<Longrightarrow> sum_list (map (\<lambda>(p, f). nf_size f) xs)
    = msum (\<lambda>p. case map_of xs p of None \<Rightarrow> None | Some f \<Rightarrow> Some (nf_size f))"
proof (induction xs)
  case (Cons x xs)
  obtain p f where x: "x = (p, f)" by fastforce
  let ?m = "\<lambda>p. case map_of xs p of None \<Rightarrow> None | Some f \<Rightarrow> Some (nf_size f)"
  have "dom ?m = dom (map_of xs)" by (auto split: option.splits)
  then have "finite (dom ?m)" "p \<notin> dom ?m"
    using Cons.prems x by (auto simp: finite_dom_map_of dom_map_of_conv_image_fst)
  moreover have "(\<lambda>q. case map_of ((p, f) # xs) q of None \<Rightarrow> None | Some g \<Rightarrow> Some (nf_size g))
      = ?m(p \<mapsto> nf_size f)" by auto
  ultimately show ?case using Cons x by (simp add: msum_insert)
qed simp

lemma distinct_filter_fst: "distinct (map fst xs) \<Longrightarrow> distinct (map fst (filter P xs))"
  by (induction xs) auto

lemma map_of_filter_val:
  "distinct (map fst xs) \<Longrightarrow> map_of (filter (\<lambda>(p, f). P f) xs) k
    = (case map_of xs k of None \<Rightarrow> None | Some f \<Rightarrow> if P f then Some f else None)"
  by (induction xs) (auto split: option.splits simp: map_of_eq_None_iff dest: map_of_SomeD)

section \<open>Writers, measurements and the directory\<close>

text \<open>
  The whole system. \<open>q\<close> is the queue's accounting. A writer is known by its final path; it
  is in \<open>writers\<close>, with the size that it reserved, from its reservation until its release,
  and meanwhile its file may exist in part, in full, with or without its suffix. \<open>files\<close>
  are the other files of the directory by their names, whoever wrote them, except that a
  file whose writer ended during a measurement is in \<open>ended\<close> (with its name and size) until
  the measurement ends.

  The walk of a measurement keeps its sum, the names it has looked at, and the name whose
  size it is about to ask for. It may look at names from an outdated listing, at files of
  writers under either name, or miss files that appeared during the walk, but not a file
  that was there all along. \<open>tainted\<close> says that someone else changed the directory during
  the walk, \<open>known\<close> that the last completed measurement was not tainted and that nothing
  was changed from outside since.
\<close>

record walk =
  acc :: size_walk
  seen :: "string set"
  pending :: "string option"
  counted :: "string set"
  tainted :: bool

record dsys =
  q :: dlq
  writers :: "string \<Rightarrow> int option"
  files :: "string \<Rightarrow> int option"
  ended :: "string \<Rightarrow> int option"
  used :: "string set"
  walk :: "walk option"
  known :: bool

definition base_path :: "string \<Rightarrow> string" where
  "base_path n = trim_suffix n incomplete_ext"

inductive dsys_step :: "dsys \<Rightarrow> dsys \<Rightarrow> bool" where
  reserve_ok:
    "p \<notin> used s \<Longrightarrow> (\<forall>n \<in> dom (files s). base_path n \<noteq> p) \<Longrightarrow> 0 \<le> k \<Longrightarrow>
     dlq_max (q s) \<le> 0 \<or> measured (q s) = ClosedChan \<Longrightarrow>
     reserve p k (q s) = (d, True, logs) \<Longrightarrow>
     dsys_step s (s\<lparr>q := d, writers := (writers s)(p \<mapsto> k), used := insert p (used s)\<rparr>)"
| reserve_full:
    "reserve p k (q s) = (d, False, logs) \<Longrightarrow> dsys_step s (s\<lparr>q := d\<rparr>)"
| write_fails:
    "writers s p = Some k \<Longrightarrow>
     dsys_step s (s\<lparr>q := release p False (q s), writers := (writers s)(p := None)\<rparr>)"
| write_ends:
    "writers s (base_path name) = Some k \<Longrightarrow> \<not> measuring (q s) \<Longrightarrow>
     dsys_step s (s\<lparr>q := release (base_path name) True (q s),
       writers := (writers s)(base_path name := None), files := (files s)(name \<mapsto> k)\<rparr>)"
| write_ends_measuring:
    "writers s (base_path name) = Some k \<Longrightarrow> measuring (q s) \<Longrightarrow>
     dsys_step s (s\<lparr>q := release (base_path name) True (q s),
       writers := (writers s)(base_path name := None), ended := (ended s)(name \<mapsto> k)\<rparr>)"
| walk_begin:
    "walk s = None \<Longrightarrow>
     dsys_step s (s\<lparr>q := begin_measure (q s),
       walk := Some \<lparr>acc = new_walk, seen = {}, pending = None, counted = {}, tainted = False\<rparr>\<rparr>)"
| walk_check:
    "walk s = Some w \<Longrightarrow> pending w = None \<Longrightarrow> name \<notin> seen w \<Longrightarrow>
     dsys_step s (s\<lparr>walk := Some (w\<lparr>seen := insert name (seen w),
       pending := (if visit_decide False (q s) name False None = Stat then Some name else None)\<rparr>)\<rparr>)"
| walk_stat:
    "walk s = Some w \<Longrightarrow> pending w = Some name \<Longrightarrow>
     info = (case files s name of None \<Rightarrow> Inl NotExist | Some k \<Rightarrow> Inr k) \<Longrightarrow>
     dsys_step s (s\<lparr>walk := Some (w\<lparr>acc := visit_stat info (acc w), pending := None,
       counted := (if files s name = None then counted w else insert name (counted w))\<rparr>)\<rparr>)"
| walk_end:
    "walk s = Some w \<Longrightarrow> pending w = None \<Longrightarrow> dom (files s) \<subseteq> seen w \<or> tainted w \<Longrightarrow>
     finish_measure (acc w) True (q s) = (d, n, ok, logs) \<Longrightarrow>
     dsys_step s (s\<lparr>q := d, walk := None, files := files s ++ ended s, ended := Map.empty,
       known := \<not> tainted w\<rparr>)"
| walk_fails:
    "walk s = Some w \<Longrightarrow> finish_measure (acc w) False (q s) = (d, n, ok, logs) \<Longrightarrow>
     dsys_step s (s\<lparr>q := d, walk := None, files := files s ++ ended s, ended := Map.empty\<rparr>)"
| release_waiters:
    "walk s = None \<Longrightarrow> measured (q s) = OpenChan \<Longrightarrow>
     dsys_step s (s\<lparr>q := (q s)\<lparr>measured := ClosedChan\<rparr>\<rparr>)"
| outside_change:
    "finite (dom fs) \<Longrightarrow> (\<forall>n \<in> dom fs - dom (files s). base_path n \<notin> used s) \<Longrightarrow>
     dsys_step s (s\<lparr>files := fs, known := False,
       walk := map_option (\<lambda>w. w\<lparr>tainted := True\<rparr>) (walk s)\<rparr>)"

inductive dsys_reachable :: "dsys \<Rightarrow> bool" where
  start: "init_dlq raw = Inr d \<Longrightarrow> accounting d \<Longrightarrow> finite (dom fs) \<Longrightarrow>
    dsys_reachable \<lparr>q = d, writers = Map.empty, files = fs, ended = Map.empty, used = {},
      walk = None, known = False\<rparr>"
| step: "dsys_reachable s \<Longrightarrow> dsys_step s t \<Longrightarrow> dsys_reachable t"

text \<open>The bytes that are in the directory or promised to a writer.\<close>

definition true_size :: "dsys \<Rightarrow> int" where
  "true_size s = msum (files s) + msum (ended s) + msum (writers s)"

section \<open>The invariant\<close>

definition tracking_ok :: "dsys \<Rightarrow> bool" where
  "tracking_ok s \<longleftrightarrow>
     distinct (map fst (new_files (q s)))
     \<and> tracked (\<lambda>f. \<not> nf_done f) (q s) = writers s
     \<and> (\<forall>p k. tracked nf_done (q s) p = Some k \<longleftrightarrow> (\<exists>n. base_path n = p \<and> ended s n = Some k))
     \<and> inj_on base_path (dom (ended s))
     \<and> (\<forall>n \<in> dom (files s). \<not> is_tracked (q s) n)
     \<and> dom (map_of (new_files (q s))) \<subseteq> used s
     \<and> finite (dom (files s)) \<and> finite (dom (ended s))
     \<and> (\<forall>p k. writers s p = Some k \<longrightarrow> 0 \<le> k)
     \<and> measuring (q s) = (walk s \<noteq> None) \<and> (walk s = None \<longrightarrow> ended s = Map.empty)"

definition walk_ok :: "dsys \<Rightarrow> bool" where
  "walk_ok s \<longleftrightarrow> (\<forall>w. walk s = Some w \<longrightarrow> \<not> tainted w \<longrightarrow>
     counted w \<subseteq> dom (files s) \<and> counted w \<subseteq> seen w
     \<and> walk_size (acc w) = (\<Sum>n \<in> counted w. the (files s n))
     \<and> seen w \<inter> dom (files s) \<subseteq> counted w \<union> set_option (pending w)
     \<and> set_option (pending w) \<subseteq> seen w - counted w)"

definition total_ok :: "dsys \<Rightarrow> bool" where
  "total_ok s \<longleftrightarrow> (known s \<longrightarrow> total_size (q s) = true_size s)"

definition dsys_ok :: "dsys \<Rightarrow> bool" where
  "dsys_ok s \<longleftrightarrow> accounting (q s) \<and> tracking_ok s \<and> walk_ok s \<and> total_ok s"

lemma warn_if_needed_simps [simp]:
  "total_size (fst (warn_if_needed d)) = total_size d"
  "new_files (fst (warn_if_needed d)) = new_files d"
  "measuring (fst (warn_if_needed d)) = measuring d"
  "dlq_max (fst (warn_if_needed d)) = dlq_max d" "dlq_warn (fst (warn_if_needed d)) = dlq_warn d"
  "measured (fst (warn_if_needed d)) = measured d"
  by (simp_all add: warn_if_needed_def)

lemma reserve_okD:
  assumes "reserve p k d = (d', True, logs)" and "accounting d"
  shows "new_files d' = AList.update p \<lparr>nf_size = k, nf_done = False\<rparr> (new_files d)"
    and "total_size d' = total_size d + k" and "measuring d' = measuring d"
    and "dlq_max d' = dlq_max d" and "dlq_warn d' = dlq_warn d"
    and "dlq_max d > 0 \<Longrightarrow> total_size d' \<le> dlq_max d"
  using assms
  by (auto simp: reserve_def Let_def warn_if_needed_def split: if_splits prod.splits)

lemma reserve_fullD: "reserve p k d = (d', False, logs) \<Longrightarrow> d' = d"
  by (auto simp: reserve_def Let_def split: if_splits prod.splits)

lemma finish_measureD:
  assumes "finish_measure w ok d = (d', n, ok', logs)"
  shows "new_files d' = filter (\<lambda>(p, f). \<not> nf_done f) (new_files d)" and "\<not> measuring d'"
    and "n = walk_size w + sum_list (map (\<lambda>(p, f). nf_size f) (new_files d))"
    and "total_size d' = (if ok then n else total_size d)"
    and "dlq_max d' = dlq_max d" and "dlq_warn d' = dlq_warn d" and "ok' = ok"
  using assms
  by (auto simp: finish_measure_def Let_def warn_if_needed_def split: if_splits prod.splits)

lemma release_simps [simp]:
  "measuring (release p b d) = measuring d" "dlq_max (release p b d) = dlq_max d"
  "dlq_warn (release p b d) = dlq_warn d"
  by (auto simp: release_def split: option.splits)


section \<open>Preservation\<close>

lemma is_tracked_iff: "is_tracked d n \<longleftrightarrow> base_path n \<in> dom (map_of (new_files d))"
  by (auto simp: is_tracked_def base_path_def)

lemma tracked_dom: "p \<in> dom (map_of (new_files d))
    \<longleftrightarrow> p \<in> dom (tracked nf_done d) \<or> p \<in> dom (tracked (\<lambda>f. \<not> nf_done f) d)"
  by (auto simp: tracked_def split: option.splits if_splits)

lemma tracked_cong: "new_files d' = new_files d \<Longrightarrow> tracked P d' = tracked P d"
  by (simp add: tracked_def)

lemma tracked_update:
  assumes "new_files d' = AList.update p f (new_files d)"
  shows "tracked P d' = (tracked P d)(p := if P f then Some (nf_size f) else None)"
  using assms by (auto simp: tracked_def fun_eq_iff)

lemma tracked_delete:
  assumes "new_files d' = AList.delete p (new_files d)"
  shows "tracked P d' = (tracked P d)(p := None)"
  using assms by (auto simp: tracked_def fun_eq_iff)

lemma tracked_filter:
  assumes "new_files d' = filter (\<lambda>(p, f). \<not> nf_done f) (new_files d)"
    and "distinct (map fst (new_files d))"
  shows "tracked nf_done d' = Map.empty"
    and "tracked (\<lambda>f. \<not> nf_done f) d' = tracked (\<lambda>f. \<not> nf_done f) d"
  using assms
  by (auto simp: tracked_def fun_eq_iff map_of_filter_val [where P = "\<lambda>f. \<not> nf_done f"] split: option.splits)

lemma writer_tracked:
  assumes "tracking_ok s" and "writers s p = Some k"
  shows "map_of (new_files (q s)) p = Some \<lparr>nf_size = k, nf_done = False\<rparr>"
proof -
  have "tracked (\<lambda>f. \<not> nf_done f) (q s) p = Some k"
    using assms by (simp add: tracking_ok_def)
  then show ?thesis by (auto simp: tracked_def split: option.splits if_splits)
qed

lemma ended_tracked:
  "tracking_ok s \<Longrightarrow> ended s n = Some k \<Longrightarrow> tracked nf_done (q s) (base_path n) = Some k"
  by (auto simp: tracking_ok_def)

lemma untracked_file: "tracking_ok s \<Longrightarrow> n \<in> dom (files s) \<Longrightarrow> \<not> is_tracked (q s) n"
  by (simp add: tracking_ok_def)

lemma writers_tracked:
  "tracking_ok s \<Longrightarrow> p \<in> dom (writers s) \<Longrightarrow> p \<in> dom (map_of (new_files (q s)))"
  by (auto dest: writer_tracked)

lemma reserve_tracking:
  assumes "tracking_ok s" and "p \<notin> used s" and "\<forall>n \<in> dom (files s). base_path n \<noteq> p"
    and "reserve p k (q s) = (d, True, logs)" and "accounting (q s)" and "0 \<le> k"
  shows "tracking_ok (s\<lparr>q := d, writers := (writers s)(p \<mapsto> k), used := insert p (used s)\<rparr>)"
proof -
  note r = reserve_okD [OF assms(4,5)]
  have new: "p \<notin> dom (map_of (new_files (q s)))" using assms(1,2) by (auto simp: tracking_ok_def)
  then have "tracked P (q s) p = None" for P
    by (auto simp: tracked_def split: option.splits)
  then show ?thesis
    using assms(1-3,6) r(1,3)
    by (auto simp: tracking_ok_def tracked_update [OF r(1)] is_tracked_iff distinct_update fun_upd_idem)
qed

lemma release_failed:
  assumes "tracking_ok s" and "writers s p = Some k"
  shows "new_files (release p False (q s)) = AList.delete p (new_files (q s))"
    and "total_size (release p False (q s)) = total_size (q s) - k"
  using writer_tracked [OF assms] by (simp_all add: release_def)

lemma release_written:
  assumes "tracking_ok s" and "writers s p = Some k"
  shows "new_files (release p True (q s)) =
      (if measuring (q s) then AList.update p \<lparr>nf_size = k, nf_done = True\<rparr> (new_files (q s))
       else AList.delete p (new_files (q s)))"
    and "total_size (release p True (q s)) = total_size (q s)"
  using writer_tracked [OF assms] by (simp_all add: release_def)

lemma write_fails_tracking:
  assumes "tracking_ok s" and "writers s p = Some k"
  shows "tracking_ok (s\<lparr>q := release p False (q s), writers := (writers s)(p := None)\<rparr>)"
proof -
  note nf = release_failed(1) [OF assms]
  have "tracked nf_done (q s) p = None"
    using writer_tracked [OF assms] by (simp add: tracked_def)
  then show ?thesis
    using assms
    by (auto simp: tracking_ok_def tracked_delete [OF nf] nf is_tracked_iff distinct_delete
        fun_upd_idem split: if_splits)
qed

lemma write_ends_tracking:
  assumes "tracking_ok s" and "writers s (base_path name) = Some k" and "\<not> measuring (q s)"
  shows "tracking_ok (s\<lparr>q := release (base_path name) True (q s),
    writers := (writers s)(base_path name := None), files := (files s)(name \<mapsto> k)\<rparr>)"
proof -
  have nf: "new_files (release (base_path name) True (q s))
      = AList.delete (base_path name) (new_files (q s))"
    using release_written(1) [OF assms(1,2)] assms(3) by simp
  have "tracked nf_done (q s) (base_path name) = None"
    using writer_tracked [OF assms(1,2)] by (simp add: tracked_def)
  then show ?thesis
    using assms
    by (auto simp: tracking_ok_def tracked_delete [OF nf] nf is_tracked_iff distinct_delete
        fun_upd_idem split: if_splits)
qed

lemma write_ends_measuring_tracking:
  assumes "tracking_ok s" and "writers s (base_path name) = Some k" and "measuring (q s)"
  shows "tracking_ok (s\<lparr>q := release (base_path name) True (q s),
    writers := (writers s)(base_path name := None), ended := (ended s)(name \<mapsto> k)\<rparr>)"
proof -
  let ?p = "base_path name"
  have nf: "new_files (release ?p True (q s))
      = AList.update ?p \<lparr>nf_size = k, nf_done = True\<rparr> (new_files (q s))"
    using release_written(1) [OF assms(1,2)] assms(3) by simp
  have wt: "map_of (new_files (q s)) ?p = Some \<lparr>nf_size = k, nf_done = False\<rparr>"
    using writer_tracked [OF assms(1,2)] .
  then have none: "tracked nf_done (q s) ?p = None" by (simp add: tracked_def)
  then have fresh: "\<forall>n \<in> dom (ended s). base_path n \<noteq> ?p"
    using ended_tracked [OF assms(1)] by fastforce
  have dom_same: "dom (map_of (new_files (release ?p True (q s)))) = dom (map_of (new_files (q s)))"
    using nf wt by auto
  have "inj_on base_path (insert name (dom (ended s)))"
    using assms(1) fresh by (auto simp: tracking_ok_def)
  moreover have "walk s \<noteq> None" using assms(1,3) by (simp add: tracking_ok_def)
  ultimately show ?thesis
    using assms(1,3) fresh dom_same
    by (auto simp: tracking_ok_def tracked_update [OF nf] is_tracked_iff nf distinct_update
        split: if_splits)
qed

lemma measure_ends_tracking:
  assumes "tracking_ok s" and "finish_measure w ok (q s) = (d, n, ok', logs)"
  shows "tracking_ok (s\<lparr>q := d, walk := None, files := files s ++ ended s, ended := Map.empty\<rparr>)"
proof -
  note f = finish_measureD [OF assms(2)]
  have dist: "distinct (map fst (new_files (q s)))" using assms(1) by (simp add: tracking_ok_def)
  note t = tracked_filter [OF f(1) dist]
  have dom: "p \<in> dom (map_of (new_files d)) \<longleftrightarrow> p \<in> dom (writers s)" for p
    using t assms(1) by (simp add: tracked_dom tracking_ok_def)
  have "\<not> is_tracked d name" if "name \<in> dom (files s)" for name
    using untracked_file [OF assms(1) that] writers_tracked [OF assms(1)] dom
    by (simp add: is_tracked_iff) blast
  moreover have "\<not> is_tracked d name" if "name \<in> dom (ended s)" for name
  proof -
    from that obtain k where "ended s name = Some k" by blast
    then have "tracked nf_done (q s) (base_path name) = Some k"
      by (rule ended_tracked [OF assms(1)])
    then have "writers s (base_path name) = None"
      using writer_tracked [OF assms(1), of "base_path name"]
      by (cases "writers s (base_path name)") (auto simp: tracked_def)
    then show ?thesis using dom [of "base_path name"] by (auto simp: is_tracked_iff)
  qed
  moreover have "dom (writers s) \<subseteq> used s"
    using writers_tracked [OF assms(1)] assms(1) unfolding tracking_ok_def by blast
  moreover have "dom (map_of (new_files d)) = dom (writers s)" using dom by blast
  moreover have "distinct (map fst (new_files d))" using dist by (simp add: f(1) distinct_filter_fst)
  ultimately show ?thesis
    using assms(1) f(2) t by (auto simp: tracking_ok_def)
qed

lemma dsys_step_tracking:
  assumes "dsys_step s t" and "tracking_ok s" and "accounting (q s)"
  shows "tracking_ok t"
  using assms(1)
proof cases
  case (reserve_ok p k d logs)
  then show ?thesis using reserve_tracking assms(2,3) by blast
next
  case (reserve_full p k d logs)
  then have "d = q s" by (simp add: reserve_fullD)
  with assms(2) reserve_full show ?thesis by simp
next
  case (write_fails p k)
  with write_fails_tracking assms(2) show ?thesis by blast
next
  case (write_ends name k)
  with write_ends_tracking assms(2) show ?thesis by blast
next
  case (write_ends_measuring name k)
  with write_ends_measuring_tracking assms(2) show ?thesis by blast
next
  case walk_begin
  with assms(2) show ?thesis
    by (simp add: tracking_ok_def begin_measure_def is_tracked_def tracked_def)
next
  case (walk_end w d n ok logs)
  with measure_ends_tracking [OF assms(2)] show ?thesis by (simp add: tracking_ok_def)
next
  case (walk_fails w d n ok logs)
  with measure_ends_tracking [OF assms(2)] show ?thesis by simp
next
  case release_waiters
  with assms(2) show ?thesis by (simp add: tracking_ok_def is_tracked_def tracked_def)
next
  case (outside_change fs)
  have "\<not> is_tracked (q s) n" if "n \<in> dom fs" for n
  proof (cases "n \<in> dom (files s)")
    case True
    with untracked_file [OF assms(2)] show ?thesis .
  next
    case False
    with that outside_change(3) have "base_path n \<notin> used s" by blast
    with assms(2) show ?thesis unfolding tracking_ok_def is_tracked_iff by blast
  qed
  with assms(2) outside_change show ?thesis by (auto simp: tracking_ok_def)
qed (use assms(2) in \<open>auto simp: tracking_ok_def\<close>)

lemma walk_okD:
  assumes "walk_ok s" and "walk s = Some w" and "\<not> tainted w"
  shows "counted w \<subseteq> dom (files s)" and "counted w \<subseteq> seen w"
    and "walk_size (acc w) = (\<Sum>n \<in> counted w. the (files s n))"
    and "seen w \<inter> dom (files s) \<subseteq> counted w \<union> set_option (pending w)"
    and "set_option (pending w) \<subseteq> seen w - counted w"
  using assms by (auto simp: walk_ok_def)

lemma walk_ok_cong:
  "walk_ok s \<Longrightarrow> walk t = walk s \<Longrightarrow> files t = files s \<Longrightarrow> walk_ok t"
  by (simp add: walk_ok_def)

lemma walk_check_ok:
  assumes "walk_ok s" and "tracking_ok s" and "walk s = Some w" and "pending w = None"
    and "name \<notin> seen w"
  shows "walk_ok (s\<lparr>walk := Some (w\<lparr>seen := insert name (seen w),
    pending := (if visit_decide False (q s) name False None = Stat then Some name else None)\<rparr>)\<rparr>)"
proof -
  have "visit_decide False (q s) name False None = Stat" if "name \<in> dom (files s)"
    using untracked_file [OF assms(2) that] by (simp add: visit_decide_def)
  then show ?thesis
    using assms(4,5) walk_okD [OF assms(1,3)] by (auto simp: walk_ok_def)
qed

lemma walk_stat_ok:
  assumes "walk_ok s" and "tracking_ok s" and "walk s = Some w" and "pending w = Some name"
    and "info = (case files s name of None \<Rightarrow> Inl NotExist | Some k \<Rightarrow> Inr k)"
  shows "walk_ok (s\<lparr>walk := Some (w\<lparr>acc := visit_stat info (acc w), pending := None,
    counted := (if files s name = None then counted w else insert name (counted w))\<rparr>)\<rparr>)"
proof -
  have "finite (dom (files s))" using assms(2) by (simp add: tracking_ok_def)
  then have fin: "finite (counted w)" if "\<not> tainted w"
    using walk_okD(1) [OF assms(1,3) that] finite_subset by blast
  show ?thesis
  proof (cases "files s name")
    case None
    then have "seen w \<inter> dom (files s) \<subseteq> counted w" if "\<not> tainted w"
      using walk_okD(4) [OF assms(1,3) that] assms(4) by auto
    with None assms(4,5) walk_okD [OF assms(1,3)] show ?thesis
      by (auto simp: walk_ok_def visit_stat_def walk_skip_def)
  next
    case (Some k)
    with assms(4,5) walk_okD [OF assms(1,3)] fin show ?thesis
      by (auto simp: walk_ok_def visit_stat_def)
  qed
qed

lemma dsys_step_walk:
  assumes "dsys_step s t" and "tracking_ok s" and "walk_ok s"
  shows "walk_ok t"
  using assms(1)
proof cases
  case (walk_check w name)
  with walk_check_ok [OF assms(3,2)] show ?thesis by simp
next
  case (walk_stat w name info)
  with walk_stat_ok [OF assms(3,2)] show ?thesis by simp
next
  case (write_ends name k)
  then have "walk s = None" using assms(2) by (simp add: tracking_ok_def)
  with write_ends show ?thesis by (simp add: walk_ok_def)
next
  case (walk_begin)
  then show ?thesis by (simp add: walk_ok_def new_walk_def)
qed (use assms(3) in \<open>auto simp: walk_ok_def intro: walk_ok_cong\<close>)

lemma measured_total:
  assumes "tracking_ok s" and "walk_ok s" and "walk s = Some w" and "\<not> tainted w"
    and "pending w = None" and "dom (files s) \<subseteq> seen w"
  shows "walk_size (acc w) + sum_list (map (\<lambda>(p, f). nf_size f) (new_files (q s))) = true_size s"
proof -
  note w = walk_okD [OF assms(2-4)]
  have "counted w = dom (files s)" using w(1,4) assms(5,6) by auto
  then have files: "walk_size (acc w) = msum (files s)" using w(3) by (simp add: msum_def)
  let ?d = "tracked nf_done (q s)" and ?n = "tracked (\<lambda>f. \<not> nf_done f) (q s)"
  let ?all = "\<lambda>p. case map_of (new_files (q s)) p of None \<Rightarrow> None | Some f \<Rightarrow> Some (nf_size f)"
  have all: "?all = ?n ++ ?d"
    by (auto simp: tracked_def fun_eq_iff map_add_def split: option.splits)
  have "dom ?n \<inter> dom ?d = {}" by (auto simp: tracked_def split: option.splits if_splits)
  then have split: "msum ?all = msum ?n + msum ?d"
    unfolding all by (intro msum_add tracked_finite)
  have inj: "inj_on base_path (dom (ended s))" using assms(1) by (simp add: tracking_ok_def)
  have "dom ?d \<subseteq> base_path ` dom (ended s)"
    using assms(1) by (auto simp: tracking_ok_def intro!: imageI)
  moreover have "base_path ` dom (ended s) \<subseteq> dom ?d"
    using ended_tracked [OF assms(1)] by blast
  ultimately have dd: "dom ?d = base_path ` dom (ended s)" by blast
  have "msum ?d = (\<Sum>n \<in> dom (ended s). the (?d (base_path n)))"
    unfolding msum_def dd by (rule sum.reindex [OF inj, unfolded o_def])
  also have "\<dots> = msum (ended s)"
    unfolding msum_def using ended_tracked [OF assms(1)] by (intro sum.cong) auto
  finally have "msum ?d = msum (ended s)" .
  moreover have "?n = writers s" using assms(1) by (simp add: tracking_ok_def)
  moreover have "distinct (map fst (new_files (q s)))" using assms(1) by (simp add: tracking_ok_def)
  ultimately show ?thesis
    using split files sum_new_files [of "new_files (q s)"] by (simp add: true_size_def)
qed

lemma files_ended_disjoint:
  "tracking_ok s \<Longrightarrow> dom (files s) \<inter> dom (ended s) = {}"
proof (rule ccontr)
  assume *: "tracking_ok s" "dom (files s) \<inter> dom (ended s) \<noteq> {}"
  then obtain n k where n: "n \<in> dom (files s)" "ended s n = Some k" by blast
  have "base_path n \<in> dom (map_of (new_files (q s)))"
    using ended_tracked [OF *(1) n(2)] by (simp add: tracked_dom domI)
  with untracked_file [OF *(1) n(1)] show False by (simp add: is_tracked_iff)
qed

lemma ended_to_files:
  "tracking_ok s \<Longrightarrow> msum (files s ++ ended s) = msum (files s) + msum (ended s)"
  using files_ended_disjoint by (intro msum_add) (auto simp: tracking_ok_def)

text \<open>How each step changes the true size.\<close>

lemma writers_finite: "tracking_ok s \<Longrightarrow> finite (dom (writers s))"
  using tracked_finite [of "\<lambda>f. \<not> nf_done f" "q s"] by (simp add: tracking_ok_def)

lemma writer_end_name_free:
  assumes "tracking_ok s" and "writers s (base_path name) = Some k"
  shows "name \<notin> dom (files s)" and "name \<notin> dom (ended s)"
proof -
  note t = writer_tracked [OF assms]
  show "name \<notin> dom (files s)"
    using untracked_file [OF assms(1), of name] t by (auto simp: is_tracked_iff)
  have "tracked nf_done (q s) (base_path name) = None" using t by (simp add: tracked_def)
  then show "name \<notin> dom (ended s)" using ended_tracked [OF assms(1)] by force
qed

lemma dsys_step_total:
  assumes "dsys_step s t" and "dsys_ok s"
  shows "total_ok t \<and> (known s \<and> known t \<longrightarrow>
    true_size t \<le> (if dlq_max (q s) > 0 then max (true_size s) (dlq_max (q s)) else true_size t))"
proof -
  have ok: "accounting (q s)" "tracking_ok s" "walk_ok s" "total_ok s"
    using assms(2) by (simp_all add: dsys_ok_def)
  note fin = writers_finite [OF ok(2)]
  have finf: "finite (dom (files s))" "finite (dom (ended s))" using ok(2) by (simp_all add: tracking_ok_def)
  from assms(1) show ?thesis
  proof cases
    case (reserve_ok p k d logs)
    note r = reserve_okD [OF reserve_ok(6) ok(1)]
    have "p \<notin> dom (writers s)"
      using reserve_ok(2) writers_tracked [OF ok(2), of p] ok(2) unfolding tracking_ok_def by blast
    then have "true_size t = true_size s + k"
      using reserve_ok(1) fin by (simp add: true_size_def msum_insert)
    then show ?thesis using r(2,6) ok(4) reserve_ok(1) by (auto simp: total_ok_def)
  next
    case (reserve_full p k d logs)
    then have "d = q s" by (simp add: reserve_fullD)
    then show ?thesis using reserve_full ok(4) by (simp add: total_ok_def true_size_def)
  next
    case (write_fails p k)
    then have "true_size t = true_size s - k"
      using fin by (simp add: true_size_def msum_remove)
    moreover have "0 \<le> k" using ok(2) write_fails(2) by (simp add: tracking_ok_def)
    ultimately show ?thesis
      using write_fails release_failed(2) [OF ok(2)] ok(4) by (auto simp: total_ok_def)
  next
    case (write_ends name k)
    then have "true_size t = true_size s"
      using fin finf writer_end_name_free [OF ok(2), of name k]
      by (simp add: true_size_def msum_remove msum_insert)
    then show ?thesis
      using write_ends release_written(2) [OF ok(2)] ok(4) by (simp add: total_ok_def)
  next
    case (write_ends_measuring name k)
    then have "true_size t = true_size s"
      using fin finf writer_end_name_free [OF ok(2), of name k]
      by (simp add: true_size_def msum_remove msum_insert)
    then show ?thesis
      using write_ends_measuring release_written(2) [OF ok(2)] ok(4) by (simp add: total_ok_def)
  next
    case (walk_end w d n ok' logs)
    have same: "true_size t = true_size s"
      using walk_end(1) ended_to_files [OF ok(2)] by (simp add: true_size_def)
    note f = finish_measureD [OF walk_end(5)]
    have "total_size d = true_size s" if "\<not> tainted w"
      using measured_total [OF ok(2,3) walk_end(2) that walk_end(3)] walk_end(4) that f(3,4) by simp
    then show ?thesis using same walk_end(1) by (auto simp: total_ok_def)
  next
    case (walk_fails w d n ok' logs)
    have same: "true_size t = true_size s"
      using walk_fails(1) ended_to_files [OF ok(2)] by (simp add: true_size_def)
    then show ?thesis
      using finish_measureD(4) [OF walk_fails(3)] walk_fails(1) ok(4) by (simp add: total_ok_def)
  qed (use ok(4) in \<open>auto simp: total_ok_def true_size_def begin_measure_def\<close>)
qed

lemma dsys_start_ok:
  assumes "init_dlq raw = Inr d" and "accounting d" and "finite (dom fs)"
  shows "dsys_ok \<lparr>q = d, writers = Map.empty, files = fs, ended = Map.empty, used = {},
    walk = None, known = False\<rparr>"
proof -
  have "new_files d = []" "\<not> measuring d"
    using assms(1) by (auto simp: init_dlq_def split: sum.splits prod.splits)
  with assms(2,3) show ?thesis
    by (simp add: dsys_ok_def tracking_ok_def walk_ok_def total_ok_def tracked_def is_tracked_def)
qed

lemma dsys_step_accounting:
  assumes "dsys_step s t" and "accounting (q s)"
  shows "accounting (q t) \<and> dlq_max (q t) = dlq_max (q s)"
  using assms(1)
proof cases
  case (reserve_ok p k d logs)
  with reserve_okD [OF reserve_ok(6) assms(2)] assms(2) show ?thesis by (simp add: accounting_def)
next
  case (reserve_full p k d logs)
  then have "d = q s" by (simp add: reserve_fullD)
  with reserve_full assms(2) show ?thesis by simp
next
  case (walk_end w d n ok logs)
  with finish_measureD [OF walk_end(5)] assms(2) show ?thesis by (simp add: accounting_def)
next
  case (walk_fails w d n ok logs)
  with finish_measureD [OF walk_fails(3)] assms(2) show ?thesis by (simp add: accounting_def)
qed (use assms(2) in \<open>auto simp: accounting_def begin_measure_def\<close>)

lemma dsys_step_ok: "dsys_step s t \<Longrightarrow> dsys_ok s \<Longrightarrow> dsys_ok t"
  using dsys_step_accounting dsys_step_tracking dsys_step_walk dsys_step_total
  by (metis dsys_ok_def)

lemma dsys_reachable_ok: "dsys_reachable s \<Longrightarrow> dsys_ok s"
  by (induction rule: dsys_reachable.induct) (auto intro: dsys_start_ok dsys_step_ok)

section \<open>Properties\<close>



definition demo_dlq :: dlq where
  "demo_dlq = \<lparr>dlq_max = 100, dlq_warn = 10, total_size = 0, new_files = [], measuring = False,
     warned = False, measured = OpenChan\<rparr>"

definition demo_state :: dsys where
  "demo_state = \<lparr>q = demo_dlq\<lparr>total_size := 5, measured := ClosedChan\<rparr>, writers = Map.empty,
     files = [''a'' \<mapsto> 5], ended = Map.empty, used = {}, walk = None, known = True\<rparr>"

lemma demo_dlq_init:
  "init_dlq (Some (TTable [(''max_size'', TInt 100), (''warning_size'', TInt 10)])) = Inr demo_dlq"
  by (simp add: init_dlq_def parse_dlq_def cfg_value_def bounded_int_def max_dlq_size_def demo_dlq_def)

lemma demo_finish: "fst (finish_measure (visit_stat (Inr 5) new_walk) True (begin_measure demo_dlq))
    = demo_dlq\<lparr>total_size := 5\<rparr>"
  by (simp add: finish_measure_def warn_if_needed_def visit_stat_def new_walk_def begin_measure_def
      demo_dlq_def Let_def)

lemma demo_measured: "dsys_reachable demo_state"
proof -
  let ?s0 = "\<lparr>q = demo_dlq, writers = Map.empty, files = [''a'' \<mapsto> 5], ended = Map.empty, used = {},
      walk = None, known = False\<rparr> :: dsys"
  let ?w1 = "\<lparr>acc = new_walk, seen = {}, pending = None, counted = {}, tainted = False\<rparr> :: walk"
  let ?s1 = "?s0\<lparr>q := begin_measure (q ?s0), walk := Some ?w1\<rparr>"
  let ?w2 = "?w1\<lparr>seen := insert ''a'' (seen ?w1), pending :=
      (if visit_decide False (q ?s1) ''a'' False None = Stat then Some ''a'' else None)\<rparr>"
  let ?s2 = "?s1\<lparr>walk := Some ?w2\<rparr>"
  let ?w3 = "?w2\<lparr>acc := visit_stat (Inr 5) (acc ?w2), pending := None, counted :=
      (if files ?s2 ''a'' = None then counted ?w2 else insert ''a'' (counted ?w2))\<rparr>"
  let ?s3 = "?s2\<lparr>walk := Some ?w3\<rparr>"
  let ?d = "fst (finish_measure (acc ?w3) True (q ?s3))"
  let ?s4 = "?s3\<lparr>q := ?d, walk := None, files := files ?s3 ++ ended ?s3, ended := Map.empty,
      known := \<not> tainted ?w3\<rparr>"
  let ?s5 = "?s4\<lparr>q := (q ?s4)\<lparr>measured := ClosedChan\<rparr>\<rparr>"
  have stat: "visit_decide False (q ?s1) ''a'' False None = Stat"
    by (simp add: visit_decide_def is_tracked_def begin_measure_def demo_dlq_def)
  have "dsys_reachable ?s0"
    by (rule dsys_reachable.start [OF demo_dlq_init]) (simp_all add: accounting_def demo_dlq_def)
  then have "dsys_reachable ?s1" by (rule dsys_reachable.step) (rule dsys_step.walk_begin, simp)
  then have "dsys_reachable ?s2" by (rule dsys_reachable.step) (rule dsys_step.walk_check, simp_all)
  then have "dsys_reachable ?s3"
    by (rule dsys_reachable.step) (rule dsys_step.walk_stat, use stat in simp_all)
  then have "dsys_reachable ?s4"
    by (rule dsys_reachable.step)
       (rule dsys_step.walk_end [where w = ?w3], simp_all add: prod_eq_iff)
  then have "dsys_reachable ?s5"
    by (rule dsys_reachable.step)
       (rule dsys_step.release_waiters, simp, simp add: demo_finish, simp add: demo_dlq_def)
  then show ?thesis by (simp add: demo_state_def demo_finish)
qed


lemma demo_reserve:
  "dsys_step demo_state
     (demo_state\<lparr>q := fst (reserve ''d/f'' 20 (q demo_state)),
       writers := [''d/f'' \<mapsto> 20], used := {''d/f''}\<rparr>)"
  using dsys_step.reserve_ok [of "''d/f''" "demo_state" 20]
  by (simp add: demo_state_def demo_dlq_def base_path_def trim_suffix_def has_suffix_def has_prefix_def
      incomplete_ext_def reserve_def accounting_def warn_if_needed_def Let_def)


text \<open>A warning is logged once, until a measurement is below the threshold again.\<close>

datatype size_op = Reserve string int | Release string bool

fun size_ops :: "size_op list \<Rightarrow> dlq \<Rightarrow> dlq \<times> dlq_log list" where
  "size_ops [] d = (d, [])"
| "size_ops (Reserve p k # es) d =
     (let (d1, ok, logs) = reserve p k d; (d2, more) = size_ops es d1 in (d2, logs @ more))"
| "size_ops (Release p b # es) d = size_ops es (release p b d)"

definition is_size_warning :: "dlq_log \<Rightarrow> bool" where
  "is_size_warning l = (case l of ReachedWarnSize n \<Rightarrow> True | _ \<Rightarrow> False)"

lemma reserve_warned:
  assumes "reserve p k d = (d', ok, logs)"
  shows "length (filter is_size_warning logs) = (if warned d' \<and> \<not> warned d then 1 else 0)"
    and "warned d \<Longrightarrow> warned d'"
  using assms
  by (auto simp: reserve_def warn_if_needed_def is_size_warning_def Let_def split: if_splits prod.splits)

lemma release_warned [simp]: "warned (release p b d) = warned d"
  by (auto simp: release_def split: option.splits)

text \<open>The size warning is logged at most once. Between two measurements, any sequence of
  reservations and releases logs it exactly when it sets the warned latch, and never when
  the latch was set before.\<close>

theorem dlq_warns_once:
  "length (filter is_size_warning (snd (size_ops es d)))
    = (if warned (fst (size_ops es d)) \<and> \<not> warned d then 1 else 0)"
proof -
  have "length (filter is_size_warning (snd (size_ops es d)))
      = (if warned (fst (size_ops es d)) \<and> \<not> warned d then 1 else 0)
    \<and> (warned d \<longrightarrow> warned (fst (size_ops es d)))"
  proof (induction es arbitrary: d)
    case (Cons e es)
    show ?case
    proof (cases e)
      case (Reserve p k)
      obtain d1 ok logs where r: "reserve p k d = (d1, ok, logs)" by (metis prod.exhaust)
      obtain d2 more where m: "size_ops es d1 = (d2, more)" by (metis prod.exhaust)
      have "length (filter is_size_warning more) = (if warned d2 \<and> \<not> warned d1 then 1 else 0)"
        and "warned d1 \<Longrightarrow> warned d2"
        using Cons [of d1] m by simp_all
      moreover have "size_ops (e # es) d = (d2, logs @ more)" using r m Reserve by simp
      moreover note reserve_warned [OF r]
      ultimately show ?thesis
        by (cases "warned d"; cases "warned d1"; cases "warned d2") simp_all
    next
      case (Release p b)
      with Cons [of "release p b d"] show ?thesis by simp
    qed
  qed simp
  then show ?thesis by blast
qed

section \<open>The measurement loop\<close>

definition delay_ok :: "remeasure \<Rightarrow> bool" where
  "delay_ok r \<longleftrightarrow> (\<exists>k \<le> 3. next_delay r = remeasure_min_delay * 2 ^ k)"

lemma next_remeasure_delay_ok:
  "\<exists>k \<le> 3. delay = remeasure_min_delay * 2 ^ k
    \<Longrightarrow> \<exists>k \<le> 3. next_remeasure_delay delay changed = remeasure_min_delay * 2 ^ k"
proof -
  assume "\<exists>k \<le> 3. delay = remeasure_min_delay * 2 ^ k"
  then obtain k :: nat where k: "k \<le> 3" "delay = remeasure_min_delay * 2 ^ k" by blast
  then consider "k = 0" | "k = 1" | "k = 2" | "k = 3" by linarith
  then show ?thesis
  proof cases
    case 1
    with k show ?thesis
      by (intro exI [of _ "if changed then 0 else 1"])
         (simp add: next_remeasure_delay_def remeasure_min_delay_def remeasure_max_delay_def)
  next
    case 2
    with k show ?thesis
      by (intro exI [of _ "if changed then 0 else 2"])
         (simp add: next_remeasure_delay_def remeasure_min_delay_def remeasure_max_delay_def)
  next
    case 3
    with k show ?thesis
      by (intro exI [of _ "if changed then 0 else 3"])
         (simp add: next_remeasure_delay_def remeasure_min_delay_def remeasure_max_delay_def)
  next
    case 4
    with k show ?thesis
      by (intro exI [of _ "if changed then 0 else 3"])
         (simp add: next_remeasure_delay_def remeasure_min_delay_def remeasure_max_delay_def)
  qed
qed

lemma delay_ok_range: "delay_ok r \<Longrightarrow> remeasure_min_delay \<le> next_delay r \<and> next_delay r \<le> remeasure_max_delay"
proof -
  assume "delay_ok r"
  then obtain k :: nat where k: "k \<le> 3" "next_delay r = remeasure_min_delay * 2 ^ k"
    by (auto simp: delay_ok_def)
  have "(1::int) \<le> 2 ^ k" by simp
  moreover have "(2::int) ^ k \<le> 2 ^ 3" by (rule power_increasing) (use k(1) in auto)
  ultimately have "(1::int) \<le> 2 ^ k" "(2::int) ^ k \<le> 8" by simp_all
  with k(2) show ?thesis by (simp add: remeasure_min_delay_def remeasure_max_delay_def)
qed

text \<open>The measurement loop's pace. From its start on, the delay between measurements is
  421 seconds times a power of two, hence at most an hour; a signal of a finished write
  resets the delay, never postpones the next measurement and brings it within 421 seconds;
  an unchanged size at most doubles the delay, and a changed one resets it.\<close>

theorem measure_loop_pace:
  assumes "delay_ok r" and "measure_loop_step e r = Some r'"
  shows "delay_ok r' \<and> remeasure_min_delay \<le> next_delay r' \<and> next_delay r' \<le> remeasure_max_delay
    \<and> delay_ok (measure_loop_start n now)
    \<and> (\<forall>t. e = WaitLess t \<longrightarrow> next_check r' \<le> next_check r \<and> next_check r' \<le> t + remeasure_min_delay
        \<and> next_delay r' = remeasure_min_delay)
    \<and> (\<forall>m ok t. e = TimerFired m ok t \<longrightarrow> next_check r' = t + next_delay r'
        \<and> (ok \<and> m \<noteq> prev_size r \<longrightarrow> next_delay r' = remeasure_min_delay)
        \<and> next_delay r' \<le> 2 * next_delay r)"
proof -
  have zero: "\<exists>k \<le> 3. remeasure_min_delay = remeasure_min_delay * 2 ^ (k::nat)"
    by (intro exI [of _ 0]) simp
  have ok: "delay_ok r'"
  proof (cases e)
    case (TimerFired m ok t)
    with assms next_remeasure_delay_ok [of "next_delay r" "m \<noteq> prev_size r"] show ?thesis
      by (auto simp: delay_ok_def Let_def)
  next
    case (WaitLess t)
    with assms(2) zero show ?thesis by (auto simp: delay_ok_def Let_def)
  qed (use assms(2) in simp)
  note range = delay_ok_range [OF assms(1)] delay_ok_range [OF ok]
  have start: "delay_ok (measure_loop_start n now)"
    using zero by (simp add: delay_ok_def measure_loop_start_def)
  show ?thesis
  proof (cases e)
    case (TimerFired m ok t)
    with assms(2) range start \<open>delay_ok r'\<close> show ?thesis
      by (auto simp: Let_def next_remeasure_delay_def remeasure_min_delay_def)
  next
    case (WaitLess t)
    with assms(2) range start \<open>delay_ok r'\<close> show ?thesis by (auto simp: Let_def)
  qed (use assms(2) in simp)
qed

theorem measure_loop_pace_witness:
  "next_delay (the (measure_loop_step (TimerFired 5 True 10) (measure_loop_start 5 0)))
     \<le> 2 * next_delay (measure_loop_start 5 0)"
proof -
  have ok: "delay_ok (measure_loop_start 5 0)"
    unfolding delay_ok_def measure_loop_start_def by (intro exI [of _ 0]) simp
  have "measure_loop_step (TimerFired 5 True 10) (measure_loop_start 5 0)
      = Some (the (measure_loop_step (TimerFired 5 True 10) (measure_loop_start 5 0)))"
    by simp
  from measure_loop_pace [OF ok this] show ?thesis by blast
qed

end
