(* ===== verification/DLQ.thy ===== *)
theory DLQ
  imports DLQSize Codec Flow
begin

text \<open>
  Writing to the Dead-Letter Queue (pkg/dest/dlq.go): file names, the encoding of
  structured data with its lossy fallback, one attempt to write a file, the attempts of one
  file, and Send. What the operating system answers is an input of each attempt.
\<close>

section \<open>File names\<close>

definition strip_invalid_char :: "char \<Rightarrow> bool" where
  "strip_invalid_char r \<longleftrightarrow>
     char_code r < 48 \<or> (char_code r > 57 \<and> r \<noteq> CHR ''_'' \<and> char_code r < 97) \<or> char_code r > 122"

text \<open>strings.Map with stripInvalidChars drops the characters for which it returns -1.\<close>

definition file_extension :: "format \<Rightarrow> string" where
  "file_extension fmt =
     (if fmt = [] \<or> fmt = format_default then []
      else
        (let ext = CHR ''.'' # filter (\<lambda>r. \<not> strip_invalid_char r) (to_lower fmt)
         in if ext = ''.'' then [] else ext))"

section \<open>Encoding\<close>

text \<open>The two encoders are arguments in the Go code as well.\<close>

definition encode_structured ::
  "'c \<Rightarrow> format \<Rightarrow> (json_format \<Rightarrow> 'c \<Rightarrow> bytes option) \<Rightarrow> ('c \<Rightarrow> bytes) \<Rightarrow> (bytes list \<times> string) option"
  where
  "encode_structured chunk fmt strict lossy =
     (case resolve_format fmt format_json of
        None \<Rightarrow> None
      | Some (f, fmtr) \<Rightarrow>
          Some (case strict fmtr chunk of
                  Some content \<Rightarrow> ([content], file_extension f)
                | None \<Rightarrow>
                    (let buf = lossy chunk
                     in if buf = [] then ([], []) else ([buf], ''.lossy_ndjson''))))"

section \<open>One attempt\<close>

datatype write_result = WriteOK | WriteRetry | WriteAbort

type_synonym disk = "(string \<times> bytes) list"

text \<open>
  What happens to one attempt: the path that uniqueKSortablePath made for it, and which
  system calls fail. \<open>write_error\<close> is the number of bytes that were written before writing
  or syncing failed.
\<close>

record write_env =
  path_dir :: string
  path_file :: string
  mkdir_error :: bool
  open_error :: bool
  write_error :: "nat option"
  remove_error :: bool
  rename_error :: bool

definition dlq_attempts :: nat where
  "dlq_attempts = 3"

definition final_path :: "write_env \<Rightarrow> string \<Rightarrow> string" where
  "final_path e ext = path_dir e @ ''/'' @ path_file e @ ext"

definition temp_path :: "write_env \<Rightarrow> string \<Rightarrow> string" where
  "temp_path e ext = final_path e ext @ incomplete_ext"

text \<open>O_EXCL makes opening fail when the temporary file exists.\<close>

definition async_write_file ::
  "write_env \<Rightarrow> bytes \<Rightarrow> string \<Rightarrow> dlq \<times> disk \<Rightarrow> (dlq \<times> disk) \<times> write_result" where
  "async_write_file e data ext s =
     (let (d, dk) = s; fp = final_path e ext; tp = temp_path e ext;
          (d1, reserved, logs) = reserve fp (int (length data)) d
      in if \<not> reserved then ((d1, dk), WriteAbort)
         else if mkdir_error e then ((release fp False d1, dk), WriteRetry)
         else if open_error e \<or> map_of dk tp \<noteq> None then ((release fp False d1, dk), WriteRetry)
         else
           (case write_error e of
              Some k \<Rightarrow>
                (let dk1 = AList.update tp (take k data) dk;
                     dk2 = (if remove_error e then dk1 else AList.delete tp dk1)
                 in ((release fp False d1, dk2), WriteRetry))
            | None \<Rightarrow>
                (let dk1 = AList.update tp data dk;
                     dk2 = (if rename_error e then dk1 else AList.update fp data (AList.delete tp dk1))
                 in ((release fp True d1, dk2), WriteOK))))"

text \<open>Up to three attempts, each with a path of its own.\<close>

fun write_attempts ::
  "write_env list \<Rightarrow> bytes \<Rightarrow> string \<Rightarrow> dlq \<times> disk \<Rightarrow> (dlq \<times> disk) \<times> write_result" where
  "write_attempts [] data ext s = (s, WriteRetry)"
| "write_attempts (e # es) data ext s =
     (case async_write_file e data ext s of
        (s1, WriteRetry) \<Rightarrow> write_attempts es data ext s1
      | (s1, r) \<Rightarrow> (s1, r))"

text \<open>
  The goroutine that Send starts: it gives up when the queue started closing before the
  first measurement ended, and otherwise writes every non-empty file. \<open>envs i\<close> are the
  attempts of file \<open>i\<close>.
\<close>

fun write_files ::
  "(nat \<Rightarrow> write_env list) \<Rightarrow> nat \<Rightarrow> bytes list \<Rightarrow> string \<Rightarrow> dlq \<times> disk \<Rightarrow> dlq \<times> disk" where
  "write_files envs i [] ext s = s"
| "write_files envs i (file # rest) ext s =
     (if file = [] then write_files envs (Suc i) rest ext s
      else write_files envs (Suc i) rest ext
             (fst (write_attempts (take dlq_attempts (envs i)) file ext s)))"

datatype send_outcome = Ignored | Discarded | Accepted

definition dlq_send ::
  "(('v, 'r, 'p) chunk \<Rightarrow> bytes list \<times> string) \<Rightarrow> ('v, 'r, 'p) chunk option \<Rightarrow> bool \<Rightarrow> bool
    \<Rightarrow> (nat \<Rightarrow> write_env list) \<Rightarrow> dlq \<times> disk \<Rightarrow> (dlq \<times> disk) \<times> send_outcome" where
  "dlq_send encode data is_clos size_known envs s =
     (case data of
        None \<Rightarrow> (s, Ignored)
      | Some c \<Rightarrow>
          (if is_empty_chunk data then (s, Ignored)
           else if is_clos then (s, Discarded)
           else if \<not> size_known then (s, Discarded)
           else (let (fs, ext) = encode c in (write_files envs 0 fs ext s, Accepted))))"

section \<open>Properties\<close>

text \<open>A file extension is a safe part of a path. For any format, even one that an HTTP
  client chose, the extension is empty or a dot followed by at least one character, all of
  them lower-case letters, digits or underscores: never a path separator, another dot or
  a control character.\<close>

theorem file_extension_safe:
  "file_extension fmt = []
   \<or> (\<exists>s. file_extension fmt = CHR ''.'' # s \<and> s \<noteq> []
       \<and> (\<forall>c \<in> set s. is_digit c \<or> c = CHR ''_'' \<or> is_lower c))"
proof -
  have "is_digit c \<or> c = CHR ''_'' \<or> is_lower c" if "\<not> strip_invalid_char c" for c
    using that by (auto simp: strip_invalid_char_def is_digit_def is_lower_def)
  then show ?thesis by (auto simp: file_extension_def Let_def)
qed

theorem file_extension_safe_witness:
  "list_all (\<lambda>c. is_digit c \<or> c = CHR ''_'' \<or> is_lower c) (tl (file_extension ''../JSON Array''))"
  using file_extension_safe [of "''../JSON Array''"] by (auto simp: list_all_iff)

lemma release_reserve_failed:
  assumes "reserve p k d = (d1, True, logs)" and "map_of (new_files d) p = None" and "accounting d"
  shows "total_size (release p False d1) = total_size d"
    and "map_of (new_files (release p False d1)) = map_of (new_files d)"
  using reserve_okD [OF assms(1,3)] assms(2) by (auto simp: release_def)

lemma release_reserve_written:
  assumes "reserve p k d = (d1, True, logs)" and "map_of (new_files d) p = None" and "accounting d"
  shows "total_size (release p True d1) = total_size d + k"
  using reserve_okD [OF assms(1,3)] by (auto simp: release_def)

text \<open>One attempt is all or nothing. Of an attempt with a fresh path: success stores the
  whole data once, under its final path, or under its temporary path if only the renaming
  failed, and accounts for its size; a full queue changes nothing; and a failure leaves the
  accounted size and the tracked files as they were, and no new file either (unless removing
  the incomplete file failed too). Other files are never touched.\<close>

theorem async_write_file_outcome:
  assumes "async_write_file e data ext (d, dk) = ((d', dk'), r)" and "accounting d"
    and "map_of (new_files d) (final_path e ext) = None"
    and "map_of dk (final_path e ext) = None" and "map_of dk (temp_path e ext) = None"
  shows "(case r of
      WriteOK \<Rightarrow> total_size d' = total_size d + int (length data)
        \<and> map_of dk' = (map_of dk)((if rename_error e then temp_path e ext else final_path e ext) \<mapsto> data)
    | WriteAbort \<Rightarrow> d' = d \<and> dk' = dk \<and> 0 < dlq_max d \<and> total_size d + int (length data) > dlq_max d
    | WriteRetry \<Rightarrow> total_size d' = total_size d \<and> map_of (new_files d') = map_of (new_files d)
        \<and> (\<forall>p. p \<noteq> temp_path e ext \<longrightarrow> map_of dk' p = map_of dk p)
        \<and> (\<not> remove_error e \<longrightarrow> map_of dk' = map_of dk))"
proof -
  obtain d1 ok logs where r: "reserve (final_path e ext) (int (length data)) d = (d1, ok, logs)"
    by (metis prod.exhaust)
  show ?thesis
  proof (cases ok)
    case False
    then have "d1 = d" using r reserve_fullD by simp
    with False assms(1,2) r show ?thesis
      by (auto simp: async_write_file_def reserve_def Let_def split: if_splits prod.splits)
  next
    case True
    with r have r1: "reserve (final_path e ext) (int (length data)) d = (d1, True, logs)" by simp
    note fail = release_reserve_failed [OF r1 assms(3,2)] and wrote = release_reserve_written [OF r1 assms(3,2)]
    from assms(1,4,5) r1 fail wrote show ?thesis
      by (auto simp: async_write_file_def Let_def fun_eq_iff temp_path_def incomplete_ext_def
          split: if_splits option.splits)
  qed
qed

definition demo_env :: write_env where
  "demo_env = \<lparr>path_dir = ''d'', path_file = ''f'', mkdir_error = False, open_error = False,
     write_error = None, remove_error = False, rename_error = False\<rparr>"

theorem async_write_file_outcome_witness:
  "map_of (snd (fst (async_write_file demo_env ''xyz'' ''.json'' (demo_dlq, [])))) = [''d/f.json'' \<mapsto> ''xyz'']"
proof -
  obtain d' dk' where w: "async_write_file demo_env ''xyz'' ''.json'' (demo_dlq, []) = ((d', dk'), WriteOK)"
    by (simp add: async_write_file_def demo_env_def demo_dlq_def reserve_def accounting_def
        warn_if_needed_def Let_def)
  have "accounting demo_dlq" "new_files demo_dlq = []" by (simp_all add: accounting_def demo_dlq_def)
  with async_write_file_outcome [OF w] w show ?thesis
    by (simp add: demo_env_def final_path_def)
qed

text \<open>How many files hold a given content.\<close>

lemma write_attempts_disk:
  assumes "write_attempts es data ext (d, dk) = ((d', dk'), r)" and "accounting d"
    and "\<forall>e \<in> set es. \<not> remove_error e"
    and "distinct (map (\<lambda>e. final_path e ext) es)"
    and "\<forall>e \<in> set es. map_of (new_files d) (final_path e ext) = None
      \<and> map_of dk (final_path e ext) = None \<and> map_of dk (temp_path e ext) = None"
  shows "(r = WriteOK \<longrightarrow> (\<exists>p. map_of dk p = None \<and> map_of dk' = (map_of dk)(p \<mapsto> data)
        \<and> total_size d' = total_size d + int (length data)))
    \<and> (r \<noteq> WriteOK \<longrightarrow> map_of dk' = map_of dk \<and> total_size d' = total_size d)"
  using assms
proof (induction es arbitrary: d dk)
  case (Cons e es)
  obtain d1 dk1 r1 where one: "async_write_file e data ext (d, dk) = ((d1, dk1), r1)" by (metis prod.exhaust)
  have fresh: "map_of (new_files d) (final_path e ext) = None" "map_of dk (final_path e ext) = None"
      "map_of dk (temp_path e ext) = None" "\<not> remove_error e"
    using Cons.prems(3,5) by auto
  note out = async_write_file_outcome [OF one Cons.prems(2) fresh(1-3)]
  show ?case
  proof (cases r1)
    case WriteOK
    with Cons.prems(1) one have "d' = d1" "dk' = dk1" "r = WriteOK" by auto
    with out WriteOK fresh show ?thesis
      by (auto intro!: exI [of _ "if rename_error e then temp_path e ext else final_path e ext"])
  next
    case WriteAbort
    with Cons.prems(1) one out show ?thesis by auto
  next
    case WriteRetry
    with out fresh have same: "total_size d1 = total_size d" "map_of (new_files d1) = map_of (new_files d)"
      "map_of dk1 = map_of dk" by auto
    have acc: "accounting d1" using one Cons.prems(2)
      by (auto simp: async_write_file_def reserve_def accounting_def warn_if_needed_def Let_def
          split: if_splits prod.splits option.splits)
    from WriteRetry Cons.prems(1) one have "write_attempts es data ext (d1, dk1) = ((d', dk'), r)" by simp
    from Cons.IH [OF this acc] Cons.prems(3-5) same show ?thesis by auto
  qed
qed simp

text \<open>C18: Data is written once or not at all. Over its attempts with different fresh paths, and
  as long as incomplete files can be removed, either exactly one new file holds the data,
  in full, and its size is accounted for; or no attempt succeeded and both the directory
  and the accounted size are as before. No retry duplicates data.\<close>

theorem write_attempts_once:
  assumes "write_attempts es data ext (d, dk) = ((d', dk'), r)" and "accounting d"
    and "\<forall>e \<in> set es. \<not> remove_error e"
    and "distinct (map (\<lambda>e. final_path e ext) es)"
    and "\<forall>e \<in> set es. map_of (new_files d) (final_path e ext) = None
      \<and> map_of dk (final_path e ext) = None \<and> map_of dk (temp_path e ext) = None"
  shows "(r = WriteOK \<and> (\<exists>p. map_of dk p = None \<and> map_of dk' = (map_of dk)(p \<mapsto> data)
        \<and> total_size d' = total_size d + int (length data)))
    \<or> (r \<noteq> WriteOK \<and> map_of dk' = map_of dk \<and> total_size d' = total_size d)"
  using write_attempts_disk [OF assms] by (cases "r = WriteOK") auto

theorem write_attempts_once_witness:
  "\<exists>d' dk'. write_attempts [demo_env\<lparr>open_error := True\<rparr>, demo_env\<lparr>path_file := ''g''\<rparr>] ''xyz'' ''.json''
      (demo_dlq, []) = ((d', dk'), WriteOK) \<and> total_size d' = 3"
proof -
  let ?es = "[demo_env\<lparr>open_error := True\<rparr>, demo_env\<lparr>path_file := ''g''\<rparr>]"
  have acc: "accounting demo_dlq" "new_files demo_dlq = []" by (simp_all add: accounting_def demo_dlq_def)
  obtain d' dk' where w: "write_attempts ?es ''xyz'' ''.json'' (demo_dlq, []) = ((d', dk'), WriteOK)"
    by (simp add: async_write_file_def demo_env_def demo_dlq_def reserve_def accounting_def release_def
        warn_if_needed_def final_path_def temp_path_def Let_def)
  have "total_size d' = total_size demo_dlq + 3"
    using write_attempts_once [OF w acc(1)] acc(2) by (simp add: demo_env_def final_path_def)
  with w show ?thesis by (simp add: demo_dlq_def)
qed

end
