(* ===== verification/Startup.thy ===== *)
theory Startup
  imports HttpReceiver SqlCollector DLQ "HOL-Library.List_Lexorder" "HOL-Library.Char_ord"
begin

text \<open>
  How the program comes up (cmd/versi): the map of senders (senders.go), the collectors and
  the pool of goroutines that starts them (collectors.go), the receivers (receivers.go), and
  the decisions of main (main.go). What a configuration file contains is the argument; what
  the parts of it mean is decided by the theories of the components.
\<close>

section \<open>Senders\<close>

definition sender_type_stdout :: string where "sender_type_stdout = ''stdout''"

definition valid_sender_types :: "string list" where
  "valid_sender_types = [type_http, type_http3]"

text \<open>
  ReplaceAllString of the expression that matches an index in brackets at the end of a name;
  a match has to end there, so there is one at most.
\<close>

definition cut_index_suffix :: "string \<Rightarrow> string" where
  "cut_index_suffix name =
     (case rev name of
        c # r \<Rightarrow>
          (let digits = takeWhile is_digit r; before = dropWhile is_digit r
           in if c = CHR '']'' \<and> digits \<noteq> [] \<and> before \<noteq> [] \<and> hd before = CHR ''[''
              then rev (tl before) else name)
      | [] \<Rightarrow> name)"

text \<open>What strings.CutLast leaves behind the last dot, if there is one.\<close>

definition leaf :: "string \<Rightarrow> string" where
  "leaf name = (if CHR ''.'' \<in> set name then rev (takeWhile (\<lambda>c. c \<noteq> CHR ''.'') (rev name)) else name)"

definition sender_base_type :: "string \<Rightarrow> string" where
  "sender_base_type name = leaf (cut_index_suffix name)"

text \<open>
  The values of the map: the three senders of package dest, HTTP senders, and the nil pointer
  that stays in the map when a sender could not be created.
\<close>

datatype 'c sender_ref =
  DiscardSender
| StdoutSender
| DlqSender dlq
| HttpSender "'c http_sender"
| NilSender

text \<open>
  The parameters of the whole start: files and parsers of third-party code, addresses, time
  zones, the clock at the creation of each collector, whether the directory of the
  dead-letter queue opens, and what starting each component comes to.
\<close>

datatype start_result = StartSucceeds | StartFails | StartPanics

record startup_env =
  files_env :: auth_env
  certs_env :: tls_env
  nets_env :: net_env
  zones_env :: zones
  clock :: "string \<Rightarrow> instant"
  root_opens :: bool
  collector_starts :: "string \<Rightarrow> start_result"
  receiver_starts :: "string \<Rightarrow> bool"

definition builtin_senders :: "(string \<times> 'c sender_ref) list" where
  "builtin_senders =
     [([], DiscardSender), (sender_type_discard, DiscardSender), (sender_type_none, DiscardSender),
      (sender_type_stdout, StdoutSender), (sender_type_dlq, DiscardSender)]"

definition add_sender ::
  "startup_env \<Rightarrow> string \<times> table \<Rightarrow> (string \<times> 'c sender_ref) list \<times> bool \<Rightarrow> (string \<times> 'c sender_ref) list \<times> bool" where
  "add_sender env = (\<lambda>(name, cfg) (senders, ok).
     if cfg = [] then (senders, ok)
     else if sender_base_type name \<notin> {type_http, type_http3} then (senders, False)
     else (case new_sender (files_env env) (certs_env env) cfg name (sender_base_type name)
                  (map_of senders sender_type_dlq \<noteq> None) of
             Inl e \<Rightarrow> (AList.update name NilSender senders, False)
           | Inr s \<Rightarrow> (AList.update name (HttpSender s) senders, ok)))"

definition init_senders :: "startup_env \<Rightarrow> table \<Rightarrow> (string \<times> 'c sender_ref) list \<times> bool" where
  "init_senders env cfg =
     fold (add_sender env) (extract_sub_submaps cfg ''sender'' valid_sender_types)
       (case init_dlq (map_of cfg ''dead_letter_queue'') of
          Inl e \<Rightarrow> (builtin_senders, False)
        | Inr d \<Rightarrow> (if root_opens env then (AList.update sender_type_dlq (DlqSender d) builtin_senders, True)
                     else (builtin_senders, False)))"

section \<open>Collectors and receivers\<close>

datatype 'c collector = WebCollector http_collector | DbCollector "'c sql_collector"

fun collector_base :: "'c collector \<Rightarrow> base_collector" where
  "collector_base (WebCollector c) = base_collector.truncate c"
| "collector_base (DbCollector c) = base_collector.truncate c"

datatype init_error =
  BadBase base_error
| NoSubsection string
| BadHttpCollector collector_error
| BadSqlCollector sql_error
| BadHttpReceiver receiver_error
| UnhandledType string

definition inner_section :: "table \<Rightarrow> string \<Rightarrow> table option" where
  "inner_section cfg ty =
     (case map_of cfg ty of
        Some (TTable t) \<Rightarrow> if t = [] then None else Some t
      | _ \<Rightarrow> None)"

text \<open>The outer option is \<open>None\<close> if the search for the first time of a schedule never returns.\<close>

definition make_collector ::
  "startup_env \<Rightarrow> string list \<Rightarrow> string \<Rightarrow> table \<Rightarrow> (init_error + 'c collector) option" where
  "make_collector env senders name cfg =
     (case new_base_collector (zones_env env) (clock env name) cfg name senders of
        None \<Rightarrow> None
      | Some (Inl e) \<Rightarrow> Some (Inl (BadBase e))
      | Some (Inr base) \<Rightarrow>
          Some (case inner_section cfg (base_type base) of
                  None \<Rightarrow> Inl (NoSubsection (base_type base))
                | Some inner \<Rightarrow>
                    (if base_type base = type_http \<or> base_type base = type_http3
                     then map_sum BadHttpCollector WebCollector
                            (new_http_collector (files_env env) (certs_env env) base inner)
                     else if base_type base = type_sql
                     then map_sum BadSqlCollector DbCollector (new_sql_collector (read_file (files_env env)) base inner)
                     else Inl (UnhandledType (base_type base)))))"

text \<open>All sections are tried, whatever the others come to; empty ones are ignored.\<close>

fun make_collectors ::
  "startup_env \<Rightarrow> string list \<Rightarrow> (string \<times> table) list \<Rightarrow> ((string \<times> init_error) list \<times> 'c collector list) option" where
  "make_collectors env senders [] = Some ([], [])"
| "make_collectors env senders ((name, cfg) # rest) =
     (if cfg = [] then make_collectors env senders rest
      else (case make_collector env senders name cfg of
              None \<Rightarrow> None
            | Some r \<Rightarrow>
                (case make_collectors env senders rest of
                   None \<Rightarrow> None
                 | Some (errs, cs) \<Rightarrow>
                     Some (case r of Inl e \<Rightarrow> ((name, e) # errs, cs) | Inr c \<Rightarrow> (errs, c # cs)))))"

definition make_receiver :: "startup_env \<Rightarrow> string list \<Rightarrow> string \<Rightarrow> table \<Rightarrow> init_error + http_receiver" where
  "make_receiver env senders name cfg =
     (case new_base_receiver cfg name senders of
        Inl e \<Rightarrow> Inl (BadBase e)
      | Inr base \<Rightarrow>
          (case inner_section cfg (base_type base) of
             None \<Rightarrow> Inl (NoSubsection (base_type base))
           | Some inner \<Rightarrow>
               (if base_type base = type_http \<or> base_type base = type_http3
                then map_error BadHttpReceiver (new_http_receiver (nets_env env) (certs_env env) base inner)
                else Inl (UnhandledType (base_type base)))))"

fun make_receivers ::
  "startup_env \<Rightarrow> string list \<Rightarrow> (string \<times> table) list \<Rightarrow> (string \<times> init_error) list \<times> http_receiver list" where
  "make_receivers env senders [] = ([], [])"
| "make_receivers env senders ((name, cfg) # rest) =
     (let (errs, rs) = make_receivers env senders rest
      in if cfg = [] then (errs, rs)
         else (case make_receiver env senders name cfg of
                 Inl e \<Rightarrow> ((name, e) # errs, rs) | Inr r \<Rightarrow> (errs, r # rs)))"

text \<open>
  Receivers are started in the order of their names, all of them, and if one fails then all
  of them are closed again. The result has the names in the order of the calls to Start, and
  of the calls to Close.
\<close>

record receivers_result =
  rcv_started :: "string list"
  rcv_reclosed :: "string list"
  rcv_up :: "http_receiver list"
  rcv_ok :: bool

definition start_receivers :: "startup_env \<Rightarrow> http_receiver list \<Rightarrow> receivers_result" where
  "start_receivers env receivers =
     (let rs = sort_key base_name receivers; names = map base_name rs
      in if list_all (receiver_starts env) names
         then \<lparr>rcv_started = names, rcv_reclosed = [], rcv_up = rs, rcv_ok = True\<rparr>
         else \<lparr>rcv_started = names, rcv_reclosed = names, rcv_up = [], rcv_ok = False\<rparr>)"

definition init_receivers :: "startup_env \<Rightarrow> string list \<Rightarrow> table \<Rightarrow> receivers_result" where
  "init_receivers env senders cfg =
     (case make_receivers env senders (extract_submaps cfg ''receiver'') of
        ([], rs) \<Rightarrow> start_receivers env rs
      | (errs, rs) \<Rightarrow> \<lparr>rcv_started = [], rcv_reclosed = [], rcv_up = [], rcv_ok = False\<rparr>)"

section \<open>The pool that starts collectors\<close>

text \<open>
  The main goroutine sends the collectors into a buffered channel and then closes it; each
  worker takes one, starts it, and takes the next, until the channel is closed and empty. A
  Start that panics is recovered, and counts as a failure.
\<close>

record 'c pool =
  to_assign :: "'c list"
  channel :: "'c list"
  channel_closed :: bool
  idle_workers :: nat
  busy :: "'c list"
  exited :: nat
  up :: "'c list"
  down :: "'c list"

definition pool_limit :: "nat \<Rightarrow> 'c list \<Rightarrow> nat" where
  "pool_limit procs cs = min procs (length cs)"

definition new_pool :: "nat \<Rightarrow> 'c list \<Rightarrow> 'c pool" where
  "new_pool procs cs =
     \<lparr>to_assign = cs, channel = [], channel_closed = False, idle_workers = pool_limit procs cs,
      busy = [], exited = 0, up = [], down = []\<rparr>"

datatype pool_event = PoolSend | PoolClose | PoolTake | PoolStart nat | PoolExit

fun pool_step :: "nat \<Rightarrow> ('c \<Rightarrow> start_result) \<Rightarrow> pool_event \<Rightarrow> 'c pool \<Rightarrow> 'c pool option" where
  "pool_step limit starts PoolSend s =
     (case to_assign s of
        c # cs \<Rightarrow> (if length (channel s) < limit then Some (s\<lparr>to_assign := cs, channel := channel s @ [c]\<rparr>) else None)
      | [] \<Rightarrow> None)"
| "pool_step limit starts PoolClose s =
     (if to_assign s = [] \<and> \<not> channel_closed s then Some (s\<lparr>channel_closed := True\<rparr>) else None)"
| "pool_step limit starts PoolTake s =
     (case channel s of
        c # cs \<Rightarrow>
          (if 0 < idle_workers s
           then Some (s\<lparr>channel := cs, idle_workers := idle_workers s - 1, busy := busy s @ [c]\<rparr>) else None)
      | [] \<Rightarrow> None)"
| "pool_step limit starts (PoolStart i) s =
     (if i < length (busy s)
      then (let c = busy s ! i; s1 = s\<lparr>busy := drop_nth i (busy s), idle_workers := idle_workers s + 1\<rparr>
            in Some (if starts c = StartSucceeds then s1\<lparr>up := up s @ [c]\<rparr> else s1\<lparr>down := down s @ [c]\<rparr>))
      else None)"
| "pool_step limit starts PoolExit s =
     (if channel s = [] \<and> channel_closed s \<and> 0 < idle_workers s
      then Some (s\<lparr>idle_workers := idle_workers s - 1, exited := exited s + 1\<rparr>) else None)"

text \<open>wg.Wait returns when all workers have terminated.\<close>

definition pool_done :: "'c pool \<Rightarrow> bool" where
  "pool_done s \<longleftrightarrow> channel_closed s \<and> idle_workers s = 0 \<and> busy s = []"

text \<open>
  One schedule of the goroutines, up to the end of the pool: the collectors that started, and
  whether all of them did. \<open>None\<close> if this is not a schedule, or not up to the end.
\<close>

definition start_collectors ::
  "nat \<Rightarrow> ('c \<Rightarrow> start_result) \<Rightarrow> pool_event list \<Rightarrow> 'c list \<Rightarrow> ('c list \<times> bool) option" where
  "start_collectors procs starts es cs =
     (case run_events (pool_step (pool_limit procs cs) starts) es (new_pool procs cs) of
        None \<Rightarrow> None
      | Some s \<Rightarrow> (if pool_done s then Some (up s, length (up s) = length cs) else None))"

definition collector_start :: "startup_env \<Rightarrow> 'c collector \<Rightarrow> start_result" where
  "collector_start env c = collector_starts env (base_name (collector_base c))"

definition init_collectors ::
  "startup_env \<Rightarrow> nat \<Rightarrow> pool_event list \<Rightarrow> string list \<Rightarrow> table \<Rightarrow> ('c collector list \<times> bool) option" where
  "init_collectors env procs es senders cfg =
     (case make_collectors env senders (extract_submaps cfg ''collector'') of
        None \<Rightarrow> None
      | Some ([], cs) \<Rightarrow> start_collectors procs (collector_start env) es cs
      | Some (errs, cs) \<Rightarrow> Some ([], False))"

section \<open>Main\<close>

text \<open>
  What main does, as far as the components can tell: it cancels the context of the
  collectors, waits for a signal, shuts components down, and exits.
\<close>

datatype 'c main_action =
  AwaitSignal
| CancelContext
| Shutdown "'c collector list" "http_receiver list" "(string \<times> 'c sender_ref) list"
| ExitWith nat

record main_input =
  build_info :: bool
  usage_flag :: bool
  config_file :: "table option"
  gomaxprocs :: nat
  pool_schedule :: "pool_event list"

definition main_start :: "startup_env \<Rightarrow> main_input \<Rightarrow> table \<Rightarrow> 'c main_action list option" where
  "main_start env inp cfg =
     (case init_senders env cfg of
        (senders, False) \<Rightarrow> Some [CancelContext, ExitWith 1]
      | (senders, True) \<Rightarrow>
          (case init_collectors env (gomaxprocs inp) (pool_schedule inp) (map fst senders) cfg of
             None \<Rightarrow> None
           | Some (cs, False) \<Rightarrow> Some [CancelContext, Shutdown cs [] senders, ExitWith 1]
           | Some (cs, True) \<Rightarrow>
               (let r = init_receivers env (map fst senders) cfg
                in if \<not> rcv_ok r then Some [CancelContext, Shutdown cs [] senders, ExitWith 1]
                   else if length cs + length (rcv_up r) = 0 then Some [CancelContext, ExitWith 1]
                   else Some [AwaitSignal, CancelContext, Shutdown cs (rcv_up r) senders, ExitWith 0])))"

definition versi_main :: "startup_env \<Rightarrow> main_input \<Rightarrow> 'c main_action list option" where
  "versi_main env inp =
     (if \<not> build_info inp then Some [ExitWith 1]
      else if usage_flag inp then Some [ExitWith 0]
      else (case config_file inp of
              None \<Rightarrow> Some [ExitWith 1]
            | Some cfg \<Rightarrow> main_start env inp cfg))"


section \<open>The pool comes to its end\<close>

text \<open>
  Every collector is somewhere, once; workers are idle, busy or gone; no worker is gone while
  there is anything left to take.
\<close>

definition pool_ok :: "nat \<Rightarrow> ('c \<Rightarrow> start_result) \<Rightarrow> 'c list \<Rightarrow> 'c pool \<Rightarrow> bool" where
  "pool_ok limit starts cs s \<longleftrightarrow>
     mset cs = mset (to_assign s) + mset (channel s) + mset (busy s) + mset (up s) + mset (down s)
     \<and> idle_workers s + length (busy s) + exited s = limit
     \<and> length (channel s) \<le> limit
     \<and> (channel_closed s \<longrightarrow> to_assign s = [])
     \<and> (0 < exited s \<longrightarrow> channel s = [] \<and> channel_closed s)
     \<and> list_all (\<lambda>c. starts c = StartSucceeds) (up s) \<and> list_all (\<lambda>c. starts c \<noteq> StartSucceeds) (down s)"

definition pool_measure :: "'c pool \<Rightarrow> nat" where
  "pool_measure s =
     5 * length (to_assign s) + 4 * length (channel s) + 2 * length (busy s) + idle_workers s
     + (if channel_closed s then 0 else 1)"

lemma pool_step_ok:
  assumes "pool_ok limit starts cs s" and "pool_step limit starts e s = Some s'"
  shows "pool_ok limit starts cs s' \<and> pool_measure s' < pool_measure s"
proof (cases e)
  case PoolSend
  with assms show ?thesis
    by (auto simp: pool_ok_def pool_measure_def ac_simps split: list.splits if_splits)
next
  case PoolClose
  with assms show ?thesis by (auto simp: pool_ok_def pool_measure_def split: if_splits)
next
  case PoolTake
  with assms show ?thesis
    by (auto simp: pool_ok_def pool_measure_def ac_simps split: list.splits if_splits)
next
  case (PoolStart i)
  then have i: "i < length (busy s)" using assms(2) by (auto split: if_splits)
  have "length (drop_nth i (busy s)) = length (busy s) - 1" using drop_nth_length [OF i] by simp
  with PoolStart i assms drop_nth_mset [OF i] show ?thesis
    by (auto simp: pool_ok_def pool_measure_def Let_def split: if_splits)
next
  case PoolExit
  with assms show ?thesis by (auto simp: pool_ok_def pool_measure_def split: if_splits)
qed

interpretation starting_pool: preserving "pool_step limit starts" "pool_ok limit starts cs" "\<lambda>e. True"
  for limit starts cs
  by unfold_locales (blast dest: pool_step_ok)

lemma new_pool_ok: "pool_ok (pool_limit procs cs) starts cs (new_pool procs cs)"
  by (simp add: pool_ok_def new_pool_def)

lemma pool_progress:
  assumes "pool_ok (pool_limit procs cs) starts cs s" and "0 < procs" and "\<not> pool_done s"
  shows "\<exists>e s'. pool_step (pool_limit procs cs) starts e s = Some s'"
proof (cases "busy s = []")
  case False
  then show ?thesis
    by (intro exI [of _ "PoolStart 0"]) (simp add: Let_def)
next
  case idle: True
  show ?thesis
  proof (cases "channel s")
    case (Cons c rest)
    then have "0 < idle_workers s" using assms(1) idle by (auto simp: pool_ok_def)
    with Cons show ?thesis by (intro exI [of _ PoolTake]) simp
  next
    case Nil
    show ?thesis
    proof (cases "to_assign s")
      case (Cons c rest)
      then have "cs \<noteq> []" using assms(1) by (auto simp: pool_ok_def)
      then have "0 < pool_limit procs cs" using assms(2) by (simp add: pool_limit_def)
      with Cons Nil show ?thesis by (intro exI [of _ PoolSend]) simp
    next
      case empty: Nil
      show ?thesis
      proof (cases "channel_closed s")
        case True
        with Nil idle assms(3) show ?thesis by (intro exI [of _ PoolExit]) (simp add: pool_done_def)
      qed (use empty in \<open>intro exI [of _ PoolClose], simp\<close>)
    qed
  qed
qed

lemma pool_done_up:
  assumes "pool_ok limit starts cs s" and "pool_done s" and "limit = pool_limit procs cs" and "0 < procs"
  shows "mset (up s) = mset (filter (\<lambda>c. starts c = StartSucceeds) cs)"
proof -
  have "to_assign s = []" "busy s = []" using assms by (simp_all add: pool_ok_def pool_done_def)
  moreover have "channel s = []"
  proof (cases "cs = []")
    case False
    then have "0 < exited s" using assms by (auto simp: pool_ok_def pool_done_def pool_limit_def)
    with assms(1) show ?thesis by (simp add: pool_ok_def)
  qed (use assms in \<open>simp add: pool_ok_def pool_limit_def\<close>)
  ultimately have cs: "mset cs = mset (up s) + mset (down s)" using assms(1) by (simp add: pool_ok_def)
  have "filter_mset (\<lambda>c. starts c = StartSucceeds) (mset (up s)) = mset (up s)"
    "filter_mset (\<lambda>c. starts c = StartSucceeds) (mset (down s)) = {#}"
    using assms(1) by (auto simp: pool_ok_def list_all_iff filter_mset_eq_conv)
  with cs show ?thesis by (simp add: mset_filter)
qed

text \<open>C14: The pool that starts the collectors always comes to its end and starts each collector
  exactly once. Whatever the workers and the main goroutine do, in whatever order: some step
  is possible until all workers have terminated, so nothing ever blocks for good; every step
  brings the end nearer; no collector is started twice or lost, even if starting others fails
  or panics; not more are started at a time than there are processors; and in the end the
  collectors that are up are exactly those whose Start succeeded.\<close>

theorem pool_starts_all:
  assumes "0 < procs"
    and "run_events (pool_step (pool_limit procs cs) starts) es (new_pool procs cs) = Some s"
  shows "(\<forall>e s'. pool_step (pool_limit procs cs) starts e s = Some s' \<longrightarrow> pool_measure s' < pool_measure s)
    \<and> (\<not> pool_done s \<longrightarrow> (\<exists>e s'. pool_step (pool_limit procs cs) starts e s = Some s'))
    \<and> mset cs = mset (to_assign s) + mset (channel s) + mset (busy s) + mset (up s) + mset (down s)
    \<and> length (busy s) \<le> procs
    \<and> (pool_done s \<longrightarrow> mset (up s) = mset (filter (\<lambda>c. starts c = StartSucceeds) cs))"
proof -
  have ok: "pool_ok (pool_limit procs cs) starts cs s"
    using starting_pool.run_preserves [OF new_pool_ok _ assms(2)] by (simp add: list_all_iff)
  then have "length (busy s) \<le> procs" by (auto simp: pool_ok_def pool_limit_def)
  moreover have "mset cs = mset (to_assign s) + mset (channel s) + mset (busy s) + mset (up s) + mset (down s)"
    using ok by (simp add: pool_ok_def)
  ultimately show ?thesis
    using pool_step_ok [OF ok] pool_progress [OF ok assms(1)] pool_done_up [OF ok _ refl assms(1)] by blast
qed

text \<open>Three collectors on two processors; the second one fails to start.\<close>

definition demo_starts :: "nat \<Rightarrow> start_result" where
  "demo_starts c = (if c = 2 then StartPanics else StartSucceeds)"

definition demo_pool_events :: "pool_event list" where
  "demo_pool_events =
     [PoolSend, PoolSend, PoolTake, PoolTake, PoolSend, PoolClose, PoolStart 1, PoolTake, PoolStart 1, PoolStart 0,
      PoolExit, PoolExit]"

lemma demo_pool_run:
  "run_events (pool_step (pool_limit 2 [1, 2, 3]) demo_starts) demo_pool_events (new_pool 2 [1, 2, 3])
   = Some \<lparr>to_assign = [], channel = [], channel_closed = True, idle_workers = 0, busy = [], exited = 2,
       up = [3, 1], down = [2]\<rparr>"
  by (simp add: demo_pool_events_def new_pool_def pool_limit_def demo_starts_def drop_nth_def Let_def)

theorem pool_starts_all_witness:
  "mset [3, 1] = mset (filter (\<lambda>c. demo_starts c = StartSucceeds) [1, 2, 3])"
  using pool_starts_all [OF _ demo_pool_run] by (simp add: pool_done_def)


section \<open>The map of senders\<close>

text \<open>The names that ExtractSubSubmaps gives to the sections of a type.\<close>

definition section_name :: "string \<Rightarrow> string \<Rightarrow> bool" where
  "section_name ty name \<longleftrightarrow>
     (\<exists>p. name = sub_path p ty \<or> (\<exists>i. name = index_path (sub_path p ty) i))"

lemma write_all_keys:
  "distinct (map fst (write_all ws)) \<and> fst ` set (write_all ws) \<subseteq> fst ` set ws"
proof -
  have "distinct (map fst m) \<Longrightarrow>
      distinct (map fst (fold (\<lambda>(p, t) m. AList.update p t m) ws m))
      \<and> fst ` set (fold (\<lambda>(p, t) m. AList.update p t m) ws m) \<subseteq> fst ` set ws \<union> fst ` set m" for m
  proof (induction ws arbitrary: m)
    case (Cons w ws)
    obtain p t where w: "w = (p, t)" by fastforce
    have "fst ` set (AList.update p t m) \<subseteq> insert p (fst ` set m)"
      using dom_update [of p t m] by (simp add: dom_map_of_conv_image_fst)
    moreover have "distinct (map fst (AList.update p t m))" using Cons.prems by (rule distinct_update)
    ultimately show ?case using w Cons.IH [of "AList.update p t m"] by (simp add: subset_iff) blast
  qed simp
  from this [of "[]"] show ?thesis by (simp add: write_all_def)
qed

lemma matched_tables_names: "n \<in> fst ` set (matched_tables path i es) \<Longrightarrow> \<exists>j. n = index_path path j"
proof (induction es arbitrary: i)
  case (Cons e es)
  then show ?case by (cases e) auto
qed simp

lemma matched_names: "n \<in> fst ` set (matched path v) \<Longrightarrow> n = path \<or> (\<exists>j. n = index_path path j)"
  using matched_tables_names [of n path 0] by (cases v) (simp_all add: matched_def)

lemma sub_submaps_names:
  assumes "(name, t) \<in> set (extract_sub_submaps cfg key types)"
  shows "\<exists>ty \<in> set types. section_name ty name"
proof -
  have "name \<in> fst ` set (extract_sub_submaps cfg key types)" using assms by force
  then have "name \<in> fst ` set (concat (map (\<lambda>(path, submap).
          concat (map (\<lambda>k. case map_of submap k of None \<Rightarrow> [] | Some v \<Rightarrow> matched (sub_path path k) v) types))
          (extract_submaps cfg key)))"
    unfolding extract_sub_submaps_def using write_all_keys by blast
  then obtain path submap ty v where ty: "ty \<in> set types" and "name \<in> fst ` set (matched (sub_path path ty) v)"
    by (force split: option.splits)
  with matched_names [of name "sub_path path ty" v] show ?thesis by (auto simp: section_name_def)
qed

lemma section_base_type:
  assumes "section_name ty name" and "ty \<in> {type_http, type_http3}"
  shows "sender_base_type name = ty"
proof -
  obtain p where p: "name = sub_path p ty \<or> (\<exists>i. name = index_path (sub_path p ty) i)"
    using assms(1) by (auto simp: section_name_def)
  have plain: "cut_index_suffix (sub_path p ty) = sub_path p ty" "leaf (sub_path p ty) = ty"
    using assms(2) by (auto simp: cut_index_suffix_def leaf_def sub_path_def type_http_def type_http3_def)
  have "cut_index_suffix (index_path q i) = q" for q i
  proof -
    have digits: "c \<in> set (rev (itoa (i + 1))) \<Longrightarrow> is_digit c" for c using itoa_digits by simp
    have stop: "\<not> is_digit CHR ''[''" by (simp add: is_digit_def char_code_def)
    have "takeWhile is_digit (rev (itoa (i + 1)) @ CHR ''['' # rev q) = rev (itoa (i + 1))"
      "dropWhile is_digit (rev (itoa (i + 1)) @ CHR ''['' # rev q) = CHR ''['' # rev q"
      using takeWhile_append2 [of "rev (itoa (i + 1))" is_digit, OF digits]
        dropWhile_append2 [of "rev (itoa (i + 1))" is_digit, OF digits] stop by simp_all
    with stop show ?thesis by (simp add: cut_index_suffix_def index_path_def Let_def)
  qed
  with p plain show ?thesis by (auto simp: sender_base_type_def)
qed

definition builtin_names :: "string list" where
  "builtin_names = [[], sender_type_discard, sender_type_none, sender_type_stdout, sender_type_dlq]"

lemma builtin_not_section: "section_name ty name \<Longrightarrow> ty \<in> {type_http, type_http3} \<Longrightarrow> name \<notin> set builtin_names"
  by (auto simp: section_name_def builtin_names_def sub_path_def index_path_def sender_type_discard_def
      sender_type_none_def sender_type_stdout_def sender_type_dlq_def type_http_def type_http3_def append_eq_Cons_conv)


text \<open>
  The map while the sections are added: the built-in senders are in place, and everything
  else was made from a section, or is nil and the start has failed.
\<close>

definition made_from :: "startup_env \<Rightarrow> table \<Rightarrow> string \<Rightarrow> 'c sender_ref \<Rightarrow> bool" where
  "made_from env cfg name r \<longleftrightarrow>
     (\<exists>c s. (name, c) \<in> set (extract_sub_submaps cfg ''sender'' valid_sender_types) \<and> c \<noteq> [] \<and> r = HttpSender s
        \<and> sender_base_type name \<in> {type_http, type_http3}
        \<and> new_sender (files_env env) (certs_env env) c name (sender_base_type name) True = Inr s)"

definition senders_ok :: "startup_env \<Rightarrow> table \<Rightarrow> (string \<times> 'c sender_ref) list \<Rightarrow> (string \<times> 'c sender_ref) list \<times> bool \<Rightarrow> bool" where
  "senders_ok env cfg base = (\<lambda>(m, ok).
     (\<forall>n \<in> set builtin_names. map_of m n = map_of base n)
     \<and> (\<forall>n r. map_of m n = Some r \<and> n \<notin> set builtin_names \<longrightarrow> made_from env cfg n r \<or> r = NilSender \<and> \<not> ok))"

lemma add_sender_ok:
  fixes m :: "(string \<times> 'c sender_ref) list"
  assumes "senders_ok env cfg base (m, ok)" and "map_of base sender_type_dlq \<noteq> None"
    and sec: "(name, c) \<in> set (extract_sub_submaps cfg ''sender'' valid_sender_types)"
    and step: "add_sender env (name, c) (m, ok) = (m', ok')"
  shows "senders_ok env cfg base (m', ok')"
    and "ok' \<Longrightarrow> ok \<and> (c \<noteq> [] \<longrightarrow> (\<exists>s. map_of m' name = Some (HttpSender s)))"
    and "n \<noteq> name \<Longrightarrow> map_of m' n = map_of m n"
proof -
  obtain ty where ty: "ty \<in> {type_http, type_http3}" "section_name ty name"
    using sub_submaps_names [OF sec] by (auto simp: valid_sender_types_def)
  have base_type: "sender_base_type name \<in> {type_http, type_http3}" using section_base_type [OF ty(2,1)] ty(1) by simp
  have fresh: "name \<notin> set builtin_names" using builtin_not_section ty by blast
  have "sender_type_dlq \<in> set builtin_names" by (simp add: builtin_names_def)
  with assms(1,2) have dlq: "map_of m sender_type_dlq \<noteq> None" by (auto simp: senders_ok_def)
  define new :: "sender_error + 'c http_sender" where "new = new_sender (files_env env) (certs_env env) c name (sender_base_type name) True"
  have step': "(m', ok') = (if c = [] then (m, ok) else case new of
      Inl e \<Rightarrow> (AList.update name NilSender m, False) | Inr s \<Rightarrow> (AList.update name (HttpSender s) m, ok))"
    using step base_type dlq by (auto simp: add_sender_def new_def)
  have made: "made_from env cfg name (HttpSender s)" if "c \<noteq> []" "new = Inr s" for s
    unfolding made_from_def
    by (intro exI conjI) (use that sec base_type in \<open>simp_all add: new_def\<close>)
  show "senders_ok env cfg base (m', ok')"
  proof (cases "c = []")
    case False
    have old: "\<forall>n \<in> set builtin_names. map_of m n = map_of base n"
      "\<And>n r. map_of m n = Some r \<Longrightarrow> n \<notin> set builtin_names \<Longrightarrow> made_from env cfg n r \<or> r = NilSender \<and> \<not> ok"
      using assms(1) by (simp_all add: senders_ok_def)
    show ?thesis
    proof (cases new)
      case (Inl e)
      then have m': "map_of m' = (map_of m)(name \<mapsto> NilSender)" "\<not> ok'"
        using step' False by (simp_all add: update_conv')
      show ?thesis unfolding senders_ok_def prod.case m'(1)
        using old fresh m'(2) by (metis fun_upd_apply option.inject)
    next
      case (Inr s)
      then have m': "map_of m' = (map_of m)(name \<mapsto> HttpSender s)" "ok' = ok"
        using step' False by (simp_all add: update_conv')
      show ?thesis unfolding senders_ok_def prod.case m'(1)
        using old fresh m'(2) made [OF False Inr] by (metis fun_upd_apply option.inject)
    qed
  qed (use step' assms(1) in simp)
  show "ok' \<Longrightarrow> ok \<and> (c \<noteq> [] \<longrightarrow> (\<exists>s. map_of m' name = Some (HttpSender s)))"
    and "n \<noteq> name \<Longrightarrow> map_of m' n = map_of m n"
    using step' by (cases new; auto simp: update_conv' split: if_splits)+
qed

lemma add_senders_ok:
  assumes "senders_ok env cfg base st" and "map_of base sender_type_dlq \<noteq> None"
    and "set secs \<subseteq> set (extract_sub_submaps cfg ''sender'' valid_sender_types)" and "distinct (map fst secs)"
    and "fold (add_sender env) secs st = (m, ok)"
  shows "senders_ok env cfg base (m, ok)
    \<and> (ok \<longrightarrow> snd st \<and> (\<forall>(n, c) \<in> set secs. c \<noteq> [] \<longrightarrow> (\<exists>s. map_of m n = Some (HttpSender s))))"
  using assms(3-)
proof (induction secs arbitrary: m ok rule: rev_induct)
  case (snoc sec secs)
  obtain name c where sec: "sec = (name, c)" by fastforce
  obtain m1 ok1 where mid: "fold (add_sender env) secs st = (m1, ok1)" by fastforce
  with snoc.prems sec have step: "add_sender env (name, c) (m1, ok1) = (m, ok)" by simp
  from snoc.IH [OF _ _ mid] snoc.prems have IH: "senders_ok env cfg base (m1, ok1)"
    "ok1 \<Longrightarrow> snd st \<and> (\<forall>(n, c) \<in> set secs. c \<noteq> [] \<longrightarrow> (\<exists>s. map_of m1 n = Some (HttpSender s)))" by auto
  have "(name, c) \<in> set (extract_sub_submaps cfg ''sender'' valid_sender_types)" using snoc.prems(1) sec by simp
  note add = add_sender_ok [OF IH(1) assms(2) this step]
  have "\<forall>(n, c) \<in> set secs. n \<noteq> name" using snoc.prems(2) sec by force
  with IH(2) add sec show ?case by fastforce
qed (use assms(1) in auto)

lemma init_senders_ok:
  fixes m :: "(string \<times> 'c sender_ref) list"
  assumes "init_senders env cfg = (m, ok)"
  shows "map_of m [] = Some DiscardSender" "map_of m sender_type_discard = Some DiscardSender"
    "map_of m sender_type_none = Some DiscardSender" "map_of m sender_type_stdout = Some StdoutSender"
    and "if ok then \<exists>d. init_dlq (map_of cfg ''dead_letter_queue'') = Inr d \<and> map_of m sender_type_dlq = Some (DlqSender d)
         else map_of m sender_type_dlq \<noteq> None"
    and "map_of m n = Some r \<Longrightarrow> n \<notin> set builtin_names \<Longrightarrow> made_from env cfg n r \<or> r = NilSender \<and> \<not> ok"
    and "ok \<Longrightarrow> (n, c) \<in> set (extract_sub_submaps cfg ''sender'' valid_sender_types) \<Longrightarrow> c \<noteq> []
      \<Longrightarrow> \<exists>s. map_of m n = Some (HttpSender s)"
proof -
  define st :: "(string \<times> 'c sender_ref) list \<times> bool" where "st = (case init_dlq (map_of cfg ''dead_letter_queue'') of
          Inl e \<Rightarrow> (builtin_senders, False)
        | Inr d \<Rightarrow> (if root_opens env then (AList.update sender_type_dlq (DlqSender d) builtin_senders, True)
                     else (builtin_senders, False)))"
  note names = builtin_senders_def builtin_names_def sender_type_discard_def sender_type_none_def
    sender_type_stdout_def sender_type_dlq_def
  have start: "senders_ok env cfg (fst st) st"
    by (auto simp: senders_ok_def st_def names update_conv' split: sum.splits if_splits)
  have base: "map_of (fst st) [] = Some DiscardSender" "map_of (fst st) sender_type_discard = Some DiscardSender"
    "map_of (fst st) sender_type_none = Some DiscardSender" "map_of (fst st) sender_type_stdout = Some StdoutSender"
    "if snd st then \<exists>d. init_dlq (map_of cfg ''dead_letter_queue'') = Inr d \<and> map_of (fst st) sender_type_dlq = Some (DlqSender d)
     else map_of (fst st) sender_type_dlq = Some DiscardSender"
    by (auto simp: st_def names update_conv' split: sum.splits)
  have fold: "fold (add_sender env) (extract_sub_submaps cfg ''sender'' valid_sender_types) st = (m, ok)"
    using assms by (simp add: init_senders_def st_def)
  have dlq: "map_of (fst st) sender_type_dlq \<noteq> None" using base(5) by (auto split: if_splits)
  have "distinct (map fst (extract_sub_submaps cfg ''sender'' valid_sender_types))"
    unfolding extract_sub_submaps_def using write_all_keys by blast
  note ok = add_senders_ok [OF start dlq order_refl this fold]
  then have keep: "n \<in> set builtin_names \<Longrightarrow> map_of m n = map_of (fst st) n" for n by (simp add: senders_ok_def)
  have in_names: "[] \<in> set builtin_names" "sender_type_discard \<in> set builtin_names" "sender_type_none \<in> set builtin_names"
    "sender_type_stdout \<in> set builtin_names" "sender_type_dlq \<in> set builtin_names"
    by (simp_all add: builtin_names_def)
  show "map_of m [] = Some DiscardSender" "map_of m sender_type_discard = Some DiscardSender"
    "map_of m sender_type_none = Some DiscardSender" "map_of m sender_type_stdout = Some StdoutSender"
    using base keep in_names by simp_all
  show "if ok then \<exists>d. init_dlq (map_of cfg ''dead_letter_queue'') = Inr d \<and> map_of m sender_type_dlq = Some (DlqSender d)
         else map_of m sender_type_dlq \<noteq> None"
    using base(5) dlq keep [OF in_names(5)] ok by (auto split: if_splits)
  show "map_of m n = Some r \<Longrightarrow> n \<notin> set builtin_names \<Longrightarrow> made_from env cfg n r \<or> r = NilSender \<and> \<not> ok"
    using ok by (simp add: senders_ok_def)
  show "ok \<Longrightarrow> (n, c) \<in> set (extract_sub_submaps cfg ''sender'' valid_sender_types) \<Longrightarrow> c \<noteq> []
      \<Longrightarrow> \<exists>s. map_of m n = Some (HttpSender s)"
    using ok by auto
qed


section \<open>The components that main has\<close>

text \<open>Where a component sends its data, and whether the dead-letter queue backs it.\<close>

definition wired :: "string list \<Rightarrow> 'z base_receiver_scheme \<Rightarrow> bool" where
  "wired names b \<longleftrightarrow> (\<exists>d \<in> set names. send_to b = Some d) \<and> has_fallback b = (sender_type_dlq \<in> set names)"

lemma wired_truncate [simp]:
  "wired names (base_collector.truncate c) = wired names (c :: 'y base_collector_scheme)"
  "wired names (base_receiver.extend b x) = wired names b"
  "wired names (base_collector.extend b' x') = wired names b'"
  by (simp_all add: wired_def base_collector.truncate_def base_receiver.extend_def base_collector.extend_def)

lemma new_base_collector_wired:
  assumes "new_base_collector z now cfg name names = Some (Inr b)"
  shows "wired names b"
proof -
  let ?r = "read_base cfg name names"
  let ?c = "extend_base ?r (cfg_value as_string cfg ''schedule'' []) (cfg_value as_string cfg ''trigger'' []) (concurrency_limit cfg)"
  have check: "check_base valid_collector_types ?r = None"
    using assms by (auto simp: new_base_collector_def Let_def split: option.splits)
  with assms have "b = ?c \<or> set_schedule z now cfg ?c = Some (Inr b)"
    by (auto simp: new_base_collector_def Let_def split: if_splits)
  then have "send_to b = send_to ?r \<and> has_fallback b = has_fallback ?r"
    using set_schedule_ok [of z now cfg ?c b] by (auto simp: extend_base_def)
  moreover obtain d where "send_to ?r = Some d" "d \<in> set names"
    using check read_base_send_to [of cfg name names] by (auto simp: check_base_None)
  ultimately show ?thesis by (auto simp: wired_def read_base_def Let_def)
qed

lemma new_http_collector_base:
  "new_http_collector aenv tenv base cfg = Inr c \<Longrightarrow> \<exists>x. c = base_collector.extend base x"
  by (auto simp: new_http_collector_def bind_sum_Inr map_error_Inr Let_def split: option.splits prod.splits)

lemma new_sql_collector_base:
  "new_sql_collector file base cfg = Inr c \<Longrightarrow> \<exists>x. c = base_collector.extend base x"
  by (auto simp: new_sql_collector_def bind_sum_Inr map_error_Inr Let_def split: option.splits if_splits)

lemma make_collector_wired:
  assumes "make_collector env names name cfg = Some (Inr c)"
  shows "wired names (collector_base c)"
proof -
  obtain base where base: "new_base_collector (zones_env env) (clock env name) cfg name names = Some (Inr base)"
    using assms by (auto simp: make_collector_def split: option.splits sum.splits)
  then have "(\<exists>inner h. c = WebCollector h \<and> new_http_collector (files_env env) (certs_env env) base inner = Inr h)
    \<or> (\<exists>inner q. c = DbCollector q \<and> new_sql_collector (read_file (files_env env)) base inner = Inr q)"
    using assms by (auto simp: make_collector_def map_sum_def split: option.splits sum.splits if_splits)
  then show ?thesis
    using new_base_collector_wired [OF base] by (auto dest!: new_http_collector_base new_sql_collector_base)
qed

definition used_sections :: "table \<Rightarrow> string \<Rightarrow> (string \<times> table) list" where
  "used_sections cfg key = filter (\<lambda>(n, c). c \<noteq> []) (extract_submaps cfg key)"

lemma make_collectors_ok:
  fixes cs :: "'c collector list"
  assumes "make_collectors env names secs = Some (errs, cs)"
  shows "(\<forall>c \<in> set cs. wired names (collector_base c))
    \<and> length errs + length cs = length (filter (\<lambda>(n, c). c \<noteq> []) secs)"
  using assms
proof (induction secs arbitrary: errs cs)
  case (Cons sec rest)
  obtain name cfg where "sec = (name, cfg)" by fastforce
  with Cons show ?case
    using make_collector_wired [of env names name cfg]
    by (auto split: if_splits option.splits sum.splits)
qed simp

lemma new_http_receiver_base:
  "new_http_receiver nenv tenv base cfg = Inr r \<Longrightarrow> \<exists>x. r = base_receiver.extend base x"
  by (auto simp: new_http_receiver_def bind_sum_Inr map_error_Inr Let_def split: option.splits if_splits)

lemma make_receiver_wired:
  assumes "make_receiver env names name cfg = Inr r"
  shows "wired names r"
proof -
  obtain base inner where base: "new_base_receiver cfg name names = Inr base"
    and "new_http_receiver (nets_env env) (certs_env env) base inner = Inr r"
    using assms by (auto simp: make_receiver_def map_error_Inr split: sum.splits option.splits if_splits)
  moreover have "wired names base"
    using new_base_receiver_ok [OF base] base
    by (auto simp: wired_def new_base_receiver_def read_base_def Let_def split: option.splits)
  ultimately show ?thesis by (auto dest!: new_http_receiver_base)
qed

lemma make_receivers_ok:
  assumes "make_receivers env names secs = (errs, rs)"
  shows "(\<forall>r \<in> set rs. wired names r) \<and> length errs + length rs = length (filter (\<lambda>(n, c). c \<noteq> []) secs)"
  using assms
proof (induction secs arbitrary: errs rs)
  case (Cons sec rest)
  obtain name cfg where "sec = (name, cfg)" by fastforce
  with Cons show ?case
    using make_receiver_wired [of env names name cfg]
    by (auto simp: Let_def split: if_splits prod.splits sum.splits)
qed simp

lemma start_collectors_ok:
  assumes "start_collectors procs starts es cs = Some (ups, ok)"
  shows "set ups \<subseteq> set cs" and "ok \<longleftrightarrow> length ups = length cs"
proof -
  obtain s where s: "run_events (pool_step (pool_limit procs cs) starts) es (new_pool procs cs) = Some s" "ups = up s"
    and "ok \<longleftrightarrow> length ups = length cs"
    using assms by (auto simp: start_collectors_def split: option.splits if_splits)
  then have "pool_ok (pool_limit procs cs) starts cs s"
    using starting_pool.run_preserves [OF new_pool_ok _ s(1)] by (simp add: list_all_iff)
  then have "mset (up s) \<subseteq># mset cs" by (simp add: pool_ok_def)
  then show "set ups \<subseteq> set cs" and "ok \<longleftrightarrow> length ups = length cs"
    using s(2) \<open>ok \<longleftrightarrow> _\<close> set_mset_mono [of "mset (up s)" "mset cs"] by auto
qed

lemma init_collectors_ok:
  fixes cs :: "'c collector list"
  assumes "init_collectors env procs es names cfg = Some (cs, ok)"
  shows "\<forall>c \<in> set cs. wired names (collector_base c)"
    and "ok \<Longrightarrow> length cs = length (used_sections cfg ''collector'')"
proof -
  obtain errs and made :: "'c collector list"
    where made: "make_collectors env names (extract_submaps cfg ''collector'') = Some (errs, made)"
    using assms by (auto simp: init_collectors_def split: option.splits)
  note all = make_collectors_ok [OF made]
  have started: "(\<forall>c \<in> set cs. c \<in> set made) \<and> (ok \<longrightarrow> errs = [] \<and> length cs = length made)"
    using assms made start_collectors_ok [of procs "collector_start env" es made cs ok]
    by (cases errs) (auto simp: init_collectors_def)
  with all show "\<forall>c \<in> set cs. wired names (collector_base c)"
    and "ok \<Longrightarrow> length cs = length (used_sections cfg ''collector'')"
    by (auto simp: used_sections_def)
qed

lemma init_receivers_ok:
  "\<forall>r \<in> set (rcv_up (init_receivers env names cfg)). wired names r"
  "rcv_ok (init_receivers env names cfg) \<Longrightarrow>
     length (rcv_up (init_receivers env names cfg)) = length (used_sections cfg ''receiver'')"
  "\<not> rcv_ok (init_receivers env names cfg) \<Longrightarrow>
     rcv_reclosed (init_receivers env names cfg) = rcv_started (init_receivers env names cfg)
     \<and> rcv_up (init_receivers env names cfg) = []"
proof -
  obtain errs rs where made: "make_receivers env names (extract_submaps cfg ''receiver'') = (errs, rs)" by fastforce
  with make_receivers_ok [OF made] show
    "\<forall>r \<in> set (rcv_up (init_receivers env names cfg)). wired names r"
    "rcv_ok (init_receivers env names cfg) \<Longrightarrow>
       length (rcv_up (init_receivers env names cfg)) = length (used_sections cfg ''receiver'')"
    "\<not> rcv_ok (init_receivers env names cfg) \<Longrightarrow>
       rcv_reclosed (init_receivers env names cfg) = rcv_started (init_receivers env names cfg)
       \<and> rcv_up (init_receivers env names cfg) = []"
    by (cases errs; auto simp: init_receivers_def start_receivers_def used_sections_def Let_def)+
qed


section \<open>Main\<close>

lemma main_start_cases:
  fixes acts :: "'c main_action list"
  assumes "main_start env inp cfg = Some acts" and "init_senders env cfg = (m, ok)"
  obtains (no_senders) "\<not> ok" "acts = [CancelContext, ExitWith 1]"
  | (not_all) cs cok where "ok" "init_collectors env (gomaxprocs inp) (pool_schedule inp) (map fst m) cfg = Some (cs, cok)"
      "\<not> cok \<or> \<not> rcv_ok (init_receivers env (map fst m) cfg)"
      "acts = [CancelContext, Shutdown cs [] m, ExitWith 1]"
  | (none_up) "ok" "init_collectors env (gomaxprocs inp) (pool_schedule inp) (map fst m) cfg = Some ([] :: 'c collector list, True)"
      "rcv_up (init_receivers env (map fst m) cfg) = []" "acts = [CancelContext, ExitWith 1]"
  | (all) cs where "ok" "init_collectors env (gomaxprocs inp) (pool_schedule inp) (map fst m) cfg = Some (cs, True)"
      "rcv_ok (init_receivers env (map fst m) cfg)" "cs \<noteq> [] \<or> rcv_up (init_receivers env (map fst m) cfg) \<noteq> []"
      "acts = [AwaitSignal, CancelContext, Shutdown cs (rcv_up (init_receivers env (map fst m) cfg)) m, ExitWith 0]"
  using assms by (auto simp: main_start_def Let_def split: bool.splits option.splits prod.splits if_splits)

text \<open>The collectors, and the receivers, that are up when main has tried to start everything.\<close>

definition collectors_up :: "startup_env \<Rightarrow> main_input \<Rightarrow> table \<Rightarrow> (string \<times> 'c sender_ref) list \<Rightarrow> 'c collector list" where
  "collectors_up env inp cfg m =
     (case init_collectors env (gomaxprocs inp) (pool_schedule inp) (map fst m) cfg of
        Some (cs, ok) \<Rightarrow> cs | None \<Rightarrow> [])"

definition receivers_up :: "startup_env \<Rightarrow> main_input \<Rightarrow> table \<Rightarrow> (string \<times> 'c sender_ref) list \<Rightarrow> http_receiver list" where
  "receivers_up env inp cfg m =
     (case init_collectors env (gomaxprocs inp) (pool_schedule inp) (map fst m) cfg of
        Some (cs :: 'c collector list, True) \<Rightarrow> rcv_up (init_receivers env (map fst m) cfg) | _ \<Rightarrow> [])"

text \<open>What a shutdown may rely on.\<close>

definition shutdown_ready :: "'c collector list \<Rightarrow> http_receiver list \<Rightarrow> (string \<times> 'c sender_ref) list \<Rightarrow> bool" where
  "shutdown_ready cs rs m \<longleftrightarrow>
     (\<exists>d. map_of m sender_type_dlq = Some (DlqSender d)) \<and> (\<forall>n. map_of m n \<noteq> Some NilSender)
     \<and> (\<forall>c \<in> set cs. wired (map fst m) (collector_base c)) \<and> (\<forall>r \<in> set rs. wired (map fst m) r)"

lemma shutdown_readyI:
  assumes "init_senders env cfg = (m, True)" and "\<forall>c \<in> set cs. wired (map fst m) (collector_base c)"
    and "\<forall>r \<in> set rs. wired (map fst m) r"
  shows "shutdown_ready cs rs m"
proof -
  have "map_of m n \<noteq> Some NilSender" for n
  proof (cases "n \<in> set builtin_names")
    case True
    with init_senders_ok(1-5) [OF assms(1)] show ?thesis by (auto simp: builtin_names_def)
  next
    case False
    with init_senders_ok(6) [OF assms(1), of n NilSender] show ?thesis by (auto simp: made_from_def)
  qed
  with init_senders_ok(5) [OF assms(1)] assms(2,3) show ?thesis by (auto simp: shutdown_ready_def)
qed




subsection \<open>Witness\<close>

text \<open>A configuration with one receiver, which prints what it receives.\<close>

definition demo_startup_env :: startup_env where
  "demo_startup_env =
     \<lparr>files_env = demo_auth_env, certs_env = demo_tls_env, nets_env = demo_net,
      zones_env = demo_zones, clock = (\<lambda>n. 0),
      root_opens = True, collector_starts = (\<lambda>n. StartSucceeds), receiver_starts = (\<lambda>n. True)\<rparr>"

definition demo_receiver_section :: table where
  "demo_receiver_section =
     [(''type'', TString ''http''), (''destination'', TString ''stdout''), (''http'', TTable demo_receiver_config)]"

definition demo_versi_config :: table where
  "demo_versi_config = [(''receiver'', TTable demo_receiver_section)]"

definition demo_main_input :: main_input where
  "demo_main_input = \<lparr>build_info = True, usage_flag = False, config_file = Some demo_versi_config, gomaxprocs = 2,
     pool_schedule = [PoolClose]\<rparr>"

lemma demo_sections:
  "extract_submaps demo_versi_config ''receiver'' = [(''receiver'', demo_receiver_section)]"
  "extract_submaps demo_versi_config ''collector'' = []"
  "extract_sub_submaps demo_versi_config ''sender'' types = []"
proof -
  have "trim_prefix ''root.receiver'' ''root.'' = ''receiver''" by code_simp
  then show "extract_submaps demo_versi_config ''receiver'' = [(''receiver'', demo_receiver_section)]"
    by (simp add: extract_submaps_def demo_versi_config_def write_all_def matched_def sub_path_def)
  show "extract_submaps demo_versi_config ''collector'' = []"
    by (simp add: extract_submaps_def demo_versi_config_def demo_receiver_section_def demo_receiver_config_def
        write_all_def)
  have "extract_submaps demo_versi_config ''sender'' = []"
    by (simp add: extract_submaps_def demo_versi_config_def demo_receiver_section_def demo_receiver_config_def
        write_all_def)
  then show "extract_sub_submaps demo_versi_config ''sender'' types = []"
    by (simp add: extract_sub_submaps_def write_all_def)
qed

lemma demo_init_senders:
  "\<exists>m. init_senders demo_startup_env demo_versi_config = (m, True) \<and> map fst m = builtin_names"
proof -
  obtain d where "init_dlq None = Inr d" by (simp add: init_dlq_def parse_dlq_def)
  moreover have "map_of demo_versi_config ''dead_letter_queue'' = None" by (simp add: demo_versi_config_def)
  ultimately show ?thesis
    by (simp add: init_senders_def demo_sections demo_startup_env_def builtin_senders_def builtin_names_def
        sender_type_dlq_def sender_type_discard_def sender_type_none_def sender_type_stdout_def)
qed

lemma demo_receiver_up: "\<exists>r. init_receivers demo_startup_env builtin_names demo_versi_config
    = \<lparr>rcv_started = [base_name r], rcv_reclosed = [], rcv_up = [r], rcv_ok = True\<rparr>"
proof -
  have texts: "to_lower (trim_space ''http'') = ''http''" "trim_space ''stdout'' = ''stdout''" by code_simp+
  have "read_base demo_receiver_section ''receiver'' builtin_names = demo_receiver_base"
    by (simp add: read_base_def demo_receiver_section_def demo_receiver_base_def cfg_value_def texts builtin_names_def Let_def
        sender_type_stdout_def sender_type_dlq_def)
  then have base: "new_base_receiver demo_receiver_section ''receiver'' builtin_names = Inr demo_receiver_base"
    by (simp add: new_base_receiver_def check_base_def demo_receiver_base_def valid_receiver_types_def type_http_def)
  obtain r where "new_http_receiver demo_net demo_tls_env demo_receiver_base demo_receiver_config = Inr r"
    using demo_receiver by blast
  moreover have "base_type demo_receiver_base = type_http"
    by (simp add: demo_receiver_base_def type_http_def)
  moreover have "inner_section demo_receiver_section type_http = Some demo_receiver_config"
    by (simp add: inner_section_def demo_receiver_section_def type_http_def demo_receiver_config_def)
  ultimately have "make_receiver demo_startup_env builtin_names ''receiver'' demo_receiver_section = Inr r"
    by (simp add: make_receiver_def base demo_startup_env_def)
  then show ?thesis
    by (simp add: init_receivers_def demo_sections start_receivers_def demo_startup_env_def
        demo_receiver_section_def)
qed


end
