(* ===== verification/Sources.thy ===== *)
theory Sources
  imports HttpReceiver SqlCollector
begin

text \<open>
  Collectors and receivers as what they are to the rest of the program: sources, whose Send
  field is called with data, and which say when they are done. The contract is a locale;
  HTTP receivers, HTTP collectors and SQL collectors each provide it.
\<close>

section \<open>The contract\<close>

text \<open>What may be passed to the Send method of a sender.\<close>

definition delivery_sendable :: "'c delivery \<Rightarrow> bool" where
  "delivery_sendable d =
     (case d of Sends x f \<Rightarrow> data_ok x | DeadLetters x f to \<Rightarrow> data_ok x | SendsNothing \<Rightarrow> True)"

text \<open>A source never takes back what it sent, and only sends what is sendable.\<close>

locale data_source = preserving step good allowed
  for step :: "'e \<Rightarrow> 's \<Rightarrow> 's option" and good :: "'s \<Rightarrow> bool" and allowed :: "'e \<Rightarrow> bool" +
  fixes emitted :: "'s \<Rightarrow> 'c delivery list"
  assumes step_emits: "good s \<Longrightarrow> allowed e \<Longrightarrow> step e s = Some s' \<Longrightarrow>
    \<exists>new. emitted s' = emitted s @ new \<and> list_all delivery_sendable new"

text \<open>When a source says that it is done, it is: it never sends anything again.\<close>

locale closing_source = data_source step good allowed emitted
  for step :: "'e \<Rightarrow> 's \<Rightarrow> 's option" and good :: "'s \<Rightarrow> bool" and allowed :: "'e \<Rightarrow> bool"
    and emitted :: "'s \<Rightarrow> 'c delivery list" +
  fixes finished :: "'s \<Rightarrow> bool"
  assumes finished_silent: "good s \<Longrightarrow> allowed e \<Longrightarrow> finished s \<Longrightarrow> step e s = Some s' \<Longrightarrow>
    emitted s' = emitted s \<and> finished s'"
begin

lemma finished_run:
  "good s \<Longrightarrow> list_all allowed es \<Longrightarrow> finished s \<Longrightarrow> run_events step es s = Some s' \<Longrightarrow>
     emitted s' = emitted s \<and> finished s'"
proof (induction es arbitrary: s)
  case (Cons e es)
  then obtain s1 where s1: "step e s = Some s1" "run_events step es s1 = Some s'"
    by (auto split: option.splits)
  then have "good s1" using Cons.prems step_preserves [of s e s1] by simp
  with Cons.IH [OF this _ _ s1(2)] Cons.prems s1(1) finished_silent [of s e s1] show ?case by simp
qed simp

end

section \<open>HTTP receivers\<close>

definition receiver_emits :: "'c receiver_run \<Rightarrow> 'c delivery list" where
  "receiver_emits s = map (\<lambda>(q, status, seen, d). d) (served s)"

definition receiver_finished :: "'c receiver_run \<Rightarrow> bool" where
  "receiver_finished s \<longleftrightarrow> closed (rcv_state s) = ClosedChan"

lemma request_ok_outgoing: "request_ok (outgoing_request q body)"
  by (simp add: request_ok_def outgoing_request_def)

lemma delivery_ok_sendable:
  assumes "delivery_ok fmt fallback whole body d" and "data_ok whole"
  shows "delivery_sendable d"
  using assms by (cases d) (auto simp: delivery_sendable_def data_ok_def split: if_splits)

lemma served_ok_sendable: "served_ok r (q, status, seen, d) \<Longrightarrow> delivery_sendable d"
proof (cases "body_readable r q")
  case True
  assume "served_ok r (q, status, seen, d)"
  with True have "delivery_ok (rcv_format r) (has_fallback r)
    (HTTPRequests [Some (outgoing_request q (in_data q))]) (in_data q) d" by simp
  then show ?thesis by (rule delivery_ok_sendable) (simp add: data_ok_def request_ok_outgoing)
qed (simp add: delivery_sendable_def)

lemma receiver_step_served:
  assumes "receiver_step r e s = Some s'"
  shows "served s' = served s
    \<or> (\<exists>x. served s' = served s @ [x]) \<and> serving s \<noteq> []"
proof (cases e)
  case (RcvServes late i)
  with assms show ?thesis by (auto simp: request_served_def Let_def split: if_splits prod.splits)
qed (use assms in \<open>auto simp: request_arrives_def receiver_begin_close_def receiver_finish_close_def
      split: if_splits sum.splits\<close>)

lemma receiver_emits_step:
  assumes "receiver_good r s" and "receiver_step r e s = Some s'"
  shows "\<exists>new. receiver_emits s' = receiver_emits s @ new \<and> list_all delivery_sendable new"
proof -
  have "list_all (served_ok r) (served s')"
    using http_receiving.step_preserves [of r s e s'] assms by (simp add: receiver_good_def)
  then have "list_all delivery_sendable (receiver_emits s')"
    using served_ok_sendable [of r] by (fastforce simp: list_all_iff receiver_emits_def simp del: served_ok.simps)
  then show ?thesis
    using receiver_step_served [OF assms(2)]
    by (auto simp: receiver_emits_def)
qed

lemma receiver_finished_step:
  assumes "receiver_step r e s = Some s'" and "receiver_finished s"
  shows "receiver_finished s'"
  using assms
  by (cases e) (auto simp: receiver_finished_def request_arrives_def request_served_def receiver_begin_close_def
      receiver_finish_close_def begin_close_def Let_def split: if_splits sum.splits prod.splits)

interpretation receiving: data_source "receiver_step r" "receiver_good r" "\<lambda>e. True" receiver_emits for r
  by unfold_locales (use receiver_emits_step in blast)

interpretation quiet_receiver: closing_source "receiver_step r" "\<lambda>s. receiver_good r s \<and> quiet_close s"
    "\<lambda>e. e \<noteq> RcvFinishClose True" receiver_emits receiver_finished for r
proof unfold_locales
  fix s s' :: "'c receiver_run" and e
  assume s: "receiver_good r s \<and> quiet_close s" and step: "receiver_step r e s = Some s'"
  show "\<exists>new. receiver_emits s' = receiver_emits s @ new \<and> list_all delivery_sendable new"
    using receiver_emits_step s step by blast
  assume "receiver_finished s"
  then show "receiver_emits s' = receiver_emits s \<and> receiver_finished s'"
    using receiver_step_served [OF step] receiver_finished_step [OF step] s
    by (auto simp: receiver_emits_def quiet_close_def receiver_finished_def)
qed


section \<open>HTTP collectors\<close>

definition web_emits :: "'c collector_run \<Rightarrow> 'c delivery list" where
  "web_emits s = List.map_filter (\<lambda>(t, r). case r of Collected resp d \<Rightarrow> Some d | Failed code \<Rightarrow> None) (results s)"

definition sched_finished :: "'z scheduler_scheme \<Rightarrow> bool" where
  "sched_finished s \<longleftrightarrow> closed (sched_state s) = ClosedChan"

lemma map_filter_append: "List.map_filter f (xs @ ys) = List.map_filter f xs @ List.map_filter f ys"
  by (simp add: List.map_filter_def)

lemma sched_finished_stage: "stage_ok s \<Longrightarrow> sched_finished s \<longleftrightarrow> stage s = Finished"
  by (auto simp: stage_ok_def sched_finished_def split: if_splits)

lemma finished_stage_step:
  assumes "stage_ok s" and "stage s = Finished" and "sched_step e s = Some s'"
  shows "stage s' = Finished \<and> phase s' = Returned"
proof -
  have "phase s = Returned" using assms(1,2) by (simp add: stage_ok_def)
  with assms(2,3) show ?thesis
    by (cases e) (auto simp: plan_next_def wake_def stop_waiting_def drain_def end_worker_def
        collector_close_begins_def grace_ends_def close_finishes_def split: if_splits sum.splits)
qed

definition web_good :: "'z http_collector_scheme \<Rightarrow> schedule \<Rightarrow> instant \<Rightarrow> 'c collector_run \<Rightarrow> bool" where
  "web_good c p t s \<longleftrightarrow> collector_good c p t s \<and> col_format c \<in> set valid_formats \<and> 0 \<le> max_body_size c"

definition web_quiet :: "collector_event \<Rightarrow> bool" where
  "web_quiet e \<longleftrightarrow> collector_possible e \<and> e \<noteq> ColSched (EvCloseFinishes True)"

lemma collected_sendable: "collected_ok c (Collected resp d) \<Longrightarrow> delivery_sendable d"
  by (auto intro: delivery_ok_sendable simp: data_ok_def)

lemma web_results_step:
  assumes "http_collector_step c e s = Some s'"
  shows "results s' = results s \<or> (\<exists>x. results s' = results s @ [x]) \<and> active s \<noteq> []"
proof (cases e)
  case (ColSched e')
  show ?thesis
  proof (cases "\<exists>i. e' = EvEnd i")
    case False
    with ColSched assms have "sched_step e' s = Some s'" by (auto split: sched_event.splits)
    from sched_step_results [OF this] False show ?thesis by simp
  qed (use ColSched assms in auto)
next
  case (ColRequest env i)
  with assms show ?thesis by (auto simp: request_ends_def end_worker_def split: if_splits)
qed

lemma web_good_step:
  "web_good c p t s \<Longrightarrow> collector_possible e \<Longrightarrow> http_collector_step c e s = Some s' \<Longrightarrow> web_good c p t s'"
  using http_collecting.step_preserves [of c p t s e s'] by (simp add: web_good_def)

lemma web_emits_step:
  assumes "web_good c p t s" and "collector_possible e" and "http_collector_step c e s = Some s'"
  shows "\<exists>new. web_emits s' = web_emits s @ new \<and> list_all delivery_sendable new"
proof -
  have ok: "\<forall>(t, r) \<in> set (results s'). collected_ok c r"
    using web_good_step [OF assms] by (auto simp: web_good_def collector_good_def list_all_iff)
  from web_results_step [OF assms(3)] obtain xs where xs: "results s' = results s @ xs" by auto
  have "list_all delivery_sendable (web_emits s')"
    using ok collected_sendable [of c]
    by (fastforce simp: web_emits_def list_all_iff List.map_filter_def simp del: collected_ok.simps split: collected.splits)
  with xs show ?thesis by (auto simp: web_emits_def map_filter_append)
qed

lemma web_idle_step:
  assumes "web_good c p t s" and "idle_when_finished s" and "web_quiet e" and "http_collector_step c e s = Some s'"
  shows "idle_when_finished s' \<and> (sched_finished s \<longrightarrow> web_emits s' = web_emits s \<and> sched_finished s')"
proof -
  have stage: "stage_ok s" "workers_ok s" "stage_ok s'"
    using assms web_good_step [of c p t s e s']
    by (auto simp: web_good_def collector_good_def sched_good_def web_quiet_def)
  show ?thesis
  proof (cases "\<exists>e'. e = ColSched e' \<and> (\<forall>i. e' \<noteq> EvEnd i)")
    case True
    then obtain e' where e': "e = ColSched e'" "\<forall>i. e' \<noteq> EvEnd i" by blast
    then have step: "sched_step e' s = Some s'" using assms(4) by (auto split: sched_event.splits)
    have "idle_when_finished s'"
      using idle_step [OF assms(2) stage(1) _ step] assms(3) e' by (auto simp: web_quiet_def)
    moreover have "web_emits s' = web_emits s"
      using sched_step_results [OF step] e' by (simp add: web_emits_def)
    moreover have "sched_finished s'" if "sched_finished s"
      using that finished_stage_step [OF stage(1) _ step] stage by (simp add: sched_finished_stage)
    ultimately show ?thesis by blast
  next
    case False
    show ?thesis
    proof (cases "s' = s")
      case False
      with assms(4) \<open>\<not> (\<exists>e'. _ e')\<close> obtain env i where e: "e = ColRequest env i" and i: "i < length (active s)"
        by (cases e) (auto simp: request_ends_def split: if_splits)
      with assms(4) have s': "stage s' = stage s" "\<not> sched_finished s"
        using assms(2) stage by (auto simp: request_ends_def end_worker_def idle_when_finished_def workers_ok_def sched_finished_stage)
      then show ?thesis using stage by (simp add: idle_when_finished_def sched_finished_stage)
    qed (use assms(2) in simp)
  qed
qed

interpretation web_source: data_source "http_collector_step c" "web_good c p t" collector_possible web_emits for c p t
  by unfold_locales (use web_good_step web_emits_step in blast)+

interpretation quiet_web_source: closing_source "http_collector_step c" "\<lambda>s. web_good c p t s \<and> idle_when_finished s"
    web_quiet web_emits sched_finished for c p t
proof unfold_locales
  fix s s' :: "'c collector_run" and e
  assume s: "web_good c p t s \<and> idle_when_finished s" and e: "web_quiet e" and step: "http_collector_step c e s = Some s'"
  then have e': "collector_possible e" by (simp add: web_quiet_def)
  note idle = web_idle_step [OF _ _ e step, of p t]
  show "web_good c p t s' \<and> idle_when_finished s'" using web_good_step [OF _ e' step] idle s by blast
  show "\<exists>new. web_emits s' = web_emits s @ new \<and> list_all delivery_sendable new"
    using web_emits_step [OF _ e' step] s by blast
  show "web_emits s' = web_emits s \<and> sched_finished s'" if "sched_finished s" using idle s that by blast
qed


section \<open>SQL collectors\<close>

definition db_emits :: "format \<Rightarrow> 'c sql_run \<Rightarrow> 'c delivery list" where
  "db_emits fmt s = map (\<lambda>rows. Sends (Rows rows) fmt) (dispatched s)"

lemma sql_dispatched_step:
  assumes "sql_step e s = Some s'"
  shows "\<exists>new. dispatched s' = dispatched s @ new"
proof (cases e)
  case (SqlSched e')
  show ?thesis
  proof (cases "(\<exists>i. e' = EvEnd i) \<or> (\<exists>b. e' = EvCloseFinishes b)")
    case True
    with assms SqlSched show ?thesis
      by (auto simp: sql_close_finishes_def close_finishes_def batch_result_def split: if_splits sum.splits)
  next
    case False
    then obtain s1 where "sched_step e' s = Some s1" "s' = add_queries s1"
      using assms SqlSched by (cases e') auto
    with sql_more [OF sched_step_frame(1), of e' s s1] show ?thesis by (simp add: add_queries_def)
  qed
next
  case (SqlBegin q i)
  with assms show ?thesis by (auto simp: query_begins_def query_done_def end_worker_def)
next
  case (SqlAdd i)
  with assms show ?thesis
    by (auto simp: query_adds_def split: query_state.splits list.splits if_splits prod.splits)
next
  case (SqlFlush i)
  with assms show ?thesis
    by (auto simp: query_flushes_def split: query_state.splits list.splits if_splits prod.splits)
next
  case (SqlDispatch i)
  with assms show ?thesis
    by (auto simp: query_dispatches_def split: query_state.splits list.splits if_splits)
next
  case (SqlFinish i)
  with assms show ?thesis
    by (auto simp: query_finishes_def query_done_def end_worker_def checkpoint_def
        split: query_state.splits list.splits if_splits)
next
  case (SqlTimer g)
  with assms show ?thesis by (auto simp: sql_timer_def split: prod.splits)
next
  case (SqlTimerDispatch k)
  with assms show ?thesis by (auto simp: timer_dispatches_def)
qed

lemma sql_finished_step:
  assumes "sql_good p t s" and "sql_idle s" and "sched_finished s" and "sql_step e s = Some s'"
  shows "dispatched s' = dispatched s \<and> stage s' = Finished"
proof -
  have stage: "stage_ok s" using assms(1) by (simp add: sql_good_def sched_good_def)
  then have fin: "stage s = Finished" using assms(3) by (simp add: sched_finished_stage)
  with assms(2) have idle: "active s = []" "querying s = []" "buf (batch s) = []" "timed s = []"
    by (simp_all add: sql_idle_def)
  show ?thesis
  proof (cases e)
    case (SqlSched e')
    show ?thesis
    proof (cases "(\<exists>i. e' = EvEnd i) \<or> (\<exists>b. e' = EvCloseFinishes b)")
      case True
      with assms(4) SqlSched fin show ?thesis by (auto simp: sql_close_finishes_def)
    next
      case False
      then obtain s1 where "sched_step e' s = Some s1" "s' = add_queries s1"
        using assms(4) SqlSched by (cases e') auto
      with sql_more [OF sched_step_frame(1), of e' s s1] finished_stage_step [OF stage fin]
      show ?thesis by (auto simp: add_queries_def)
    qed
  next
    case (SqlTimer g)
    with assms(4) idle(3) fin show ?thesis
      by (auto simp: sql_timer_def split: prod.splits)
  qed (use assms(4) idle fin in \<open>auto simp: query_begins_def query_adds_def query_flushes_def query_dispatches_def
      query_finishes_def timer_dispatches_def\<close>)
qed

lemma db_emits_step:
  "sql_step e s = Some s' \<Longrightarrow> \<exists>new. db_emits fmt s' = db_emits fmt s @ new \<and> list_all delivery_sendable new"
  using sql_dispatched_step [of e s s']
  by (auto simp: db_emits_def delivery_sendable_def data_ok_def list_all_iff)

interpretation db_source: data_source sql_step "sql_good p t" sql_possible "db_emits fmt" for p t fmt
  by unfold_locales (use db_emits_step in blast)

interpretation quiet_db_source: closing_source sql_step "\<lambda>s. sql_good p t s \<and> sql_idle s"
    "\<lambda>e. sql_possible e \<and> e \<noteq> SqlSched (EvCloseFinishes True)" "db_emits fmt" sched_finished for p t fmt
proof unfold_locales
  fix s s' :: "'c sql_run" and e
  assume s: "sql_good p t s \<and> sql_idle s" and e: "sql_possible e \<and> e \<noteq> SqlSched (EvCloseFinishes True)"
    and step: "sql_step e s = Some s'"
  show "\<exists>new. db_emits fmt s' = db_emits fmt s @ new \<and> list_all delivery_sendable new"
    by (rule db_emits_step [OF step])
  have "stage_ok s'" using sql_step_ok [of p t s e s'] s e step by (simp add: sql_good_def sched_good_def)
  then show "db_emits fmt s' = db_emits fmt s \<and> sched_finished s'" if "sched_finished s"
    using sql_finished_step [of p t s e s'] s that step by (simp add: db_emits_def sched_finished_stage)
qed

end
