(* ===== verification/Pipeline.thy ===== *)
theory Pipeline
  imports Sources
begin

text \<open>
  The running program: its sources, its HTTP senders and the dead-letter queue, connected as
  cmd/versi connects them, and the order in which main shuts them down. This is where the
  parts of the program meet: what a source sends is what a sender gets, and what a sender
  rejects is what the queue gets.
\<close>

section \<open>State\<close>

text \<open>A source runs with its settings; its plan and start are those of its scheduler.\<close>

datatype 'c source =
  ReceiverSource http_receiver "'c receiver_run"
| WebSource http_collector "'c collector_run"
| DbSource "'c sql_collector" "'c sql_run"

datatype 'c source_event =
  ReceiverDoes receiver_event
| WebDoes collector_event
| DbDoes "'c sql_event"

fun source_step :: "'c source_event \<Rightarrow> 'c source \<Rightarrow> 'c source option" where
  "source_step (ReceiverDoes e) (ReceiverSource r s) = map_option (ReceiverSource r) (receiver_step r e s)"
| "source_step (WebDoes e) (WebSource c s) = map_option (WebSource c) (http_collector_step c e s)"
| "source_step (DbDoes e) (DbSource c s) = map_option (DbSource c) (sql_step e s)"
| "source_step _ _ = None"

fun emits :: "'c source \<Rightarrow> 'c delivery list" where
  "emits (ReceiverSource r s) = receiver_emits s"
| "emits (WebSource c s) = web_emits s"
| "emits (DbSource c s) = db_emits (sql_format c) s"

text \<open>What main waits for: the return of Close, or the Done channel.\<close>

fun source_finished :: "'c source \<Rightarrow> bool" where
  "source_finished (ReceiverSource r s) = receiver_finished s"
| "source_finished (WebSource c s) = sched_finished s"
| "source_finished (DbSource c s) = sched_finished s"

text \<open>
  How far main has come: it runs, waits for the sources, waits for the senders, or closes the
  dead-letter queue.
\<close>

datatype main_stage = Running | ClosingSources | ClosingSenders | ClosingQueue

text \<open>
  Every source has the name of its destination, every sender its own. \<open>letters\<close> is what was
  passed to the dead-letter queue while it was open, \<open>lost\<close> what came later.
\<close>

record 'c program =
  sources :: "(string \<times> 'c source) list"
  targets :: "(string \<times> 'c sender_sys) list"
  main_stage :: main_stage
  letters :: "('c data \<times> format) list"
  lost :: "('c data \<times> format) list"

section \<open>Steps\<close>

text \<open>Send of the dead-letter queue, which discards what comes after its Close.\<close>

definition to_queue :: "('c data \<times> format) list \<Rightarrow> 'c program \<Rightarrow> 'c program" where
  "to_queue xs p =
     (if main_stage p = ClosingQueue then p\<lparr>lost := lost p @ xs\<rparr> else p\<lparr>letters := letters p @ xs\<rparr>)"

text \<open>What a step of a sender passed to its fallback: rejected jobs, and refused chunks.\<close>

definition rejected_jobs :: "('c job \<times> 'c send_outcome) list \<Rightarrow> ('c data \<times> format) list" where
  "rejected_jobs ocs = List.map_filter (\<lambda>(j, oc). case oc of Rejected d f \<Rightarrow> Some (d, f) | Delivered out \<Rightarrow> None) ocs"

definition new_rejects :: "'c sender_sys \<Rightarrow> 'c sender_sys \<Rightarrow> ('c data \<times> format) list" where
  "new_rejects s s' =
     rejected_jobs (drop (length (outcomes s)) (outcomes s')) @ drop (length (refused s)) (refused s')"

definition sender_did :: "string \<Rightarrow> 'c sender_sys \<Rightarrow> 'c sender_sys \<Rightarrow> 'c program \<Rightarrow> 'c program" where
  "sender_did n s s' p = to_queue (new_rejects s s') (p\<lparr>targets := AList.update n s' (targets p)\<rparr>)"

text \<open>
  One delivery of a source with destination \<open>n\<close>: to an HTTP sender, to the dead-letter queue
  if that is its destination or its fallback, or to a sender that keeps nothing.
\<close>

definition deliver :: "(bytes \<Rightarrow> string) \<Rightarrow> string \<Rightarrow> 'c delivery \<Rightarrow> 'c program \<Rightarrow> 'c program option" where
  "deliver detect n d p =
     (case d of
        SendsNothing \<Rightarrow> Some p
      | DeadLetters x f to \<Rightarrow> Some (if to = ToDLQ then to_queue [(x, f)] p else p)
      | Sends x f \<Rightarrow>
          (if n = sender_type_dlq then Some (to_queue [(x, f)] p)
           else (case map_of (targets p) n of
                   None \<Rightarrow> Some p
                 | Some s \<Rightarrow> map_option (\<lambda>s'. sender_did n s s' p) (sender_send detect (Some x) f s))))"

fun deliver_all :: "(bytes \<Rightarrow> string) \<Rightarrow> string \<Rightarrow> 'c delivery list \<Rightarrow> 'c program \<Rightarrow> 'c program option" where
  "deliver_all detect n [] p = Some p"
| "deliver_all detect n (d # ds) p =
     (case deliver detect n d p of None \<Rightarrow> None | Some p' \<Rightarrow> deliver_all detect n ds p')"

datatype 'c program_event =
  SourceDoes nat "'c source_event"
| SenderDoes string "'c sender_event"
| Interrupted
| SourcesClosed
| SendersClosed

text \<open>Receivers are closed when main has been interrupted, senders when all sources are done.\<close>

definition may_happen :: "main_stage \<Rightarrow> 'c program_event \<Rightarrow> bool" where
  "may_happen st e =
     (case e of
        SourceDoes i (ReceiverDoes RcvBeginClose) \<Rightarrow> st \<noteq> Running
      | SenderDoes n EvBeginClose \<Rightarrow> st = ClosingSenders
      | SenderDoes n (EvSend d f) \<Rightarrow> False
      | _ \<Rightarrow> True)"

definition source_does :: "(bytes \<Rightarrow> string) \<Rightarrow> nat \<Rightarrow> 'c source_event \<Rightarrow> 'c program \<Rightarrow> 'c program option" where
  "source_does detect i e p =
     (if i \<ge> length (sources p) then None
      else (let (n, s) = sources p ! i
            in case source_step e s of
                 None \<Rightarrow> None
               | Some s' \<Rightarrow>
                   deliver_all detect n (drop (length (emits s)) (emits s'))
                     (p\<lparr>sources := (sources p)[i := (n, s')]\<rparr>)))"

definition sender_does ::
  "(('f, 'v) cell \<Rightarrow> bytes option) \<Rightarrow> (bytes \<Rightarrow> string) \<Rightarrow> string \<Rightarrow> ('f, 'v) cell sender_event
    \<Rightarrow> ('f, 'v) cell program \<Rightarrow> ('f, 'v) cell program option" where
  "sender_does marshal detect n e p =
     (case map_of (targets p) n of
        None \<Rightarrow> None
      | Some s \<Rightarrow> map_option (\<lambda>s'. sender_did n s s' p) (sender_step marshal detect e s))"

definition program_step ::
  "(('f, 'v) cell \<Rightarrow> bytes option) \<Rightarrow> (bytes \<Rightarrow> string) \<Rightarrow> ('f, 'v) cell program_event
    \<Rightarrow> ('f, 'v) cell program \<Rightarrow> ('f, 'v) cell program option" where
  "program_step marshal detect e p =
     (if \<not> may_happen (main_stage p) e then None
      else (case e of
              SourceDoes i se \<Rightarrow> source_does detect i se p
            | SenderDoes n se \<Rightarrow> sender_does marshal detect n se p
            | Interrupted \<Rightarrow> (if main_stage p = Running then Some (p\<lparr>main_stage := ClosingSources\<rparr>) else None)
            | SourcesClosed \<Rightarrow>
                (if main_stage p = ClosingSources \<and> list_all (\<lambda>(n, s). source_finished s) (sources p)
                 then Some (p\<lparr>main_stage := ClosingSenders\<rparr>) else None)
            | SendersClosed \<Rightarrow>
                (if main_stage p = ClosingSenders \<and> list_all (\<lambda>(n, s). closed (snd_state s) = ClosedChan) (targets p)
                 then Some (p\<lparr>main_stage := ClosingQueue\<rparr>) else None)))"

text \<open>The program as it starts; every source starts when it does.\<close>

definition start_program :: "(string \<times> 'c source) list \<Rightarrow> (string \<times> 'c http_sender) list \<Rightarrow> 'c program" where
  "start_program srcs snds =
     \<lparr>sources = srcs, targets = map (\<lambda>(n, s). (n, start_sender s)) snds, main_stage = Running,
      letters = [], lost = []\<rparr>"


section \<open>Accounts\<close>

fun delivery_units :: "'c delivery \<Rightarrow> 'c unit_item multiset" where
  "delivery_units (Sends x f) = data_units x"
| "delivery_units (DeadLetters x f to) = {#}"
| "delivery_units SendsNothing = {#}"

text \<open>What the sources with destination \<open>n\<close> sent to it.\<close>

definition units_for :: "string \<Rightarrow> (string \<times> 'c source) list \<Rightarrow> 'c unit_item multiset" where
  "units_for n srcs = (\<Sum>(m, s)\<leftarrow>srcs. if m = n then (\<Sum>d\<leftarrow>emits s. delivery_units d) else {#})"

text \<open>What a source, or a sender, passed to the dead-letter queue.\<close>

fun letters_of :: "string \<Rightarrow> 'c delivery \<Rightarrow> ('c data \<times> format) multiset" where
  "letters_of n (Sends x f) = (if n = sender_type_dlq then {#(x, f)#} else {#})"
| "letters_of n (DeadLetters x f to) = (if to = ToDLQ then {#(x, f)#} else {#})"
| "letters_of n SendsNothing = {#}"

definition rejects :: "'c sender_sys \<Rightarrow> ('c data \<times> format) multiset" where
  "rejects s = mset (rejected_jobs (outcomes s)) + mset (refused s)"

definition source_letters :: "(string \<times> 'c source) list \<Rightarrow> ('c data \<times> format) multiset" where
  "source_letters srcs = (\<Sum>(n, s)\<leftarrow>srcs. \<Sum>d\<leftarrow>emits s. letters_of n d)"

definition target_letters :: "(string \<times> 'c sender_sys) list \<Rightarrow> ('c data \<times> format) multiset" where
  "target_letters tgts = (\<Sum>(n, s)\<leftarrow>tgts. rejects s)"

definition queued :: "'c program \<Rightarrow> ('c data \<times> format) multiset" where
  "queued p = mset (letters p) + mset (lost p)"

definition senders_good :: "(('f, 'v) cell \<Rightarrow> bytes option) \<Rightarrow> (string \<times> ('f, 'v) cell sender_sys) list \<Rightarrow> bool" where
  "senders_good marshal tgts \<longleftrightarrow>
     distinct (map fst tgts) \<and> sender_type_dlq \<notin> set (map fst tgts) \<and> (\<forall>n s. map_of tgts n = Some s \<longrightarrow> sender_good marshal s)"

lemma sum_list_update_key:
  fixes f :: "'a \<Rightarrow> 'b multiset"
  assumes "distinct (map fst m)" and "map_of m k = Some v"
  shows "(\<Sum>(n, x)\<leftarrow>AList.update k v' m. f x) + f v = (\<Sum>(n, x)\<leftarrow>m. f x) + f v'"
  using assms
proof (induction m)
  case (Cons nx m)
  obtain n x where nx: "nx = (n, x)" by fastforce
  show ?case
  proof (cases "n = k")
    case True
    with Cons.prems nx show ?thesis by (simp add: ac_simps)
  next
    case False
    with Cons nx have "(\<Sum>(n, x)\<leftarrow>AList.update k v' m. f x) + f v = (\<Sum>(n, x)\<leftarrow>m. f x) + f v'" by simp
    then show ?thesis using nx False by (simp add: add.assoc)
  qed
qed simp

lemma update_keys_same: "map_of m k = Some v \<Longrightarrow> map fst (AList.update k v' m) = map fst m"
  by (induction m) (auto split: if_splits)

lemma to_queue_simps [simp]:
  "sources (to_queue xs p) = sources p" "targets (to_queue xs p) = targets p"
  "main_stage (to_queue xs p) = main_stage p" "queued (to_queue xs p) = queued p + mset xs"
  by (auto simp: to_queue_def queued_def)

lemma start_jobs_record [simp]:
  "outcomes (start_jobs js s) = outcomes s" "refused (start_jobs js s) = refused s"
  unfolding start_jobs_def by (induction js arbitrary: s) (simp_all add: start_job_def Let_def)

lemma sender_send_grows:
  assumes "sender_send detect d f s = Some s'"
  shows "outcomes s' = outcomes s \<and> (\<exists>b. refused s' = refused s @ b)
    \<and> (\<not> is_closing (snd_state s) \<longrightarrow> refused s' = refused s)"
  using assms
  by (auto simp: sender_send_def dispatch_chunk_def use_json_def use_rows_def Let_def
      split: if_splits option.splits chunk.splits prod.splits)

lemma sender_step_grows:
  assumes "sender_step marshal detect e s = Some s'"
  shows "\<exists>a b. outcomes s' = outcomes s @ a \<and> refused s' = refused s @ b"
proof (cases e)
  case (EvSend d f)
  with assms sender_send_grows [of detect d f s s'] show ?thesis by auto
qed (use assms in \<open>auto simp: use_json_def use_rows_def sender_timer_def sender_begin_close_def
      flush_next_def sender_finish_close_def waiting_wakes_def running_ends_def job_done_def Let_def
      split: if_splits option.splits sum.splits batch_kind.splits prod.splits list.splits\<close>)

lemma rejects_grow:
  assumes "outcomes s' = outcomes s @ a" and "refused s' = refused s @ b"
  shows "rejects s' = rejects s + mset (new_rejects s s')"
  using assms by (simp add: rejects_def new_rejects_def rejected_jobs_def map_filter_append)

text \<open>One sender went from \<open>s\<close> to \<open>s'\<close>: the queue got exactly what this sender rejected.\<close>

lemma sender_did_accounts:
  assumes "senders_good marshal (targets p)" and "map_of (targets p) n = Some s" and "sender_good marshal s'"
    and "\<exists>a b. outcomes s' = outcomes s @ a \<and> refused s' = refused s @ b"
  shows "senders_good marshal (targets (sender_did n s s' p))"
    and "map_of (targets (sender_did n s s' p)) m = (if m = n then Some s' else map_of (targets p) m)"
    and "sources (sender_did n s s' p) = sources p" "main_stage (sender_did n s s' p) = main_stage p"
    and "queued (sender_did n s s' p) + target_letters (targets p)
      = queued p + target_letters (targets (sender_did n s s' p))"
proof -
  have keys: "map fst (AList.update n s' (targets p)) = map fst (targets p)"
    using assms(2) by (rule update_keys_same)
  with assms(1,3) show "senders_good marshal (targets (sender_did n s s' p))"
    by (auto simp: senders_good_def sender_did_def update_conv')
  show "map_of (targets (sender_did n s s' p)) m = (if m = n then Some s' else map_of (targets p) m)"
    by (simp add: sender_did_def update_conv')
  show "sources (sender_did n s s' p) = sources p" "main_stage (sender_did n s s' p) = main_stage p"
    by (simp_all add: sender_did_def)
  have "target_letters (targets (sender_did n s s' p)) + rejects s = target_letters (targets p) + rejects s'"
    using sum_list_update_key [of "targets p" n s rejects s'] assms(1,2)
    by (simp add: sender_did_def target_letters_def senders_good_def)
  moreover have "rejects s' = rejects s + mset (new_rejects s s')" using assms(4) rejects_grow by blast
  moreover have "queued (sender_did n s s' p) = queued p + mset (new_rejects s s')"
    by (simp add: sender_did_def queued_def to_queue_def)
  ultimately show "queued (sender_did n s s' p) + target_letters (targets p)
      = queued p + target_letters (targets (sender_did n s s' p))" by (simp add: ac_simps)
qed


subsection \<open>Deliveries\<close>

text \<open>What a sender holds grows by what it is sent; while it is open, it refuses nothing.\<close>

definition takes_in :: "'c sender_sys \<Rightarrow> 'c unit_item multiset \<Rightarrow> 'c sender_sys \<Rightarrow> bool" where
  "takes_in s u s' \<longleftrightarrow>
     sender_held s' = sender_held s + u
     \<and> (\<not> is_closing (snd_state s) \<longrightarrow> \<not> is_closing (snd_state s') \<and> refused s' = refused s)"

definition all_received ::
  "string \<Rightarrow> 'c unit_item multiset \<Rightarrow> (string \<times> 'c sender_sys) list \<Rightarrow> (string \<times> 'c sender_sys) list \<Rightarrow> bool" where
  "all_received n u tgts tgts' \<longleftrightarrow>
     (\<forall>m. case map_of tgts m of
            None \<Rightarrow> map_of tgts' m = None
          | Some s \<Rightarrow> \<exists>s'. map_of tgts' m = Some s' \<and> takes_in s (if m = n then u else {#}) s')"

lemma takes_in_refl [simp]: "takes_in s {#} s"
  by (simp add: takes_in_def)

lemma all_received_refl: "u = {#} \<or> map_of tgts n = None \<Longrightarrow> all_received n u tgts tgts"
  by (auto simp: all_received_def split: option.splits)

lemma all_received_trans:
  assumes "all_received n u t1 t2" and "all_received n v t2 t3"
  shows "all_received n (u + v) t1 t3"
  unfolding all_received_def
proof
  fix m
  show "case map_of t1 m of None \<Rightarrow> map_of t3 m = None
      | Some s \<Rightarrow> \<exists>s'. map_of t3 m = Some s' \<and> takes_in s (if m = n then u + v else {#}) s'"
  proof (cases "map_of t1 m")
    case None
    with spec [OF assms(1) [unfolded all_received_def], of m] spec [OF assms(2) [unfolded all_received_def], of m]
    show ?thesis by simp
  next
    case (Some s)
    with spec [OF assms(1) [unfolded all_received_def], of m]
    obtain s2 where s2: "map_of t2 m = Some s2" "takes_in s (if m = n then u else {#}) s2" by auto
    with spec [OF assms(2) [unfolded all_received_def], of m]
    obtain s3 where "map_of t3 m = Some s3" "takes_in s2 (if m = n then v else {#}) s3" by auto
    with s2 Some show ?thesis by (auto simp: takes_in_def ac_simps)
  qed
qed

lemma start_jobs_closing [simp]:
  "is_closing (snd_state (start_jobs js s)) = is_closing (snd_state s)"
  unfolding start_jobs_def by (induction js arbitrary: s) (simp_all add: start_job_def is_closing_def Let_def)

lemma sender_send_takes_in:
  assumes "sender_good marshal s" and "data_ok x"
  shows "\<exists>s'. sender_send detect (Some x) f s = Some s' \<and> sender_good marshal s' \<and> takes_in s (data_units x) s'"
proof -
  obtain s' where s': "sender_send detect (Some x) f s = Some s'" "sender_good marshal s'"
    "sender_held s' = sender_held s + data_units x"
    using sender_send_ok [OF assms(1), of "Some x" detect f] assms(2) by auto
  have "is_closing (snd_state s') = is_closing (snd_state s)"
    using s'(1) by (auto simp: sender_send_def dispatch_chunk_def use_json_def use_rows_def Let_def
        split: if_splits option.splits chunk.splits prod.splits)
  with s' sender_send_grows [OF s'(1)] show ?thesis by (auto simp: takes_in_def)
qed

definition delivered_well :: "(('f, 'v) cell \<Rightarrow> bytes option) \<Rightarrow> string \<Rightarrow> ('f, 'v) cell delivery list
    \<Rightarrow> ('f, 'v) cell program \<Rightarrow> ('f, 'v) cell program \<Rightarrow> bool" where
  "delivered_well marshal n ds p p' \<longleftrightarrow>
     senders_good marshal (targets p') \<and> sources p' = sources p \<and> main_stage p' = main_stage p
     \<and> queued p' + target_letters (targets p) = queued p + (\<Sum>d\<leftarrow>ds. letters_of n d) + target_letters (targets p')
     \<and> all_received n (\<Sum>d\<leftarrow>ds. delivery_units d) (targets p) (targets p')"

lemma deliver_ok:
  assumes "senders_good marshal (targets p)" and "delivery_sendable d"
  shows "\<exists>p'. deliver detect n d p = Some p' \<and> delivered_well marshal n [d] p p'"
proof -
  have none: "delivered_well marshal n [d] p (to_queue xs p)"
    if "mset xs = letters_of n d" "delivery_units d = {#} \<or> map_of (targets p) n = None" for xs
    using that assms(1) by (simp add: delivered_well_def all_received_refl ac_simps)
  have same: "delivered_well marshal n [d] p p"
    if "letters_of n d = {#}" "delivery_units d = {#} \<or> map_of (targets p) n = None"
    using that assms(1) by (simp add: delivered_well_def all_received_refl ac_simps)
  show ?thesis
  proof (cases d)
    case (DeadLetters x f to)
    with none [of "[(x, f)]"] same show ?thesis by (auto simp: deliver_def)
  next
    case (Sends x f)
    show ?thesis
    proof (cases "map_of (targets p) n")
      case None
      with Sends none [of "[(x, f)]"] same show ?thesis by (auto simp: deliver_def)
    next
      case (Some s)
      then have dlq: "n \<noteq> sender_type_dlq"
        using assms(1) map_of_SomeD [OF Some] by (force simp: senders_good_def)
      have "sender_good marshal s" using assms(1) Some by (auto simp: senders_good_def)
      moreover have "data_ok x" using assms(2) Sends by (simp add: delivery_sendable_def)
      ultimately obtain s' where s': "sender_send detect (Some x) f s = Some s'" "sender_good marshal s'"
        "takes_in s (data_units x) s'"
        using sender_send_takes_in by blast
      have "\<exists>a b. outcomes s' = outcomes s @ a \<and> refused s' = refused s @ b"
        using sender_send_grows [OF s'(1)] by auto
      note did = sender_did_accounts [OF assms(1) Some s'(2) this]
      have "all_received n (data_units x) (targets p) (targets (sender_did n s s' p))"
        using Some s'(3) by (auto simp: all_received_def did(2) split: option.splits)
      with did Sends dlq have "delivered_well marshal n [d] p (sender_did n s s' p)"
        by (simp add: delivered_well_def)
      moreover have "deliver detect n d p = Some (sender_did n s s' p)"
        using Sends Some dlq s'(1) by (simp add: deliver_def)
      ultimately show ?thesis by blast
    qed
  next
    case SendsNothing
    with same show ?thesis by (simp add: deliver_def)
  qed
qed

lemma balance_trans:
  fixes q :: "'a multiset"
  assumes "q1 + t = q + l + t1" and "q2 + t1 = q1 + ls + t2"
  shows "q2 + t = q + (l + ls) + t2"
proof (rule multiset_eqI)
  fix x
  have "count (q1 + t) x = count (q + l + t1) x" "count (q2 + t1) x = count (q1 + ls + t2) x"
    using assms by simp_all
  then show "count (q2 + t) x = count (q + (l + ls) + t2) x" by simp
qed

lemma delivered_well_trans:
  assumes "delivered_well marshal n [d] p p1" and "delivered_well marshal n ds p1 p2"
  shows "delivered_well marshal n (d # ds) p p2"
proof -
  have "queued p1 + target_letters (targets p) = queued p + letters_of n d + target_letters (targets p1)"
    "queued p2 + target_letters (targets p1) = queued p1 + (\<Sum>d\<leftarrow>ds. letters_of n d) + target_letters (targets p2)"
    using assms by (simp_all add: delivered_well_def)
  then have "queued p2 + target_letters (targets p)
      = queued p + (letters_of n d + (\<Sum>d\<leftarrow>ds. letters_of n d)) + target_letters (targets p2)"
    by (rule balance_trans)
  moreover have "all_received n (\<Sum>d\<leftarrow>d # ds. delivery_units d) (targets p) (targets p2)"
    using all_received_trans [of n "delivery_units d" "targets p" "targets p1" "\<Sum>d\<leftarrow>ds. delivery_units d" "targets p2"] assms
    by (simp add: delivered_well_def)
  ultimately show ?thesis using assms by (simp add: delivered_well_def)
qed

lemma deliver_all_ok:
  assumes "senders_good marshal (targets p)" and "list_all delivery_sendable ds"
  shows "\<exists>p'. deliver_all detect n ds p = Some p' \<and> delivered_well marshal n ds p p'"
  using assms
proof (induction ds arbitrary: p)
  case Nil
  then show ?case by (simp add: delivered_well_def all_received_refl)
next
  case (Cons d ds)
  obtain p1 where p1: "deliver detect n d p = Some p1" "delivered_well marshal n [d] p p1"
    using deliver_ok [of marshal p d detect n] Cons.prems by auto
  then have "senders_good marshal (targets p1)" by (simp add: delivered_well_def)
  from Cons.IH [OF this] Cons.prems obtain p2 where
    "deliver_all detect n ds p1 = Some p2" "delivered_well marshal n ds p1 p2" by auto
  with p1 delivered_well_trans [OF p1(2)] show ?case by auto
qed


subsection \<open>Sources of any kind\<close>

fun source_good :: "'c source \<Rightarrow> bool" where
  "source_good (ReceiverSource r s) \<longleftrightarrow> receiver_good r s"
| "source_good (WebSource c s) \<longleftrightarrow> (\<exists>p t. web_good c p t s)"
| "source_good (DbSource c s) \<longleftrightarrow> (\<exists>p t. sql_good p t s)"

fun source_possible :: "'c source_event \<Rightarrow> bool" where
  "source_possible (ReceiverDoes e) \<longleftrightarrow> True"
| "source_possible (WebDoes e) \<longleftrightarrow> collector_possible e"
| "source_possible (DbDoes e) \<longleftrightarrow> sql_possible e"

text \<open>A source that has not lost its patience: it has waited for the work in progress.\<close>

fun source_quiet :: "'c source \<Rightarrow> bool" where
  "source_quiet (ReceiverSource r s) \<longleftrightarrow> receiver_good r s \<and> quiet_close s"
| "source_quiet (WebSource c s) \<longleftrightarrow> (\<exists>p t. web_good c p t s \<and> idle_when_finished s)"
| "source_quiet (DbSource c s) \<longleftrightarrow> (\<exists>p t. sql_good p t s \<and> sql_idle s)"

fun source_unforced :: "'c source_event \<Rightarrow> bool" where
  "source_unforced (ReceiverDoes e) \<longleftrightarrow> e \<noteq> RcvFinishClose True"
| "source_unforced (WebDoes e) \<longleftrightarrow> web_quiet e"
| "source_unforced (DbDoes e) \<longleftrightarrow> sql_possible e \<and> e \<noteq> SqlSched (EvCloseFinishes True)"

lemma source_stepE:
  assumes "source_step e src = Some src'"
  obtains (receiver) r s s' re where "e = ReceiverDoes re" "src = ReceiverSource r s" "src' = ReceiverSource r s'"
      "receiver_step r re s = Some s'"
  | (web) c s s' we where "e = WebDoes we" "src = WebSource c s" "src' = WebSource c s'"
      "http_collector_step c we s = Some s'"
  | (db) c s s' de where "e = DbDoes de" "src = DbSource c s" "src' = DbSource c s'" "sql_step de s = Some s'"
  using assms by (cases e; cases src) auto

interpretation any_source: data_source source_step source_good source_possible emits
proof unfold_locales
  fix src src' :: "'c source" and e
  assume good: "source_good src" and e: "source_possible e" and step: "source_step e src = Some src'"
  from step show "source_good src'"
  proof (cases rule: source_stepE)
    case (receiver r s s' re)
    with good http_receiving.step_preserves [of r s re s'] show ?thesis by simp
  next
    case (web c s s' we)
    with good e web_source.step_preserves [of c _ _ s we s'] show ?thesis by auto
  next
    case (db c s s' de)
    with good e sql_collecting.step_preserves [of _ _ s de s'] show ?thesis by auto
  qed
  from step show "\<exists>new. emits src' = emits src @ new \<and> list_all delivery_sendable new"
  proof (cases rule: source_stepE)
    case (receiver r s s' re)
    with good receiving.step_emits [of r s re s'] show ?thesis by simp
  next
    case (web c s s' we)
    with good e web_source.step_emits [of c _ _ s we s'] show ?thesis by auto
  next
    case (db c s s' de)
    with good e db_source.step_emits [of _ _ s de s' "sql_format c"] show ?thesis by auto
  qed
qed

lemma source_quiet_good: "source_quiet s \<Longrightarrow> source_good s"
  by (cases s) auto

lemma source_unforced_possible: "source_unforced e \<Longrightarrow> source_possible e"
  by (cases e) (auto simp: web_quiet_def)

interpretation any_quiet_source: closing_source source_step source_quiet source_unforced emits source_finished
proof unfold_locales
  fix src src' :: "'c source" and e
  assume quiet: "source_quiet src" and e: "source_unforced e" and step: "source_step e src = Some src'"
  from step show "source_quiet src'"
  proof (cases rule: source_stepE)
    case (receiver r s s' re)
    with quiet e quiet_receiving.step_preserves [of r s re s'] show ?thesis by simp
  next
    case (web c s s' we)
    with quiet e quiet_web_source.step_preserves [of c _ _ s we s'] show ?thesis by auto
  next
    case (db c s s' de)
    with quiet e sql_idling.step_preserves [of _ _ s de s'] show ?thesis by auto
  qed
  show "\<exists>new. emits src' = emits src @ new \<and> list_all delivery_sendable new"
    by (rule any_source.step_emits [OF source_quiet_good [OF quiet] source_unforced_possible [OF e] step])
  assume finished: "source_finished src"
  from step show "emits src' = emits src \<and> source_finished src'"
  proof (cases rule: source_stepE)
    case (receiver r s s' re)
    with quiet e finished quiet_receiver.finished_silent [of r s re s'] show ?thesis by simp
  next
    case (web c s s' we)
    with quiet e finished quiet_web_source.finished_silent [of c _ _ s we s'] show ?thesis by auto
  next
    case (db c s s' de)
    with quiet e finished quiet_db_source.finished_silent [of _ _ s de s' "sql_format c"] show ?thesis by auto
  qed
qed


section \<open>Nothing is lost between components\<close>

definition program_good :: "(('f, 'v) cell \<Rightarrow> bytes option) \<Rightarrow> ('f, 'v) cell program \<Rightarrow> bool" where
  "program_good marshal p \<longleftrightarrow>
     senders_good marshal (targets p) \<and> list_all (\<lambda>(n, s). source_good s) (sources p)
     \<and> (\<forall>n s. map_of (targets p) n = Some s \<longrightarrow> sender_held s = units_for n (sources p))
     \<and> queued p = source_letters (sources p) + target_letters (targets p)"

fun program_possible :: "'c program_event \<Rightarrow> bool" where
  "program_possible (SourceDoes i e) \<longleftrightarrow> source_possible e"
| "program_possible _ \<longleftrightarrow> True"

lemma sum_list_update_add:
  fixes f :: "'a \<Rightarrow> 'b multiset"
  assumes "i < length xs" and "f x = f (xs ! i) + u"
  shows "(\<Sum>y\<leftarrow>xs[i := x]. f y) = (\<Sum>y\<leftarrow>xs. f y) + u"
proof -
  have "(\<Sum>y\<leftarrow>xs[i := x]. f y) + f (xs ! i) = (\<Sum>y\<leftarrow>xs. f y) + f x"
    by (rule sum_list_update_mset [OF assms(1)])
  with assms(2) show ?thesis by (simp add: ac_simps)
qed

text \<open>A source that sent something more, before its deliveries arrive.\<close>

lemma source_update_accounts:
  assumes "i < length srcs" and "srcs ! i = (n, s)" and "emits s' = emits s @ new"
  shows "units_for m (srcs[i := (n, s')]) = units_for m srcs + (if m = n then (\<Sum>d\<leftarrow>new. delivery_units d) else {#})"
    and "source_letters (srcs[i := (n, s')]) = source_letters srcs + (\<Sum>d\<leftarrow>new. letters_of n d)"
  unfolding units_for_def source_letters_def
  by (rule sum_list_update_add; use assms in simp)+

lemma source_does_good:
  assumes good: "program_good marshal p" and e: "source_possible e" and step: "source_does detect i e p = Some p'"
  shows "program_good marshal p'"
proof -
  have i: "i < length (sources p)" using step by (auto simp: source_does_def split: if_splits)
  obtain n s where src: "sources p ! i = (n, s)" by fastforce
  then obtain s' where s': "source_step e s = Some s'"
    and all: "deliver_all detect n (drop (length (emits s)) (emits s')) (p\<lparr>sources := (sources p)[i := (n, s')]\<rparr>) = Some p'"
    using step i by (auto simp: source_does_def split: option.splits)
  have "(n, s) \<in> set (sources p)" using nth_mem [OF i] src by simp
  then have gs: "source_good s" using good by (auto simp: program_good_def list_all_iff)
  then obtain new where new: "emits s' = emits s @ new" "list_all delivery_sendable new"
    using any_source.step_emits [OF gs e s'] by blast
  let ?p = "p\<lparr>sources := (sources p)[i := (n, s')]\<rparr>"
  have sg: "senders_good marshal (targets ?p)" using good by (simp add: program_good_def)
  obtain p2 where "deliver_all detect n new ?p = Some p2" "delivered_well marshal n new ?p p2"
    using deliver_all_ok [OF sg new(2)] by blast
  with all new(1) have well: "delivered_well marshal n new ?p p'" by simp
  note accounts = source_update_accounts [OF i src new(1)]
  have "list_all (\<lambda>(n, s). source_good s) ((sources p)[i := (n, s')])"
    using any_source.step_preserves [OF gs e s'] good by (auto simp: program_good_def intro: list_all_update)
  moreover have "sender_held t' = units_for m (sources p')" if here: "map_of (targets p') m = Some t'" for m t'
  proof -
    have rec: "all_received n (\<Sum>d\<leftarrow>new. delivery_units d) (targets p) (targets p')"
      using well by (simp add: delivered_well_def)
    then obtain t where t: "map_of (targets p) m = Some t"
      and "takes_in t (if m = n then (\<Sum>d\<leftarrow>new. delivery_units d) else {#}) t'"
      using spec [OF rec [unfolded all_received_def], of m] here by (cases "map_of (targets p) m") auto
    moreover have "sender_held t = units_for m (sources p)" using good t by (simp add: program_good_def)
    ultimately show ?thesis using accounts(1) [of m] well by (simp add: takes_in_def delivered_well_def)
  qed
  moreover have "queued p' = source_letters (sources p') + target_letters (targets p')"
  proof -
    have "queued p' + target_letters (targets p) = queued p + (\<Sum>d\<leftarrow>new. letters_of n d) + target_letters (targets p')"
      using well by (simp add: delivered_well_def queued_def)
    moreover have "queued p = source_letters (sources p) + target_letters (targets p)"
      using good by (simp add: program_good_def)
    ultimately show ?thesis using accounts(2) well by (simp add: delivered_well_def ac_simps)
  qed
  ultimately show ?thesis using well by (simp add: program_good_def delivered_well_def)
qed

lemma sender_does_good:
  assumes good: "program_good marshal p" and step: "sender_does marshal detect n e p = Some p'"
    and e: "\<nexists>d f. e = EvSend d f"
  shows "program_good marshal p'"
proof -
  obtain s s' where s: "map_of (targets p) n = Some s" and s': "sender_step marshal detect e s = Some s'"
    and p': "p' = sender_did n s s' p"
    using step by (auto simp: sender_does_def split: option.splits)
  have sg: "senders_good marshal (targets p)" "sender_good marshal s" "sender_held s = units_for n (sources p)"
    using good s by (auto simp: program_good_def senders_good_def)
  have "event_ok e" "event_units e = {#}" using e by (cases e; simp)+
  then have s2: "sender_good marshal s'" "sender_held s' = sender_held s"
    using sender_step_ok [OF sg(2), of e detect] s' by auto
  note did = sender_did_accounts [OF sg(1) s s2(1) sender_step_grows [OF s'], folded p']
  have "queued p' + target_letters (targets p) = source_letters (sources p) + target_letters (targets p') + target_letters (targets p)"
    using did(5) good by (simp add: program_good_def ac_simps)
  then have "queued p' = source_letters (sources p) + target_letters (targets p')" by simp
  with did(1-4) good s2(2) sg(3) show ?thesis by (auto simp: program_good_def split: if_splits)
qed

lemma program_step_good:
  assumes good: "program_good marshal p" and e: "program_possible e" and step: "program_step marshal detect e p = Some p'"
  shows "program_good marshal p'"
proof (cases e)
  case (SourceDoes i se)
  with step e have "source_does detect i se p = Some p'" "source_possible se"
    by (auto simp: program_step_def split: if_splits)
  with good source_does_good show ?thesis by blast
next
  case (SenderDoes n se)
  with step have "sender_does marshal detect n se p = Some p'" "\<nexists>d f. se = EvSend d f"
    by (auto simp: program_step_def may_happen_def split: if_splits)
  with good sender_does_good show ?thesis by blast
qed (use good step in \<open>auto simp: program_step_def program_good_def queued_def split: if_splits\<close>)

interpretation running_program: preserving "program_step marshal detect" "program_good marshal" program_possible
  for marshal detect
  by unfold_locales (rule program_step_good)


section \<open>A shutdown in which nothing times out\<close>

definition sender_settled :: "'c sender_sys \<Rightarrow> bool" where
  "sender_settled s \<longleftrightarrow> is_closing (snd_state s) \<and> to_flush s = [] \<and> in_progress (snd_state s) = 0"

text \<open>Close of a sender returns because its work is done; sources likewise.\<close>

definition unforced :: "'c program \<Rightarrow> 'c program_event \<Rightarrow> bool" where
  "unforced p e =
     (case e of
        SourceDoes i se \<Rightarrow> source_unforced se
      | SenderDoes n EvFinishClose \<Rightarrow>
          (case map_of (targets p) n of None \<Rightarrow> True | Some s \<Rightarrow> to_flush s = [] \<and> in_progress (snd_state s) = 0)
      | _ \<Rightarrow> True)"

definition patient_step ::
  "(('f, 'v) cell \<Rightarrow> bytes option) \<Rightarrow> (bytes \<Rightarrow> string) \<Rightarrow> ('f, 'v) cell program_event
    \<Rightarrow> ('f, 'v) cell program \<Rightarrow> ('f, 'v) cell program option" where
  "patient_step marshal detect e p = (if unforced p e then program_step marshal detect e p else None)"

definition targets_ok :: "main_stage \<Rightarrow> (string \<times> 'c sender_sys) list \<Rightarrow> bool" where
  "targets_ok st tgts \<longleftrightarrow>
     (\<forall>n s. map_of tgts n = Some s \<longrightarrow>
        refused s = [] \<and> (closed (snd_state s) = ClosedChan \<longrightarrow> sender_settled s)
        \<and> (st = Running \<or> st = ClosingSources \<longrightarrow> \<not> is_closing (snd_state s))
        \<and> (st = ClosingQueue \<longrightarrow> closed (snd_state s) = ClosedChan))"

definition patient_ok :: "(('f, 'v) cell \<Rightarrow> bytes option) \<Rightarrow> ('f, 'v) cell program \<Rightarrow> bool" where
  "patient_ok marshal p \<longleftrightarrow>
     program_good marshal p \<and> list_all (\<lambda>(n, s). source_quiet s) (sources p)
     \<and> targets_ok (main_stage p) (targets p)
     \<and> (main_stage p = ClosingSenders \<or> main_stage p = ClosingQueue \<longrightarrow>
          list_all (\<lambda>(n, s). source_finished s) (sources p))
     \<and> lost p = []"

lemma deliver_lost:
  "deliver detect n d p = Some p' \<Longrightarrow> main_stage p \<noteq> ClosingQueue \<Longrightarrow> lost p' = lost p \<and> main_stage p' = main_stage p"
  by (auto simp: deliver_def to_queue_def sender_did_def split: delivery.splits if_splits option.splits)

lemma deliver_all_lost:
  "deliver_all detect n ds p = Some p' \<Longrightarrow> main_stage p \<noteq> ClosingQueue \<Longrightarrow> lost p' = lost p"
proof (induction ds arbitrary: p)
  case (Cons d ds)
  then obtain p1 where "deliver detect n d p = Some p1" "deliver_all detect n ds p1 = Some p'"
    by (auto split: option.splits)
  with deliver_lost [of detect n d p p1] Cons show ?case by simp
qed simp

text \<open>The steps of a sender that is not sent anything.\<close>

lemma start_jobs_life [simp]:
  "closed (snd_state (start_jobs js s)) = closed (snd_state s)"
  unfolding start_jobs_def by (induction js arbitrary: s) (simp_all add: start_job_def Let_def)

lemma closing_in_progress [simp]: "is_closing (l\<lparr>in_progress := n\<rparr>) = is_closing l"
  by (simp add: is_closing_def)

lemma finish_close_closing: "finish_close l = Inr l' \<Longrightarrow> is_closing l' = is_closing l \<and> in_progress l' = in_progress l"
  by (auto simp: finish_close_def stop_stragglers_def is_closing_def Let_def split: if_splits sum.splits)

lemma begin_close_closed: "begin_close l = Inr l' \<Longrightarrow> closed l' = closed l"
  by (auto simp: begin_close_def Let_def split: if_splits sum.splits)

lemma own_step:
  assumes "sender_step marshal detect e s = Some s'" and "\<nexists>d f. e = EvSend d f"
  shows "refused s' = refused s"
    and "e \<noteq> EvBeginClose \<Longrightarrow> is_closing (snd_state s') = is_closing (snd_state s)"
    and "e \<noteq> EvFinishClose \<Longrightarrow> closed (snd_state s') = closed (snd_state s)"
proof -
  have "refused s' = refused s
    \<and> (e \<noteq> EvBeginClose \<longrightarrow> is_closing (snd_state s') = is_closing (snd_state s))
    \<and> (e \<noteq> EvFinishClose \<longrightarrow> closed (snd_state s') = closed (snd_state s))"
  proof (cases e)
    case EvBeginClose
    with assms(1) show ?thesis
      by (auto simp: sender_begin_close_def split: if_splits sum.splits dest!: begin_close_closed)
  next
    case EvFinishClose
    with assms(1) show ?thesis
      by (auto simp: sender_finish_close_def split: if_splits sum.splits dest!: finish_close_closing)
  qed (use assms in \<open>auto simp: use_json_def use_rows_def sender_timer_def flush_next_def waiting_wakes_def
      running_ends_def job_done_def Let_def
      split: if_splits option.splits sum.splits batch_kind.splits prod.splits list.splits\<close>)
  then show "refused s' = refused s"
    and "e \<noteq> EvBeginClose \<Longrightarrow> is_closing (snd_state s') = is_closing (snd_state s)"
    and "e \<noteq> EvFinishClose \<Longrightarrow> closed (snd_state s') = closed (snd_state s)" by simp_all
qed

lemma guarded_timer: "has_guard b \<Longrightarrow> timed_flush g False b = (b, [])"
  by (simp add: timed_flush_def)

lemma settled_timer:
  assumes "sender_good marshal s" and "is_closing (snd_state s)" and "sender_timer kind fmt g s = Some s'"
  shows "snd_state s' = snd_state s \<and> to_flush s' = to_flush s \<and> outcomes s' = outcomes s \<and> refused s' = refused s"
proof -
  have guards: "map_of (json_batches s) fmt = Some (f, b) \<Longrightarrow> has_guard b"
    "map_of (row_batches s) fmt = Some (f, c) \<Longrightarrow> has_guard c" for f b c
    using assms(1) by (auto simp: sender_good_def sender_core_def batchers_ok_def list_all_iff dest!: map_of_SomeD)
  with assms(2,3) show ?thesis
    by (cases kind) (auto simp: sender_timer_def use_json_def use_rows_def guarded_timer start_jobs_def
        split: option.splits)
qed

text \<open>What is settled stays settled, and rejects nothing any more.\<close>

lemma settled_step:
  assumes "sender_good marshal s" and "sender_settled s" and "sender_step marshal detect e s = Some s'"
    and "\<nexists>d f. e = EvSend d f"
  shows "sender_settled s' \<and> new_rejects s s' = [] \<and> (closed (snd_state s) = ClosedChan \<longrightarrow> snd_state s' = snd_state s)"
proof -
  have idle: "running s = []" "waiting s = []" "to_flush s = []" "is_closing (snd_state s)"
    and once: "once_done (snd_state s)"
    using assms(1,2)
    by (auto simp: sender_good_def sender_core_def sender_jobs_ok_def sender_life_ok_def sender_settled_def)
  have "sender_settled s' \<and> outcomes s' = outcomes s \<and> refused s' = refused s
      \<and> (closed (snd_state s) = ClosedChan \<longrightarrow> snd_state s' = snd_state s)"
  proof (cases e)
    case (EvTimer kind fmt g)
    show ?thesis
    proof (cases "fmt \<in> set (map fst (json_batches s))")
      case True
      with EvTimer assms(3) have "sender_timer kind fmt g s = Some s'" by simp
      from settled_timer [OF assms(1) idle(4) this] assms(2) show ?thesis by (simp add: sender_settled_def)
    qed (use EvTimer assms(2,3) in simp)
  next
    case EvFinishClose
    with assms(2,3) show ?thesis
      by (auto simp: sender_finish_close_def sender_settled_def split: if_splits sum.splits dest!: finish_close_closing)
  qed (use assms(2-4) idle once in \<open>auto simp: sender_begin_close_def flush_next_def waiting_wakes_def
        running_ends_def split: if_splits sum.splits\<close>)
  then show ?thesis by (auto simp: new_rejects_def rejected_jobs_def List.map_filter_def)
qed


lemma open_sender: "sender_good marshal s \<Longrightarrow> \<not> is_closing (snd_state s) \<Longrightarrow> closed (snd_state s) \<noteq> ClosedChan"
  by (auto simp: sender_good_def sender_core_def sender_life_ok_def)

lemma patient_source_early:
  assumes ok: "patient_ok marshal p" and stage: "main_stage p = Running \<or> main_stage p = ClosingSources"
    and e: "source_unforced e" and step: "source_does detect i e p = Some p'"
  shows "patient_ok marshal p'"
proof -
  have good: "program_good marshal p'"
    using source_does_good [OF _ source_unforced_possible [OF e] step] ok by (simp add: patient_ok_def)
  have i: "i < length (sources p)" using step by (auto simp: source_does_def split: if_splits)
  obtain n s where src: "sources p ! i = (n, s)" by fastforce
  then obtain s' where s': "source_step e s = Some s'"
    and all: "deliver_all detect n (drop (length (emits s)) (emits s')) (p\<lparr>sources := (sources p)[i := (n, s')]\<rparr>) = Some p'"
    using step i by (auto simp: source_does_def split: option.splits)
  have "(n, s) \<in> set (sources p)" using nth_mem [OF i] src by simp
  then have quiet: "source_quiet s" using ok by (auto simp: patient_ok_def list_all_iff)
  obtain new where new: "emits s' = emits s @ new" "list_all delivery_sendable new"
    using any_quiet_source.step_emits [OF quiet e s'] by blast
  let ?p = "p\<lparr>sources := (sources p)[i := (n, s')]\<rparr>"
  have sg: "senders_good marshal (targets ?p)" using ok by (simp add: patient_ok_def program_good_def)
  obtain p2 where "deliver_all detect n new ?p = Some p2" "delivered_well marshal n new ?p p2"
    using deliver_all_ok [OF sg new(2)] by blast
  with all new(1) have well: "delivered_well marshal n new ?p p'" by simp
  have "lost p' = []" using deliver_all_lost [OF all] stage ok by (auto simp: patient_ok_def)
  moreover have "list_all (\<lambda>(n, s). source_quiet s) (sources p')"
    using any_quiet_source.step_preserves [OF quiet e s'] ok well
    by (auto simp: patient_ok_def delivered_well_def intro: list_all_update)
  moreover have "targets_ok (main_stage p') (targets p')"
    unfolding targets_ok_def
  proof (intro allI impI)
    fix m t' assume here: "map_of (targets p') m = Some t'"
    have rec: "all_received n (\<Sum>d\<leftarrow>new. delivery_units d) (targets p) (targets p')"
      using well by (simp add: delivered_well_def)
    obtain t u where t: "map_of (targets p) m = Some t" and takes: "takes_in t u t'"
      using spec [OF rec [unfolded all_received_def], of m] here by (cases "map_of (targets p) m") auto
    have "\<not> is_closing (snd_state t)" "refused t = []"
      using ok stage t by (auto simp: patient_ok_def targets_ok_def)
    with takes have t': "\<not> is_closing (snd_state t')" "refused t' = []" by (simp_all add: takes_in_def)
    have "sender_good marshal t'" using good here by (auto simp: program_good_def senders_good_def)
    from open_sender [OF this t'(1)] t' stage well
    show "refused t' = [] \<and> (closed (snd_state t') = ClosedChan \<longrightarrow> sender_settled t')
      \<and> (main_stage p' = Running \<or> main_stage p' = ClosingSources \<longrightarrow> \<not> is_closing (snd_state t'))
      \<and> (main_stage p' = ClosingQueue \<longrightarrow> closed (snd_state t') = ClosedChan)"
      by (auto simp: delivered_well_def)
  qed
  moreover have "main_stage p' = main_stage p" using well by (simp add: delivered_well_def)
  ultimately show ?thesis using good stage by (auto simp: patient_ok_def)
qed

lemma patient_source_late:
  assumes ok: "patient_ok marshal p" and stage: "main_stage p = ClosingSenders \<or> main_stage p = ClosingQueue"
    and e: "source_unforced e" and step: "source_does detect i e p = Some p'"
  shows "patient_ok marshal p'"
proof -
  have good: "program_good marshal p'"
    using source_does_good [OF _ source_unforced_possible [OF e] step] ok by (simp add: patient_ok_def)
  have i: "i < length (sources p)" using step by (auto simp: source_does_def split: if_splits)
  obtain n s where src: "sources p ! i = (n, s)" by fastforce
  then obtain s' where s': "source_step e s = Some s'"
    and all: "deliver_all detect n (drop (length (emits s)) (emits s')) (p\<lparr>sources := (sources p)[i := (n, s')]\<rparr>) = Some p'"
    using step i by (auto simp: source_does_def split: option.splits)
  have "(n, s) \<in> set (sources p)" using nth_mem [OF i] src by simp
  then have quiet: "source_quiet s" and fin: "source_finished s"
    using ok stage by (auto simp: patient_ok_def list_all_iff)
  have silent: "emits s' = emits s" "source_finished s'"
    using any_quiet_source.finished_silent [OF quiet e fin s'] by simp_all
  then have p': "p' = p\<lparr>sources := (sources p)[i := (n, s')]\<rparr>" using all by simp
  have "list_all (\<lambda>(n, s). source_quiet s) (sources p')" "list_all (\<lambda>(n, s). source_finished s) (sources p')"
    using any_quiet_source.step_preserves [OF quiet e s'] ok stage silent(2)
    by (auto simp: patient_ok_def p' intro: list_all_update)
  with good ok show ?thesis by (simp add: patient_ok_def p')
qed

lemma patient_sender:
  assumes ok: "patient_ok marshal p" and may: "may_happen (main_stage p) (SenderDoes n e)"
    and patient: "unforced p (SenderDoes n e)" and step: "sender_does marshal detect n e p = Some p'"
  shows "patient_ok marshal p'"
proof -
  have e: "\<nexists>d f. e = EvSend d f" using may by (auto simp: may_happen_def)
  have good: "program_good marshal p'" using sender_does_good [OF _ step e] ok by (simp add: patient_ok_def)
  obtain s s' where s: "map_of (targets p) n = Some s" and s': "sender_step marshal detect e s = Some s'"
    and p': "p' = sender_did n s s' p"
    using step by (auto simp: sender_does_def split: option.splits)
  have sg: "sender_good marshal s" using ok s by (simp add: patient_ok_def program_good_def senders_good_def)
  have old: "refused s = []" "closed (snd_state s) = ClosedChan \<Longrightarrow> sender_settled s"
    "main_stage p = Running \<or> main_stage p = ClosingSources \<Longrightarrow> \<not> is_closing (snd_state s)"
    "main_stage p = ClosingQueue \<Longrightarrow> closed (snd_state s) = ClosedChan"
    using ok s by (auto simp: patient_ok_def targets_ok_def)
  note own = own_step [OF s' e]
  have settled: "sender_settled s'" if now: "closed (snd_state s') = ClosedChan"
  proof (cases "closed (snd_state s) = ClosedChan")
    case True
    from settled_step [OF sg old(2) [OF True] s' e] show ?thesis by simp
  next
    case False
    with own(3) now have fin: "e = EvFinishClose" by metis
    with patient s have "to_flush s = []" "in_progress (snd_state s) = 0" by (simp_all add: unforced_def)
    with fin s' now False show ?thesis
      by (auto simp: sender_finish_close_def sender_settled_def split: if_splits sum.splits dest!: finish_close_closing)
  qed
  have started: "main_stage p = ClosingSenders" if "e = EvBeginClose" using may that by (simp add: may_happen_def)
  have here: "refused s' = [] \<and> (closed (snd_state s') = ClosedChan \<longrightarrow> sender_settled s')
      \<and> (main_stage p = Running \<or> main_stage p = ClosingSources \<longrightarrow> \<not> is_closing (snd_state s'))
      \<and> (main_stage p = ClosingQueue \<longrightarrow> closed (snd_state s') = ClosedChan)"
  proof (intro conjI impI)
    show "refused s' = []" using own(1) old(1) by simp
    show "sender_settled s'" if "closed (snd_state s') = ClosedChan" using settled that .
    show "\<not> is_closing (snd_state s')" if "main_stage p = Running \<or> main_stage p = ClosingSources"
      using own(2) old(3) started that by (cases "e = EvBeginClose") auto
    show "closed (snd_state s') = ClosedChan" if q: "main_stage p = ClosingQueue"
      using settled_step [OF sg old(2) [OF old(4) [OF q]] s' e] old(4) [OF q] by simp
  qed
  have keep: "targets_ok (main_stage p) (targets p)" using ok by (simp add: patient_ok_def)
  have "targets_ok (main_stage p') (targets p')"
    unfolding targets_ok_def p'
    using here keep by (auto simp: sender_did_def update_conv' targets_ok_def split: if_splits)
  moreover have "lost p' = []"
  proof (cases "main_stage p = ClosingQueue")
    case True
    have "new_rejects s s' = []" using settled_step [OF sg old(2) [OF old(4) [OF True]] s' e] by simp
    then show ?thesis using ok by (simp add: p' sender_did_def to_queue_def patient_ok_def)
  qed (use ok in \<open>simp add: p' sender_did_def to_queue_def patient_ok_def\<close>)
  ultimately show ?thesis using good ok by (simp add: patient_ok_def p' sender_did_def)
qed

lemma patient_step_ok:
  assumes ok: "patient_ok marshal p" and step: "patient_step marshal detect e p = Some p'"
  shows "patient_ok marshal p'"
proof -
  have patient: "unforced p e" and may: "may_happen (main_stage p) e" and "program_step marshal detect e p = Some p'"
    using step by (auto simp: patient_step_def program_step_def split: if_splits)
  note step = this(3)
  show ?thesis
  proof (cases e)
    case (SourceDoes i se)
    with step may patient have src: "source_does detect i se p = Some p'" "source_unforced se"
      by (simp_all add: program_step_def unforced_def)
    show ?thesis
    proof (cases "main_stage p = Running \<or> main_stage p = ClosingSources")
      case True
      from patient_source_early [OF ok True src(2,1)] show ?thesis .
    next
      case False
      then have "main_stage p = ClosingSenders \<or> main_stage p = ClosingQueue" by (cases "main_stage p") auto
      from patient_source_late [OF ok this src(2,1)] show ?thesis .
    qed
  next
    case (SenderDoes n se)
    with step may have "sender_does marshal detect n se p = Some p'" by (simp add: program_step_def)
    with patient_sender [OF ok] may patient SenderDoes show ?thesis by blast
  next
    case SendersClosed
    have "closed (snd_state s) = ClosedChan"
      if "list_all (\<lambda>(n, s). closed (snd_state s) = ClosedChan) (targets p)" "map_of (targets p) n = Some s" for n s
      using that by (auto simp: list_all_iff dest!: map_of_SomeD)
    with SendersClosed ok step show ?thesis
      by (auto simp: program_step_def patient_ok_def program_good_def queued_def targets_ok_def split: if_splits)
  qed (use ok step in \<open>auto simp: program_step_def patient_ok_def program_good_def queued_def targets_ok_def
        split: if_splits\<close>)
qed

interpretation patient_program: preserving "patient_step marshal detect" "patient_ok marshal" "\<lambda>e. True"
  for marshal detect
  by unfold_locales (rule patient_step_ok)


section \<open>Properties\<close>

text \<open>A source right after its Start: made from its settings, with a destination.\<close>

inductive starts_source :: "string \<Rightarrow> 'c source \<Rightarrow> bool" where
  receiver: "new_http_receiver nenv tenv base cfg = Inr r \<Longrightarrow> send_to base = Some n \<Longrightarrow>
    starts_source n (ReceiverSource r start_receiver)"
| web: "new_http_collector aenv tenv base cfg = Inr c \<Longrightarrow> send_to base = Some n \<Longrightarrow> sched base = Some p \<Longrightarrow>
    schedule_ok p \<Longrightarrow> start_http_collector c now = Some s \<Longrightarrow> starts_source n (WebSource c s)"
| db: "new_sql_collector file base cfg = Inr c \<Longrightarrow> send_to base = Some n \<Longrightarrow> sched base = Some p \<Longrightarrow>
    schedule_ok p \<Longrightarrow> start_sql_collector c now = Some s \<Longrightarrow> starts_source n (DbSource c s)"

text \<open>HTTP senders with the keys of the map of senders, which always has a dead-letter queue.\<close>

definition makes_senders :: "(string \<times> 'c http_sender) list \<Rightarrow> bool" where
  "makes_senders snds \<longleftrightarrow>
     distinct (map fst snds) \<and> sender_type_dlq \<notin> set (map fst snds)
     \<and> (\<forall>(n, s) \<in> set snds. \<exists>aenv tenv cfg ty. new_sender aenv tenv cfg n ty True = Inr s)"

lemma starts_source_quiet: "starts_source n src \<Longrightarrow> source_quiet src \<and> emits src = []"
proof (induction rule: starts_source.induct)
  case (receiver nenv tenv base cfg r n)
  with start_receiver_good [of r] new_http_receiver_ok [OF receiver(1)] show ?case
    by (auto simp: receiver_emits_def start_receiver_def)
next
  case (web aenv tenv base cfg c n p now s)
  have s: "s = scheduler.extend (start_scheduler p (concurrency c) now) (collector_run.fields [])"
    using web.hyps(3,5) new_http_collector_ok [OF web.hyps(1)] by (simp add: start_http_collector_def)
  have "collector_good c p now s"
    using start_http_collector_good [OF web.hyps(5) _ web.hyps(4)] new_http_collector_ok [OF web.hyps(1)] web.hyps(3)
    by simp
  moreover have "idle_when_finished s \<and> web_emits s = []"
    by (simp add: s idle_when_finished_def web_emits_def start_scheduler_def scheduler.extend_def
        collector_run.fields_def List.map_filter_def)
  ultimately show ?case using new_http_collector_ok [OF web.hyps(1)] by (auto simp: web_good_def)
next
  case (db files base cfg c n p now s)
  have s: "s = scheduler.extend (start_scheduler p (concurrency c) now)
      (sql_run.fields [] (sql_batch c) [] [] [] [] zero_time zero_time)"
    using db.hyps(3,5) new_sql_collector_ok [OF db.hyps(1)] by (simp add: start_sql_collector_def)
  have "sql_good p now s \<and> sql_idle s"
    using start_sql_collector_good [OF db.hyps(5) _ db.hyps(4)] new_sql_collector_ok [OF db.hyps(1)] db.hyps(3)
    by simp
  moreover have "db_emits (sql_format c) s = []"
    by (simp add: s db_emits_def start_scheduler_def scheduler.extend_def sql_run.fields_def)
  ultimately show ?case by auto
qed

lemma started_target:
  "map_of (map (\<lambda>(n, s). (n, start_sender s)) snds) n = Some t \<Longrightarrow> \<exists>s. (n, s) \<in> set snds \<and> t = start_sender s"
  by (induction snds) (auto split: if_splits)

lemma fresh_sender:
  assumes "makes_senders snds" and "map_of (targets (start_program srcs snds)) n = Some t"
  shows "sender_good marshal t \<and> sender_held t = {#} \<and> \<not> is_closing (snd_state t) \<and> closed (snd_state t) \<noteq> ClosedChan
    \<and> rejects t = {#} \<and> refused t = []"
proof -
  obtain s where s: "(n, s) \<in> set snds" "t = start_sender s"
    using started_target [of snds n t] assms(2) by (auto simp: start_program_def)
  then obtain aenv tenv cfg ty where new: "new_sender aenv tenv cfg n ty True = Inr s"
    using assms(1) by (auto simp: makes_senders_def)
  then have "snd_state s = lc_start lifecycle_zero"
    by (auto simp: new_sender_def bind_sum_Inr map_error_Inr split: option.splits if_splits prod.splits)
  then have open_state: "closing (snd_state t) = OpenChan" "closed (snd_state t) = OpenChan"
    by (simp_all add: s(2) lc_start_def is_started_def lifecycle_zero_def)
  moreover have "outcomes t = [] \<and> refused t = []" by (simp add: s(2))
  ultimately show ?thesis
    using new_sender_ok [OF new] s(2) by (auto simp: is_closing_def rejects_def rejected_jobs_def List.map_filter_def)
qed

lemma start_program_ok:
  assumes "list_all (\<lambda>(n, src). starts_source n src) srcs" and "makes_senders snds"
  shows "patient_ok marshal (start_program srcs snds)"
proof -
  let ?p = "start_program srcs snds"
  have quiet: "list_all (\<lambda>(n, s). source_quiet s \<and> emits s = []) srcs"
    using assms(1) starts_source_quiet by (fastforce simp: list_all_iff)
  then have units: "units_for n srcs = {#}" "source_letters srcs = {#}" for n
    by (induction srcs) (auto simp: units_for_def source_letters_def)
  note fresh = fresh_sender [OF assms(2), of srcs]
  have keys: "map fst (targets ?p) = map fst snds" by (simp add: start_program_def comp_def case_prod_beta)
  then have good: "senders_good marshal (targets ?p)"
    using assms(2) fresh by (auto simp: senders_good_def makes_senders_def)
  have "rejects t = {#}" if "(n, t) \<in> set (targets ?p)" for n t
    using fresh that assms(2) keys by (metis makes_senders_def map_of_is_SomeI)
  then have "target_letters (targets ?p) = (\<Sum>t\<leftarrow>targets ?p. {#})"
    unfolding target_letters_def by (intro arg_cong [where f = sum_list] map_cong) auto
  then have "target_letters (targets ?p) = {#}" by simp
  with good quiet units fresh show ?thesis
    by (auto simp: patient_ok_def program_good_def targets_ok_def list_all_iff queued_def start_program_def
        dest: source_quiet_good)
qed


text \<open>No step adds or removes a target.\<close>

lemma sender_did_keys: "map_of (targets p) n = Some s \<Longrightarrow> map fst (targets (sender_did n s s' p)) = map fst (targets p)"
  by (simp add: sender_did_def update_keys_same)

lemma deliver_keys: "deliver detect n d p = Some p' \<Longrightarrow> map fst (targets p') = map fst (targets p)"
  by (auto simp: deliver_def sender_did_keys split: delivery.splits if_splits option.splits)

lemma deliver_all_keys: "deliver_all detect n ds p = Some p' \<Longrightarrow> map fst (targets p') = map fst (targets p)"
proof (induction ds arbitrary: p)
  case (Cons d ds)
  then obtain p1 where "deliver detect n d p = Some p1" "deliver_all detect n ds p1 = Some p'"
    by (auto split: option.splits)
  with deliver_keys Cons.IH show ?case by metis
qed simp

lemma program_step_keys:
  assumes "program_step marshal detect e p = Some p'"
  shows "map fst (targets p') = map fst (targets p)"
proof (cases e)
  case (SourceDoes i se)
  with assms have "source_does detect i se p = Some p'" by (simp add: program_step_def split: if_splits)
  then obtain n s q where "deliver_all detect n s q = Some p'" "targets q = targets p"
    by (auto simp: source_does_def split: if_splits prod.splits option.splits)
  with deliver_all_keys show ?thesis by metis
next
  case (SenderDoes n se)
  with assms have "sender_does marshal detect n se p = Some p'" by (simp add: program_step_def split: if_splits)
  then show ?thesis by (auto simp: sender_does_def sender_did_keys split: option.splits)
qed (use assms in \<open>auto simp: program_step_def split: if_splits\<close>)

interpretation same_targets: preserving "program_step marshal detect" "\<lambda>p. map fst (targets p) = names" "\<lambda>e. True"
  for marshal detect names
  by unfold_locales (simp add: program_step_keys)

lemma targets_found:
  assumes "map fst (targets p) = map fst (snds :: (string \<times> 'b) list)" and "n \<in> fst ` set snds"
  obtains s where "map_of (targets p) n = Some s"
proof -
  have "n \<in> fst ` set (targets p)" using assms by (metis list.set_map)
  then show ?thesis using that by (cases "map_of (targets p) n") (auto simp: map_of_eq_None_iff)
qed

text \<open>C2: The books of the whole program balance. Run any receivers, HTTP collectors and SQL
  collectors against any HTTP senders, made by the constructors and wired by name, and let
  everything interleave: requests, schedules, queries, timers, retries, and the stages of the
  shutdown, forced or not. At every moment, each sender holds - in a batcher, a waiting or a
  running request, or settled - exactly the items that the sources with its name have sent;
  and what was passed to the dead-letter queue is exactly what sources and senders could not
  process: no more, nothing twice, and nothing forgotten.\<close>

theorem program_accounts:
  assumes "list_all (\<lambda>(n, src). starts_source n src) srcs" and "makes_senders snds"
    and "list_all program_possible es"
    and "run_events (program_step marshal detect) es (start_program srcs snds) = Some p"
  shows "(\<forall>n \<in> fst ` set snds. \<exists>s. map_of (targets p) n = Some s
      \<and> pending_units s + (\<Sum>j\<leftarrow>running s. job_units j) + (\<Sum>j\<leftarrow>waiting s. job_units j) + settled_units s
        = units_for n (sources p))
    \<and> mset (letters p) + mset (lost p) = source_letters (sources p) + target_letters (targets p)"
proof -
  have good: "program_good marshal p"
    using running_program.run_preserves [OF _ assms(3,4)] start_program_ok [OF assms(1,2), of marshal]
    by (simp add: patient_ok_def)
  have keys: "map fst (targets p) = map fst snds"
    using same_targets.run_preserves [of "start_program srcs snds" "map fst snds" es marshal detect p] assms(4)
    by (simp add: start_program_def comp_def case_prod_beta list_all_iff)
  have "\<exists>s. map_of (targets p) n = Some s \<and> sender_held s = units_for n (sources p)" if n: "n \<in> fst ` set snds" for n
    using targets_found [OF keys n] good by (metis program_good_def)
  with good show ?thesis by (simp add: program_good_def queued_def sender_held_def)
qed

lemma patient_run_program:
  "run_events (patient_step marshal detect) es p = Some p' \<Longrightarrow> run_events (program_step marshal detect) es p = Some p'"
  by (induction es arbitrary: p) (auto simp: patient_step_def split: option.splits if_splits)

lemma settled_all:
  assumes "sender_good marshal s" and "sender_settled s"
  shows "settled_units s = sender_held s \<and> pending_units s = {#} \<and> running s = [] \<and> waiting s = []"
proof -
  have "running s = []" "waiting s = []"
    "\<forall>(fmt, f, b) \<in> set (json_batches s). buf b = []" "\<forall>(fmt, f, b) \<in> set (row_batches s). buf b = []"
    using assms by (auto simp: sender_good_def sender_core_def sender_jobs_ok_def drained_def sender_settled_def)
  then show ?thesis by (simp add: sender_held_def pending_units_def batched_empty)
qed

text \<open>C1: A shutdown that nobody forces loses nothing. If every Close returns because the work of its
  component is done, and not because its patience is over, then no sender ever turns data away
  from a closing batcher, and the dead-letter queue is never offered anything after its own
  Close; when main reaches this last stage, every item that any source has sent to any sender
  is settled - delivered by a request, or passed to the dead-letter queue while it was open -
  and nothing is pending, waiting or running. This is what the order of the stages is for.\<close>

theorem patient_shutdown_loses_nothing:
  assumes "list_all (\<lambda>(n, src). starts_source n src) srcs" and "makes_senders snds"
    and "run_events (patient_step marshal detect) es (start_program srcs snds) = Some p"
  shows "lost p = [] \<and> mset (letters p) = source_letters (sources p) + target_letters (targets p)
    \<and> (\<forall>n \<in> fst ` set snds. \<exists>s. map_of (targets p) n = Some s \<and> refused s = []
      \<and> (main_stage p = ClosingQueue \<longrightarrow>
           settled_units s = units_for n (sources p) \<and> pending_units s = {#} \<and> running s = [] \<and> waiting s = []))"
proof -
  have ok: "patient_ok marshal p"
    using patient_program.run_preserves [OF start_program_ok [OF assms(1,2)] _ assms(3)] by (simp add: list_all_iff)
  have keys: "map fst (targets p) = map fst snds"
    using same_targets.run_preserves [of "start_program srcs snds" "map fst snds" es marshal detect p]
      patient_run_program [OF assms(3)]
    by (simp add: start_program_def comp_def case_prod_beta list_all_iff)
  have "\<exists>s. map_of (targets p) n = Some s \<and> refused s = []
      \<and> (main_stage p = ClosingQueue \<longrightarrow>
           settled_units s = units_for n (sources p) \<and> pending_units s = {#} \<and> running s = [] \<and> waiting s = [])"
    if n: "n \<in> fst ` set snds" for n
  proof -
    obtain s where s: "map_of (targets p) n = Some s" by (rule targets_found [OF keys n])
    then have "sender_good marshal s" "sender_held s = units_for n (sources p)" "refused s = []"
      "main_stage p = ClosingQueue \<Longrightarrow> sender_settled s"
      using ok by (auto simp: patient_ok_def program_good_def senders_good_def targets_ok_def)
    with s settled_all [of marshal s] show ?thesis by simp
  qed
  moreover have "lost p = []" "queued p = source_letters (sources p) + target_letters (targets p)"
    using ok by (simp_all add: patient_ok_def program_good_def)
  ultimately show ?thesis by (simp add: queued_def)
qed

section \<open>Witnesses\<close>

definition demo_source_base :: base_receiver where
  "demo_source_base = demo_receiver_base\<lparr>destination := ''s'', send_to := Some ''s''\<rparr>"

definition demo_source_config :: table where
  "demo_source_config = [(''address'', TString ''a''), (''timeout'', TString ''0''), (''format'', TString ''json''),
     (''max_body_size'', TInt 20)]"

definition demo_object :: bytes where
  "demo_object = quoted ''{~a~:1}''"

lemma demo_source:
  "\<exists>r. new_http_receiver demo_net demo_tls_env demo_source_base demo_source_config = Inr r
     \<and> rcv_format r = format_json \<and> rcv_max_body_size r = 20 \<and> send_to r = Some ''s''"
proof -
  have "to_lower (trim_space ''json'') = ''json''" by code_simp
  then have "parse_format demo_source_config = Inr format_json"
    by (simp add: parse_format_def cfg_value_def format_defs demo_source_config_def)
  moreover have "parse_timeout demo_source_config = Some 0"
    by (simp add: parse_timeout_def demo_source_config_def cfg_value_def parse_duration_def)
  moreover have "map_of demo_source_config ''tls'' = None" "cfg_value as_string demo_source_config ''address'' [] = ''a''"
    by (simp_all add: demo_source_config_def cfg_value_def)
  moreover have "parse_byte_size demo_source_config ''max_body_size'' default_max_body_size = 20"
    by (simp add: parse_byte_size_def demo_source_config_def cfg_value_def default_max_body_size_def max_byte_size_def)
  ultimately show ?thesis
    by (simp add: new_http_receiver_def parse_address_def demo_net_def demo_source_base_def demo_receiver_base_def type_http_def
        type_http3_def load_server_tls_config_def base_receiver.extend_def http_receiver.fields_def)
qed

definition demo_program_events :: "'c program_event list" where
  "demo_program_events =
     [SourceDoes 0 (ReceiverDoes (RcvArrives (demo_in_request demo_object))), SourceDoes 0 (ReceiverDoes (RcvServes False 0)),
      Interrupted, SourceDoes 0 (ReceiverDoes RcvBeginClose), SourceDoes 0 (ReceiverDoes (RcvFinishClose False)),
      SourcesClosed, SenderDoes ''s'' EvBeginClose, SenderDoes ''s'' EvFlush, SenderDoes ''s'' EvFlush,
      SenderDoes ''s'' (EvEnds undefined 0), SenderDoes ''s'' EvFinishClose, SendersClosed]"

lemma demo_program_run:
  fixes marshal :: "('f, 'v) cell \<Rightarrow> bytes option"
  assumes "rcv_format r = format_json" and "rcv_max_body_size r = 20" and "send_to r = Some ''s''"
  shows "\<exists>p. run_events (patient_step marshal detect) demo_program_events
      (start_program [(''s'', ReceiverSource r start_receiver)] [(''s'', demo_sender au)]) = Some p
    \<and> main_stage p = ClosingQueue \<and> units_for ''s'' (sources p) = {#UJson demo_object#}"
proof -
  have "decode_json demo_object = Inr [demo_object]" and "length demo_object = 7" by code_simp+
  then have served: "handle_request r (demo_in_request demo_object) = (status_accepted, Sends (JSON [demo_object]) format_json :: ('f, 'v) cell delivery)"
    using assms
    by (simp add: handle_request_def read_request_def demo_in_request_def send_request_def body_chunk_def format_defs)
  then show ?thesis
    by (simp add: demo_program_events_def patient_step_def unforced_def program_step_def may_happen_def start_program_def
        source_does_def start_receiver_def request_arrives_def request_served_def receiver_emits_def receiver_finished_def
        receiver_begin_close_def receiver_finish_close_def finish_close_def stop_stragglers_def deliver_def sender_did_def
        to_queue_def sender_does_def sender_finish_close_def units_for_def new_rejects_def rejected_jobs_def
        sender_type_dlq_def List.map_filter_def demo_run_simps)
qed


lemma demo_program:
  obtains r and au where
    "list_all (\<lambda>(n, src). starts_source n src) [(''s'', ReceiverSource r (start_receiver :: 'c receiver_run))]"
    and "makes_senders [(''s'', demo_sender au :: 'c http_sender)]"
    and "rcv_format r = format_json" "rcv_max_body_size r = 20" "send_to r = Some ''s''"
proof -
  obtain r where r: "new_http_receiver demo_net demo_tls_env demo_source_base demo_source_config = Inr r"
    "rcv_format r = format_json" "rcv_max_body_size r = 20" "send_to r = Some ''s''"
    using demo_source by blast
  have "starts_source ''s'' (ReceiverSource r start_receiver)"
    by (rule starts_source.receiver [OF r(1)]) (simp add: demo_source_base_def)
  moreover obtain au where "parse_auth demo_auth_env (Some (TTable demo_auth)) = Inr au" by (rule demo_au)
  then have "makes_senders [(''s'', demo_sender au)]"
    using demo_sender by (fastforce simp: makes_senders_def sender_type_dlq_def)
  ultimately show ?thesis using that r by simp
qed

lemma demo_events_possible: "list_all program_possible demo_program_events"
  by (simp add: demo_program_events_def)

theorem program_accounts_witness:
  "\<exists>r au p s. run_events (program_step (\<lambda>_ :: (nat, nat) cell. None) (\<lambda>_. [])) demo_program_events
      (start_program [(''s'', ReceiverSource r start_receiver)] [(''s'', demo_sender au)]) = Some p
    \<and> map_of (targets p) ''s'' = Some s
    \<and> pending_units s + (\<Sum>j\<leftarrow>running s. job_units j) + (\<Sum>j\<leftarrow>waiting s. job_units j) + settled_units s
      = {#UJson demo_object#}"
proof -
  obtain r au where d: "list_all (\<lambda>(n, src). starts_source n src)
        [(''s'', ReceiverSource r (start_receiver :: (nat, nat) cell receiver_run))]"
    "makes_senders [(''s'', demo_sender au :: (nat, nat) cell http_sender)]"
    "rcv_format r = format_json" "rcv_max_body_size r = 20" "send_to r = Some ''s''"
    by (rule demo_program)
  obtain p where p: "run_events (patient_step (\<lambda>_ :: (nat, nat) cell. None) (\<lambda>_. [])) demo_program_events
      (start_program [(''s'', ReceiverSource r start_receiver)] [(''s'', demo_sender au)]) = Some p"
    "units_for ''s'' (sources p) = {#UJson demo_object#}"
    using demo_program_run [OF d(3-5)] by blast
  note run = patient_run_program [OF p(1)]
  from program_accounts [OF d(1,2) demo_events_possible run] p(2)
  obtain s where s: "map_of (targets p) ''s'' = Some s"
    "pending_units s + (\<Sum>j\<leftarrow>running s. job_units j) + (\<Sum>j\<leftarrow>waiting s. job_units j) + settled_units s
      = {#UJson demo_object#}" by auto
  show ?thesis by (intro exI conjI) (rule run, rule s(1), rule s(2))
qed

theorem patient_shutdown_loses_nothing_witness:
  "\<exists>r au p s. run_events (patient_step (\<lambda>_ :: (nat, nat) cell. None) (\<lambda>_. [])) demo_program_events
      (start_program [(''s'', ReceiverSource r start_receiver)] [(''s'', demo_sender au)]) = Some p
    \<and> lost p = [] \<and> map_of (targets p) ''s'' = Some s \<and> settled_units s = {#UJson demo_object#}"
proof -
  obtain r au where d: "list_all (\<lambda>(n, src). starts_source n src)
        [(''s'', ReceiverSource r (start_receiver :: (nat, nat) cell receiver_run))]"
    "makes_senders [(''s'', demo_sender au :: (nat, nat) cell http_sender)]"
    "rcv_format r = format_json" "rcv_max_body_size r = 20" "send_to r = Some ''s''"
    by (rule demo_program)
  obtain p where p: "run_events (patient_step (\<lambda>_ :: (nat, nat) cell. None) (\<lambda>_. [])) demo_program_events
      (start_program [(''s'', ReceiverSource r start_receiver)] [(''s'', demo_sender au)]) = Some p"
    "main_stage p = ClosingQueue" "units_for ''s'' (sources p) = {#UJson demo_object#}"
    using demo_program_run [OF d(3-5)] by blast
  from patient_shutdown_loses_nothing [OF d(1,2) p(1)] p(2,3)
  obtain s where "lost p = []" "map_of (targets p) ''s'' = Some s" "settled_units s = {#UJson demo_object#}" by auto
  with p(1) show ?thesis by blast
qed

end
