(* ===== verification/Readable.thy ===== *)
theory Readable
  imports CodecRows
begin

text \<open>
  Readable JSON (pkg/dest/stdout.go): printJSON and printRows, with the options of
  readableJSONOpts. Unlike the formatter of package codec, they put a space after every colon
  and comma, write strings with as few escapes as possible, accept duplicate names and invalid
  UTF-8, and leave out what they cannot encode. How the standard library marshals a value is
  an argument again, and so are its tables of printable characters.
\<close>

section \<open>Lenient reading\<close>

text \<open>U+FFFD in UTF-8.\<close>

definition replacement :: string where
  "replacement = [CHR 0xEF, CHR 0xBF, CHR 0xBD]"

text \<open>
  AllowInvalidUTF8: every byte that is not part of a character, and every half of a surrogate
  pair without the other one, stands for U+FFFD. Outside of strings such bytes, backslashes and
  U+FFFD are syntax errors alike.
\<close>

function sanitize :: "string \<Rightarrow> string" where
  "sanitize s =
     (case s of
        [] \<Rightarrow> []
      | c # r \<Rightarrow>
          (if c = backslash then
             (case escape_len s of
                Some n \<Rightarrow> take n s @ sanitize (drop n s)
              | None \<Rightarrow> (if code_unit r \<noteq> None then replacement @ sanitize (drop 5 r) else c # sanitize r))
           else if char_code c < 128 then c # sanitize r
           else (case utf8_len s of
                   Some n \<Rightarrow> take n s @ sanitize (drop n s)
                 | None \<Rightarrow> replacement @ sanitize r)))"
  by pat_completeness auto
termination
proof (relation "measure length")
  fix s :: string and c r n
  assume "s = c # r" "escape_len s = Some n"
  with escape_len_at [of s n] show "(drop n s, s) \<in> measure length" by (auto simp: unit_at_def)
next
  fix s :: string and c r n
  assume "s = c # r" "utf8_len s = Some n"
  with utf8_len_at [of s n] show "(drop n s, s) \<in> measure length" by (auto simp: unit_at_def)
qed auto

declare sanitize.simps [simp del]

text \<open>AllowDuplicateNames: an object forgets the names that it has.\<close>

definition forget_names :: "jstate \<Rightarrow> jstate" where
  "forget_names s = (map (\<lambda>f. case f of FObj ns \<Rightarrow> FObj [] | FArr \<Rightarrow> FArr) (fst s), snd s)"

fun read_any :: "jstate \<Rightarrow> lexeme list \<Rightarrow> (lexeme list \<times> lexeme list) option" where
  "read_any s [] = None"
| "read_any s ((w, t) # ls) =
     (case jstep 0 (forget_names s) t of
        None \<Rightarrow> None
      | Some s' \<Rightarrow>
          (if s' = ([], ExAfter) then Some ([(w, t)], ls)
           else map_option (\<lambda>(vs, rest). ((w, t) # vs, rest)) (read_any s' ls)))"

section \<open>Readable text\<close>

text \<open>A character as the encoder writes it: escaped if it has to be, and otherwise as it is.\<close>

definition quote_value :: "string \<Rightarrow> string" where
  "quote_value v = (case v of [c] \<Rightarrow> quote_char c | _ \<Rightarrow> v)"

definition requote :: "string list \<Rightarrow> string list" where
  "requote us = map (\<lambda>u. quote_value (unit_value u)) us"

fun readable_token :: "jtoken \<Rightarrow> jtoken" where
  "readable_token (TStr us) = TStr (requote us)"
| "readable_token t = t"

definition spaced :: "jtoken \<Rightarrow> string" where
  "spaced t = (if t = TComma \<or> t = TColon then tok_text t @ '' '' else tok_text t)"

definition readable_text :: "jtoken list \<Rightarrow> bytes" where
  "readable_text ts = concat (map (\<lambda>t. spaced (readable_token t)) ts)"

text \<open>Encoder.WriteValue at the top level, up to the newline; \<open>None\<close> is its error.\<close>

definition readable_value :: "bytes \<Rightarrow> bytes option" where
  "readable_value src =
     (case read_any start_state (lex (sanitize src)) of
        Some (vs, []) \<Rightarrow> Some (readable_text (map snd vs))
      | _ \<Rightarrow> None)"

text \<open>The buffer of printJSON: an object that is not valid leaves no trace in it.\<close>

definition json_lines :: "bytes list \<Rightarrow> bytes" where
  "json_lines objs =
     concat (map (\<lambda>o1. case readable_value o1 of Some b \<Rightarrow> b @ [newline] | None \<Rightarrow> []) objs)"

section \<open>Rows\<close>

text \<open>jsontext.String of a Go string, written with AllowInvalidUTF8.\<close>

function quote_any :: "string \<Rightarrow> string list" where
  "quote_any s =
     (case s of
        [] \<Rightarrow> []
      | c # r \<Rightarrow>
          (if char_code c < 128 then quote_char c # quote_any r
           else (case utf8_len s of
                   Some n \<Rightarrow> take n s # quote_any (drop n s)
                 | None \<Rightarrow> replacement # quote_any r)))"
  by pat_completeness auto
termination
proof (relation "measure length")
  fix s :: string and c r n
  assume "s = c # r" "utf8_len s = Some n"
  with utf8_len_at [of s n] show "(drop n s, s) \<in> measure length" by (auto simp: unit_at_def)
qed auto

declare quote_any.simps [simp del]

definition string_token :: "string \<Rightarrow> bytes" where
  "string_token s = tok_text (TStr (quote_any s))"

text \<open>
  marshalPrintableBytesAsString: valid UTF-8 of which every character is printable or white
  space. For ASCII that is written out, for other characters it is what package unicode says.
\<close>

definition printable_ascii :: "char \<Rightarrow> bool" where
  "printable_ascii c \<longleftrightarrow> (32 \<le> char_code c \<and> char_code c \<le> 126) \<or> (9 \<le> char_code c \<and> char_code c \<le> 13)"

function printable :: "(string \<Rightarrow> bool) \<Rightarrow> bytes \<Rightarrow> bool" where
  "printable uni s =
     (case s of
        [] \<Rightarrow> True
      | c # r \<Rightarrow>
          (if char_code c < 128 then printable_ascii c \<and> printable uni r
           else (case utf8_len s of
                   Some n \<Rightarrow> uni (take n s) \<and> printable uni (drop n s)
                 | None \<Rightarrow> False)))"
  by pat_completeness auto
termination
proof (relation "measure (length \<circ> snd)")
  fix uni and s :: string and c r n
  assume "s = c # r" "utf8_len s = Some n"
  with utf8_len_at [of s n] show "((uni, drop n s), (uni, s)) \<in> measure (length \<circ> snd)" by (auto simp: unit_at_def)
qed auto

declare printable.simps [simp del]

text \<open>
  What the marshalers of readableJSONOpts look at, in their order: values of type []byte,
  which \<open>as_bytes\<close> recognises, and floats. \<open>marshal\<close> is what the standard library does otherwise.
\<close>

record ('f, 'v) printer =
  as_bytes :: "'v \<Rightarrow> bytes option"
  uni_printable :: "string \<Rightarrow> bool"
  marshal_other :: "('f, 'v) cell \<Rightarrow> bytes option"

fun readable_cell :: "('f, 'v) printer \<Rightarrow> ('f, 'v) cell \<Rightarrow> bytes option" where
  "readable_cell pr (FloatCell x) =
     (case marshal_non_finite_float x of Some b \<Rightarrow> Some b | None \<Rightarrow> marshal_other pr (FloatCell x))"
| "readable_cell pr (OtherCell v) =
     (case as_bytes pr v of
        Some data \<Rightarrow>
          (if printable (uni_printable pr) data then Some (string_token data) else marshal_other pr (OtherCell v))
      | None \<Rightarrow> marshal_other pr (OtherCell v))"

fun readable_members :: "('f, 'v) printer \<Rightarrow> string list \<Rightarrow> ('f, 'v) cell list \<Rightarrow> bytes list option" where
  "readable_members pr (name # names) (v # vals) =
     (case readable_cell pr v of
        None \<Rightarrow> None
      | Some b \<Rightarrow>
          map_option (\<lambda>ms. (string_token name @ '': '' @ b) # ms) (readable_members pr names vals))"
| "readable_members pr _ _ = Some []"

definition marshal_row :: "('f, 'v) printer \<Rightarrow> ('f, 'v) cell row \<Rightarrow> bytes option" where
  "marshal_row pr r =
     (if length (row_cols r) \<noteq> length (row_vals r) then None
      else map_option (\<lambda>ms. ''{'' @ join '', '' ms @ ''}'' @ [newline]) (readable_members pr (row_cols r) (row_vals r)))"

definition row_lines :: "('f, 'v) printer \<Rightarrow> ('f, 'v) cell row list \<Rightarrow> bytes" where
  "row_lines pr rows = concat (map (\<lambda>r. case marshal_row pr r of Some b \<Rightarrow> b | None \<Rightarrow> []) rows)"


section \<open>Strings keep their value\<close>

definition one_unit :: "string \<Rightarrow> bool" where
  "one_unit q \<longleftrightarrow> q \<noteq> [] \<and> hd q \<noteq> dquote \<and> (\<forall>r. str_unit (q @ r) = Some (length q))"

lemma utf8_encode_ok:
  assumes "128 \<le> n" and "n < 1114112" and "n < 55296 \<or> 57343 < n"
  shows "utf8_len (utf8_encode n @ r) = Some (length (utf8_encode n))"
    and "\<exists>c0 c1 t. utf8_encode n = c0 # c1 # t \<and> 128 \<le> char_code c0"
proof -
  consider (two) "n < 2048" | (three) "2048 \<le> n" "n < 65536" | (four) "65536 \<le> n" by linarith
  then have "utf8_len (utf8_encode n @ r) = Some (length (utf8_encode n))
    \<and> (\<exists>c0 c1 t. utf8_encode n = c0 # c1 # t \<and> 128 \<le> char_code c0)"
  proof cases
    case two
    then have "n div 64 < 32" "2 \<le> n div 64" using assms(1) by linarith+
    moreover have "n mod 64 < 64" by simp
    ultimately show ?thesis
      using two assms(1) by (simp add: utf8_encode_def utf8_len_def cont_byte_def char_code_def)
  next
    case three
    define m where "m = n div 64"
    have m: "n div 4096 = m div 64" "32 \<le> m" "m < 1024" "m < 864 \<or> 895 < m"
      using three assms(3) by (auto simp: m_def simp flip: div_mult2_eq)
    have k: "m = 64 * (m div 64) + m mod 64" "m mod 64 < 64" by simp_all
    have d: "n div 4096 < 16" "n div 64 mod 64 < 64" "n mod 64 < 64" using m by auto
    have low: "32 \<le> n div 64 mod 64" if "n div 4096 = 0"
      using that m k by (simp flip: m_def del: div_mult_mod_eq mod_div_mult_eq mult_div_mod_eq)
    have surrogate: "n div 64 mod 64 < 32" if "n div 4096 = 13"
      using that m k by (simp flip: m_def del: div_mult_mod_eq mod_div_mult_eq mult_div_mod_eq)
    show ?thesis
      using three assms(1) d low surrogate
      by (auto simp: utf8_encode_def utf8_len_def cont_byte_def second_byte_def char_code_def)
  next
    case four
    define m where "m = n div 4096"
    have m: "n div 262144 = m div 64" "16 \<le> m" "m < 272"
      using four assms(2) by (auto simp: m_def simp flip: div_mult2_eq)
    have k: "m = 64 * (m div 64) + m mod 64" "m mod 64 < 64" by simp_all
    have d: "n div 262144 \<le> 4" "n div 4096 mod 64 < 64" "n div 64 mod 64 < 64" "n mod 64 < 64" using m by auto
    have low: "16 \<le> n div 4096 mod 64" if "n div 262144 = 0"
      using that m k by (simp flip: m_def del: div_mult_mod_eq mod_div_mult_eq mult_div_mod_eq)
    have high: "n div 4096 mod 64 < 16" if "n div 262144 = 4"
      using that m k by (simp flip: m_def del: div_mult_mod_eq mod_div_mult_eq mult_div_mod_eq)
    show ?thesis
      using four d low high
      by (auto simp: utf8_encode_def utf8_len_def cont_byte_def second_byte_def char_code_def)
  qed
  then show "utf8_len (utf8_encode n @ r) = Some (length (utf8_encode n))"
    and "\<exists>c0 c1 t. utf8_encode n = c0 # c1 # t \<and> 128 \<le> char_code c0" by simp_all
qed


lemma one_unit_char:
  assumes "char_code c < 128"
  shows "one_unit (quote_value [c])" and "unit_value (quote_value [c]) = [c]"
  using quote_char_unit [OF assms] by (simp_all add: one_unit_def quote_value_def)

lemma one_unit_wide:
  assumes "v = c0 # c1 # t" and "128 \<le> char_code c0" and "\<And>r. utf8_len (v @ r) = Some (length v)"
  shows "one_unit (quote_value v)" and "unit_value (quote_value v) = v"
proof -
  have c: "c0 \<noteq> dquote" "c0 \<noteq> backslash" "\<not> char_code c0 < 32"
    using assms(2) by (auto simp: dquote_def backslash_def char_code_def)
  have v: "quote_value v = v" using assms(1) by (simp add: quote_value_def)
  show "unit_value (quote_value v) = v" unfolding v using assms(1) c by (simp add: unit_value_def)
  have "str_unit (v @ r) = Some (length v)" for r
    using assms(3) [of r] assms(1) c by (simp add: str_unit_def)
  then show "one_unit (quote_value v)" unfolding v using assms(1) c by (simp add: one_unit_def)
qed

lemma one_unit_code:
  assumes "n < 1114112" and "n < 55296 \<or> 57343 < n"
  shows "one_unit (quote_value (utf8_encode n))"
    and "unit_value (quote_value (utf8_encode n)) = utf8_encode n"
proof -
  have "one_unit (quote_value (utf8_encode n)) \<and> unit_value (quote_value (utf8_encode n)) = utf8_encode n"
  proof (cases "n < 128")
    case True
    then have "utf8_encode n = [char_of n]" "char_code (char_of n) < 128" by (simp_all add: utf8_encode_def char_code_def)
    with one_unit_char [of "char_of n"] show ?thesis by simp
  next
    case False
    then obtain c0 c1 t where "utf8_encode n = c0 # c1 # t" "128 \<le> char_code c0"
      using utf8_encode_ok(2) [of n] assms by auto
    from one_unit_wide [OF this utf8_encode_ok(1)] False assms show ?thesis by simp
  qed
  then show "one_unit (quote_value (utf8_encode n))"
    and "unit_value (quote_value (utf8_encode n)) = utf8_encode n" by simp_all
qed

lemma json_hex_range: "json_hex c = Some i \<Longrightarrow> i < 16"
  by (auto simp: json_hex_def Let_def split: if_splits)

lemma code_unit_range:
  assumes "code_unit s = Some v"
  shows "v < 65536"
proof -
  obtain a b c d i j k l where "json_hex a = Some i" "json_hex b = Some j" "json_hex c = Some k" "json_hex d = Some l"
    "v = ((i * 16 + j) * 16 + k) * 16 + l"
    using assms by (auto simp: code_unit_def split: list.splits option.splits if_splits)
  moreover from this(1-4) have "i < 16" "j < 16" "k < 16" "l < 16" by (simp_all add: json_hex_range)
  ultimately show ?thesis by simp
qed

lemma escape_value:
  assumes "escape_len u = Some (length u)" and "hd u = backslash"
  shows "(\<exists>c. unit_value u = [c] \<and> char_code c < 128)
    \<or> (\<exists>n. unit_value u = utf8_encode n \<and> n < 1114112 \<and> (n < 55296 \<or> 57343 < n))"
proof -
  obtain b e t where u: "u = b # e # t" using assms by (auto simp: escape_len_def split: list.splits)
  with assms(2) have esc: "b = backslash" by simp
  note assms = assms(1)
  show ?thesis
  proof (cases "map_of simple_escapes e")
    case (Some x)
    then have "char_code x < 128"
      using map_of_SomeD [OF Some] by (auto simp: simple_escapes_def dquote_def backslash_def char_code_def)
    with Some u esc show ?thesis by (simp add: unit_value_def)
  next
    case None
    with assms u obtain v where v: "code_unit (e # t) = Some v" "\<not> (56320 \<le> v \<and> v \<le> 57343)"
      by (auto simp: escape_len_def split: option.splits if_splits)
    show ?thesis
    proof (cases "55296 \<le> v \<and> v \<le> 56319")
      case False
      with assms u None v have "length t = 4" by (auto simp: escape_len_def)
      then have "code_unit (drop 5 t) = None" by (simp add: code_unit_def)
      with None u v esc have "unit_value u = utf8_encode v" by (simp add: unit_value_def)
      moreover have "v < 1114112" "v < 55296 \<or> 57343 < v" using code_unit_range [OF v(1)] v(2) False by auto
      ultimately show ?thesis by blast
    next
      case surrogate: True
      with assms u None v obtain c t' w where t: "drop 4 t = c # t'" "code_unit t' = Some w" "56320 \<le> w" "w \<le> 57343"
        by (auto simp: escape_len_def split: list.splits if_splits option.splits)
      then have "drop 5 t = t'" by (metis drop_Suc_Cons drop_0 drop_drop add_numeral_left(1) numeral_One plus_1_eq_Suc
            Suc_eq_plus1 eval_nat_numeral(3))
      with None u v esc t(2) have "unit_value u = utf8_encode (65536 + (v - 55296) * 1024 + (w - 56320))"
        by (simp add: unit_value_def)
      moreover have "65536 + (v - 55296) * 1024 + (w - 56320) < 1114112" using surrogate t(3,4) by linarith
      ultimately show ?thesis by (intro disjI2 exI conjI) auto
    qed
  qed
qed


lemma requote_unit:
  assumes "str_unit u = Some (length u)" and "u \<noteq> []"
  shows "one_unit (quote_value (unit_value u)) \<and> unit_value (quote_value (unit_value u)) = unit_value u"
proof -
  obtain c r where u: "u = c # r" using assms(2) by (cases u) auto
  show ?thesis
  proof (cases "c = backslash")
    case True
    with assms(1) u have "escape_len u = Some (length u)" by (simp add: str_unit_def)
    from escape_value [OF this] u True one_unit_char one_unit_code show ?thesis by auto
  next
    case plain: False
    with assms(1) u have len: "utf8_len u = Some (length u)" by (simp add: str_unit_def split: if_splits)
    have v: "unit_value u = u" using plain u by (cases r) (simp_all add: unit_value_def)
    show ?thesis
    proof (cases "char_code c < 128")
      case True
      with len u have "u = [c]" by (simp add: utf8_len_def)
      with one_unit_char [OF True] v show ?thesis by simp
    next
      case False
      with len u obtain c1 t where r: "r = c1 # t"
        by (cases r) (auto simp: utf8_len_def Let_def split: if_splits list.splits)
      have "utf8_len (u @ r') = Some (length u)" for r'
        using utf8_len_at [OF len] by (auto simp: unit_at_def)
      from one_unit_wide [of u c c1 t, OF _ _ this] u r False v show ?thesis by simp
    qed
  qed
qed

lemma scan_units_units:
  "scan_units s = Some (us, r) \<Longrightarrow> \<forall>u \<in> set us. u \<noteq> [] \<and> str_unit u = Some (length u)"
proof (induction s arbitrary: us rule: scan_units.induct)
  case (1 s)
  note sc = 1(2) [unfolded scan_units.simps [of s]]
  then obtain c t where s: "s = c # t" by (cases s) auto
  show ?case
  proof (cases "c = dquote")
    case True
    with sc s show ?thesis by auto
  next
    case False
    with sc obtain n us' where n: "str_unit s = Some n" "scan_units (drop n s) = Some (us', r)" "us = take n s # us'"
      by (auto simp: s split: option.splits)
    have "str_unit (take n s @ []) = Some n" "length (take n s) = n" "0 < n"
      using str_unit_split [OF n(1)] by blast+
    with 1(1) [OF s False n(1,2)] n(3) show ?thesis by auto
  qed
qed

lemma one_units_scan:
  "\<forall>u \<in> set us. one_unit u \<Longrightarrow> scan_units (concat us @ dquote # r) = Some (us, r)"
proof (induction us)
  case Nil
  show ?case by (simp add: scan_units.simps [of "dquote # r"])
next
  case (Cons u us)
  then obtain c u' where u: "u = c # u'" "c \<noteq> dquote" by (cases u) (auto simp: one_unit_def)
  have "str_unit (u @ concat us @ dquote # r) = Some (length u)" using Cons.prems by (simp add: one_unit_def)
  from scan_units_step [OF this u] Cons show ?case by simp
qed

lemma readable_token_ok:
  assumes "tok_ok t"
  shows "tok_ok (readable_token t)"
    and "\<And>us. t = TStr us \<Longrightarrow> str_value (requote us) = str_value us"
proof -
  have units: "one_unit (quote_value (unit_value u)) \<and> unit_value (quote_value (unit_value u)) = unit_value u"
    if "t = TStr us" "u \<in> set us" for us u
  proof -
    have "lex_token (tok_text t @ []) = Some (t, [])" using assms that(1) by (simp add: tok_ok_def)
    then have "scan_units (concat us @ [dquote]) = Some (us, [])"
      using that(1) by (auto simp: lex_token_def punctuation_def dquote_def is_digit_def)
    from scan_units_units [OF this] that(2) requote_unit show ?thesis by blast
  qed
  show "str_value (requote us) = str_value us" if "t = TStr us" for us
    using units that by (auto simp: str_value_def requote_def intro!: arg_cong [where f = concat])
  show "tok_ok (readable_token t)"
  proof (cases t)
    case (TStr us)
    then have "scan_units (concat (requote us) @ dquote # r) = Some (requote us, r)" for r
      using units by (intro one_units_scan) (auto simp: requote_def)
    with TStr show ?thesis by (auto simp: tok_ok_def lex_token_def punctuation_def dquote_def json_space_def)
  qed (use assms in simp_all)
qed


section \<open>What is valid is read in the same way\<close>

lemma unit_at_whole: "unit_at f u (length u) \<Longrightarrow> f (u @ r) = Some (length u)"
  by (auto simp: unit_at_def)

lemma sanitize_unit:
  assumes "str_unit u = Some (length u)" and "u \<noteq> []"
  shows "sanitize (u @ r) = u @ sanitize r"
proof -
  obtain c u' where u: "u = c # u'" using assms(2) by (cases u) auto
  show ?thesis
  proof (cases "c = backslash")
    case True
    with assms(1) u have "escape_len u = Some (length u)" by (simp add: str_unit_def)
    then have "escape_len (u @ r) = Some (length u)" using escape_len_at unit_at_whole by blast
    with True u show ?thesis by (subst sanitize.simps) simp
  next
    case plain: False
    with assms(1) u have len: "utf8_len u = Some (length u)" by (simp add: str_unit_def split: if_splits)
    show ?thesis
    proof (cases "char_code c < 128")
      case True
      with len u have "u = [c]" by (simp add: utf8_len_def)
      with True plain show ?thesis by (subst sanitize.simps) simp
    next
      case False
      have "utf8_len (u @ r) = Some (length u)" using utf8_len_at [OF len] unit_at_whole by blast
      with False plain u show ?thesis by (subst sanitize.simps) simp
    qed
  qed
qed

lemma sanitize_units: "\<forall>u \<in> set us. u \<noteq> [] \<and> str_unit u = Some (length u) \<Longrightarrow> sanitize (concat us @ r) = concat us @ sanitize r"
  by (induction us) (simp_all add: sanitize_unit)

lemma sanitize_ascii:
  "\<forall>c \<in> set s. char_code c < 128 \<and> c \<noteq> backslash \<Longrightarrow> sanitize (s @ r) = s @ sanitize r"
proof (induction s)
  case (Cons c s)
  then show ?case by (subst sanitize.simps) simp
qed simp

definition plain_char :: "char \<Rightarrow> bool" where
  "plain_char c \<longleftrightarrow> char_code c < 128 \<and> c \<noteq> backslash \<and> c \<noteq> newline"

definition plain_ascii :: "string \<Rightarrow> bool" where
  "plain_ascii s \<longleftrightarrow> (\<forall>c \<in> set s. plain_char c)"

lemma plain_simps [simp]:
  "plain_ascii []" "plain_ascii (c # t) \<longleftrightarrow> plain_char c \<and> plain_ascii t"
  "plain_ascii (s @ t) \<longleftrightarrow> plain_ascii s \<and> plain_ascii t"
  by (auto simp: plain_ascii_def)

lemma digits_plain: "scan_digits s = (d, r) \<Longrightarrow> plain_ascii d"
proof -
  assume "scan_digits s = (d, r)"
  then have "is_digit c" if "c \<in> set d" for c using that by (auto simp: scan_digits_def dest: set_takeWhileD)
  then show "plain_ascii d" by (force simp: plain_ascii_def plain_char_def is_digit_def backslash_def newline_def char_code_def)
qed

lemma number_signs_plain:
  "plain_char (CHR ''-'')" "plain_char (CHR ''0'')" "plain_char (CHR ''.'')" "plain_char (CHR ''e'')"
  "plain_char (CHR ''E'')" "plain_char (CHR ''+'')"
  by (simp_all add: plain_char_def char_code_def backslash_def newline_def)

lemma int_plain: "scan_int s = Some (i, r) \<Longrightarrow> plain_ascii i"
  by (auto simp: scan_int_def number_signs_plain split: list.splits if_splits dest: digits_plain)

lemma frac_plain: "scan_frac s = Some (f, r) \<Longrightarrow> plain_ascii f"
  by (auto simp: scan_frac_def number_signs_plain Let_def split: list.splits if_splits prod.splits dest: digits_plain)

lemma exp_plain:
  assumes "scan_exp s = Some (e, r)"
  shows "plain_ascii e"
proof (cases "e = []")
  case False
  then obtain c t where s: "s = c # t" "c = CHR ''e'' \<or> c = CHR ''E''"
    using assms by (auto simp: scan_exp_def split: list.splits if_splits)
  define sg where "sg = takeWhile is_sign (take 1 t)"
  from s assms obtain d where d: "scan_digits (drop (length sg) t) = (d, r)" "e = c # sg @ d"
    by (auto simp: scan_exp_def sg_def Let_def split: prod.splits if_splits)
  have "plain_ascii sg" by (cases t) (auto simp: sg_def is_sign_def number_signs_plain)
  with d s(2) digits_plain [OF d(1)] number_signs_plain show ?thesis by auto
qed simp

lemma number_plain:
  assumes "scan_number s = Some (n, r)"
  shows "plain_ascii n"
proof -
  obtain sg s0 where sg: "scan_sign s = (sg, s0)" by fastforce
  with assms obtain i s1 f s2 e where p: "scan_int s0 = Some (i, s1)" "scan_frac s1 = Some (f, s2)"
    "scan_exp s2 = Some (e, r)" "n = sg @ i @ f @ e"
    by (auto simp: scan_number_def split: option.splits)
  have "plain_ascii sg" using sg by (auto simp: scan_sign_def number_signs_plain split: list.splits if_splits)
  with int_plain [OF p(1)] frac_plain [OF p(2)] exp_plain [OF p(3)] show ?thesis by (simp add: p(4))
qed

lemma sanitize_plain: "plain_ascii s \<Longrightarrow> sanitize (s @ r) = s @ sanitize r"
  by (rule sanitize_ascii) (simp add: plain_ascii_def plain_char_def)

lemma token_shape:
  assumes "tok_ok t"
  shows "(\<exists>us. t = TStr us \<and> scan_units (concat us @ [dquote]) = Some (us, [])) \<or> plain_ascii (tok_text t)"
proof -
  have "lex_token (tok_text t @ []) = Some (t, [])" by (rule tok_ok_lex [OF assms]) (simp add: number_ends_def)
  then have l: "lex_token (tok_text t) = Some (t, [])" by simp
  show ?thesis
  proof (cases t)
    case (TStr us)
    with l show ?thesis by (auto simp: lex_token_def punctuation_def dquote_def is_digit_def)
  next
    case (TNum n)
    with assms obtain c n' where n: "n = c # n'" by (cases n) (auto simp: tok_ok_def)
    have "map_of punctuation c \<noteq> Some (TNum n)" by (auto simp: punctuation_def)
    with l TNum n have "scan_number n = Some (n, [])"
      by (auto simp: lex_token_def split: option.splits if_splits)
    with number_plain TNum show ?thesis by auto
  next
    case (TLit x)
    with assms obtain c x' where x: "x = c # x'" by (cases x) (auto simp: tok_ok_def)
    have "map_of punctuation c \<noteq> Some (TLit x)" by (auto simp: punctuation_def)
    with l TLit x have "literal_at x = Some x" by (auto simp: lex_token_def split: option.splits if_splits)
    then have "x \<in> set literals" using literal_at_Some by blast
    then have "plain_ascii x" by (auto simp: literals_def plain_char_def newline_def backslash_def char_code_def)
    with TLit show ?thesis by simp
  qed (simp_all add: plain_char_def newline_def backslash_def char_code_def)
qed

lemma sanitize_token:
  assumes "tok_ok t"
  shows "sanitize (tok_text t @ r) = tok_text t @ sanitize r"
proof (cases "plain_ascii (tok_text t)")
  case False
  with token_shape [OF assms] obtain us where us: "t = TStr us" "scan_units (concat us @ [dquote]) = Some (us, [])"
    by blast
  have quote: "sanitize (dquote # s) = dquote # sanitize s" for s
    using sanitize_plain [of "[dquote]" s] by (simp add: dquote_def plain_char_def newline_def backslash_def char_code_def)
  from us(1) sanitize_units [OF scan_units_units [OF us(2)], of "dquote # r"] show ?thesis by (simp add: quote)
qed (rule sanitize_plain)

lemma json_space_plain: "json_space c \<Longrightarrow> char_code c < 128 \<and> c \<noteq> backslash"
  unfolding json_space_def backslash_def by (elim disjE) (simp_all add: char_code_def)

lemma space_plain: "\<forall>c \<in> set w. json_space c \<Longrightarrow> sanitize (w @ r) = w @ sanitize r"
  by (rule sanitize_ascii) (blast dest: json_space_plain)

lemma sanitize_lexemes:
  "(\<And>w t. (w, t) \<in> set ls \<Longrightarrow> tok_ok t \<and> (\<forall>c \<in> set w. json_space c)) \<Longrightarrow>
     sanitize (concat (map lexeme_text ls) @ r) = concat (map lexeme_text ls) @ sanitize r"
proof (induction ls)
  case (Cons l ls)
  obtain w t where l: "l = (w, t)" by fastforce
  with Cons.prems have "tok_ok t" "\<forall>c \<in> set w. json_space c" by auto
  moreover have "sanitize (concat (map lexeme_text ls) @ r) = concat (map lexeme_text ls) @ sanitize r"
    by (rule Cons.IH) (use Cons.prems in auto)
  ultimately show ?case using l by (simp add: space_plain sanitize_token lexeme_text_def [of "(w, t)"])
qed simp

lemma sanitize_valid:
  assumes "TBad \<notin> snd ` set (lex s)"
  shows "sanitize s = s"
proof -
  obtain w where w: "s = concat (map lexeme_text (lex s)) @ w" "\<forall>c \<in> set w. json_space c"
    using lex_lossless [OF assms] by blast
  have "sanitize (concat (map lexeme_text (lex s)) @ w) = concat (map lexeme_text (lex s)) @ sanitize w"
  proof (rule sanitize_lexemes)
    fix w' t assume "(w', t) \<in> set (lex s)"
    with assms show "tok_ok t \<and> (\<forall>c \<in> set w'. json_space c)"
      by (metis image_eqI lex_space_ok lex_tokens_ok snd_conv)
  qed
  moreover have "sanitize w = w" using space_plain [OF w(2), of "[]"] by (simp add: sanitize.simps [of "[]"])
  ultimately show ?thesis using w(1) by simp
qed

text \<open>Forgetting names accepts whatever is accepted without.\<close>

lemma jstep_forget:
  assumes "jstep base s t = Some s'" and "base = 0"
  shows "\<exists>s''. jstep 0 (forget_names s) t = Some s'' \<and> forget_names s'' = forget_names s'
    \<and> (s'' = ([], ExAfter) \<longleftrightarrow> s' = ([], ExAfter))"
proof -
  obtain st ex where s: "s = (st, ex)" by fastforce
  show ?thesis
    using assms unfolding s
    by (cases t; cases st) (auto simp: forget_names_def split: if_splits jframe.splits)
qed

lemma read_any_valid:
  "read_value base s ls = Some (vs, rest) \<Longrightarrow> base = 0 \<Longrightarrow> forget_names s2 = forget_names s \<Longrightarrow>
     read_any s2 ls = Some (vs, rest)"
proof (induction base s ls arbitrary: vs s2 rule: read_value.induct)
  case (2 base s w t ls)
  then obtain s' where s': "jstep base s t = Some s'" by (auto split: option.splits)
  with jstep_forget [OF s' 2(3)] obtain s'' where s'': "jstep 0 (forget_names s2) t = Some s''"
    "forget_names s'' = forget_names s'" "s'' = ([], ExAfter) \<longleftrightarrow> s' = ([], ExAfter)" using 2(4) by auto
  show ?case
  proof (cases "s' = ([], ExAfter)")
    case True
    with 2(2) s' s'' show ?thesis by auto
  next
    case False
    with 2(2) s' obtain vs' where v: "read_value base s' ls = Some (vs', rest)" "vs = (w, t) # vs'" by auto
    from 2(1) [OF s' False v(1) 2(3) s''(2)] v(2) s'' False show ?thesis by simp
  qed
qed simp

lemma readable_valid:
  assumes "read_value 0 start_state (lex src) = Some (vs, [])"
  shows "readable_value src = Some (readable_text (map snd vs))"
proof -
  have "TBad \<notin> snd ` set (lex src)" using read_value_split [OF assms] read_value_sep [OF assms] by auto
  then have "sanitize src = src" by (rule sanitize_valid)
  then show ?thesis using read_any_valid [OF assms refl refl] by (simp add: readable_value_def)
qed


section \<open>Readable text is read back\<close>

definition gap :: "jtoken \<Rightarrow> string" where
  "gap t = (if t = TComma \<or> t = TColon then '' '' else [])"

fun with_spaces :: "string \<Rightarrow> jtoken list \<Rightarrow> lexeme list" where
  "with_spaces w [] = []"
| "with_spaces w (t # ts) = (w, t) # with_spaces (gap t) ts"

lemma with_spaces_tokens [simp]: "map snd (with_spaces w ts) = ts"
  by (induction ts arbitrary: w) simp_all

lemma spaced_gap: "spaced t = tok_text t @ gap t"
  by (simp add: spaced_def gap_def)

lemma lex_with_spaces:
  "(\<And>t. t \<in> set ts \<Longrightarrow> tok_ok t) \<Longrightarrow> sep ts \<Longrightarrow> number_ends r \<Longrightarrow> \<forall>c \<in> set w. json_space c \<Longrightarrow>
     ts \<noteq> [] \<Longrightarrow> gap (last ts) = [] \<Longrightarrow> lex (w @ concat (map spaced ts) @ r) = with_spaces w ts @ lex r"
proof (induction ts arbitrary: w)
  case (Cons t ts)
  let ?rest = "gap t @ concat (map spaced ts) @ r"
  have ok: "tok_ok t" using Cons.prems(1) by simp
  have "number_ends ?rest" if n: "t = TNum n" for n
  proof (cases ts)
    case (Cons t' ts')
    then have "t' \<in> {TComma, TEndObj, TEndArr}" "tok_ok t'" using n Cons.prems(1,2) by auto
    from number_ends_tok [OF this(2,1)] n Cons show ?thesis by (simp add: gap_def spaced_gap)
  qed (use n Cons.prems(3) in \<open>simp add: gap_def\<close>)
  then have "lex_token (tok_text t @ ?rest) = Some (t, ?rest)"
    using ok unfolding tok_ok_def by (cases "\<exists>n. t = TNum n") blast+
  from lex_step [OF this ok] have "lex (w @ tok_text t @ ?rest) = (w, t) # lex ?rest"
    by (simp add: lex_space [OF Cons.prems(4)])
  moreover have "lex ?rest = with_spaces (gap t) ts @ lex r"
  proof (cases "ts = []")
    case False
    have "\<forall>c \<in> set (gap t). json_space c" by (simp add: gap_def json_space_def)
    with False Cons.IH [of "gap t"] Cons.prems show ?thesis by (cases ts) auto
  qed (use Cons.prems(6) in simp)
  ultimately show ?case by (simp add: spaced_gap [of t])
qed simp

text \<open>Tokens with the same meaning are read in the same way, whatever the space between them.\<close>

lemma read_value_retoken:
  "read_value base s ls = Some (vs, rest) \<Longrightarrow> map snd ws = map (g \<circ> snd) vs \<Longrightarrow>
     (\<And>w t s. (w, t) \<in> set vs \<Longrightarrow> jstep base s (g t) = jstep base s t) \<Longrightarrow>
     read_value base s (ws @ r) = Some (ws, r)"
proof (induction base s ls arbitrary: vs ws rule: read_value.induct)
  case (2 base s w t ls)
  from 2(2) obtain s' where s': "jstep base s t = Some s'" by (auto split: option.splits)
  show ?case
  proof (cases "s' = ([], ExAfter)")
    case True
    with 2(2) s' have vs: "vs = [(w, t)]" by simp
    with 2(3) obtain w' where "ws = [(w', g t)]" by (cases ws) auto
    moreover have "jstep base s (g t) = Some s'" using 2(4) [of w t s] vs s' by simp
    ultimately show ?thesis using True by simp
  next
    case False
    with 2(2) s' obtain vs' where v: "read_value base s' ls = Some (vs', rest)" "vs = (w, t) # vs'" by auto
    with 2(3) obtain w' ws' where ws: "ws = (w', g t) # ws'" "map snd ws' = map (g \<circ> snd) vs'" by (cases ws) auto
    have "jstep base s (g t) = Some s'" using 2(4) [of w t s] v(2) s' by simp
    with 2(1) [OF s' False v(1) ws(2)] 2(4) v(2) ws(1) False show ?thesis by auto
  qed
qed simp

lemma jstep_readable: "tok_ok t \<Longrightarrow> jstep base s (readable_token t) = jstep base s t"
  using readable_token_ok(2) [of t] by (cases s; cases t) (auto split: list.splits jframe.splits)

lemma readable_token_cases:
  "readable_token t = TComma \<longleftrightarrow> t = TComma" "readable_token t = TColon \<longleftrightarrow> t = TColon"
  "readable_token t = TEndObj \<longleftrightarrow> t = TEndObj" "readable_token t = TEndArr \<longleftrightarrow> t = TEndArr"
  "readable_token t = TNum n \<longleftrightarrow> t = TNum n" "readable_token t = TBegObj \<longleftrightarrow> t = TBegObj"
  by (cases t; simp)+

lemma sep_readable: "sep (map readable_token ts) = sep ts"
  by (induction ts rule: sep.induct) (auto simp: readable_token_cases)

lemma gap_readable: "gap (readable_token t) = gap t"
  by (simp add: gap_def readable_token_cases)

lemma with_spaces_text:
  "ts \<noteq> [] \<Longrightarrow> gap (last ts) = [] \<Longrightarrow> concat (map lexeme_text (with_spaces w ts)) = w @ concat (map spaced ts)"
proof (induction ts arbitrary: w)
  case (Cons t ts)
  then show ?case by (cases "ts = []") (simp_all add: lexeme_text_def [of "(w, t)"] spaced_gap [of t])
qed simp

lemma read_value_last:
  "read_value base s ls = Some (vs, rest) \<Longrightarrow> gap (snd (last vs)) = []"
proof (induction base s ls arbitrary: vs rule: read_value.induct)
  case (2 base s w t ls)
  from 2(2) obtain s' where s': "jstep base s t = Some s'" by (auto split: option.splits)
  show ?case
  proof (cases "s' = ([], ExAfter)")
    case True
    with s' have "gap t = []" by (cases s; cases t) (auto simp: gap_def split: if_splits list.splits jframe.splits)
    with True 2(2) s' show ?thesis by auto
  next
    case False
    with 2(2) s' obtain vs' where v: "read_value base s' ls = Some (vs', rest)" "vs = (w, t) # vs'" by auto
    with 2(1) [OF s' False v(1)] read_value_split [OF v(1)] show ?thesis by simp
  qed
qed simp


text \<open>A valid object as it is printed: its text, its lexemes after some white space, and its value.\<close>

definition printed :: "lexeme list \<Rightarrow> jtoken list" where
  "printed vs = map (readable_token \<circ> snd) vs"

lemma printed_object:
  assumes "object_lexemes 0 src vs" and "\<forall>c \<in> set w. json_space c" and "number_ends r"
  shows "readable_value src = Some (readable_text (map snd vs))"
    and "lex (w @ readable_text (map snd vs) @ r) = with_spaces w (printed vs) @ lex r"
    and "read_value 0 start_state (with_spaces w (printed vs) @ ls) = Some (with_spaces w (printed vs), ls)"
    and "raw_text (with_spaces w (printed vs)) = readable_text (map snd vs)"
proof -
  have v: "read_value 0 start_state (lex src) = Some (vs, [])" and ne: "nonempty_object vs"
    using assms(1) by (simp_all add: object_lexemes_def)
  show "readable_value src = Some (readable_text (map snd vs))" by (rule readable_valid [OF v])
  have ok: "tok_ok (snd l)" if "l \<in> set vs" for l
    using that read_value_split [OF v] read_value_sep [OF v] lex_tokens_ok [of "fst l" "snd l" src] by force
  have shape: "readable_text (map snd vs) = concat (map spaced (printed vs))"
    by (simp add: readable_text_def printed_def comp_def)
  have vs: "vs \<noteq> []" using read_value_split [OF v] by simp
  then have last: "printed vs \<noteq> []" "gap (last (printed vs)) = []"
    using read_value_last [OF v] by (simp_all add: printed_def last_map gap_readable)
  show "lex (w @ readable_text (map snd vs) @ r) = with_spaces w (printed vs) @ lex r"
    unfolding shape
  proof (rule lex_with_spaces)
    show "tok_ok t" if "t \<in> set (printed vs)" for t
      using that ok readable_token_ok(1) by (auto simp: printed_def)
    show "sep (printed vs)"
      using read_value_sep [OF v] sep_readable [of "map snd vs"] by (simp add: printed_def comp_def)
  qed (use assms last in simp_all)
  show "read_value 0 start_state (with_spaces w (printed vs) @ ls) = Some (with_spaces w (printed vs), ls)"
    by (rule read_value_retoken [OF v, where g = readable_token])
      (use ok jstep_readable in \<open>force simp: printed_def comp_def\<close>)+
  obtain t ts where p: "printed vs = t # ts" using last(1) by (cases "printed vs") auto
  then have "w @ raw_text (with_spaces w (printed vs)) = concat (map lexeme_text (with_spaces w (printed vs)))"
    by (simp add: lexeme_text_def [of "(w, t)"])
  also have "\<dots> = w @ readable_text (map snd vs)" unfolding shape by (rule with_spaces_text [OF last])
  finally show "raw_text (with_spaces w (printed vs)) = readable_text (map snd vs)" by simp
qed

lemma decode_printed:
  assumes "object_lexemes 0 src vs" and "\<forall>c \<in> set w. json_space c" and "number_ends r"
  shows "decode_stream (lex (w @ readable_text (map snd vs) @ r)) acc
    = decode_stream (lex r) (acc @ [readable_text (map snd vs)])"
proof -
  note p = printed_object [OF assms]
  obtain w0 w1 t1 vs' where vs: "vs = (w0, TBegObj) # (w1, t1) # vs'" "t1 \<noteq> TEndObj"
    using assms(1) by (auto simp: object_lexemes_def elim: nonempty_objectE)
  let ?t1 = "readable_token t1" and ?ls = "with_spaces w (printed vs) @ lex r"
  have ls: "?ls = (w, TBegObj) # ([], ?t1) # with_spaces (gap ?t1) (map (readable_token \<circ> snd) vs') @ lex r"
    by (simp add: printed_def vs(1) gap_def)
  then have sk: "skip_delim ?ls = (False, ?ls)" by simp
  have "tok_ok t1"
    using assms(1) vs(1) read_value_split [of 0 start_state "lex src" vs "[]"] read_value_sep [of 0 start_state "lex src" vs "[]"]
      lex_tokens_ok [of w1 t1 src] by (auto simp: object_lexemes_def)
  then have ok: "tok_ok ?t1" "?t1 \<noteq> TEndObj" using readable_token_ok(1) vs(2) by (simp_all add: readable_token_cases)
  then obtain c u where c: "tok_text ?t1 = c # u" "\<not> json_space c" by (cases "tok_text ?t1") (auto simp: tok_ok_def)
  have "c \<noteq> CHR ''}''" using tok_end_obj [OF ok(1)] ok(2) c(1) by simp
  then have "\<not> empty_object (raw_text (with_spaces w (printed vs)))"
    using c by (simp add: empty_object_def printed_def vs(1) gap_def lexeme_text_def)
  moreover have "peek_kind False ?ls = Some (CHR ''{'')" unfolding peek_kind_def sk unfolding ls by simp
  ultimately have "append_object 0 False ?ls acc = Some (acc @ [readable_text (map snd vs)], lex r)"
    using p(3) [of "lex r"] by (simp add: append_object_def next_value_def sk p(4) Let_def)
  with \<open>peek_kind False ?ls = _\<close> show ?thesis
    unfolding p(2) by (subst decode_stream.simps) simp
qed


section \<open>One line for each object\<close>

lemma code_unit_chars:
  assumes "code_unit s = Some v"
  shows "newline \<notin> set (take 5 s)"
proof -
  obtain a b c d r where s: "s = CHR ''u'' # a # b # c # d # r" "json_hex a \<noteq> None" "json_hex b \<noteq> None"
    "json_hex c \<noteq> None" "json_hex d \<noteq> None"
    using assms by (auto simp: code_unit_def split: list.splits option.splits if_splits)
  moreover have "json_hex newline = None" by (simp add: json_hex_def newline_def char_code_def)
  moreover have "newline \<noteq> CHR ''u''" by (simp add: newline_def)
  ultimately show ?thesis by auto
qed

lemma utf8_chars:
  assumes "utf8_len u = Some (length u)" and "128 \<le> char_code (hd u)"
  shows "newline \<notin> set u"
proof -
  have nl: "char_code newline = 10" by (simp add: newline_def char_code_def)
  then have "\<not> cont_byte newline" "\<not> second_byte b newline" for b
    by (auto simp: cont_byte_def second_byte_def)
  with assms nl show ?thesis
    by (cases u) (auto simp: utf8_len_def Let_def split: if_splits list.splits)
qed

lemma one_unit_line:
  assumes "one_unit q"
  shows "newline \<notin> set q"
proof -
  have "str_unit (q @ []) = Some (length q)" "q \<noteq> []" using assms unfolding one_unit_def by blast+
  then obtain c q' where q: "q = c # q'" "str_unit q = Some (length q)" by (cases q) auto
  have c: "newline \<noteq> backslash" "\<not> char_code newline \<ge> 32" by (simp_all add: newline_def backslash_def char_code_def)
  show ?thesis
  proof (cases "c = backslash")
    case False
    with q have u: "utf8_len q = Some (length q)" "32 \<le> char_code c" by (auto simp: str_unit_def split: if_splits)
    show ?thesis
    proof (cases "char_code c < 128")
      case True
      with u(1) q have "q = [c]" by (simp add: utf8_len_def)
      with u(2) c(2) show ?thesis by auto
    qed (use u utf8_chars [of q] q in simp)
  next
    case True
    with q have e: "escape_len q = Some (length q)" by (simp add: str_unit_def)
    then obtain x r where r: "q' = x # r" using q(1) by (cases q') (auto simp: escape_len_def)
    show ?thesis
    proof (cases "map_of simple_escapes x")
      case (Some y)
      then have "x \<noteq> newline" by (auto simp: simple_escapes_def newline_def dquote_def backslash_def)
      moreover have "r = []" using e q(1) r Some by (simp add: escape_len_def)
      ultimately show ?thesis using q(1) r c(1) True by simp
    next
      case None
      with e q(1) r obtain v where v: "code_unit (x # r) = Some v" by (auto simp: escape_len_def split: option.splits)
      have first: "newline \<notin> set (x # take 4 r)" using code_unit_chars [OF v] by simp
      have "newline \<notin> set (drop 4 r)"
      proof (cases "drop 4 r")
        case (Cons b t)
        then have "length (drop 4 r) = Suc (length t)" by simp
        then have "length r = 5 + length t" unfolding length_drop by linarith
        with e q(1) r None v Cons have "b = backslash" "code_unit t \<noteq> None" "length t = 5"
          by (auto simp: escape_len_def split: if_splits option.splits)
        with code_unit_chars [of t] Cons c(1) show ?thesis by auto
      qed simp
      with first have "newline \<notin> set q'" using r set_append [of "take 4 r" "drop 4 r"] by simp
      with q(1) c(1) True show ?thesis by simp
    qed
  qed
qed


lemma readable_token_line:
  assumes "tok_ok t"
  shows "newline \<notin> set (spaced (readable_token t))"
proof -
  have "newline \<notin> set (tok_text (readable_token t))"
  proof (cases t)
    case (TStr us)
    have "lex_token (tok_text t @ []) = Some (t, [])" by (rule tok_ok_lex [OF assms]) (simp add: number_ends_def)
    with TStr have "scan_units (concat us @ [dquote]) = Some (us, [])"
      by (auto simp: lex_token_def punctuation_def dquote_def is_digit_def)
    then have "newline \<notin> set (quote_value (unit_value u))" if "u \<in> set us" for u
      using scan_units_units that requote_unit one_unit_line by blast
    then show ?thesis by (auto simp: TStr requote_def newline_def dquote_def)
  qed (use token_shape [OF assms] in \<open>auto simp: plain_ascii_def plain_char_def\<close>)
  then show ?thesis by (simp add: spaced_gap gap_def newline_def)
qed


section \<open>Properties\<close>

text \<open>Two JSON texts have the same value: their tokens are the same, strings compared unescaped.\<close>

fun token_value :: "jtoken \<Rightarrow> jtoken" where
  "token_value (TStr us) = TStr [str_value us]"
| "token_value t = t"

definition same_json :: "bytes \<Rightarrow> bytes \<Rightarrow> bool" where
  "same_json a b \<longleftrightarrow> map (token_value \<circ> snd) (lex a) = map (token_value \<circ> snd) (lex b)"

lemma token_value_readable: "tok_ok t \<Longrightarrow> token_value (readable_token t) = token_value t"
  using readable_token_ok(2) [of t] by (cases t) auto

lemma readable_line:
  assumes "object_lexemes 0 src vs"
  shows "readable_value src = Some (readable_text (map snd vs))" and "same_json src (readable_text (map snd vs))"
    and "newline \<notin> set (readable_text (map snd vs))"
proof -
  note p = printed_object [OF assms, of "[]" "[]"]
  show "readable_value src = Some (readable_text (map snd vs))" using p(1) by (simp add: number_ends_def)
  have v: "read_value 0 start_state (lex src) = Some (vs, [])" using assms by (simp add: object_lexemes_def)
  then have src: "lex src = vs" using read_value_split by fastforce
  have ok: "tok_ok (snd l)" if "l \<in> set vs" for l
    using that read_value_sep [OF v] src lex_tokens_ok [of "fst l" "snd l" src] by force
  have "lex (readable_text (map snd vs)) = with_spaces [] (printed vs)" using p(2) by (simp add: number_ends_def)
  then have "map (token_value \<circ> snd) (lex (readable_text (map snd vs))) = map token_value (printed vs)"
    by (metis map_map with_spaces_tokens)
  then show "same_json src (readable_text (map snd vs))"
    using ok token_value_readable by (simp add: same_json_def src printed_def)
  show "newline \<notin> set (readable_text (map snd vs))"
    using ok readable_token_line by (auto simp: readable_text_def)
qed

lemma decode_lines:
  "\<forall>o1 \<in> set objs. json_object 0 o1 \<Longrightarrow> \<forall>c \<in> set w. json_space c \<Longrightarrow>
     \<exists>outs. decode_stream (lex (w @ json_lines objs)) acc = Inr (acc @ outs) \<and> list_all2 same_json objs outs
       \<and> json_lines objs = concat (map (\<lambda>b. b @ [newline]) outs) \<and> (\<forall>b \<in> set outs. newline \<notin> set b)"
proof (induction objs arbitrary: w acc)
  case Nil
  then have "lex w = []" using lex_space [of w "[]"] by simp
  then show ?case by (simp add: json_lines_def decode_stream.simps peek_kind_def)
next
  case (Cons a objs)
  then obtain vs where vs: "object_lexemes 0 a vs" by (auto simp: json_object_lexemes)
  note line = readable_line [OF vs]
  let ?b = "readable_text (map snd vs)" and ?r = "[newline] @ json_lines objs"
  have j: "json_lines (a # objs) = ?b @ ?r" using line(1) by (simp add: json_lines_def)
  have ends: "number_ends ?r" by (simp add: number_ends_def number_char_def newline_def is_digit_def char_code_def)
  have "\<forall>o1 \<in> set objs. json_object 0 o1" "\<forall>c \<in> set [newline]. json_space c"
    using Cons.prems by (simp_all add: newline_def json_space_def)
  from Cons.IH [OF this, of "acc @ [?b]"] obtain outs where outs:
    "decode_stream (lex ?r) (acc @ [?b]) = Inr ((acc @ [?b]) @ outs)" "list_all2 same_json objs outs"
    "json_lines objs = concat (map (\<lambda>b. b @ [newline]) outs)" "\<forall>b \<in> set outs. newline \<notin> set b" by auto
  have "decode_stream (lex (w @ json_lines (a # objs))) acc = Inr (acc @ ?b # outs)"
    using decode_printed [OF vs Cons.prems(2) ends, of acc] outs(1) by (simp add: j)
  with outs line show ?case by (intro exI [of _ "?b # outs"]) (simp add: j)
qed

text \<open>C40: What stdout prints for JSON objects is valid NDJSON with the same values. For any valid
  objects, printJSON writes one line for each of them, without a line break of its own; and
  decoding these lines again - with the decoder that receivers and collectors use - gives
  objects whose tokens are those of the originals, in their order: the same members, numbers
  and literals, and strings that denote the same characters, although they may be escaped
  differently.\<close>

theorem json_lines_decode:
  assumes "\<forall>o1 \<in> set objs. json_object 0 o1"
  shows "\<exists>outs. decode_json (json_lines objs) = Inr outs \<and> list_all2 same_json objs outs
    \<and> json_lines objs = concat (map (\<lambda>b. b @ [newline]) outs) \<and> (\<forall>b \<in> set outs. newline \<notin> set b)"
  using decode_lines [OF assms, of "[]" "[]"] by (simp add: decode_json_def)

definition demo_printed :: bytes where
  "demo_printed = quoted ''{~a~:[1,~'' @ [backslash] @ quoted ''/~]}''"

theorem json_lines_decode_witness:
  "\<exists>out. decode_json (json_lines [demo_printed]) = Inr [out] \<and> same_json demo_printed out"
proof -
  have "list_all (json_object 0) [demo_printed]" by code_simp
  then have "\<forall>o1 \<in> set [demo_printed]. json_object 0 o1" by (simp add: list_all_iff)
  from json_lines_decode [OF this] show ?thesis by (auto simp: list_all2_Cons1)
qed

end
