(* ===== verification/Stdout.thy ===== *)
theory Stdout
  imports Readable HttpSender
begin

text \<open>
  The senders that keep nothing: printing to the standard output (pkg/dest/stdout.go) and
  discarding (pkg/dest/discard.go). Printing is a state machine, because any number of
  goroutines may call Send and one of them Close, and a mutex decides who prints when. What
  a request or a response looks like on the wire is an argument: net/http writes it.
\<close>

section \<open>Writing\<close>

text \<open>
  An io.Writer with what was written so far, and what its next calls come to: a call without
  a fault writes everything, the others write only that many bytes and report an error.
\<close>

record writer =
  written :: bytes
  write_faults :: "nat option list"

definition write_bytes :: "bytes \<Rightarrow> writer \<Rightarrow> writer \<times> bool" where
  "write_bytes b w =
     (case write_faults w of
        [] \<Rightarrow> (w\<lparr>written := written w @ b\<rparr>, True)
      | None # fs \<Rightarrow> (w\<lparr>written := written w @ b, write_faults := fs\<rparr>, True)
      | Some k # fs \<Rightarrow> (w\<lparr>written := written w @ take k b, write_faults := fs\<rparr>, False))"

text \<open>Several calls, of which the first fault is the last.\<close>

fun write_pieces :: "bytes list \<Rightarrow> writer \<Rightarrow> writer \<times> bool" where
  "write_pieces [] w = (w, True)"
| "write_pieces (b # bs) w =
     (case write_bytes b w of (w1, True) \<Rightarrow> write_pieces bs w1 | (w1, False) \<Rightarrow> (w1, False))"

section \<open>Chunks\<close>

text \<open>
  What an environment knows: how values are printed, and the calls of Write that Request.Write
  and Response.Write make, with their own success (their bodies may fail).
\<close>

record ('f, 'v) stdout_env = "('f, 'v) printer" +
  wire_request :: "http_request \<Rightarrow> bytes list \<times> bool"
  wire_response :: "http_response \<Rightarrow> bytes list \<times> bool"

fun print_each :: "('x \<Rightarrow> writer \<Rightarrow> writer \<times> bool) \<Rightarrow> 'x list \<Rightarrow> writer \<Rightarrow> writer \<times> bool" where
  "print_each p [] w = (w, True)"
| "print_each p (x # xs) w =
     (let (w1, ok1) = p x w; (w2, ok2) = print_each p xs w1 in (w2, ok1 \<and> ok2))"

definition print_blob :: "bytes \<Rightarrow> writer \<Rightarrow> writer \<times> bool" where
  "print_blob b w = (if b = [] then (w, True) else write_pieces [b, [newline]] w)"

definition print_object :: "('q \<Rightarrow> bytes list \<times> bool) \<Rightarrow> 'q option \<Rightarrow> writer \<Rightarrow> writer \<times> bool" where
  "print_object wire q w =
     (case q of
        None \<Rightarrow> (w, True)
      | Some r \<Rightarrow> (let (pieces, ok) = wire r; (w1, ok1) = write_pieces pieces w in (w1, ok \<and> ok1)))"

text \<open>printJSON and printRows write their buffer in one call, unless it is empty.\<close>

definition print_buffer :: "bytes \<Rightarrow> writer \<Rightarrow> writer \<times> bool" where
  "print_buffer b w = (if b = [] then (w, True) else write_bytes b w)"

definition print_chunk ::
  "('f, 'v) stdout_env \<Rightarrow> ('f, 'v) cell data \<Rightarrow> writer \<Rightarrow> writer \<times> bool" where
  "print_chunk env d w =
     (case d of
        Blobs bs \<Rightarrow> print_each print_blob bs w
      | HTTPRequests qs \<Rightarrow> print_each (print_object (wire_request env)) qs w
      | HTTPResponses ps \<Rightarrow> print_each (print_object (wire_response env)) ps w
      | JSON objs \<Rightarrow> print_buffer (json_lines objs) w
      | Rows rows \<Rightarrow> print_buffer (row_lines (printer.truncate env) rows) w
      | FakeData \<Rightarrow> (w, False))"

text \<open>The bodies that are closed: those of the requests and responses of a chunk, if they have any.\<close>

fun bodies :: "'c data \<Rightarrow> resp_body_kind list" where
  "bodies (HTTPRequests qs) = filter (\<lambda>b. b \<noteq> NilBody) (List.map_filter (map_option rq_body) qs)"
| "bodies (HTTPResponses ps) = filter (\<lambda>b. b \<noteq> NilBody) (List.map_filter (map_option rs_body) ps)"
| "bodies _ = []"

text \<open>Send of Discard: the bodies that it closes.\<close>

definition discard_send :: "'c data option \<Rightarrow> resp_body_kind list" where
  "discard_send data = (case data of None \<Rightarrow> [] | Some d \<Rightarrow> if is_empty_chunk data then [] else bodies d)"

section \<open>The printing sender\<close>

text \<open>
  Calls of Send that have passed the first test wait for the mutex; one at a time holds it and
  prints. \<open>printed_chunks\<close>, \<open>dropped_chunks\<close> and \<open>released\<close> record what happened: what was
  printed, with its success, what was discarded, and which bodies were closed.
\<close>

record 'c stdout_run =
  sink :: writer
  lame_duck :: bool
  close_over :: bool
  at_mutex :: "'c data list"
  printing :: "'c data option"
  printed_chunks :: "('c data \<times> bool) list"
  dropped_chunks :: "'c data list"
  released :: "resp_body_kind list"

datatype 'c stdout_event =
  OutSend "'c data option"
| OutLock nat
| OutPrint
| OutBeginClose
| OutFinishClose bool

definition drop_chunk :: "'c data \<Rightarrow> 'c stdout_run \<Rightarrow> 'c stdout_run" where
  "drop_chunk d s = s\<lparr>dropped_chunks := dropped_chunks s @ [d], released := released s @ discard_send (Some d)\<rparr>"

definition stdout_send :: "'c data option \<Rightarrow> 'c stdout_run \<Rightarrow> 'c stdout_run" where
  "stdout_send data s =
     (case data of
        None \<Rightarrow> s
      | Some d \<Rightarrow>
          (if is_empty_chunk data then s
           else if lame_duck s then drop_chunk d s
           else s\<lparr>at_mutex := at_mutex s @ [d]\<rparr>))"

text \<open>The second test happens under the mutex.\<close>

definition stdout_lock :: "nat \<Rightarrow> 'c stdout_run \<Rightarrow> 'c stdout_run" where
  "stdout_lock i s =
     (if i \<ge> length (at_mutex s) \<or> printing s \<noteq> None then s
      else (let d = at_mutex s ! i; s1 = s\<lparr>at_mutex := drop_nth i (at_mutex s)\<rparr>
            in if lame_duck s then drop_chunk d s1 else s1\<lparr>printing := Some d\<rparr>))"

definition stdout_print :: "('f, 'v) stdout_env \<Rightarrow> ('f, 'v) cell stdout_run \<Rightarrow> ('f, 'v) cell stdout_run" where
  "stdout_print env s =
     (case printing s of
        None \<Rightarrow> s
      | Some d \<Rightarrow>
          (let (w, ok) = print_chunk env d (sink s)
           in s\<lparr>sink := w, printing := None, printed_chunks := printed_chunks s @ [(d, ok)],
                released := released s @ bodies d\<rparr>))"

text \<open>Close stores the flag first; then it waits until it gets the mutex, or for a second.\<close>

definition stdout_finish_close :: "bool \<Rightarrow> 'c stdout_run \<Rightarrow> 'c stdout_run" where
  "stdout_finish_close timed_out s =
     (if \<not> lame_duck s \<or> (\<not> timed_out \<and> printing s \<noteq> None) then s else s\<lparr>close_over := True\<rparr>)"

fun stdout_step ::
  "('f, 'v) stdout_env \<Rightarrow> ('f, 'v) cell stdout_event \<Rightarrow> ('f, 'v) cell stdout_run \<Rightarrow> ('f, 'v) cell stdout_run option" where
  "stdout_step env (OutSend data) s = Some (stdout_send data s)"
| "stdout_step env (OutLock i) s = Some (stdout_lock i s)"
| "stdout_step env OutPrint s = Some (stdout_print env s)"
| "stdout_step env OutBeginClose s = Some (s\<lparr>lame_duck := True\<rparr>)"
| "stdout_step env (OutFinishClose b) s = Some (stdout_finish_close b s)"

definition start_stdout :: "writer \<Rightarrow> 'c stdout_run" where
  "start_stdout w =
     \<lparr>sink = w, lame_duck = False, close_over = False, at_mutex = [], printing = None,
      printed_chunks = [], dropped_chunks = [], released = []\<rparr>"


section \<open>What is printed\<close>

definition print_all :: "('f, 'v) stdout_env \<Rightarrow> ('f, 'v) cell data list \<Rightarrow> writer \<Rightarrow> writer" where
  "print_all env ds w = fold (\<lambda>d w. fst (print_chunk env d w)) ds w"

text \<open>The output of a chunk, if writing never fails.\<close>

definition object_output :: "('q \<Rightarrow> bytes list \<times> bool) \<Rightarrow> 'q option \<Rightarrow> bytes" where
  "object_output wire q = (case q of None \<Rightarrow> [] | Some r \<Rightarrow> concat (fst (wire r)))"

fun chunk_output :: "('f, 'v) stdout_env \<Rightarrow> ('f, 'v) cell data \<Rightarrow> bytes" where
  "chunk_output env (Blobs bs) = concat (map (\<lambda>b. if b = [] then [] else b @ [newline]) bs)"
| "chunk_output env (HTTPRequests qs) = concat (map (object_output (wire_request env)) qs)"
| "chunk_output env (HTTPResponses ps) = concat (map (object_output (wire_response env)) ps)"
| "chunk_output env (JSON objs) = json_lines objs"
| "chunk_output env (Rows rows) = row_lines (printer.truncate env) rows"
| "chunk_output env FakeData = []"

definition appends :: "(writer \<Rightarrow> writer \<times> bool) \<Rightarrow> bytes \<Rightarrow> bool" where
  "appends p b \<longleftrightarrow> (\<forall>w. write_faults w = [] \<longrightarrow> fst (p w) = w\<lparr>written := written w @ b\<rparr>)"

lemma appends_bytes: "write_faults w = [] \<Longrightarrow> write_bytes b w = (w\<lparr>written := written w @ b\<rparr>, True)"
  by (simp add: write_bytes_def)

lemma appends_pieces: "write_faults w = [] \<Longrightarrow> write_pieces bs w = (w\<lparr>written := written w @ concat bs\<rparr>, True)"
  by (induction bs arbitrary: w) (simp_all add: appends_bytes)

lemma appends_each: "(\<And>x. appends (p x) (out x)) \<Longrightarrow> appends (print_each p xs) (concat (map out xs))"
proof (induction xs)
  case (Cons x xs)
  show ?case unfolding appends_def
  proof (intro allI impI)
    fix w :: writer assume w: "write_faults w = []"
    obtain ok where ok: "p x w = (w\<lparr>written := written w @ out x\<rparr>, ok)"
      using Cons.prems [of x] w by (metis appends_def prod.collapse)
    have "fst (print_each p xs (w\<lparr>written := written w @ out x\<rparr>))
        = w\<lparr>written := (written w @ out x) @ concat (map out xs)\<rparr>"
      using Cons w by (simp add: appends_def)
    with ok show "fst (print_each p (x # xs) w) = w\<lparr>written := written w @ concat (map out (x # xs))\<rparr>"
      by (simp add: Let_def case_prod_beta)
  qed
qed (simp add: appends_def)

lemma appends_chunk: "appends (\<lambda>w. print_chunk env d w) (chunk_output env d)"
proof (cases d)
  case (Blobs bs)
  have "appends (print_blob b) (if b = [] then [] else b @ [newline])" for b
    by (simp add: appends_def print_blob_def appends_bytes)
  from appends_each [OF this] show ?thesis by (simp add: Blobs print_chunk_def)
next
  case (HTTPRequests qs)
  have "appends (print_object (wire_request env) q) (object_output (wire_request env) q)" for q
    by (cases q) (simp_all add: appends_def print_object_def object_output_def appends_pieces Let_def case_prod_beta)
  from appends_each [OF this] show ?thesis by (simp add: HTTPRequests print_chunk_def)
next
  case (HTTPResponses ps)
  have "appends (print_object (wire_response env) q) (object_output (wire_response env) q)" for q
    by (cases q) (simp_all add: appends_def print_object_def object_output_def appends_pieces Let_def case_prod_beta)
  from appends_each [OF this] show ?thesis by (simp add: HTTPResponses print_chunk_def)
qed (simp_all add: appends_def print_chunk_def print_buffer_def appends_bytes)

lemma print_all_output:
  "write_faults w = [] \<Longrightarrow> print_all env ds w = w\<lparr>written := written w @ concat (map (chunk_output env) ds)\<rparr>"
proof (induction ds arbitrary: w)
  case (Cons d ds)
  have "fst (print_chunk env d w) = w\<lparr>written := written w @ chunk_output env d\<rparr>"
    using appends_chunk [of env d] Cons.prems by (simp add: appends_def)
  with Cons show ?case by (simp add: print_all_def)
qed (simp add: print_all_def)

section \<open>Runs\<close>

definition stdout_good :: "('f, 'v) stdout_env \<Rightarrow> writer \<Rightarrow> ('f, 'v) cell stdout_run \<Rightarrow> bool" where
  "stdout_good env w s \<longleftrightarrow>
     sink s = print_all env (map fst (printed_chunks s)) w
     \<and> mset (released s) = (\<Sum>(d, ok)\<leftarrow>printed_chunks s. mset (bodies d)) + (\<Sum>d\<leftarrow>dropped_chunks s. mset (bodies d))
     \<and> (dropped_chunks s = [] \<or> lame_duck s)"

definition stdout_held :: "'c stdout_run \<Rightarrow> 'c data multiset" where
  "stdout_held s = mset (at_mutex s) + (case printing s of None \<Rightarrow> {#} | Some d \<Rightarrow> {#d#})
     + mset (map fst (printed_chunks s)) + mset (dropped_chunks s)"

fun stdout_brings :: "'c stdout_event \<Rightarrow> 'c data multiset" where
  "stdout_brings (OutSend (Some d)) = (if chunk_len d = 0 then {#} else {#d#})"
| "stdout_brings _ = {#}"

lemma discard_bodies: "discard_send (Some d) = bodies d"
  by (cases d) (auto simp: discard_send_def is_empty_chunk_def map_filter_simps)

lemma stdout_step_ok:
  assumes "stdout_good env w s"
  shows "\<exists>s'. stdout_step env e s = Some s' \<and> stdout_good env w s' \<and> stdout_held s' = stdout_held s + stdout_brings e"
proof (cases e)
  case (OutSend data)
  with assms show ?thesis
    by (cases data) (auto simp: stdout_send_def drop_chunk_def stdout_good_def stdout_held_def is_empty_chunk_def discard_bodies)
next
  case (OutLock i)
  show ?thesis
  proof (cases "i \<ge> length (at_mutex s) \<or> printing s \<noteq> None")
    case False
    then have m: "mset (at_mutex s) = add_mset (at_mutex s ! i) (mset (drop_nth i (at_mutex s)))"
      and idle: "\<not> length (at_mutex s) \<le> i" "printing s = None" by (simp_all add: drop_nth_mset)
    show ?thesis
      using assms OutLock idle
      by (cases "lame_duck s")
        (simp_all add: stdout_lock_def drop_chunk_def stdout_good_def stdout_held_def m discard_bodies Let_def)
  qed (use assms OutLock in \<open>simp add: stdout_lock_def\<close>)
next
  case OutPrint
  show ?thesis
  proof (cases "printing s")
    case (Some d)
    obtain w' ok where p: "print_chunk env d (sink s) = (w', ok)" by fastforce
    with assms have "print_all env (map fst (printed_chunks s) @ [d]) w = w'"
      by (simp add: stdout_good_def print_all_def)
    with assms OutPrint Some p show ?thesis
      by (simp add: stdout_print_def stdout_good_def stdout_held_def)
  qed (use assms OutPrint in \<open>simp add: stdout_print_def\<close>)
qed (use assms in \<open>auto simp: stdout_good_def stdout_held_def stdout_finish_close_def\<close>)

interpretation printing_stdout: conserving "stdout_step env" "stdout_good env w" stdout_held stdout_brings "\<lambda>e. True"
  for env w
  using stdout_step_ok by unfold_locales blast

text \<open>After Close got the mutex, nothing is printed any more.\<close>

definition stdout_closed :: "writer \<Rightarrow> 'c stdout_run \<Rightarrow> bool" where
  "stdout_closed w s \<longleftrightarrow> lame_duck s \<and> printing s = None \<and> sink s = w"

interpretation closed_stdout: preserving "stdout_step env" "stdout_closed w" "\<lambda>e. True"
  for env :: "('f, 'v) stdout_env" and w
proof unfold_locales
  fix s s' :: "('f, 'v) cell stdout_run" and e
  assume "stdout_closed w s" and "stdout_step env e s = Some s'"
  then show "stdout_closed w s'"
    by (cases e) (auto simp: stdout_closed_def stdout_send_def drop_chunk_def stdout_lock_def stdout_print_def
        stdout_finish_close_def Let_def split: option.splits if_splits)
qed


definition demo_stdout_env :: "(nat, nat) stdout_env" where
  "demo_stdout_env = \<lparr>as_bytes = (\<lambda>v. None), uni_printable = (\<lambda>u. False), marshal_other = (\<lambda>c. Some ''0''),
     wire_request = (\<lambda>r. ([''GET''], True)), wire_response = (\<lambda>r. ([''HTTP''], True))\<rparr>"

definition demo_stdout_events :: "(nat, nat) cell stdout_event list" where
  "demo_stdout_events = [OutSend (Some (Blobs [''a'', [], ''b''])), OutSend (Some (Blobs [''c''])), OutLock 0,
     OutBeginClose, OutPrint, OutLock 0, OutFinishClose False, OutSend (Some (Blobs [''d'']))]"


end
