(* ===== verification/DlqRun.thy ===== *)
theory DlqRun
  imports DLQ Redact Stdout Calendar
begin

text \<open>
  The Dead-Letter Queue as a whole (pkg/dest/dlq.go): the encoding of every kind of data, with
  the redaction of HTTP objects, the names of its files, and the goroutines that Send starts,
  up to Close. The writing of one file is the subject of theory DLQ, and the measurements of
  the directory that of DLQSize; here they appear as the end of the first measurement.
\<close>

section \<open>Encoding\<close>

text \<open>HTTP objects with their trailers; net/http writes the rest of them.\<close>

record letter_request = http_request +
  rq_trailer :: header

record letter_response = http_response +
  rs_trailer :: header

type_synonym 'c letter = "('c, letter_request, letter_response) chunk"

text \<open>
  What encoding depends on: the values that only the standard library can marshal, for
  strict and for lossy output, and Request.Write and Response.Write, \<open>None\<close> being an error.
\<close>

record ('f, 'v) letter_env = "('f, 'v) printer" +
  marshal_strict :: "('f, 'v) cell \<Rightarrow> bytes option"
  write_request :: "letter_request \<Rightarrow> bytes option"
  write_response :: "letter_response \<Rightarrow> bytes option"

definition redact_request :: "letter_request \<Rightarrow> letter_request" where
  "redact_request r =
     r\<lparr>rq_header := redact_headers (rq_header r), rq_trailer := redact_headers (rq_trailer r),
       rq_query := map_option redact_query (rq_query r)\<rparr>"

definition redact_response :: "letter_response \<Rightarrow> letter_response" where
  "redact_response r =
     r\<lparr>rs_header := redact_headers (rs_header r), rs_trailer := redact_headers (rs_trailer r)\<rparr>"

definition encode_http_request :: "('f, 'v) letter_env \<Rightarrow> letter_request option \<Rightarrow> bytes option" where
  "encode_http_request env req = (case req of None \<Rightarrow> None | Some r \<Rightarrow> write_request env (redact_request r))"

definition encode_http_response :: "('f, 'v) letter_env \<Rightarrow> letter_response option \<Rightarrow> bytes option" where
  "encode_http_response env resp = (case resp of None \<Rightarrow> None | Some r \<Rightarrow> write_response env (redact_response r))"

text \<open>The strict encoders of package codec; a nil payload is an empty file.\<close>

definition strict_json :: "json_format \<Rightarrow> bytes list \<Rightarrow> bytes option" where
  "strict_json f objs =
     (case encode_json f objs of Inl e \<Rightarrow> None | Inr p \<Rightarrow> Some (case p of Some b \<Rightarrow> b | None \<Rightarrow> []))"

definition strict_rows ::
  "(('f, 'v) cell \<Rightarrow> bytes option) \<Rightarrow> json_format \<Rightarrow> ('f, 'v) cell row list \<Rightarrow> bytes option" where
  "strict_rows marshal f rows =
     (case encode_rows marshal f rows of Inl e \<Rightarrow> None | Inr p \<Rightarrow> Some (case p of Some b \<Rightarrow> b | None \<Rightarrow> []))"

definition encode_letter ::
  "('f, 'v) letter_env \<Rightarrow> ('f, 'v) cell letter \<Rightarrow> format \<Rightarrow> (bytes list \<times> string) option" where
  "encode_letter env data fmt =
     (case data of
        Blobs bs \<Rightarrow> Some (bs, file_extension fmt)
      | HTTPRequests qs \<Rightarrow> Some (List.map_filter (encode_http_request env) qs, ''.http_req'')
      | HTTPResponses ps \<Rightarrow> Some (List.map_filter (encode_http_response env) ps, ''.http_resp'')
      | JSON objs \<Rightarrow> encode_structured objs fmt strict_json json_lines
      | Rows rows \<Rightarrow>
          encode_structured rows fmt (strict_rows (marshal_strict env)) (row_lines (printer.truncate env))
      | FakeData \<Rightarrow> Some ([], []))"

section \<open>Names\<close>

text \<open>Numbers as %d and strconv.FormatInt with base 36 write them.\<close>

definition base36_char :: "nat \<Rightarrow> char" where
  "base36_char d = (if d < 10 then char_of (48 + d) else char_of (87 + d))"

fun base36 :: "nat \<Rightarrow> string" where
  "base36 n = (if n < 36 then [base36_char n] else base36 (n div 36) @ [base36_char (n mod 36)])"

declare base36.simps [simp del]

definition signed :: "(nat \<Rightarrow> string) \<Rightarrow> int \<Rightarrow> string" where
  "signed f i = (if i < 0 then CHR ''-'' # f (nat (- i)) else f (nat i))"

text \<open>now.Format pads its numbers; years have four digits or more.\<close>

definition padded :: "nat \<Rightarrow> int \<Rightarrow> string" where
  "padded width n = (let s = itoa (nat n) in replicate (width - length s) (CHR ''0'') @ s)"

definition dir_name :: "instant \<Rightarrow> string" where
  "dir_name t =
     (let d = local_day utc t
      in padded 4 (year_of_day d) @ ''-'' @ padded 2 (month_of_day d) @ ''-'' @ padded 2 (day_of_month d)
         @ ''__'' @ padded 2 (hour_of utc t))"

definition unix_nano :: "instant \<Rightarrow> int" where
  "unix_nano t = t - unix_epoch * second"

text \<open>Up to three random numbers; if all fail, the clock (which may have advanced) has to do.\<close>

fun path_number :: "int option list \<Rightarrow> int \<Rightarrow> int" where
  "path_number [] clock_now = clock_now"
| "path_number (Some n # rs) clock_now = n"
| "path_number (None # rs) clock_now = path_number rs clock_now"

definition unique_path :: "instant \<Rightarrow> instant \<Rightarrow> int option list \<Rightarrow> string \<times> string" where
  "unique_path now clock_now rands =
     (dir_name now,
      signed itoa (unix_nano now) @ ''__''
        @ signed base36 (path_number (take dlq_attempts rands) (unix_nano clock_now)))"

section \<open>The queue at work\<close>

text \<open>
  A goroutine of Send looks at the channel of the first measurement once without waiting, and
  if it is not closed, waits for it or for Close; then it writes its files, or gives up.
\<close>

datatype letter_phase = Fresh | Looked dlq | Ready

text \<open>\<open>saved\<close> and \<open>forgone\<close> record what was written - with what its attempts met - and what was not.\<close>

record 'c dlq_run =
  dlq_life :: lifecycle
  store :: "dlq \<times> disk"
  letter_jobs :: "('c letter \<times> format \<times> letter_phase) list"
  saved :: "('c letter \<times> format \<times> (nat \<Rightarrow> write_env list)) list"
  forgone :: "('c letter \<times> format) list"

datatype 'c dlq_event =
  DlqSend "'c letter option" format
| DlqMeasured
| DlqLook nat
| DlqWait bool nat
| DlqWrite "nat \<Rightarrow> write_env list" nat
| DlqBeginClose
| DlqFinishClose bool

definition letter_arrives :: "'c letter option \<Rightarrow> format \<Rightarrow> 'c dlq_run \<Rightarrow> 'c dlq_run" where
  "letter_arrives data fmt s =
     (case data of
        None \<Rightarrow> s
      | Some d \<Rightarrow>
          (if is_empty_chunk data then s
           else if is_closing (dlq_life s) then s\<lparr>forgone := forgone s @ [(d, fmt)]\<rparr>
           else s\<lparr>dlq_life := (dlq_life s)\<lparr>in_progress := in_progress (dlq_life s) + 1\<rparr>,
                  letter_jobs := letter_jobs s @ [(d, fmt, Fresh)]\<rparr>))"

text \<open>The end of the first measurement.\<close>

definition first_measured :: "'c dlq_run \<Rightarrow> 'c dlq_run" where
  "first_measured s =
     (let (d, dk) = store s
      in if measured d = OpenChan then s\<lparr>store := (d\<lparr>measured := ClosedChan\<rparr>, dk)\<rparr> else s)"

definition letter_done :: "nat \<Rightarrow> 'c dlq_run \<Rightarrow> 'c dlq_run" where
  "letter_done i s =
     s\<lparr>letter_jobs := drop_nth i (letter_jobs s),
       dlq_life := (dlq_life s)\<lparr>in_progress := in_progress (dlq_life s) - 1\<rparr>\<rparr>"

definition letter_looks :: "nat \<Rightarrow> 'c dlq_run \<Rightarrow> 'c dlq_run" where
  "letter_looks i s =
     (if i \<ge> length (letter_jobs s) then s
      else (case letter_jobs s ! i of
              (d, fmt, Fresh) \<Rightarrow> s\<lparr>letter_jobs := (letter_jobs s)[i := (d, fmt, Looked (fst (store s)))]\<rparr>
            | _ \<Rightarrow> s))"

definition letter_waits :: "bool \<Rightarrow> nat \<Rightarrow> 'c dlq_run \<Rightarrow> 'c dlq_run" where
  "letter_waits pick i s =
     (if i \<ge> length (letter_jobs s) then s
      else (case letter_jobs s ! i of
              (d, fmt, Looked d1) \<Rightarrow>
                (case wait_for_size d1 (fst (store s)) (is_closing (dlq_life s)) pick of
                   None \<Rightarrow> s
                 | Some True \<Rightarrow> s\<lparr>letter_jobs := (letter_jobs s)[i := (d, fmt, Ready)]\<rparr>
                 | Some False \<Rightarrow> (letter_done i s)\<lparr>forgone := forgone s @ [(d, fmt)]\<rparr>)
            | _ \<Rightarrow> s))"

text \<open>The files of a letter, each with up to three attempts.\<close>

definition write_letter ::
  "('f, 'v) letter_env \<Rightarrow> ('f, 'v) cell letter \<times> format \<times> (nat \<Rightarrow> write_env list) \<Rightarrow> dlq \<times> disk \<Rightarrow> dlq \<times> disk" where
  "write_letter env = (\<lambda>(d, fmt, envs) st.
     case encode_letter env d fmt of None \<Rightarrow> st | Some (fs, ext) \<Rightarrow> write_files envs 0 fs ext st)"

definition letter_written ::
  "('f, 'v) letter_env \<Rightarrow> (nat \<Rightarrow> write_env list) \<Rightarrow> nat \<Rightarrow> ('f, 'v) cell dlq_run \<Rightarrow> ('f, 'v) cell dlq_run" where
  "letter_written env envs i s =
     (if i \<ge> length (letter_jobs s) then s
      else (case letter_jobs s ! i of
              (d, fmt, Ready) \<Rightarrow>
                (letter_done i s)\<lparr>store := write_letter env (d, fmt, envs) (store s), saved := saved s @ [(d, fmt, envs)]\<rparr>
            | _ \<Rightarrow> s))"

definition dlq_begin_close :: "'c dlq_run \<Rightarrow> 'c dlq_run option" where
  "dlq_begin_close s =
     (if once_done (dlq_life s) then Some s
      else (case begin_close ((dlq_life s)\<lparr>once_done := True\<rparr>) of
              Inl p \<Rightarrow> None | Inr l \<Rightarrow> Some (s\<lparr>dlq_life := l\<rparr>)))"

definition dlq_finish_close :: "bool \<Rightarrow> 'c dlq_run \<Rightarrow> 'c dlq_run option" where
  "dlq_finish_close timed_out s =
     (if \<not> is_closing (dlq_life s) \<or> closed (dlq_life s) = ClosedChan
         \<or> (\<not> timed_out \<and> in_progress (dlq_life s) \<noteq> 0) then Some s
      else (case finish_close (dlq_life s) of Inl p \<Rightarrow> None | Inr l \<Rightarrow> Some (s\<lparr>dlq_life := l\<rparr>)))"

fun dlq_step ::
  "('f, 'v) letter_env \<Rightarrow> ('f, 'v) cell dlq_event \<Rightarrow> ('f, 'v) cell dlq_run \<Rightarrow> ('f, 'v) cell dlq_run option" where
  "dlq_step env (DlqSend data fmt) s = Some (letter_arrives data fmt s)"
| "dlq_step env DlqMeasured s = Some (first_measured s)"
| "dlq_step env (DlqLook i) s = Some (letter_looks i s)"
| "dlq_step env (DlqWait pick i) s = Some (letter_waits pick i s)"
| "dlq_step env (DlqWrite envs i) s = Some (letter_written env envs i s)"
| "dlq_step env DlqBeginClose s = dlq_begin_close s"
| "dlq_step env (DlqFinishClose b) s = dlq_finish_close b s"

definition start_dlq :: "dlq \<Rightarrow> disk \<Rightarrow> 'c dlq_run" where
  "start_dlq d dk =
     \<lparr>dlq_life = lc_start lifecycle_zero, store = (d, dk), letter_jobs = [], saved = [], forgone = []\<rparr>"


section \<open>Writing does not depend on the measurement\<close>

fun with_measured :: "go_chan \<Rightarrow> dlq \<times> disk \<Rightarrow> dlq \<times> disk" where
  "with_measured m (d, dk) = (d\<lparr>measured := m\<rparr>, dk)"

lemma reserve_measured:
  "reserve p n (d\<lparr>measured := m\<rparr>) = (case reserve p n d of (d', ok, logs) \<Rightarrow> (d'\<lparr>measured := m\<rparr>, ok, logs))"
  by (simp add: reserve_def accounting_def warn_if_needed_def Let_def)

lemma release_measured: "release p w (d\<lparr>measured := m\<rparr>) = (release p w d)\<lparr>measured := m\<rparr>"
  by (simp add: release_def split: option.splits)

lemma async_write_measured:
  "async_write_file e data ext (with_measured m s)
     = (case async_write_file e data ext s of (s', r) \<Rightarrow> (with_measured m s', r))"
proof -
  obtain d dk where s: "s = (d, dk)" by fastforce
  obtain d1 ok logs where r: "reserve (final_path e ext) (int (length data)) d = (d1, ok, logs)"
    by (cases "reserve (final_path e ext) (int (length data)) d") auto
  show ?thesis
    by (cases "write_error e") (simp_all add: s async_write_file_def reserve_measured r release_measured Let_def)
qed

lemma write_attempts_measured:
  "write_attempts es data ext (with_measured m s)
     = (case write_attempts es data ext s of (s', r) \<Rightarrow> (with_measured m s', r))"
proof (induction es arbitrary: s)
  case (Cons e es)
  obtain s1 r where "async_write_file e data ext s = (s1, r)" by fastforce
  with Cons show ?case by (cases r) (simp_all add: async_write_measured)
qed simp

lemma write_files_measured:
  "write_files envs i fs ext (with_measured m s) = with_measured m (write_files envs i fs ext s)"
  by (induction fs arbitrary: i s) (simp_all add: write_attempts_measured case_prod_beta)

lemma write_letter_measured: "write_letter env x (with_measured m s) = with_measured m (write_letter env x s)"
  by (simp add: write_letter_def write_files_measured split: prod.splits option.splits)

lemma with_measured_twice [simp]: "with_measured m (with_measured m' s) = with_measured m s"
  by (cases s) simp

section \<open>Runs\<close>

definition dlq_life_ok :: "lifecycle \<Rightarrow> bool" where
  "dlq_life_ok l \<longleftrightarrow>
     (if is_closing l then once_done l \<and> closed l \<noteq> NilChan
      else closing l = OpenChan \<and> closed l = OpenChan \<and> \<not> once_done l)"

definition dlq_good ::
  "('f, 'v) letter_env \<Rightarrow> dlq \<times> disk \<Rightarrow> ('f, 'v) cell dlq_run \<Rightarrow> bool" where
  "dlq_good env st s \<longleftrightarrow>
     in_progress (dlq_life s) = length (letter_jobs s) \<and> dlq_life_ok (dlq_life s)
     \<and> with_measured NilChan (store s) = fold (write_letter env) (saved s) (with_measured NilChan st)
     \<and> (is_closing (dlq_life s) \<or> forgone s = [])"

definition dlq_held :: "'c dlq_run \<Rightarrow> ('c letter \<times> format) multiset" where
  "dlq_held s = mset (map (\<lambda>(d, fmt, x). (d, fmt)) (letter_jobs s)) + mset (map (\<lambda>(d, fmt, x). (d, fmt)) (saved s))
     + mset (forgone s)"

fun dlq_brings :: "'c dlq_event \<Rightarrow> ('c letter \<times> format) multiset" where
  "dlq_brings (DlqSend (Some d) fmt) = (if chunk_len d = 0 then {#} else {#(d, fmt)#})"
| "dlq_brings _ = {#}"

lemma dlq_life_count [simp]: "dlq_life_ok (l\<lparr>in_progress := n\<rparr>) = dlq_life_ok l"
  by (simp add: dlq_life_ok_def is_closing_def)

lemma closing_count [simp]: "is_closing (l\<lparr>in_progress := n\<rparr>) = is_closing l"
  by (simp add: is_closing_def)

lemma jobs_update:
  "i < length js \<Longrightarrow> js ! i = (d, fmt, x) \<Longrightarrow>
     map (\<lambda>(d, fmt, x). (d, fmt)) (js[i := (d, fmt, y)]) = map (\<lambda>(d, fmt, x). (d, fmt)) js"
  by (rule nth_equalityI) (auto simp: nth_list_update)

lemma letter_done_held:
  assumes "i < length (letter_jobs s)" and "letter_jobs s ! i = (d, fmt, x)"
  shows "mset (map (\<lambda>(d, fmt, x). (d, fmt)) (letter_jobs s))
      = add_mset (d, fmt) (mset (map (\<lambda>(d, fmt, x). (d, fmt)) (letter_jobs (letter_done i s))))"
    and "length (letter_jobs s) = Suc (length (letter_jobs (letter_done i s)))"
  using drop_nth_mset [OF assms(1)] drop_nth_length [OF assms(1)] assms(2) by (simp_all add: letter_done_def)

lemma dlq_step_ok:
  fixes s :: "('f, 'v) cell dlq_run"
  assumes good: "dlq_good env st s"
  shows "\<exists>s'. dlq_step env e s = Some s' \<and> dlq_good env st s' \<and> dlq_held s' = dlq_held s + dlq_brings e"
proof (cases e)
  case (DlqSend data fmt)
  with good show ?thesis
    by (cases data) (auto simp: letter_arrives_def is_empty_chunk_def dlq_good_def dlq_held_def)
next
  case DlqMeasured
  obtain d dk where "store s = (d, dk)" by fastforce
  with good DlqMeasured show ?thesis by (auto simp: first_measured_def dlq_good_def dlq_held_def)
next
  case (DlqLook i)
  show ?thesis
  proof (cases "i < length (letter_jobs s)")
    case True
    obtain d fmt x where job: "letter_jobs s ! i = (d, fmt, x)" by (cases "letter_jobs s ! i") auto
    with good DlqLook True jobs_update [OF True job] show ?thesis
      by (cases x) (simp_all add: letter_looks_def dlq_good_def dlq_held_def flip: mset_map)
  qed (use good DlqLook in \<open>simp add: letter_looks_def\<close>)
next
  case (DlqWait pick i)
  show ?thesis
  proof (cases "i < length (letter_jobs s)")
    case True
    obtain d fmt x where job: "letter_jobs s ! i = (d, fmt, x)" by (cases "letter_jobs s ! i") auto
    show ?thesis
    proof (cases x)
      case (Looked d1)
      let ?w = "wait_for_size d1 (fst (store s)) (is_closing (dlq_life s)) pick"
      consider "?w = None" | "?w = Some True" | "?w = Some False" by (cases ?w) auto
      then show ?thesis
      proof cases
        case 2
        with good DlqWait True job Looked jobs_update [OF True job] show ?thesis
          by (simp add: letter_waits_def dlq_good_def dlq_held_def flip: mset_map)
      next
        case 3
        then have "is_closing (dlq_life s)" by (auto simp: wait_for_size_def split: if_splits)
        with 3 good DlqWait True job Looked letter_done_held [OF True job] show ?thesis
          by (simp add: letter_waits_def dlq_good_def dlq_held_def letter_done_def)
      qed (use good DlqWait True job Looked in \<open>simp add: letter_waits_def\<close>)
    qed (use good DlqWait True job in \<open>simp_all add: letter_waits_def\<close>)
  qed (use good DlqWait in \<open>simp add: letter_waits_def\<close>)
next
  case (DlqWrite envs i)
  show ?thesis
  proof (cases "i < length (letter_jobs s)")
    case True
    obtain d fmt x where job: "letter_jobs s ! i = (d, fmt, x)" by (cases "letter_jobs s ! i") auto
    show ?thesis
    proof (cases x)
      case Ready
      have "with_measured NilChan (write_letter env (d, fmt, envs) (store s))
          = fold (write_letter env) (saved s @ [(d, fmt, envs)]) (with_measured NilChan st)"
        using good by (simp add: dlq_good_def flip: write_letter_measured)
      with good DlqWrite True job Ready letter_done_held [OF True job] show ?thesis
        by (simp add: letter_written_def dlq_good_def dlq_held_def letter_done_def)
    qed (use good DlqWrite True job in \<open>simp_all add: letter_written_def\<close>)
  qed (use good DlqWrite in \<open>simp add: letter_written_def\<close>)
next
  case DlqBeginClose
  with good show ?thesis
    by (auto simp: dlq_begin_close_def begin_close_def dlq_good_def dlq_held_def dlq_life_ok_def is_closing_def Let_def
        split: if_splits go_chan.splits)
next
  case (DlqFinishClose b)
  show ?thesis
  proof (cases "is_closing (dlq_life s)")
    case True
    with good DlqFinishClose show ?thesis
      by (cases "closed (dlq_life s)")
        (auto simp: dlq_finish_close_def finish_close_def stop_stragglers_def dlq_good_def dlq_held_def
          dlq_life_ok_def is_closing_def Let_def)
  qed (use good DlqFinishClose in \<open>simp add: dlq_finish_close_def\<close>)
qed

interpretation dlq_running: conserving "dlq_step env" "dlq_good env st" dlq_held dlq_brings "\<lambda>e. True" for env st
  using dlq_step_ok by unfold_locales blast


text \<open>A Close that waited for the writes.\<close>

definition dlq_quiet :: "'c dlq_run \<Rightarrow> bool" where
  "dlq_quiet s \<longleftrightarrow> (closed (dlq_life s) = ClosedChan \<longrightarrow> letter_jobs s = [] \<and> is_closing (dlq_life s))"

lemma first_measured_simps [simp]:
  "dlq_life (first_measured s) = dlq_life s" "letter_jobs (first_measured s) = letter_jobs s"
  "snd (store (first_measured s)) = snd (store s)"
  by (simp_all add: first_measured_def split: prod.splits)

lemma dlq_quiet_step:
  assumes good: "dlq_good env st s" and quiet: "dlq_quiet s" and e: "e \<noteq> DlqFinishClose True"
    and step: "dlq_step env e s = Some s'"
  shows "dlq_quiet s' \<and> (closed (dlq_life s) = ClosedChan \<longrightarrow> snd (store s') = snd (store s))"
proof (cases "closed (dlq_life s) = ClosedChan")
  case True
  with quiet have over: "letter_jobs s = []" "is_closing (dlq_life s)" "once_done (dlq_life s)"
    using good by (auto simp: dlq_quiet_def dlq_good_def dlq_life_ok_def)
  show ?thesis
    using step True over quiet
    by (cases e)
      (auto simp: dlq_quiet_def letter_arrives_def letter_looks_def letter_waits_def letter_written_def
        dlq_begin_close_def dlq_finish_close_def Let_def split: option.splits if_splits)
next
  case False
  have "closed (dlq_life s') \<noteq> ClosedChan \<or> letter_jobs s' = [] \<and> is_closing (dlq_life s')"
  proof (cases e)
    case (DlqFinishClose b)
    with step False good e show ?thesis
      by (auto simp: dlq_finish_close_def finish_close_def stop_stragglers_def dlq_good_def is_closing_def Let_def
          split: if_splits sum.splits)
  next
    case DlqBeginClose
    with step False show ?thesis
      by (auto simp: dlq_begin_close_def begin_close_def Let_def split: if_splits sum.splits)
  qed (use step False in \<open>auto simp: letter_arrives_def letter_looks_def letter_waits_def
        letter_written_def letter_done_def Let_def
        split: option.splits if_splits prod.splits letter_phase.splits bool.splits\<close>)
  with False show ?thesis by (auto simp: dlq_quiet_def)
qed

interpretation quiet_dlq: preserving "dlq_step env" "\<lambda>s. dlq_good env st s \<and> dlq_quiet s" "\<lambda>e. e \<noteq> DlqFinishClose True"
  for env st
proof unfold_locales
  fix s s' :: "('a, 'b) cell dlq_run" and e
  assume s: "dlq_good env st s \<and> dlq_quiet s" and e: "e \<noteq> DlqFinishClose True" and step: "dlq_step env e s = Some s'"
  show "dlq_good env st s' \<and> dlq_quiet s'"
    using dlq_step_ok [of env st s e] dlq_quiet_step [OF _ _ e step, of st] s step by auto
qed

section \<open>Properties\<close>

lemma encode_letter_total: "encode_letter env data fmt \<noteq> None"
proof -
  have "resolve_format fmt format_json \<noteq> None"
    by (auto simp: resolve_format_def structured_formats_def split: option.splits)
  then show ?thesis by (cases data) (auto simp: encode_letter_def encode_structured_def)
qed


subsection \<open>Secrets\<close>

text \<open>Queries that differ in the values of secret parameters only.\<close>

definition same_query :: "string \<Rightarrow> string \<Rightarrow> bool" where
  "same_query v v' \<longleftrightarrow>
     list_all2 (\<lambda>p p'. p = p' \<or> (secret_param p \<and> secret_param p'
         \<and> takeWhile (\<lambda>c. c \<noteq> CHR ''='') p = takeWhile (\<lambda>c. c \<noteq> CHR ''='') p'))
       (split_char (CHR ''&'') v) (split_char (CHR ''&'') v')"

lemma same_query_redact: "same_query v v' \<Longrightarrow> redact_query v = redact_query v'"
proof -
  assume "same_query v v'"
  then have "map (\<lambda>p. fst (redact_param p)) (split_char (CHR ''&'') v) = map (\<lambda>p. fst (redact_param p)) (split_char (CHR ''&'') v')"
    unfolding same_query_def by (induction rule: list_all2_induct) (auto simp: redact_secret_param)
  then show ?thesis by (simp add: redact_query_join)
qed

definition same_request :: "letter_request \<Rightarrow> letter_request \<Rightarrow> bool" where
  "same_request r r' \<longleftrightarrow>
     same_headers (rq_header r) (rq_header r') \<and> same_headers (rq_trailer r) (rq_trailer r')
     \<and> rel_option same_query (rq_query r) (rq_query r')
     \<and> r' = r\<lparr>rq_header := rq_header r', rq_trailer := rq_trailer r', rq_query := rq_query r'\<rparr>"

definition same_response :: "letter_response \<Rightarrow> letter_response \<Rightarrow> bool" where
  "same_response r r' \<longleftrightarrow>
     same_headers (rs_header r) (rs_header r') \<and> same_headers (rs_trailer r) (rs_trailer r')
     \<and> r' = r\<lparr>rs_header := rs_header r', rs_trailer := rs_trailer r'\<rparr>"

lemma same_request_redact:
  assumes "same_request r r'"
  shows "redact_request r = redact_request r'"
proof -
  have "map_option redact_query (rq_query r) = map_option redact_query (rq_query r')"
    using assms same_query_redact by (cases "rq_query r"; cases "rq_query r'") (auto simp: same_request_def)
  moreover have "redact_headers (rq_header r) = redact_headers (rq_header r')"
    "redact_headers (rq_trailer r) = redact_headers (rq_trailer r')"
    using assms redact_headers_hides by (simp_all add: same_request_def)
  moreover have "r' = r\<lparr>rq_header := rq_header r', rq_trailer := rq_trailer r', rq_query := rq_query r'\<rparr>"
    using assms by (simp add: same_request_def)
  ultimately show ?thesis unfolding redact_request_def by (cases r; cases r') simp
qed

lemma same_response_redact:
  assumes "same_response r r'"
  shows "redact_response r = redact_response r'"
proof -
  have "redact_headers (rs_header r) = redact_headers (rs_header r')"
    "redact_headers (rs_trailer r) = redact_headers (rs_trailer r')"
    using assms redact_headers_hides by (simp_all add: same_response_def)
  moreover have "r' = r\<lparr>rs_header := rs_header r', rs_trailer := rs_trailer r'\<rparr>"
    using assms by (simp add: same_response_def)
  ultimately show ?thesis unfolding redact_response_def by (cases r; cases r') simp
qed

fun same_letter :: "'c letter \<Rightarrow> 'c letter \<Rightarrow> bool" where
  "same_letter (HTTPRequests qs) (HTTPRequests qs') = list_all2 (rel_option same_request) qs qs'"
| "same_letter (HTTPResponses ps) (HTTPResponses ps') = list_all2 (rel_option same_response) ps ps'"
| "same_letter d d' \<longleftrightarrow> d = d'"

lemma map_filter_same:
  "list_all2 R xs ys \<Longrightarrow> (\<And>x y. R x y \<Longrightarrow> f x = f y) \<Longrightarrow> List.map_filter f xs = List.map_filter f ys"
proof (induction rule: list_all2_induct)
  case (Cons x xs y ys)
  from Cons(4) [OF Cons(1)] Cons(3) [OF Cons(4)] show ?case by (simp add: map_filter_simps split: option.split)
qed simp

text \<open>C16: No secret reaches a file of the dead-letter queue. Two letters that differ only in
  credentials, cookie values and other sensitive headers or trailers of their HTTP requests
  and responses, or in the values of secret query parameters, are encoded into the same
  files, whatever the rest of them is and however net/http writes it.\<close>

theorem dlq_files_hide_secrets:
  assumes "same_letter data data'"
  shows "encode_letter env data fmt = encode_letter env data' fmt"
proof -
  have request: "encode_http_request env q = encode_http_request env q'" if "rel_option same_request q q'" for q q'
    using that same_request_redact by (cases q; cases q') (auto simp: encode_http_request_def)
  have response: "encode_http_response env q = encode_http_response env q'" if "rel_option same_response q q'" for q q'
    using that same_response_redact by (cases q; cases q') (auto simp: encode_http_response_def)
  show ?thesis
    using assms map_filter_same [OF _ request] map_filter_same [OF _ response]
    by (cases data; cases data') (auto simp: encode_letter_def)
qed


section \<open>Witnesses\<close>

definition demo_letter_env :: "(nat, nat) letter_env" where
  "demo_letter_env = \<lparr>as_bytes = (\<lambda>v. None), uni_printable = (\<lambda>u. False), marshal_other = (\<lambda>c. Some ''0''),
     marshal_strict = (\<lambda>c. Some ''0''), write_request = (\<lambda>r. Some ''GET''), write_response = (\<lambda>r. Some ''HTTP'')\<rparr>"

definition demo_dlq_events :: "(nat, nat) cell dlq_event list" where
  "demo_dlq_events = [DlqMeasured, DlqSend (Some (Blobs [''x''])) format_raw, DlqLook 0, DlqWait False 0, DlqBeginClose,
     DlqSend (Some (Blobs [''y''])) format_raw, DlqWrite (\<lambda>i. [demo_env]) 0, DlqFinishClose False]"

lemma demo_dlq_run:
  "\<exists>s. run_events (dlq_step demo_letter_env) demo_dlq_events (start_dlq demo_dlq []) = Some s
     \<and> closed (dlq_life s) = ClosedChan \<and> map fst (saved s) = [Blobs [''x'']] \<and> map fst (forgone s) = [Blobs [''y'']]"
  by (simp add: demo_dlq_events_def start_dlq_def first_measured_def letter_arrives_def is_empty_chunk_def letter_looks_def letter_waits_def
      wait_for_size_def demo_dlq_def letter_written_def letter_done_def drop_nth_def dlq_begin_close_def begin_close_def
      dlq_finish_close_def finish_close_def stop_stragglers_def lc_start_def is_started_def lifecycle_zero_def
      is_closing_def Let_def)


definition demo_request :: "string \<Rightarrow> letter_request" where
  "demo_request key = \<lparr>rq_query = Some (''key='' @ key), rq_header = [(''Cookie'', [''n='' @ key])], rq_length = 0,
     rq_body = NilBody, rq_get_body = None, rq_trailer = []\<rparr>"

lemma demo_same_request: "same_request (demo_request ''abc'') (demo_request ''xyz'')"
proof -
  have key: "secret_param (''key='' @ x)" if "x \<noteq> []" for x
  proof -
    have "sensitive (param_name ''key'')" by code_simp
    with that show ?thesis unfolding secret_param_def by (intro exI [of _ "''key''"] exI [of _ x]) simp
  qed
  have "split_char (CHR ''&'') ''key=abc'' = [''key=abc'']" "split_char (CHR ''&'') ''key=xyz'' = [''key=xyz'']" by code_simp+
  with key [of "''abc''"] key [of "''xyz''"] have "same_query ''key=abc'' ''key=xyz''" by (simp add: same_query_def)
  moreover have "same_but_secrets ''Cookie'' ''n=abc'' ''n=xyz''"
  proof (rule same_but_secrets.cookies)
    show "to_lower ''Cookie'' = ''cookie''" "trim_space ''n=abc'' \<noteq> []" "trim_space ''n=xyz'' \<noteq> []" by code_simp+
    have "split_char (CHR '';'') ''n=abc'' = [''n=abc'']" "split_char (CHR '';'') ''n=xyz'' = [''n=xyz'']"
      and t: "trim_space ''n=abc'' = ''n'' @ ''='' @ ''abc''" "trim_space ''n=xyz'' = ''n'' @ ''='' @ ''xyz''" by code_simp+
    moreover have "same_cookie ''n=abc'' ''n=xyz''"
      unfolding same_cookie_def using t
      by (intro disjI2 exI [of _ "''n''"] exI [of _ "''abc''"] exI [of _ "''xyz''"]) simp
    ultimately show "list_all2 same_cookie (split_char (CHR '';'') ''n=abc'') (split_char (CHR '';'') ''n=xyz'')" by simp
  qed
  ultimately show ?thesis by (simp add: same_request_def demo_request_def same_headers_def sensitive_examples)
qed

theorem dlq_files_hide_secrets_witness:
  "encode_letter demo_letter_env (HTTPRequests [Some (demo_request ''abc'')]) format_default
    = encode_letter demo_letter_env (HTTPRequests [Some (demo_request ''xyz'')]) format_default"
  by (rule dlq_files_hide_secrets) (simp add: demo_same_request)

end
