(* ===== verification/DlqNames.thy ===== *)
theory DlqNames
  imports DlqRun "HOL-Library.List_Lexorder" "HOL-Library.Char_ord"
begin

text \<open>
  The names of the files of the Dead-Letter Queue (uniqueKSortablePath in pkg/dest/dlq.go):
  listing them by name lists them by time, and two letters share a name only if they have the
  same nanosecond and the same random number. Names are compared byte by byte.
\<close>

section \<open>Padded numbers\<close>

lemma append_less_append [simp]: "(xs @ ys < xs @ zs) = (ys < (zs :: string))"
  by (induction xs) auto

lemma small_char [simp]: "n < 256 \<Longrightarrow> of_char (char_of n) = n" for n :: nat
  by (simp add: take_bit_nat_eq_self)

lemma digit_char_less: "a < b \<Longrightarrow> b < 10 \<Longrightarrow> digit_char a < digit_char b"
  by (simp add: digit_char_def less_char_def del: of_char_of less_char_simp)

lemma padded_one: "m < 10 \<Longrightarrow> padded (Suc w) (int m) = replicate w (CHR ''0'') @ [digit_char m]"
  by (simp add: padded_def itoa.simps)

lemma digit_char_0: "digit_char 0 = CHR ''0''"
  by code_simp

lemma padded_Suc: "padded (Suc (Suc w)) (int m) = padded (Suc w) (int (m div 10)) @ [digit_char (m mod 10)]"
proof (cases "m < 10")
  case True
  then show ?thesis
    using replicate_append_same [of w "CHR ''0''"]
    by (simp add: padded_def itoa.simps [of m] itoa.simps [of 0] digit_char_0)
next
  case False
  then show ?thesis by (simp add: padded_def itoa.simps [of m] Let_def)
qed

lemma padded_less_nat:
  "m < n \<Longrightarrow> n < 10 ^ Suc w \<Longrightarrow> padded (Suc w) (int m) @ r < padded (Suc w) (int n) @ s"
proof (induction w arbitrary: m n r s)
  case 0
  then show ?case by (simp add: padded_one digit_char_less)
next
  case (Suc w)
  show ?case
  proof (cases "m div 10 = n div 10")
    case True
    with Suc.prems(1) have "m mod 10 < n mod 10"
      by (metis add_less_cancel_left div_mult_mod_eq)
    then show ?thesis by (simp add: padded_Suc True digit_char_less)
  next
    case False
    with Suc.prems(1) have "m div 10 < n div 10" by (meson div_le_mono less_imp_le order_neq_le_trans)
    moreover have "n div 10 < 10 ^ Suc w" using Suc.prems(2) by (simp add: less_mult_imp_div_less mult.commute)
    ultimately show ?thesis unfolding padded_Suc append_assoc by (rule Suc.IH)
  qed
qed

lemma padded_less:
  assumes "0 \<le> m" and "m < n" and "n < 10 ^ w" and "0 < w"
  shows "padded w m @ r < padded w n @ s"
proof -
  obtain v where w: "w = Suc v" using assms(4) gr0_implies_Suc by blast
  have "nat n < 10 ^ w" using assms(1-3) by (simp add: nat_less_iff)
  then show ?thesis using padded_less_nat [of "nat m" "nat n" v r s] assms(1,2) by (simp add: w)
qed

lemma length_itoa: "10 ^ w \<le> n \<Longrightarrow> w < length (itoa n)"
proof (induction w arbitrary: n)
  case (Suc w)
  have "10 ^ w \<le> n div 10" using div_le_mono [OF Suc.prems, of 10] by simp
  moreover have "10 \<le> n"
  proof -
    have "10 * 1 \<le> 10 * (10 :: nat) ^ w" by (intro mult_le_mono2) simp
    with Suc.prems show ?thesis by (simp only: power_Suc)
  qed
  ultimately show ?case by (simp add: itoa.simps [of n] Suc.IH)
qed simp

text \<open>From September 2001 on, nanoseconds since the epoch have nineteen digits.\<close>

lemma itoa_padded: "10 ^ 18 \<le> i \<Longrightarrow> signed itoa i = padded 19 i"
  using length_itoa [of 18 "nat i"] Suc_leI [of 18 "length (itoa (nat i))"]
  by (simp add: signed_def padded_def Let_def nat_le_eq_zle)

section \<open>Numbers to base 36\<close>

lemma base36_char_inj: "a < 36 \<Longrightarrow> b < 36 \<Longrightarrow> base36_char a = base36_char b \<longleftrightarrow> a = b"
  by (auto simp: base36_char_def split: if_splits dest: arg_cong [of _ _ "of_char :: char \<Rightarrow> nat"])

lemma base36_not_Nil [simp]: "base36 n \<noteq> []"
  by (subst base36.simps) simp

lemma base36_inj: "base36 m = base36 n \<Longrightarrow> m = n"
proof (induction m arbitrary: n rule: base36.induct)
  case (1 m)
  have "m mod 36 = n mod 36" "m div 36 = n div 36"
  proof -
    have b: "last (base36 k) = base36_char (k mod 36)"
      "butlast (base36 k) = (if k < 36 then [] else base36 (k div 36))" for k
      by (subst base36.simps, simp)+
    from 1(2) have "base36_char (m mod 36) = base36_char (n mod 36)" by (metis b(1))
    then show "m mod 36 = n mod 36" by (simp add: base36_char_inj)
    from 1(2) have "(if m < 36 then [] else base36 (m div 36)) = (if n < 36 then [] else base36 (n div 36))"
      by (metis b(2))
    then show "m div 36 = n div 36" using 1(1) base36_not_Nil by (metis div_less)
  qed
  then show ?case by (metis div_mult_mod_eq)
qed

lemma base36_no_sign: "c \<in> set (base36 n) \<Longrightarrow> c \<noteq> CHR ''-''"
proof (induction n rule: base36.induct)
  case (1 n)
  have "base36_char d \<noteq> CHR ''-''" if "d < 36" for d
    using that by (auto simp: base36_char_def char_of_eq_iff take_bit_nat_eq_self)
  from this [of "n mod 36"] 1 show ?case by (subst (asm) (2) base36.simps) (auto split: if_splits)
qed

lemma signed_base36_inj: "signed base36 i = signed base36 j \<Longrightarrow> i = j"
proof -
  assume e: "signed base36 i = signed base36 j"
  have "CHR ''-'' # base36 m \<noteq> base36 n" "base36 n \<noteq> CHR ''-'' # base36 m" for m n
    using base36_no_sign [of "CHR ''-''" n] by (metis list.set_intros(1))+
  with e have "(i < 0) = (j < 0)" "base36 (nat \<bar>i\<bar>) = base36 (nat \<bar>j\<bar>)" by (auto simp: signed_def split: if_splits)
  with base36_inj [of "nat \<bar>i\<bar>" "nat \<bar>j\<bar>"] show "i = j" by auto
qed

section \<open>Dates\<close>

text \<open>The fields of a later moment are later: year, month, day, hour.\<close>

lemma days_before_month_mono: "m \<le> n \<Longrightarrow> days_before_month l m \<le> days_before_month l n"
proof (induction n rule: int_ge_induct)
  case (step i)
  have "days_before_month l i \<le> days_before_month l (i + 1)"
  proof (cases "1 \<le> i \<and> i \<le> 12")
    case True
    then show ?thesis using days_before_month_end [of i l] by (simp add: days_in_month_def)
  qed (auto simp: days_before_month_def)
  with step show ?case by simp
qed simp

lemma month_mono:
  assumes "j < k" and "0 \<le> j" and "k < (if l then 366 else 365)"
  shows "month_of_year_day l j \<le> month_of_year_day l k"
proof (rule ccontr)
  assume "\<not> month_of_year_day l j \<le> month_of_year_day l k"
  then have "days_before_month l (month_of_year_day l k + 1) \<le> days_before_month l (month_of_year_day l j)"
    using month_of_year_day_range [of l j] month_of_year_day_range [of l k]
    by (intro days_before_month_mono) auto
  then show False using month_of_year_day_bounds [of j l] month_of_year_day_bounds [of k l] assms by simp
qed

lemma later_day:
  assumes "d < e"
  obtains (year) "year_of_day d < year_of_day e"
  | (month) "year_of_day d = year_of_day e" "month_of_day d < month_of_day e"
  | (day) "year_of_day d = year_of_day e" "month_of_day d = month_of_day e" "day_of_month d < day_of_month e"
proof -
  consider "year_of_day d < year_of_day e" | "year_of_day d = year_of_day e"
    using year_of_day_mono [of d e] assms by fastforce
  then show thesis
  proof cases
    case 2
    then have k: "year_day d < year_day e" using assms by (simp add: year_day_def)
    moreover have "year_day e < (if is_leap (year_of_day e) then 366 else 365)" "0 \<le> year_day d"
      using year_day_range [of e] year_day_range [of d] by (auto simp: year_length_def)
    ultimately have "month_of_day d \<le> month_of_day e"
      unfolding month_of_day_def 2 by (intro month_mono) auto
    then show thesis
      using month day k 2 by (cases "month_of_day d = month_of_day e") (auto simp: day_of_month_def)
  qed (rule year)
qed

text \<open>Times of day on a day.\<close>

lemma hour_of_utc: "hour_of utc t = t div second mod 86400 div 3600"
  by (simp add: hour_of_def local_seconds_def utc_def)

lemma local_day_utc: "local_day utc t = t div second div 86400"
  by (simp add: local_day_def local_seconds_def utc_def)

lemma later_moment:
  assumes "t \<le> u"
  obtains (day) "local_day utc t < local_day utc u"
  | (hour) "local_day utc t = local_day utc u" "hour_of utc t < hour_of utc u"
  | (same) "local_day utc t = local_day utc u" "hour_of utc t = hour_of utc u"
proof -
  have s: "t div second \<le> u div second" using assms by (rule zdiv_mono1) simp
  then have d: "local_day utc t \<le> local_day utc u" unfolding local_day_utc by (rule zdiv_mono1) simp
  show thesis
  proof (cases "local_day utc t = local_day utc u")
    case True
    then have "t div second mod 86400 \<le> u div second mod 86400"
      using s by (simp add: local_day_utc flip: minus_div_mult_eq_mod)
    then have "hour_of utc t \<le> hour_of utc u" unfolding hour_of_utc by (rule zdiv_mono1) simp
    with True show thesis using hour same by fastforce
  next
    case False
    with d show thesis using day by fastforce
  qed
qed

text \<open>The years in which the nanoseconds of an int64 are.\<close>

lemma year_small:
  assumes "10 ^ 18 \<le> unix_nano t" and "unix_nano t < 2 ^ 63"
  shows "0 \<le> year_of_day (local_day utc t)" "year_of_day (local_day utc t) < 10 ^ 4"
proof -
  have "0 \<le> t" "t \<le> 72000000000 * second" using assms by (simp_all add: unix_nano_def unix_epoch_def)
  then have "0 div second \<le> t div second" "t div second \<le> 72000000000 * second div second"
    by (intro zdiv_mono1; simp)+
  then have "0 div 86400 \<le> local_day utc t" "local_day utc t \<le> 72000000000 div 86400"
    unfolding local_day_utc by (intro zdiv_mono1; simp)+
  then have "year_of_day 0 \<le> year_of_day (local_day utc t)" "year_of_day (local_day utc t) \<le> year_of_day 833333"
    by (intro year_of_day_mono; simp)+
  moreover have "year_of_day 0 = 1" "year_of_day 833333 = 2282" by code_simp+
  ultimately show "0 \<le> year_of_day (local_day utc t)" "year_of_day (local_day utc t) < 10 ^ 4" by auto
qed

section \<open>Names\<close>

definition file_path :: "instant \<Rightarrow> instant \<Rightarrow> int option list \<Rightarrow> string" where
  "file_path now clock_now rands = (case unique_path now clock_now rands of (dir, file) \<Rightarrow> dir @ ''/'' @ file)"

lemma dir_less:
  assumes "10 ^ 18 \<le> unix_nano t" "t \<le> u" "unix_nano u < 2 ^ 63" and "dir_name t \<noteq> dir_name u"
  shows "dir_name t @ r < dir_name u @ s"
proof -
  have "unix_nano t \<le> unix_nano u" using assms(2) by (simp add: unix_nano_def)
  then have y: "0 \<le> year_of_day (local_day utc t)" "year_of_day (local_day utc u) < 10 ^ 4"
    using year_small [of t] year_small [of u] assms(1,3) by auto
  note m = month_of_day_range [of "local_day utc t"] month_of_day_range [of "local_day utc u"]
  note d = day_of_month_range(1) [of "local_day utc t"] day_of_month_le_31 [of "local_day utc u"]
  note h = hour_of_range [of utc t] hour_of_range [of utc u]
  from assms(2) show ?thesis
  proof (cases rule: later_moment)
    case day
    then show ?thesis
      by (cases rule: later_day) (use y m d in \<open>simp_all add: dir_name_def Let_def padded_less\<close>)
  next
    case hour
    then show ?thesis using h by (simp add: dir_name_def Let_def padded_less)
  next
    case same
    with assms(4) show ?thesis by (simp add: dir_name_def)
  qed
qed

lemma file_path_less:
  assumes "10 ^ 18 \<le> unix_nano t" "t < u" "unix_nano u < 2 ^ 63"
  shows "file_path t c rs @ x < file_path u c' rs' @ x'"
proof (cases "dir_name t = dir_name u")
  case True
  have "unix_nano t < unix_nano u" using assms(2) by (simp add: unix_nano_def)
  then show ?thesis
    using assms True by (simp add: file_path_def unique_path_def itoa_padded padded_less)
next
  case False
  with dir_less [OF assms(1) _ assms(3)] assms(2) show ?thesis by (simp add: file_path_def unique_path_def)
qed

text \<open>C38: The files of the dead-letter queue are sorted by time, and their names do not collide. Take two
  moments from September 2001 on whose nanoseconds fit into an int64. The path of the later file -
  its directory, which is the hour, and its name - is greater, byte by byte, than the path of the
  earlier one, whatever their random numbers and extensions are. Two paths with the same extension are
  equal only for the same nanosecond and the same number.\<close>

theorem dlq_paths_sorted:
  assumes "10 ^ 18 \<le> unix_nano t" and "t \<le> u" and "unix_nano u < 2 ^ 63"
  shows "(t < u \<longrightarrow> file_path t c rs @ x < file_path u c' rs' @ x')
    \<and> (file_path t c rs @ x = file_path u c' rs' @ x
        \<longleftrightarrow> t = u \<and> path_number (take dlq_attempts rs) (unix_nano c)
                     = path_number (take dlq_attempts rs') (unix_nano c'))"
proof (cases "t < u")
  case True
  from file_path_less [OF assms(1) True assms(3)]
  have "file_path t c rs @ x < file_path u c' rs' @ y" for y .
  with True show ?thesis by (metis less_irrefl)
next
  case False
  with assms(2) have "t = u" by simp
  then show ?thesis by (auto simp: file_path_def unique_path_def dest: signed_base36_inj)
qed

theorem dlq_paths_sorted_witness:
  "file_path (63835596800 * second) 0 [Some 35] @ ''.http_req'' < file_path (63835596801 * second) 0 [None, Some 1] @ ''.json''"
  using dlq_paths_sorted [of "63835596800 * second" "63835596801 * second" 0 "[Some 35]" "''.http_req''" 0 "[None, Some 1]" "''.json''"]
  by (simp add: unix_nano_def unix_epoch_def)

end
