(* ===== verification/Spec2Isabelle.thy ===== *)
theory Spec2Isabelle
  imports Batcher Cache Retries Cron HttpHeaders Startup Pipeline DlqNames
begin

text \<open>
  A verification development for Versipellis, a program that moves data: collectors (HTTP and
  SQL clients that run on a schedule) and receivers (HTTP servers) take data in, senders (HTTP
  clients, the standard output, nothing at all) pass it on, and what cannot be delivered is
  kept in files, the dead-letter queue. A TOML file says which of them there are.

  \<^bold>\<open>How the parts interact.\<close> main (cmd/versi/main.go) makes the senders, then the collectors and
  receivers, each of which is given the Send function of its sender and of the dead-letter
  queue. A collector's scheduler starts workers; a worker sends what it got as a chunk
  (pkg/flow/chunk.go). An HTTP sender puts the items of structured chunks into batchers
  (pkg/flow/batcher.go), makes requests, waits for a slot, and retries; what is rejected in
  the end goes to the queue. A shutdown closes sources, then senders, then the queue. All of
  them share the lifecycle of pkg/config/state.go: two channels, a counter of the work in
  progress, and a lock around the test whether closing has begun.

  \<^bold>\<open>How concurrency is modelled.\<close> What the code does under one lock, or in one call of an atomic
  operation, is one step; a component is a step function on a record of its state, over events
  that say which goroutine goes on and what it meets (a clock reading, an answer of the
  network, an error of the disk). A property of a component is about every sequence of
  events, so about every schedule. A step is \<open>None\<close> where Go would panic. Ghost fields, such as
  what was delivered or printed, record the past; no step looks at them. Errors are the left
  side of a sum, or \<open>None\<close> where the code only logs them.
\<close>

text \<open>
  \<^bold>\<open>Theories and what they model.\<close>

  \<^item> Prelude: time and machine integers, and lemmas on lists and options. GoStrings,
    GoDuration and Calendar: what the code uses of strings, strconv, time.ParseDuration, and of
    dates. Json: encoding/json/jsontext. These are Go's standard library.
  \<^item> Conserving: the two contracts of systems that run - \<open>preserving\<close> (steps keep an invariant)
    and \<open>conserving\<close> (nothing that comes in is lost or duplicated) - with their lemmas on
    runs. The components that run interpret one of them or both.
  \<^item> Flow (pkg/flow/chunk.go), Batcher (pkg/flow/batcher.go): the data, and batches that are
    bounded by items, bytes and time. The locale \<open>accumulator\<close> is what HTTP senders and the SQL
    collector rely on.
  \<^item> Lifecycle (pkg/config/state.go), Config (pkg/config/parse.go), BaseComponents
    (pkg/config/collector.go, receiver.go): lifecycle, typed look-ups, what components share.
  \<^item> Cache (pkg/cache): both caches against one reference store, by the locale
    \<open>expiring_store\<close>.
  \<^item> Cron (pkg/cron/cron.go): schedules and the search for the next moment.
  \<^item> Codec, CodecJson, CodecRows (pkg/codec/format.go, json.go): formats; encoding and
    decoding of objects; encoding of rows.
  \<^item> Redact (pkg/dest/redact.go), DLQSize (pkg/dest/dlq_size.go), DLQ, DlqRun, DlqNames
    (pkg/dest/dlq.go): redaction, the accounting of sizes, the writing of a file, the queue
    with its goroutines, and the names of files. Readable, Stdout (pkg/dest/stdout.go,
    discard.go): readable JSON, printing and discarding.
  \<^item> Retries, HttpClient, HttpHeaders, HttpTls, Auth (pkg/http/retries.go, client.go, config.go,
    format.go, tls.go, pkg/auth/config.go): the client side of HTTP and its settings.
  \<^item> HttpSender (pkg/http/sender.go), Scheduling (scheduleNext, which pkg/http/collector.go and
    pkg/sql/collector.go both have), HttpCollector, HttpReceiver (pkg/http), SqlCollector
    (pkg/sql/collector.go, postgres.go): the components that run.
  \<^item> Sources: the contract of a source (\<open>data_source\<close>, \<open>closing_source\<close>), and its three
    providers. Pipeline: sources, senders and queue as one program, with the stages of its
    shutdown. Startup (cmd/versi): how all of it is made and started, and exit codes.
\<close>

text \<open>
  \<^bold>\<open>What is shown.\<close>

  \<^item> Conservation: everything that is sent is delivered, waiting, or rejected, once -
    for a batcher, an HTTP sender, both collectors, the receiver, the queue, and for the
    program that they make (Pipeline). A transaction is committed only after all of its rows
    were handed over. A letter of the queue is written whole or given up; its attempts leave
    one copy of a file or none.
  \<^item> Shutdown: nothing starts after closing has begun, a sender comes to the end of its
    shutdown, batchers are flushed, and a shutdown that is not forced loses nothing. No
    channel is closed twice.
  \<^item> Limits: batches, concurrent requests, waits between attempts, the size of the directory
    under any interleaving of writers and measurements.
  \<^item> Secrets: what is written to disk does not depend on them; TLS settings fail closed.
  \<^item> Functional correctness: caches, cron schedules (the first match, and no other), JSON
    payloads that decode to what was encoded, names of files that sort by time.
  \<^item> Errors: every request is answered once with the status it deserves; a program starts
    with everything that is configured, or exits.

  \<^bold>\<open>Termination.\<close> There is no fuel. Loops of the code are recursive functions with a measure (a
  text that gets shorter, a number that approaches its bound). Loops that might not end are
  a \<open>partial_function\<close>, so that not returning is \<open>None\<close>: the search for the next moment of a
  schedule, for which Cron shows that it always returns, with the first match within eight
  years and a day if there is one at all; and the compare-and-swap loops of FastCache, which
  take what other goroutines do as an argument and return when nobody else uses the key.

  \<^bold>\<open>What is assumed.\<close> Arguments stand for what is not in the repository: the parsers of URLs,
  certificates and keys, SHA-256, the validity of header names (httpguts), content types,
  addresses, files and their errors, time zones, SQL drivers and cursors, the bytes that
  net/http makes of a message, how single values are marshalled, tables of Unicode. Strings are
  bytes, and case mapping is that of ASCII; paths have slashes. Fractions in durations are
  exact, batchers count bytes without a bound, and instants are integers, so that an int64 of
  nanoseconds is assumed where it is used (DlqNames).

  \<^bold>\<open>What is not modelled.\<close> Flags, help and logging (cmd/versi/flags.go, log/slog), signals, reading
  the TOML file (ParseFile), transports and servers of net/http and quic-go (pkg/http/server.go,
  clientH2 and clientH3), and the registration of ODBC and Oracle drivers: they are calls of
  libraries, with nothing of their own to verify.
\<close>

end
